(* ===== verification/Revoq_Prelude.thy ===== *)
theory Revoq_Prelude
  imports Main "HOL-Library.Word" "HOL-Library.AList"
begin

unbundle bit_operations_syntax

section \<open>Shared types, error values and lemmas\<close>

text \<open>
  The types the whole development uses: the fixed-width integers of the C++ sources, the error
  values that stand for thrown exceptions and for hardware faults, and the state-and-error programs
  in which operations that can throw after changing state are written.  The rest of the theory holds
  the collections of rewrite rules and the generic lemmas on lists, words and programs that the
  components share.
\<close>

subsection \<open>Machine integers\<close>

type_synonym u8 = "8 word"
type_synonym u16 = "16 word"
type_synonym u32 = "32 word"
type_synonym u64 = "64 word"

text \<open>
  A 64-bit signed value is kept as its bit pattern (\<open>u64\<close>) and compared through \<open>sint\<close>, as
  two's complement hardware does.
\<close>

abbreviation i64_less :: "u64 \<Rightarrow> u64 \<Rightarrow> bool" where
  "i64_less a b \<equiv> sint a < sint b"

subsection \<open>Collections of rewrite rules\<close>

named_theorems mem_simps \<open>reads after writes on a page image\<close>
named_theorems frame_simps \<open>field access of frames and frame headers\<close>
named_theorems prog_simps \<open>unfolding programs with state and errors\<close>

subsection \<open>Errors\<close>

text \<open>
  The first five constructors are C++ exceptions (\<^verbatim>\<open>JournalError\<close>, \<^verbatim>\<open>MmapError\<close>, \<^verbatim>\<open>std::runtime_error\<close>,
  \<^verbatim>\<open>std::invalid_argument\<close>, \<^verbatim>\<open>std::out_of_range\<close>), each with the point that raises it.
  \<open>Sigbus\<close> is an access of a mapping beyond the end of its file, \<open>Segv\<close> a write to a read-only
  mapping or an access outside every mapping; no \<^verbatim>\<open>catch\<close> clause sees these two.
  \<open>Blocked\<close> is a call that spins on a lock somebody holds: it has not returned and has changed
  nothing.  \<open>Placement_dependent\<close> marks the point where the sources compare or subtract addresses
  of two different mappings, so that what follows depends on where \<^verbatim>\<open>mmap\<close> placed them.
  \<open>Out_of_fuel\<close> is the result of a loop of the sources that did not end within the given number of
  rounds.  \<open>Exit\<close> is a call of \<^verbatim>\<open>_exit\<close>, which ends the process there.
\<close>

datatype error =
    Journal_error string
  | Mmap_error string
  | Runtime_error string
  | Invalid_argument string
  | Out_of_range string
  | Sigbus
  | Segv
  | Blocked
  | Placement_dependent
  | Out_of_fuel
  | Exit int

fun is_exception :: "error \<Rightarrow> bool" where
  "is_exception Sigbus = False"
| "is_exception Segv = False"
| "is_exception Blocked = False"
| "is_exception Placement_dependent = False"
| "is_exception Out_of_fuel = False"
| "is_exception (Exit _) = False"
| "is_exception _ = True"

subsection \<open>Programs over a state that may fail\<close>

text \<open>
  A program maps a state to a result and a new state; a failing program keeps the changes it made
  before the failure, as a C++ function that throws does.
\<close>

type_synonym ('s, 'a) prog = "'s \<Rightarrow> (error + 'a) \<times> 's"

definition return_p :: "'a \<Rightarrow> ('s, 'a) prog" where
  "return_p x = (\<lambda>s. (Inr x, s))"

definition throw_p :: "error \<Rightarrow> ('s, 'a) prog" where
  "throw_p e = (\<lambda>s. (Inl e, s))"

definition bind_p :: "('s, 'a) prog \<Rightarrow> ('a \<Rightarrow> ('s, 'b) prog) \<Rightarrow> ('s, 'b) prog" where
  "bind_p p f = (\<lambda>s. case p s of (Inl e, s') \<Rightarrow> (Inl e, s') | (Inr x, s') \<Rightarrow> f x s')"

text \<open>A \<^verbatim>\<open>try\<close> block whose handler takes every \<^verbatim>\<open>std::exception\<close>, but no fault.\<close>

definition catch_p :: "('s, 'a) prog \<Rightarrow> (error \<Rightarrow> ('s, 'a) prog) \<Rightarrow> ('s, 'a) prog" where
  "catch_p p h = (\<lambda>s. case p s of
     (Inl e, s') \<Rightarrow> if is_exception e then h e s' else (Inl e, s')
   | (Inr x, s') \<Rightarrow> (Inr x, s'))"

definition assert_p :: "bool \<Rightarrow> error \<Rightarrow> ('s, unit) prog" where
  "assert_p b e = (if b then return_p () else throw_p e)"

definition get_p :: "('s, 's) prog" where
  "get_p = (\<lambda>s. (Inr s, s))"

definition modify_p :: "('s \<Rightarrow> 's) \<Rightarrow> ('s, unit) prog" where
  "modify_p f = (\<lambda>s. (Inr (), f s))"

lemmas prog_defs = return_p_def throw_p_def bind_p_def catch_p_def assert_p_def get_p_def
  modify_p_def

lemma return_p_apply [prog_simps]: "return_p x s = (Inr x, s)"
  by (simp add: return_p_def)

lemma throw_p_apply [prog_simps]: "throw_p e s = (Inl e, s)"
  by (simp add: throw_p_def)

lemma get_p_apply [prog_simps]: "get_p s = (Inr s, s)"
  by (simp add: get_p_def)

lemma modify_p_apply [prog_simps]: "modify_p f s = (Inr (), f s)"
  by (simp add: modify_p_def)

lemma assert_p_apply [prog_simps]: "assert_p b e s = (if b then (Inr (), s) else (Inl e, s))"
  by (simp add: assert_p_def return_p_def throw_p_def)

lemma bind_p_apply [prog_simps]:
  "bind_p p f s = (case p s of (Inl e, s') \<Rightarrow> (Inl e, s') | (Inr x, s') \<Rightarrow> f x s')"
  by (simp add: bind_p_def)

lemma catch_p_apply [prog_simps]:
  "catch_p p h s = (case p s of
     (Inl e, s') \<Rightarrow> if is_exception e then h e s' else (Inl e, s')
   | (Inr x, s') \<Rightarrow> (Inr x, s'))"
  by (simp add: catch_p_def)

lemma bind_p_Inr: "p s = (Inr x, s') \<Longrightarrow> bind_p p f s = f x s'"
  by (simp add: bind_p_def)

lemma bind_p_Inl: "p s = (Inl e, s') \<Longrightarrow> bind_p p f s = (Inl e, s')"
  by (simp add: bind_p_def)

lemma bind_p_assoc: "bind_p (bind_p p f) g = bind_p p (\<lambda>x. bind_p (f x) g)"
  by (rule ext) (simp add: bind_p_def split: prod.split sum.split)

lemma bind_p_eq_InrE:
  assumes "bind_p p f s = (Inr y, t)"
  obtains x s' where "p s = (Inr x, s')" and "f x s' = (Inr y, t)"
  using assms by (auto simp: bind_p_def split: prod.splits sum.splits)

text \<open>Programs over a pair: an object with the kernel state behind it.\<close>

definition on_snd :: "('b, 'x) prog \<Rightarrow> ('a \<times> 'b, 'x) prog" where
  "on_snd p = (\<lambda>(a, b). case p b of (r, b') \<Rightarrow> (r, (a, b')))"

definition get_fst :: "('a \<times> 'b, 'a) prog" where
  "get_fst = (\<lambda>(a, b). (Inr a, (a, b)))"

definition modify_fst :: "('a \<Rightarrow> 'a) \<Rightarrow> ('a \<times> 'b, unit) prog" where
  "modify_fst f = (\<lambda>(a, b). (Inr (), (f a, b)))"

lemma pair_prog_apply [prog_simps]:
  "on_snd p (a, b) = (case p b of (r, b') \<Rightarrow> (r, (a, b')))"
  "get_fst (a, b) = (Inr a, (a, b))"
  "modify_fst f (a, b) = (Inr (), (f a, b))"
  by (simp_all add: on_snd_def get_fst_def modify_fst_def)

subsection \<open>Lists\<close>

lemma sorted_last_max: "sorted xs \<Longrightarrow> x \<in> set xs \<Longrightarrow> x \<le> last xs"
  for x :: "'a::linorder"
  by (induction xs) auto

lemma sorted_hd_min: "sorted xs \<Longrightarrow> x \<in> set xs \<Longrightarrow> hd xs \<le> x"
  for x :: "'a::linorder"
  by (cases xs) auto

lemma map_of_update_same [simp]: "map_of (AList.update k v d) k = Some v"
  by (simp add: update_conv')

lemma map_of_update_other [simp]: "k' \<noteq> k \<Longrightarrow> map_of (AList.update k v d) k' = map_of d k'"
  by (simp add: update_conv')

lemma AList_update_twice [simp]: "AList.update k x (AList.update k y xs) = AList.update k x xs"
  by (induction xs) auto

lemma fst_set_update: "fst ` set (AList.update k v d) = insert k (fst ` set d)"
  by (simp add: dom_map_of_conv_image_fst [symmetric] update_conv')

lemma distinct_fst_update: "distinct (map fst d) \<Longrightarrow> distinct (map fst (AList.update k v d))"
  by (rule distinct_update)

subsection \<open>Words\<close>

lemma unat_u32_less: "unat (w :: u32) < 4294967296"
  using unsigned_less [of w, where 'a = nat] by simp

lemma unat_ucast_u32_u64 [simp]: "unat (ucast (w :: u32) :: u64) = unat w"
  using unat_u32_less [of w] by (simp add: unsigned_ucast_eq take_bit_nat_eq_self)

lemma unat_ucast_u64_u32: "unat (ucast (w :: u64) :: u32) = unat w mod 2 ^ 32"
  by (simp add: unsigned_ucast_eq take_bit_eq_mod unat_mod)

lemma unat_u64_less: "unat (w :: u64) < 18446744073709551616"
  using unsigned_less [of w, where 'a = nat] by simp

lemma unat_add_u64: "unat a + unat b < 2 ^ 64 \<Longrightarrow> unat (a + b :: u64) = unat a + unat b"
  by (simp add: unat_word_ariths)

lemma unat_of_nat_u32: "n < 2 ^ 32 \<Longrightarrow> unat (of_nat n :: u32) = n"
  by (simp add: unat_of_nat)

lemma ucast_of_nat_u64_u32: "(ucast (of_nat n :: u64) :: u32) = of_nat n"
proof -
  have "n mod 2 ^ 64 mod 2 ^ 32 = n mod 2 ^ (32 :: nat)"
    by (rule mod_mod_cancel) simp
  then show ?thesis by (simp add: word_unat_eq_iff unat_ucast_u64_u32 unat_of_nat)
qed

lemma of_nat_unat_u64 [simp]: "n < 2 ^ 64 \<Longrightarrow> unat (of_nat n :: u64) = n"
  by (simp add: unat_of_nat)

end
