(* ===== verification/String_Utils.thy ===== *)
theory String_Utils
  imports Revoq_Prelude "HOL-Library.Sublist"
begin

section \<open>String utilities (include/revoq/StringUtils.hpp)\<close>

text \<open>
  A \<^verbatim>\<open>std::string\<close> or \<^verbatim>\<open>std::string_view\<close> is the list of its bytes.  The searching members the
  sources call (\<^verbatim>\<open>find\<close>, \<^verbatim>\<open>find_first_of\<close>, \<^verbatim>\<open>find_first_not_of\<close>, \<^verbatim>\<open>find_last_not_of\<close>,
  \<^verbatim>\<open>substr\<close>) come first, with \<open>None\<close> for \<^verbatim>\<open>npos\<close>; the functions of class \<^verbatim>\<open>StringUtils\<close>
  follow with the index arithmetic of their loops.  The lemmas relate the index loops to structural
  reference functions.  The parsers that compute in \<^verbatim>\<open>double\<close> are in \<open>Parse_Double\<close>.
\<close>

subsection \<open>Members of the string classes\<close>

definition find_if_from :: "(char \<Rightarrow> bool) \<Rightarrow> string \<Rightarrow> nat \<Rightarrow> nat option" where
  "find_if_from P s pos =
     (let n = length (takeWhile (\<lambda>c. \<not> P c) (drop pos s))
      in if pos + n < length s then Some (pos + n) else None)"

definition find_char :: "string \<Rightarrow> char \<Rightarrow> nat \<Rightarrow> nat option" where
  "find_char s c pos = find_if_from (\<lambda>x. x = c) s pos"

definition find_first_of :: "string \<Rightarrow> string \<Rightarrow> nat \<Rightarrow> nat option" where
  "find_first_of s cs pos = find_if_from (\<lambda>x. x \<in> set cs) s pos"

definition find_first_not_of :: "string \<Rightarrow> string \<Rightarrow> nat option" where
  "find_first_not_of s cs = find_if_from (\<lambda>x. x \<notin> set cs) s 0"

definition find_last_not_of :: "string \<Rightarrow> string \<Rightarrow> nat option" where
  "find_last_not_of s cs =
     (let n = length (takeWhile (\<lambda>x. x \<in> set cs) (rev s))
      in if n < length s then Some (length s - 1 - n) else None)"

definition substr :: "string \<Rightarrow> nat \<Rightarrow> nat \<Rightarrow> string" where
  "substr s pos n = take n (drop pos s)"

fun find_str :: "string \<Rightarrow> string \<Rightarrow> nat option" where
  "find_str [] pat = (if pat = [] then Some 0 else None)"
| "find_str (c # s) pat =
     (if prefix pat (c # s) then Some 0 else map_option Suc (find_str s pat))"

definition find_str_from :: "string \<Rightarrow> string \<Rightarrow> nat \<Rightarrow> nat option" where
  "find_str_from s pat pos =
     (if pos \<le> length s then map_option (\<lambda>i. pos + i) (find_str (drop pos s) pat) else None)"

lemma find_if_from_Some:
  assumes "find_if_from P s pos = Some e"
  shows "pos \<le> e" "e < length s" "P (s ! e)"
    and "substr s pos (e - pos) = takeWhile (\<lambda>c. \<not> P c) (drop pos s)"
    and "drop pos s = substr s pos (e - pos) @ s ! e # drop (e + 1) s"
proof -
  let ?t = "takeWhile (\<lambda>c. \<not> P c) (drop pos s)"
  from assms have e: "e = pos + length ?t" and lt: "e < length s"
    by (auto simp: find_if_from_def Let_def split: if_splits)
  then show "pos \<le> e" "e < length s" by simp_all
  have n: "length ?t < length (drop pos s)" using e lt by simp
  from nth_length_takeWhile [OF n] show "P (s ! e)" using e lt by simp
  show sub: "substr s pos (e - pos) = ?t"
    unfolding substr_def using e takeWhile_eq_take [of "\<lambda>c. \<not> P c" "drop pos s"] by simp
  have "drop pos s = take (e - pos) (drop pos s) @ drop (e - pos) (drop pos s)"
    by (rule append_take_drop_id [symmetric])
  then show "drop pos s = substr s pos (e - pos) @ s ! e # drop (e + 1) s"
    using e lt by (simp add: substr_def Cons_nth_drop_Suc add.commute)
qed

lemma find_if_from_decr:
  "find_if_from P s pos = Some e \<Longrightarrow> length s - Suc e < length s - pos"
  using find_if_from_Some(1,2) [of P s pos e] by simp

lemma find_if_from_None:
  assumes "find_if_from P s pos = None" and "pos \<le> length s"
  shows "\<forall>c \<in> set (drop pos s). \<not> P c"
proof -
  have "length (takeWhile (\<lambda>c. \<not> P c) (drop pos s)) = length (drop pos s)"
    using assms length_takeWhile_le [of "\<lambda>c. \<not> P c" "drop pos s"]
    by (auto simp: find_if_from_def Let_def split: if_splits)
  then have "takeWhile (\<lambda>c. \<not> P c) (drop pos s) = drop pos s"
    using takeWhile_eq_take [of "\<lambda>c. \<not> P c" "drop pos s"] by simp
  then show ?thesis by (simp add: takeWhile_eq_all_conv)
qed

subsection \<open>Replacing\<close>

function replaceAll_loop :: "string \<Rightarrow> string \<Rightarrow> string \<Rightarrow> nat \<Rightarrow> string \<Rightarrow> string" where
  "replaceAll_loop source frm into last_pos new_str =
     (if frm = [] then source else
      case find_str_from source frm last_pos of
        None \<Rightarrow> new_str @ drop last_pos source
      | Some find_pos \<Rightarrow>
          replaceAll_loop source frm into (find_pos + length frm)
            (new_str @ substr source last_pos (find_pos - last_pos) @ into))"
  by pat_completeness auto
termination
proof (relation "measure (\<lambda>(source, frm, into, last_pos, new_str). Suc (length source) - last_pos)",
    goal_cases)
  case (2 source frm into last_pos new_str find_pos)
  then have "last_pos \<le> length source" "last_pos \<le> find_pos" "0 < length frm"
    by (auto simp: find_str_from_def split: if_splits)
  then have "Suc (length source) - (find_pos + length frm) < Suc (length source) - last_pos"
    by linarith
  then show ?case by simp
qed simp

declare replaceAll_loop.simps [simp del]

definition replaceAll :: "string \<Rightarrow> string \<Rightarrow> string \<Rightarrow> string" where
  "replaceAll source frm into = (if frm = [] then source else replaceAll_loop source frm into 0 [])"

definition replaceChar :: "string \<Rightarrow> char \<Rightarrow> char \<Rightarrow> string" where
  "replaceChar source frm into = map (\<lambda>c. if c = frm then into else c) source"

subsection \<open>Case\<close>

definition ascii :: "char \<Rightarrow> nat" where
  "ascii c = of_char c"

definition lower_char :: "char \<Rightarrow> char" where
  "lower_char c =
     (if ascii CHR ''A'' \<le> ascii c \<and> ascii c \<le> ascii CHR ''Z''
      then char_of (ascii c + (ascii CHR ''a'' - ascii CHR ''A'')) else c)"

definition upper_char :: "char \<Rightarrow> char" where
  "upper_char c =
     (if ascii CHR ''a'' \<le> ascii c \<and> ascii c \<le> ascii CHR ''z''
      then char_of (ascii c - (ascii CHR ''a'' - ascii CHR ''A'')) else c)"

definition isUpper :: "string \<Rightarrow> bool" where
  "isUpper s = list_all (\<lambda>c. (ascii CHR ''A'' \<le> ascii c \<and> ascii c \<le> ascii CHR ''Z'') \<or>
     (ascii CHR ''0'' \<le> ascii c \<and> ascii c \<le> ascii CHR ''9'') \<or> c = CHR ''_'' \<or> c = CHR ''-'') s"

definition toLower :: "string \<Rightarrow> string" where
  "toLower s = map lower_char s"

definition toUpper :: "string \<Rightarrow> string" where
  "toUpper s = map upper_char s"

subsection \<open>Splitting\<close>

function split_loop :: "string \<Rightarrow> char \<Rightarrow> nat \<Rightarrow> string list \<Rightarrow> string list" where
  "split_loop src delimiter start result =
     (case find_char src delimiter start of
        None \<Rightarrow> result @ [drop start src]
      | Some e \<Rightarrow> split_loop src delimiter (e + 1) (result @ [substr src start (e - start)]))"
  by pat_completeness auto
termination
  by (relation "measure (\<lambda>(src, delimiter, start, result). length src - start)")
     (auto simp: find_char_def dest: find_if_from_decr)

declare split_loop.simps [simp del]

definition split :: "string \<Rightarrow> char \<Rightarrow> string list" where
  "split src delimiter = split_loop src delimiter 0 []"

definition splitView :: "string \<Rightarrow> char \<Rightarrow> string list" where
  "splitView src delimiter = split_loop src delimiter 0 []"

text \<open>
  \<^verbatim>\<open>splitFixed<N>\<close> fills an array and returns how many entries it wrote; the model returns the
  entries written.
\<close>

function splitFixed_loop :: "nat \<Rightarrow> string \<Rightarrow> char \<Rightarrow> nat \<Rightarrow> string list \<Rightarrow> string list" where
  "splitFixed_loop N src delimiter start out =
     (case find_char src delimiter start of
        Some e \<Rightarrow>
          if length out < N
          then splitFixed_loop N src delimiter (e + 1) (out @ [substr src start (e - start)])
          else out
      | None \<Rightarrow> if length out < N \<and> start \<le> length src then out @ [drop start src] else out)"
  by pat_completeness auto
termination
  by (relation "measure (\<lambda>(N, src, delimiter, start, out). length src - start)")
     (auto simp: find_char_def dest: find_if_from_decr)

declare splitFixed_loop.simps [simp del]

definition splitFixed :: "nat \<Rightarrow> string \<Rightarrow> char \<Rightarrow> string list" where
  "splitFixed N src delimiter = splitFixed_loop N src delimiter 0 []"

function splitAny_loop :: "string \<Rightarrow> string \<Rightarrow> nat \<Rightarrow> string list \<Rightarrow> string list" where
  "splitAny_loop src delimiters start result =
     (if start < length src then
        case find_first_of src delimiters start of
          None \<Rightarrow> result @ [drop start src]
        | Some e \<Rightarrow> splitAny_loop src delimiters (e + 1)
            (if e > start then result @ [substr src start (e - start)] else result)
      else result)"
  by pat_completeness auto
termination
  by (relation "measure (\<lambda>(src, delimiters, start, result). length src - start)")
     (auto simp: find_first_of_def dest: find_if_from_decr)

declare splitAny_loop.simps [simp del]

definition splitAny :: "string \<Rightarrow> string \<Rightarrow> string list" where
  "splitAny src delimiters = splitAny_loop src delimiters 0 []"

subsection \<open>Joining\<close>

definition join :: "string list \<Rightarrow> string \<Rightarrow> string" where
  "join items separator =
     (case items of [] \<Rightarrow> [] | x # xs \<Rightarrow> foldl (\<lambda>result y. result @ separator @ y) x xs)"

subsection \<open>Trimming\<close>

definition ws :: string where
  "ws = [CHR 0x20, CHR 0x09, CHR 0x0A, CHR 0x0D, CHR 0x0C, CHR 0x0B]"

definition trim :: "string \<Rightarrow> string" where
  "trim s = (case find_first_not_of s ws of
     None \<Rightarrow> []
   | Some start \<Rightarrow>
       (case find_last_not_of s ws of
          None \<Rightarrow> substr s start (length s - start)
        | Some e \<Rightarrow> substr s start (e - start + 1)))"

definition trimLeft :: "string \<Rightarrow> string" where
  "trimLeft s = (case find_first_not_of s ws of None \<Rightarrow> [] | Some start \<Rightarrow> drop start s)"

definition trimRight :: "string \<Rightarrow> string" where
  "trimRight s = (case find_last_not_of s ws of None \<Rightarrow> [] | Some e \<Rightarrow> substr s 0 (e + 1))"

subsection \<open>Comparing and padding\<close>

definition equalsIgnoreCase :: "string \<Rightarrow> string \<Rightarrow> bool" where
  "equalsIgnoreCase a b \<longleftrightarrow>
     (if length a \<noteq> length b then False
      else list_all (\<lambda>(ca, cb). lower_char ca = lower_char cb) (zip a b))"

definition startsWith :: "string \<Rightarrow> string \<Rightarrow> bool" where
  "startsWith str pre \<longleftrightarrow> length str \<ge> length pre \<and> substr str 0 (length pre) = pre"

definition endsWith :: "string \<Rightarrow> string \<Rightarrow> bool" where
  "endsWith str suf \<longleftrightarrow>
     length str \<ge> length suf \<and> substr str (length str - length suf) (length suf) = suf"

definition contains :: "string \<Rightarrow> string \<Rightarrow> bool" where
  "contains str pat \<longleftrightarrow> find_str_from str pat 0 \<noteq> None"

definition countChar :: "string \<Rightarrow> char \<Rightarrow> nat" where
  "countChar str c = count_list str c"

definition padRight :: "string \<Rightarrow> nat \<Rightarrow> char \<Rightarrow> string" where
  "padRight str width fill =
     (if length str \<ge> width then str else str @ replicate (width - length str) fill)"

definition padLeft :: "string \<Rightarrow> nat \<Rightarrow> char \<Rightarrow> string" where
  "padLeft str width fill =
     (if length str \<ge> width then str else replicate (width - length str) fill @ str)"

subsection \<open>Decimal text\<close>

text \<open>
  \<open>show_nat\<close> and \<open>show_int\<close> are what \<^verbatim>\<open>fmt\<close> prints for an integer under \<^verbatim>\<open>{}\<close>.
\<close>

definition is_digit :: "char \<Rightarrow> bool" where
  "is_digit c \<longleftrightarrow> ascii CHR ''0'' \<le> ascii c \<and> ascii c \<le> ascii CHR ''9''"

definition digit_val :: "char \<Rightarrow> int" where
  "digit_val c = int (ascii c) - int (ascii CHR ''0'')"

definition digit_char :: "nat \<Rightarrow> char" where
  "digit_char d = char_of (ascii CHR ''0'' + d)"

fun show_nat :: "nat \<Rightarrow> string" where
  "show_nat n = (if n < 10 then [digit_char n] else show_nat (n div 10) @ [digit_char (n mod 10)])"

declare show_nat.simps [simp del]

definition show_int :: "int \<Rightarrow> string" where
  "show_int i = (if i < 0 then CHR ''-'' # show_nat (nat (- i)) else show_nat (nat i))"

subsection \<open>Parsing\<close>

text \<open>
  \<^verbatim>\<open>parseInt\<close> computes in \<^verbatim>\<open>int64_t\<close>, where an overflow is undefined; the model returns
  \<open>Overflow\<close> at the first accumulation that leaves the type.
\<close>

datatype parse = Rejected | Parsed int | Overflow

fun parseInt_loop :: "string \<Rightarrow> int \<Rightarrow> parse" where
  "parseInt_loop [] result = Parsed result"
| "parseInt_loop (c # cs) result =
     (if \<not> is_digit c then Rejected
      else let r = result * 10 + digit_val c
           in if r > 2 ^ 63 - 1 then Overflow else parseInt_loop cs r)"

definition parseInt :: "string \<Rightarrow> parse" where
  "parseInt s =
     (case s of [] \<Rightarrow> Rejected
      | c # cs \<Rightarrow>
          let negative = (c = CHR ''-'');
              rest = (if c = CHR ''-'' \<or> c = CHR ''+'' then cs else s)
          in if rest = [] then Rejected
             else case parseInt_loop rest 0 of
                    Parsed result \<Rightarrow> Parsed (if negative then - result else result)
                  | r \<Rightarrow> r)"

subsection \<open>Splitting against a structural reference\<close>

fun split_ref :: "(char \<Rightarrow> bool) \<Rightarrow> string \<Rightarrow> string list" where
  "split_ref P [] = [[]]"
| "split_ref P (c # s) =
     (if P c then [] # split_ref P s
      else case split_ref P s of [] \<Rightarrow> [[c]] | f # fs \<Rightarrow> (c # f) # fs)"

lemma split_ref_nonempty [simp]: "split_ref P s \<noteq> []"
  by (induction s) (auto split: list.splits)

lemma split_ref_no_delim: "\<forall>c \<in> set u. \<not> P c \<Longrightarrow> split_ref P u = [u]"
  by (induction u) auto

lemma split_ref_append:
  "\<forall>c \<in> set u. \<not> P c \<Longrightarrow> P d \<Longrightarrow> split_ref P (u @ d # v) = u # split_ref P v"
  by (induction u) auto

lemma split_ref_step:
  assumes "find_if_from P s pos = Some e"
  shows "split_ref P (drop pos s) = substr s pos (e - pos) # split_ref P (drop (e + 1) s)"
proof -
  note f = find_if_from_Some [OF assms]
  have "\<forall>c \<in> set (substr s pos (e - pos)). \<not> P c"
    unfolding f(4) by (auto dest: set_takeWhileD)
  then have "split_ref P (substr s pos (e - pos) @ s ! e # drop (e + 1) s) =
      substr s pos (e - pos) # split_ref P (drop (e + 1) s)"
    using f(3) by (rule split_ref_append)
  then show ?thesis by (simp only: f(5) [symmetric])
qed

lemma split_ref_stop:
  "find_if_from P s pos = None \<Longrightarrow> pos \<le> length s \<Longrightarrow> split_ref P (drop pos s) = [drop pos s]"
  by (rule split_ref_no_delim) (rule find_if_from_None)

lemma split_loop_ref:
  "start \<le> length src \<Longrightarrow>
   split_loop src d start result = result @ split_ref (\<lambda>x. x = d) (drop start src)"
proof (induction src d start result rule: split_loop.induct)
  case (1 src d start result)
  show ?case
  proof (cases "find_char src d start")
    case None
    then show ?thesis
      using "1.prems" split_ref_stop [of "\<lambda>x. x = d" src start]
      by (subst split_loop.simps) (simp add: find_char_def)
  next
    case (Some e)
    then have e: "find_if_from (\<lambda>x. x = d) src start = Some e"
      by (simp add: find_char_def)
    note f = find_if_from_Some [OF e]
    show ?thesis
      using Some "1.IH" [OF Some] f(2) split_ref_step [OF e]
      by (subst split_loop.simps) simp
  qed
qed

lemma split_eq_ref: "split src d = split_ref (\<lambda>x. x = d) src"
  by (simp add: split_def split_loop_ref)

lemma splitFixed_loop_ref:
  "start \<le> length src \<Longrightarrow>
   splitFixed_loop N src d start out =
     out @ take (N - length out) (split_ref (\<lambda>x. x = d) (drop start src))"
proof (induction N src d start out rule: splitFixed_loop.induct)
  case (1 N src d start out)
  show ?case
  proof (cases "find_char src d start")
    case None
    then show ?thesis
      using "1.prems" split_ref_stop [of "\<lambda>x. x = d" src start]
      by (subst splitFixed_loop.simps) (auto simp: find_char_def take_Cons')
  next
    case (Some e)
    then have e: "find_if_from (\<lambda>x. x = d) src start = Some e"
      by (simp add: find_char_def)
    note f = find_if_from_Some [OF e]
    show ?thesis
      using Some "1.IH" [OF Some] f(2) split_ref_step [OF e]
      by (subst splitFixed_loop.simps) (auto simp: take_Cons')
  qed
qed

lemma splitFixed_eq_take: "splitFixed N src d = take N (split src d)"
  by (simp add: splitFixed_def splitFixed_loop_ref split_eq_ref)

lemma splitAny_loop_ref:
  "splitAny_loop src ds start result =
     result @ filter (\<lambda>f. f \<noteq> []) (split_ref (\<lambda>x. x \<in> set ds) (drop start src))"
proof (induction src ds start result rule: splitAny_loop.induct)
  case (1 src ds start result)
  show ?case
  proof (cases "start < length src")
    case False
    then show ?thesis by (subst splitAny_loop.simps) simp
  next
    case start: True
    show ?thesis
    proof (cases "find_first_of src ds start")
      case None
      then show ?thesis
        using start split_ref_stop [of "\<lambda>x. x \<in> set ds" src start]
        by (subst splitAny_loop.simps) (simp add: find_first_of_def)
    next
      case (Some e)
      then have e: "find_if_from (\<lambda>x. x \<in> set ds) src start = Some e"
        by (simp add: find_first_of_def)
      note f = find_if_from_Some(1,2) [OF e]
      then have "substr src start (e - start) = [] \<longleftrightarrow> \<not> start < e"
        by (auto simp: substr_def)
      then show ?thesis
        using start Some "1.IH" [OF start Some] split_ref_step [OF e]
        by (subst splitAny_loop.simps) simp
    qed
  qed
qed

subsection \<open>Joining\<close>

lemma join_Cons: "join (x # xs) sep = x @ concat (map (\<lambda>y. sep @ y) xs)"
proof -
  have "foldl (\<lambda>result y. result @ sep @ y) x xs = x @ concat (map (\<lambda>y. sep @ y) xs)" for x
    by (induction xs arbitrary: x) auto
  then show ?thesis by (simp add: join_def)
qed

lemma join_single [simp]: "join [x] sep = x"
  by (simp add: join_Cons)

lemma join_Cons2: "join (x # y # ys) sep = x @ sep @ join (y # ys) sep"
  by (simp add: join_Cons)

lemma join_split_ref: "join (split_ref (\<lambda>x. x = d) s) [d] = s"
proof (induction s)
  case (Cons c s)
  obtain f fs where "split_ref (\<lambda>x. x = d) s = f # fs"
    by (cases "split_ref (\<lambda>x. x = d) s") auto
  with Cons show ?case by (auto simp: join_Cons)
qed simp

lemma split_ref_join:
  "parts \<noteq> [] \<Longrightarrow> d \<notin> set (concat parts) \<Longrightarrow> split_ref (\<lambda>x. x = d) (join parts [d]) = parts"
proof (induction parts rule: induct_list012)
  case (3 x y zs)
  then show ?case
    using split_ref_append [of x "\<lambda>z. z = d" d "join (y # zs) [d]"] by (auto simp: join_Cons2)
qed (auto intro!: split_ref_no_delim)

lemma split_ref_fields:
  "c \<in> set (concat (split_ref P s)) \<Longrightarrow> \<not> P c"
  by (induction s) (auto split: list.splits if_splits)

lemma length_split_ref: "length (split_ref (\<lambda>x. x = d) s) = count_list s d + 1"
  by (induction s) (auto split: list.splits)

subsection \<open>Decimal text is read back\<close>

lemma ascii_digit_char: "d < 10 \<Longrightarrow> ascii (digit_char d) = 48 + d"
  by (simp add: ascii_def digit_char_def)

lemma digit_char_props:
  "d < 10 \<Longrightarrow> is_digit (digit_char d)" "d < 10 \<Longrightarrow> digit_val (digit_char d) = int d"
  by (simp_all add: is_digit_def digit_val_def ascii_digit_char) (simp_all add: ascii_def)

lemma digit_not_sign: "is_digit c \<Longrightarrow> c \<noteq> CHR ''-'' \<and> c \<noteq> CHR ''+'' \<and> c \<noteq> CHR ''.''"
  by (auto simp: is_digit_def ascii_def)

lemma show_nat_nonempty [simp]: "show_nat n \<noteq> []"
  by (subst show_nat.simps) simp

lemma show_nat_digits: "\<forall>c \<in> set (show_nat n). is_digit c"
proof (induction n rule: show_nat.induct)
  case (1 n)
  then show ?case
    by (subst show_nat.simps) (auto simp: digit_char_props)
qed

definition digits_value :: "string \<Rightarrow> int" where
  "digits_value s = foldl (\<lambda>r c. r * 10 + digit_val c) 0 s"

lemma digits_value_snoc: "digits_value (s @ [c]) = digits_value s * 10 + digit_val c"
  by (simp add: digits_value_def)

lemma digits_value_show_nat: "digits_value (show_nat n) = int n"
proof (induction n rule: show_nat.induct)
  case (1 n)
  show ?case
  proof (cases "n < 10")
    case True
    then show ?thesis
      by (subst show_nat.simps) (simp add: digits_value_def digit_char_props)
  next
    case False
    then show ?thesis
      using "1.IH" by (subst show_nat.simps)
        (simp add: digits_value_snoc digit_char_props zdiv_int zmod_int)
  qed
qed

lemma foldl_digits_mono:
  "\<forall>c \<in> set s. is_digit c \<Longrightarrow> 0 \<le> r \<Longrightarrow> r \<le> foldl (\<lambda>r c. r * 10 + digit_val c) r s"
proof (induction s arbitrary: r)
  case (Cons c s)
  then have "0 \<le> digit_val c" by (auto simp: is_digit_def digit_val_def)
  with Cons.prems Cons.IH [of "r * 10 + digit_val c"] show ?case by simp
qed simp

lemma parseInt_loop_digits:
  "\<forall>c \<in> set s. is_digit c \<Longrightarrow> 0 \<le> r \<Longrightarrow> foldl (\<lambda>r c. r * 10 + digit_val c) r s < 2 ^ 63 \<Longrightarrow>
   parseInt_loop s r = Parsed (foldl (\<lambda>r c. r * 10 + digit_val c) r s)"
proof (induction s arbitrary: r)
  case (Cons c s)
  then have d: "0 \<le> digit_val c" by (auto simp: is_digit_def digit_val_def)
  have "r * 10 + digit_val c < 2 ^ 63"
    using foldl_digits_mono [of s "r * 10 + digit_val c"] Cons.prems d by simp
  then show ?case
    using Cons.prems Cons.IH [of "r * 10 + digit_val c"] d by (simp add: Let_def)
qed simp

lemma parseInt_digits:
  assumes "s \<noteq> []" and "\<forall>c \<in> set s. is_digit c" and "digits_value s < 2 ^ 63"
  shows "parseInt s = Parsed (digits_value s)"
    and "parseInt (CHR ''-'' # s) = Parsed (- digits_value s)"
proof -
  from assms(1) obtain c cs where s: "s = c # cs" by (cases s) auto
  have "c \<noteq> CHR ''-''" "c \<noteq> CHR ''+''" using digit_not_sign [of c] assms(2) s by auto
  moreover have "parseInt_loop s 0 = Parsed (digits_value s)"
    using parseInt_loop_digits [of s 0] assms by (simp add: digits_value_def)
  ultimately show "parseInt s = Parsed (digits_value s)"
    and "parseInt (CHR ''-'' # s) = Parsed (- digits_value s)"
    unfolding parseInt_def s by (simp_all del: parseInt_loop.simps)
qed

lemma parseInt_show_int:
  "- (2 ^ 63) < i \<Longrightarrow> i < 2 ^ 63 \<Longrightarrow> parseInt (show_int i) = Parsed i"
  using parseInt_digits [of "show_nat (nat \<bar>i\<bar>)"] show_nat_digits
  by (auto simp: show_int_def digits_value_show_nat)

subsection \<open>Case folding\<close>

lemma lower_char_idem: "lower_char (lower_char c) = lower_char c"
  by (auto simp: lower_char_def ascii_def)

lemma equalsIgnoreCase_iff: "equalsIgnoreCase a b \<longleftrightarrow> toLower a = toLower b"
proof (cases "length a = length b")
  case True
  then show ?thesis
    by (induction a b rule: list_induct2) (auto simp: equalsIgnoreCase_def toLower_def)
next
  case False
  then show ?thesis
    by (auto simp: equalsIgnoreCase_def toLower_def dest: map_eq_imp_length_eq)
qed

subsection \<open>Trimming\<close>

lemma trimLeft_eq: "trimLeft s = dropWhile (\<lambda>c. c \<in> set ws) s"
proof (cases "find_first_not_of s ws")
  case None
  then have "\<forall>c \<in> set s. c \<in> set ws"
    using find_if_from_None [of "\<lambda>x. x \<notin> set ws" s 0] by (simp add: find_first_not_of_def)
  then have "dropWhile (\<lambda>c. c \<in> set ws) s = []" by (simp only: dropWhile_eq_Nil_conv)
  with None show ?thesis by (simp only: trimLeft_def option.case)
next
  case (Some e)
  then have f: "find_if_from (\<lambda>x. x \<notin> set ws) s 0 = Some e"
    by (simp add: find_first_not_of_def)
  from f have "e = length (takeWhile (\<lambda>c. c \<in> set ws) s)"
    by (auto simp: find_if_from_def Let_def split: if_splits)
  with Some show ?thesis by (simp add: trimLeft_def dropWhile_eq_drop)
qed

lemma trimRight_eq: "trimRight s = rev (dropWhile (\<lambda>c. c \<in> set ws) (rev s))"
proof -
  let ?n = "length (takeWhile (\<lambda>c. c \<in> set ws) (rev s))"
  have "rev (dropWhile (\<lambda>c. c \<in> set ws) (rev s)) = take (length s - ?n) s"
    by (simp add: dropWhile_eq_drop rev_drop)
  moreover have "?n \<le> length s"
    using length_takeWhile_le [of "\<lambda>c. c \<in> set ws" "rev s"] by simp
  ultimately show ?thesis
    by (auto simp: trimRight_def find_last_not_of_def Let_def substr_def Suc_diff_Suc)
qed

lemma split_properties:
  "join (split s d) [d] = s" "d \<notin> set (concat (split s d))" "length (split s d) = countChar s d + 1"
  using split_ref_fields [of d "\<lambda>x. x = d" s]
  by (auto simp: split_eq_ref join_split_ref length_split_ref countChar_def)

subsection \<open>Properties\<close>

text \<open>Splitting at a delimiter and joining with it gives the text back; no field contains the
  delimiter, and there is one field more than there are delimiters.\<close>

theorem split_join:
  "join (split s d) [d] = s \<and> d \<notin> set (concat (split s d)) \<and>
   length (split s d) = countChar s d + 1"
  using split_properties by blast

text \<open>Joining non-empty lists of delimiter-free fields and splitting gives the fields back, for the
  allocating and for the view-returning split.\<close>

theorem join_split:
  assumes "parts \<noteq> []" and "d \<notin> set (concat parts)"
  shows "split (join parts [d]) d = parts \<and> splitView (join parts [d]) d = parts"
  using split_ref_join [OF assms] split_eq_ref [of "join parts [d]" d]
  by (simp add: splitView_def split_def)

theorem join_split_witness:
  "split (join [''ab'', [], ''c''] [CHR '','']) CHR '','' = [''ab'', [], ''c'']"
  using join_split [of "[''ab'', [], ''c'']" "CHR '',''"] by simp


text \<open>\<^verbatim>\<open>parseInt\<close> reads back every \<^verbatim>\<open>int64_t\<close> that is printed in decimal, except the least one,
  on which its accumulator overflows.\<close>

theorem parseInt_reads_printed:
  assumes "- (2 ^ 63) < i" and "i < 2 ^ 63"
  shows "parseInt (show_int i) = Parsed i"
  using assms by (rule parseInt_show_int)

theorem parseInt_reads_printed_witness:
  "parseInt (show_int (- 9223372036854775807)) = Parsed (- 9223372036854775807)"
  using parseInt_reads_printed [of "- 9223372036854775807"] by simp

text \<open>On the text of the least \<^verbatim>\<open>int64_t\<close> the accumulator of \<^verbatim>\<open>parseInt\<close> overflows.\<close>

theorem parseInt_int64_min_overflows:
  "parseInt ''-9223372036854775808'' = Overflow"
  by code_simp

end
