(* ===== verification/Page_Memory.thy ===== *)
theory Page_Memory
  imports Revoq_Prelude
begin

section \<open>The bytes of a mapped page\<close>

text \<open>
  A page file is mapped with \<^verbatim>\<open>MAP_SHARED\<close>, so writers and readers act on the same bytes.  The
  bytes are a function from the offset in the page to a byte; the sources' pointer arithmetic
  \<^verbatim>\<open>base + offset\<close> becomes the offset itself.  Integers are stored little-endian, as the x86-64 and
  AArch64 targets of the sources do.  The lemmas say what a read returns after a write at the same or
  at another place.
\<close>

type_synonym memory = "nat \<Rightarrow> u8"

subsection \<open>Little-endian encoding\<close>

fun le_bytes :: "nat \<Rightarrow> 'a::len word \<Rightarrow> u8 list" where
  "le_bytes 0 w = []"
| "le_bytes (Suc n) w = ucast w # le_bytes n (drop_bit 8 w)"

fun le_word :: "u8 list \<Rightarrow> 'a::len word" where
  "le_word [] = 0"
| "le_word (b # bs) = ucast b OR push_bit 8 (le_word bs)"

lemma length_le_bytes [simp]: "length (le_bytes n w) = n"
  by (induction n arbitrary: w) auto

lemma le_word_le_bytes_take: "le_word (le_bytes n w) = take_bit (8 * n) w"
proof (induction n arbitrary: w)
  case (Suc n)
  show ?case
    unfolding le_bytes.simps le_word.simps Suc
    by (rule bit_word_eqI) (auto simp: bit_simps)
qed simp

lemma le_word_le_bytes [simp]:
  "LENGTH('a) \<le> 8 * n \<Longrightarrow> le_word (le_bytes n (w :: 'a::len word)) = w"
  by (simp add: le_word_le_bytes_take take_bit_word_eq_self)

lemma bit_le_word_bound: "bit (le_word bs :: 'a::len word) i \<Longrightarrow> i < 8 * length bs"
proof (induction bs arbitrary: i)
  case (Cons b bs)
  then consider "bit (ucast b :: 'a word) i" | "8 \<le> i" "bit (le_word bs :: 'a word) (i - 8)"
    by (auto simp: bit_simps)
  then show ?case
  proof cases
    case 1
    then have "bit b i" by (simp add: bit_simps)
    then show ?thesis using bit_imp_le_length [of b i] by simp
  next
    case 2
    with Cons.IH [of "i - 8"] show ?thesis by simp
  qed
qed simp

lemma le_bytes_le_word:
  "length bs = n \<Longrightarrow> 8 * n \<le> LENGTH('a) \<Longrightarrow> le_bytes n (le_word bs :: 'a::len word) = bs"
proof (induction bs arbitrary: n)
  case (Cons b bs)
  then obtain k where n: "n = Suc k" "length bs = k" by auto
  have lo: "(ucast (le_word (b # bs) :: 'a word) :: u8) = b"
    using Cons.prems n by (intro bit_word_eqI) (auto simp: bit_simps)
  have hi: "drop_bit 8 (le_word (b # bs) :: 'a word) = le_word bs"
    using Cons.prems n
    by (intro bit_word_eqI)
       (auto simp: bit_simps dest: bit_imp_le_length bit_le_word_bound)
  show ?case
    using Cons.prems n Cons.IH [of k] by (simp only: n(1) le_bytes.simps lo hi) simp
qed simp

lemma le_word_inj:
  assumes "length bs = length cs" and "8 * length bs \<le> LENGTH('a::len)"
    and "(le_word bs :: 'a word) = le_word cs"
  shows "bs = cs"
proof -
  have "bs = le_bytes (length bs) (le_word bs :: 'a word)"
    using assms(2) by (simp add: le_bytes_le_word)
  also have "\<dots> = le_bytes (length cs) (le_word cs :: 'a word)"
    using assms(1,3) by simp
  also have "\<dots> = cs"
    using assms(1,2) by (simp add: le_bytes_le_word)
  finally show ?thesis .
qed

subsection \<open>Reading and writing runs of bytes\<close>

definition load_bytes :: "memory \<Rightarrow> nat \<Rightarrow> nat \<Rightarrow> u8 list" where
  "load_bytes m off n = map m [off ..< off + n]"

definition store_bytes :: "memory \<Rightarrow> nat \<Rightarrow> u8 list \<Rightarrow> memory" where
  "store_bytes m off bs =
     (\<lambda>i. if off \<le> i \<and> i < off + length bs then bs ! (i - off) else m i)"

lemma length_load_bytes [simp]: "length (load_bytes m off n) = n"
  by (simp add: load_bytes_def)

lemma load_bytes_0 [simp]: "load_bytes m off 0 = []"
  by (simp add: load_bytes_def)

lemma load_store_bytes_same [mem_simps]:
  "length bs = n \<Longrightarrow> load_bytes (store_bytes m off bs) off n = bs"
  by (rule nth_equalityI) (auto simp: load_bytes_def store_bytes_def)

lemma load_store_bytes_other [mem_simps]:
  "off' + n \<le> off \<or> off + length bs \<le> off' \<Longrightarrow>
   load_bytes (store_bytes m off bs) off' n = load_bytes m off' n"
  by (auto simp: load_bytes_def store_bytes_def)

lemma store_bytes_outside [mem_simps]:
  "i < off \<or> off + length bs \<le> i \<Longrightarrow> store_bytes m off bs i = m i"
  by (auto simp: store_bytes_def)

lemma store_bytes_Nil [simp]: "store_bytes m off [] = m"
  by (rule ext) (auto simp: store_bytes_def)

subsection \<open>Agreement of two images on a range\<close>

definition same_on :: "memory \<Rightarrow> memory \<Rightarrow> nat \<Rightarrow> nat \<Rightarrow> bool" where
  "same_on m m' lo hi \<longleftrightarrow> (\<forall>i. lo \<le> i \<longrightarrow> i < hi \<longrightarrow> m i = m' i)"

lemma same_on_refl [simp]: "same_on m m lo hi"
  by (simp add: same_on_def)

lemma same_on_trans: "same_on m m' lo hi \<Longrightarrow> same_on m' m'' lo hi \<Longrightarrow> same_on m m'' lo hi"
  by (simp add: same_on_def)

lemma same_on_sub: "same_on m m' lo hi \<Longrightarrow> lo \<le> lo' \<Longrightarrow> hi' \<le> hi \<Longrightarrow> same_on m m' lo' hi'"
  by (simp add: same_on_def)

lemma same_on_store_bytes:
  "hi \<le> off \<or> off + length bs \<le> lo \<Longrightarrow> same_on m (store_bytes m off bs) lo hi"
  by (auto simp: same_on_def store_bytes_def)

lemma load_bytes_same_on:
  "same_on m m' off (off + n) \<Longrightarrow> load_bytes m' off n = load_bytes m off n"
  by (auto simp: load_bytes_def same_on_def)

subsection \<open>Reading and writing integers\<close>

definition load_u16 :: "memory \<Rightarrow> nat \<Rightarrow> u16" where
  "load_u16 m off = le_word (load_bytes m off 2)"

definition load_u32 :: "memory \<Rightarrow> nat \<Rightarrow> u32" where
  "load_u32 m off = le_word (load_bytes m off 4)"

definition load_u64 :: "memory \<Rightarrow> nat \<Rightarrow> u64" where
  "load_u64 m off = le_word (load_bytes m off 8)"

definition store_u16 :: "memory \<Rightarrow> nat \<Rightarrow> u16 \<Rightarrow> memory" where
  "store_u16 m off w = store_bytes m off (le_bytes 2 w)"

definition store_u32 :: "memory \<Rightarrow> nat \<Rightarrow> u32 \<Rightarrow> memory" where
  "store_u32 m off w = store_bytes m off (le_bytes 4 w)"

definition store_u64 :: "memory \<Rightarrow> nat \<Rightarrow> u64 \<Rightarrow> memory" where
  "store_u64 m off w = store_bytes m off (le_bytes 8 w)"

lemmas load_defs = load_u16_def load_u32_def load_u64_def
lemmas store_defs = store_u16_def store_u32_def store_u64_def

lemma load_store_int_same [mem_simps]:
  "load_u16 (store_u16 m off v) off = v"
  "load_u32 (store_u32 m off w) off = w"
  "load_u64 (store_u64 m off x) off = x"
  by (simp_all add: load_defs store_defs mem_simps)

lemma load_u16_store_other [mem_simps]:
  "off' + 2 \<le> off \<or> off + length bs \<le> off' \<Longrightarrow> load_u16 (store_bytes m off bs) off' = load_u16 m off'"
  "off' + 2 \<le> off \<or> off + 2 \<le> off' \<Longrightarrow> load_u16 (store_u16 m off v) off' = load_u16 m off'"
  "off' + 2 \<le> off \<or> off + 4 \<le> off' \<Longrightarrow> load_u16 (store_u32 m off w) off' = load_u16 m off'"
  "off' + 2 \<le> off \<or> off + 8 \<le> off' \<Longrightarrow> load_u16 (store_u64 m off x) off' = load_u16 m off'"
  by (simp_all add: load_defs store_defs mem_simps)

lemma load_u32_store_other [mem_simps]:
  "off' + 4 \<le> off \<or> off + length bs \<le> off' \<Longrightarrow> load_u32 (store_bytes m off bs) off' = load_u32 m off'"
  "off' + 4 \<le> off \<or> off + 2 \<le> off' \<Longrightarrow> load_u32 (store_u16 m off v) off' = load_u32 m off'"
  "off' + 4 \<le> off \<or> off + 4 \<le> off' \<Longrightarrow> load_u32 (store_u32 m off w) off' = load_u32 m off'"
  "off' + 4 \<le> off \<or> off + 8 \<le> off' \<Longrightarrow> load_u32 (store_u64 m off x) off' = load_u32 m off'"
  by (simp_all add: load_defs store_defs mem_simps)

lemma load_u64_store_other [mem_simps]:
  "off' + 8 \<le> off \<or> off + length bs \<le> off' \<Longrightarrow> load_u64 (store_bytes m off bs) off' = load_u64 m off'"
  "off' + 8 \<le> off \<or> off + 2 \<le> off' \<Longrightarrow> load_u64 (store_u16 m off v) off' = load_u64 m off'"
  "off' + 8 \<le> off \<or> off + 4 \<le> off' \<Longrightarrow> load_u64 (store_u32 m off w) off' = load_u64 m off'"
  "off' + 8 \<le> off \<or> off + 8 \<le> off' \<Longrightarrow> load_u64 (store_u64 m off x) off' = load_u64 m off'"
  by (simp_all add: load_defs store_defs mem_simps)

lemma load_bytes_store_int_other [mem_simps]:
  "off' + n \<le> off \<or> off + 2 \<le> off' \<Longrightarrow> load_bytes (store_u16 m off v) off' n = load_bytes m off' n"
  "off' + n \<le> off \<or> off + 4 \<le> off' \<Longrightarrow> load_bytes (store_u32 m off w) off' n = load_bytes m off' n"
  "off' + n \<le> off \<or> off + 8 \<le> off' \<Longrightarrow> load_bytes (store_u64 m off x) off' n = load_bytes m off' n"
  by (simp_all add: store_defs mem_simps)

lemma store_int_outside [mem_simps]:
  "i < off \<or> off + 2 \<le> i \<Longrightarrow> store_u16 m off v i = m i"
  "i < off \<or> off + 4 \<le> i \<Longrightarrow> store_u32 m off w i = m i"
  "i < off \<or> off + 8 \<le> i \<Longrightarrow> store_u64 m off x i = m i"
  by (simp_all add: store_defs mem_simps)

lemma load_int_same_on:
  "same_on m m' off (off + 2) \<Longrightarrow> load_u16 m' off = load_u16 m off"
  "same_on m m' off (off + 4) \<Longrightarrow> load_u32 m' off = load_u32 m off"
  "same_on m m' off (off + 8) \<Longrightarrow> load_u64 m' off = load_u64 m off"
  by (simp_all add: load_defs load_bytes_same_on)

subsection \<open>Zeroed ranges\<close>

definition zero_on :: "memory \<Rightarrow> nat \<Rightarrow> nat \<Rightarrow> bool" where
  "zero_on m lo hi \<longleftrightarrow> (\<forall>i. lo \<le> i \<longrightarrow> i < hi \<longrightarrow> m i = 0)"

lemma zero_on_sub: "zero_on m lo hi \<Longrightarrow> lo \<le> lo' \<Longrightarrow> hi' \<le> hi \<Longrightarrow> zero_on m lo' hi'"
  by (simp add: zero_on_def)

lemma zero_on_same_on: "zero_on m lo hi \<Longrightarrow> same_on m m' lo hi \<Longrightarrow> zero_on m' lo hi"
  by (simp add: zero_on_def same_on_def)

lemma zero_on_empty_image [simp]: "zero_on (\<lambda>_. 0) lo hi"
  by (simp add: zero_on_def)

lemma load_bytes_zero: "zero_on m off (off + n) \<Longrightarrow> load_bytes m off n = replicate n 0"
  by (rule nth_equalityI) (auto simp: load_bytes_def zero_on_def)

lemma le_word_replicate_0 [simp]: "le_word (replicate n 0) = 0"
  by (induction n) auto

lemma load_int_zero:
  "zero_on m off (off + 2) \<Longrightarrow> load_u16 m off = 0"
  "zero_on m off (off + 4) \<Longrightarrow> load_u32 m off = 0"
  "zero_on m off (off + 8) \<Longrightarrow> load_u64 m off = 0"
  by (simp_all add: load_defs load_bytes_zero)

lemma load_int_empty_image [simp]:
  "load_u16 (\<lambda>_. 0) off = 0" "load_u32 (\<lambda>_. 0) off = 0" "load_u64 (\<lambda>_. 0) off = 0"
  by (simp_all add: load_int_zero)

end
