(* ===== verification/Revoq_Hash.thy ===== *)
theory Revoq_Hash
  imports Page_Memory
begin

section \<open>Hashing (src/MurMurHash3.cpp, include/revoq/HashUtils.h)\<close>

text \<open>
  The three MurmurHash3 variants and the FNV-1a hash of the sources, on byte lists.  The block
  pointers of the sources run over the first \<open>nblocks\<close> blocks in order, so the loops are folds over
  the block numbers; the \<^verbatim>\<open>switch\<close> over the tail falls through, so each case guards every smaller
  one.  The length argument is the length of the list (keys below \<open>2 ^ 31\<close> bytes, the range of the
  \<^verbatim>\<open>int\<close> parameter).  The lemmas show that every mixing step is a bijection, from which it follows
  that the hashes are injective in the seed, and, on keys of one block, in the key.
\<close>

subsection \<open>Mixing steps\<close>

definition rotl32 :: "u32 \<Rightarrow> nat \<Rightarrow> u32" where
  "rotl32 x r = push_bit r x OR drop_bit (32 - r) x"

definition rotl64 :: "u64 \<Rightarrow> nat \<Rightarrow> u64" where
  "rotl64 x r = push_bit r x OR drop_bit (64 - r) x"

definition getblock32 :: "u8 list \<Rightarrow> nat \<Rightarrow> u32" where
  "getblock32 p i = le_word (take 4 (drop (4 * i) p))"

definition getblock64 :: "u8 list \<Rightarrow> nat \<Rightarrow> u64" where
  "getblock64 p i = le_word (take 8 (drop (8 * i) p))"

definition fmix32 :: "u32 \<Rightarrow> u32" where
  "fmix32 h =
     (let h = h XOR drop_bit 16 h; h = h * 0x85ebca6b; h = h XOR drop_bit 13 h;
          h = h * 0xc2b2ae35 in h XOR drop_bit 16 h)"

definition fmix64 :: "u64 \<Rightarrow> u64" where
  "fmix64 k =
     (let k = k XOR drop_bit 33 k; k = k * 0xff51afd7ed558ccd; k = k XOR drop_bit 33 k;
          k = k * 0xc4ceb9fe1a85ec53 in k XOR drop_bit 33 k)"

subsection \<open>MurmurHash3_x86_32\<close>

definition x86_32_k1 :: "u32 \<Rightarrow> u32" where
  "x86_32_k1 k1 = rotl32 (k1 * 0xcc9e2d51) 15 * 0x1b873593"

definition x86_32_block :: "u8 list \<Rightarrow> nat \<Rightarrow> u32 \<Rightarrow> u32" where
  "x86_32_block data i h1 =
     (let k1 = x86_32_k1 (getblock32 data i) in rotl32 (h1 XOR k1) 13 * 5 + 0xe6546b64)"

definition x86_32_tail :: "u8 list \<Rightarrow> nat \<Rightarrow> u32 \<Rightarrow> u32" where
  "x86_32_tail tail r h1 =
     (let k1 = (if r \<ge> 3 then push_bit 16 (ucast (tail ! 2)) else 0);
          k1 = (if r \<ge> 2 then k1 XOR push_bit 8 (ucast (tail ! 1)) else k1)
      in if r \<ge> 1 then h1 XOR x86_32_k1 (k1 XOR ucast (tail ! 0)) else h1)"

definition MurmurHash3_x86_32 :: "u8 list \<Rightarrow> u32 \<Rightarrow> u32" where
  "MurmurHash3_x86_32 key seed =
     (let len = length key; nblocks = len div 4;
          h1 = fold (x86_32_block key) [0..<nblocks] seed;
          h1 = x86_32_tail (drop (nblocks * 4) key) (len mod 4) h1
      in fmix32 (h1 XOR of_nat len))"

subsection \<open>MurmurHash3_x86_128\<close>

type_synonym h4 = "u32 \<times> u32 \<times> u32 \<times> u32"

definition x86_128_k1 :: "u32 \<Rightarrow> u32" where
  "x86_128_k1 k = rotl32 (k * 0x239b961b) 15 * 0xab0e9789"
definition x86_128_k2 :: "u32 \<Rightarrow> u32" where
  "x86_128_k2 k = rotl32 (k * 0xab0e9789) 16 * 0x38b34ae5"
definition x86_128_k3 :: "u32 \<Rightarrow> u32" where
  "x86_128_k3 k = rotl32 (k * 0x38b34ae5) 17 * 0xa1e38b93"
definition x86_128_k4 :: "u32 \<Rightarrow> u32" where
  "x86_128_k4 k = rotl32 (k * 0xa1e38b93) 18 * 0x239b961b"

definition x86_128_block :: "u8 list \<Rightarrow> nat \<Rightarrow> h4 \<Rightarrow> h4" where
  "x86_128_block data i = (\<lambda>(h1, h2, h3, h4).
     let h1 = (rotl32 (h1 XOR x86_128_k1 (getblock32 data (i * 4 + 0))) 19 + h2) * 5 + 0x561ccd1b;
         h2 = (rotl32 (h2 XOR x86_128_k2 (getblock32 data (i * 4 + 1))) 17 + h3) * 5 + 0x0bcaa747;
         h3 = (rotl32 (h3 XOR x86_128_k3 (getblock32 data (i * 4 + 2))) 15 + h4) * 5 + 0x96cd1c35;
         h4 = (rotl32 (h4 XOR x86_128_k4 (getblock32 data (i * 4 + 3))) 13 + h1) * 5 + 0x32ac3b17
     in (h1, h2, h3, h4))"

text \<open>One case label \<open>j\<close> of the tail: byte \<open>j - 1\<close>, shifted, joins the key word if \<open>j\<close> is reached.\<close>

definition tail32 :: "u8 list \<Rightarrow> nat \<Rightarrow> nat \<Rightarrow> nat \<Rightarrow> u32 \<Rightarrow> u32" where
  "tail32 tail r j sh k = (if r \<ge> j then k XOR push_bit sh (ucast (tail ! (j - 1))) else k)"

definition x86_128_tail :: "u8 list \<Rightarrow> nat \<Rightarrow> h4 \<Rightarrow> h4" where
  "x86_128_tail tail r = (\<lambda>(h1, h2, h3, h4).
     let k4 = tail32 tail r 13 0 (tail32 tail r 14 8 (tail32 tail r 15 16 0));
         h4 = (if r \<ge> 13 then h4 XOR x86_128_k4 k4 else h4);
         k3 = tail32 tail r 9 0 (tail32 tail r 10 8 (tail32 tail r 11 16 (tail32 tail r 12 24 0)));
         h3 = (if r \<ge> 9 then h3 XOR x86_128_k3 k3 else h3);
         k2 = tail32 tail r 5 0 (tail32 tail r 6 8 (tail32 tail r 7 16 (tail32 tail r 8 24 0)));
         h2 = (if r \<ge> 5 then h2 XOR x86_128_k2 k2 else h2);
         k1 = tail32 tail r 1 0 (tail32 tail r 2 8 (tail32 tail r 3 16 (tail32 tail r 4 24 0)));
         h1 = (if r \<ge> 1 then h1 XOR x86_128_k1 k1 else h1)
     in (h1, h2, h3, h4))"

definition x86_128_sum :: "h4 \<Rightarrow> h4" where
  "x86_128_sum = (\<lambda>(h1, h2, h3, h4). let h1 = h1 + h2; h1 = h1 + h3; h1 = h1 + h4
     in (h1, h2 + h1, h3 + h1, h4 + h1))"

definition x86_128_final :: "nat \<Rightarrow> h4 \<Rightarrow> h4" where
  "x86_128_final len = (\<lambda>(h1, h2, h3, h4).
     let l = of_nat len;
         (h1, h2, h3, h4) = x86_128_sum (h1 XOR l, h2 XOR l, h3 XOR l, h4 XOR l)
     in x86_128_sum (fmix32 h1, fmix32 h2, fmix32 h3, fmix32 h4))"

definition MurmurHash3_x86_128 :: "u8 list \<Rightarrow> u32 \<Rightarrow> h4" where
  "MurmurHash3_x86_128 key seed =
     (let len = length key; nblocks = len div 16;
          h = fold (x86_128_block key) [0..<nblocks] (seed, seed, seed, seed);
          h = x86_128_tail (drop (nblocks * 16) key) (len mod 16) h
      in x86_128_final len h)"

subsection \<open>MurmurHash3_x64_128\<close>

type_synonym h2 = "u64 \<times> u64"

definition x64_128_k1 :: "u64 \<Rightarrow> u64" where
  "x64_128_k1 k = rotl64 (k * 0x87c37b91114253d5) 31 * 0x4cf5ad432745937f"
definition x64_128_k2 :: "u64 \<Rightarrow> u64" where
  "x64_128_k2 k = rotl64 (k * 0x4cf5ad432745937f) 33 * 0x87c37b91114253d5"

definition x64_128_block :: "u8 list \<Rightarrow> nat \<Rightarrow> h2 \<Rightarrow> h2" where
  "x64_128_block data i = (\<lambda>(h1, h2).
     let h1 = (rotl64 (h1 XOR x64_128_k1 (getblock64 data (i * 2 + 0))) 27 + h2) * 5 + 0x52dce729;
         h2 = (rotl64 (h2 XOR x64_128_k2 (getblock64 data (i * 2 + 1))) 31 + h1) * 5 + 0x38495ab5
     in (h1, h2))"

definition tail64 :: "u8 list \<Rightarrow> nat \<Rightarrow> nat \<Rightarrow> nat \<Rightarrow> u64 \<Rightarrow> u64" where
  "tail64 tail r j sh k = (if r \<ge> j then k XOR push_bit sh (ucast (tail ! (j - 1))) else k)"

definition x64_128_tail :: "u8 list \<Rightarrow> nat \<Rightarrow> h2 \<Rightarrow> h2" where
  "x64_128_tail tail r = (\<lambda>(h1, h2).
     let k2 = fold (\<lambda>(j, sh). tail64 tail r j sh)
           [(15, 48), (14, 40), (13, 32), (12, 24), (11, 16), (10, 8), (9, 0)] 0;
         h2 = (if r \<ge> 9 then h2 XOR x64_128_k2 k2 else h2);
         k1 = fold (\<lambda>(j, sh). tail64 tail r j sh)
           [(8, 56), (7, 48), (6, 40), (5, 32), (4, 24), (3, 16), (2, 8), (1, 0)] 0;
         h1 = (if r \<ge> 1 then h1 XOR x64_128_k1 k1 else h1)
     in (h1, h2))"

definition x64_128_final :: "nat \<Rightarrow> h2 \<Rightarrow> h2" where
  "x64_128_final len = (\<lambda>(h1, h2).
     let h1 = h1 XOR of_nat len; h2 = h2 XOR of_nat len;
         h1 = h1 + h2; h2 = h2 + h1;
         h1 = fmix64 h1; h2 = fmix64 h2;
         h1 = h1 + h2; h2 = h2 + h1
     in (h1, h2))"

definition MurmurHash3_x64_128 :: "u8 list \<Rightarrow> u32 \<Rightarrow> h2" where
  "MurmurHash3_x64_128 key seed =
     (let len = length key; nblocks = len div 16;
          h = fold (x64_128_block key) [0..<nblocks] (ucast seed, ucast seed);
          h = x64_128_tail (drop (nblocks * 16) key) (len mod 16) h
      in x64_128_final len h)"

subsection \<open>HashUtils\<close>

definition bytes_of :: "string \<Rightarrow> u8 list" where
  "bytes_of s = map (\<lambda>c. of_char c) s"

definition fnv1a_32 :: "string \<Rightarrow> u32" where
  "fnv1a_32 str =
     foldl (\<lambda>hash c. (hash XOR of_char c) * 16777619) 2166136261 str"

definition hash32 :: "u8 list \<Rightarrow> u32 \<Rightarrow> u32" where
  "hash32 key seed = MurmurHash3_x86_32 key seed"

definition hashStr32 :: "string \<Rightarrow> u32 \<Rightarrow> u32" where
  "hashStr32 key seed = hash32 (bytes_of key) seed"

subsection \<open>Every mixing step is injective\<close>

lemma word_mult_unit_inj:
  fixes c d :: "'a::len word"
  assumes "c * d = 1" and "x * c = y * c"
  shows "x = y"
proof -
  have "x * c * d = y * c * d" using assms(2) by simp
  then show ?thesis using assms(1) by (simp add: mult.assoc)
qed

lemma drop_bit_self_zero:
  fixes d :: "'a::len word"
  assumes "drop_bit n d = d" and "0 < n"
  shows "d = 0"
proof -
  have "unat d div 2 ^ n = unat d"
    using assms(1) by (metis unat_drop_bit_eq drop_bit_eq_div)
  moreover have "unat d div 2 ^ n < unat d" if "0 < unat d"
    using assms(2) that by (intro div_less_dividend one_less_power) auto
  ultimately have "unat d = 0" by force
  then show ?thesis by (simp add: unat_eq_zero)
qed

lemma xorshift_inj:
  fixes x y :: "'a::len word"
  assumes "x XOR drop_bit n x = y XOR drop_bit n y" and "0 < n"
  shows "x = y"
proof -
  have "drop_bit n (x XOR y) = x XOR y"
  proof (rule bit_word_eqI)
    fix i assume "i < LENGTH('a)"
    have "bit (x XOR drop_bit n x) i = bit (y XOR drop_bit n y) i" using assms(1) by simp
    then show "bit (drop_bit n (x XOR y)) i = bit (x XOR y) i"
      by (auto simp: bit_simps)
  qed
  then have "x XOR y = 0" using assms(2) by (rule drop_bit_self_zero)
  then have "(x XOR y) XOR y = y" by simp
  then show ?thesis by (simp add: xor.assoc)
qed

lemma shifts_rotl:
  fixes x :: "'a::len word"
  assumes "0 < r" and "r < LENGTH('a)"
  shows "push_bit r x OR drop_bit (LENGTH('a) - r) x = word_rotl r x"
proof (rule bit_word_eqI)
  fix n assume n: "n < LENGTH('a)"
  show "bit (push_bit r x OR drop_bit (LENGTH('a) - r) x) n = bit (word_rotl r x) n"
  proof (cases "r \<le> n")
    case True
    then have "(n + (LENGTH('a) - r)) mod LENGTH('a) = n - r"
      using assms n by (simp add: mod_if)
    moreover have "\<not> bit x (LENGTH('a) - r + n)"
      using True assms by (auto dest: bit_imp_le_length)
    ultimately show ?thesis using True n assms by (auto simp: bit_simps)
  next
    case False
    then have "(n + (LENGTH('a) - r)) mod LENGTH('a) = LENGTH('a) - r + n"
      using assms n by simp
    then show ?thesis using False n assms by (auto simp: bit_simps)
  qed
qed

lemma rotl32_eq: "0 < r \<Longrightarrow> r < 32 \<Longrightarrow> rotl32 x r = word_rotl r x"
  unfolding rotl32_def using shifts_rotl [of r x] by simp

lemma rotl64_eq: "0 < r \<Longrightarrow> r < 64 \<Longrightarrow> rotl64 x r = word_rotl r x"
  unfolding rotl64_def using shifts_rotl [of r x] by simp

lemma word_rotl_inj: "word_rotl r x = word_rotl r y \<Longrightarrow> x = y"
  by (metis word_rot_lr)

lemma rotl_inj:
  "0 < r \<Longrightarrow> r < 32 \<Longrightarrow> rotl32 x r = rotl32 y r \<longleftrightarrow> x = y"
  "0 < r \<Longrightarrow> r < 64 \<Longrightarrow> rotl64 u r = rotl64 v r \<longleftrightarrow> u = v"
  by (auto simp: rotl32_eq rotl64_eq dest: word_rotl_inj)

lemma word_xor_cancel [simp]:
  fixes x y k :: "'a::len word"
  shows "x XOR k = y XOR k \<longleftrightarrow> x = y" "k XOR x = k XOR y \<longleftrightarrow> x = y"
proof -
  have "x XOR k = y XOR k \<Longrightarrow> x = y"
    by (metis xor.assoc xor_self_eq xor.right_neutral)
  then show "x XOR k = y XOR k \<longleftrightarrow> x = y" by auto
  then show "k XOR x = k XOR y \<longleftrightarrow> x = y" by (simp add: xor.commute)
qed

text \<open>The multipliers of the sources are odd; each is given with its inverse.\<close>

lemma mult_inj32:
  "x * 0x85ebca6b = y * 0x85ebca6b \<longleftrightarrow> x = y" "x * 0xc2b2ae35 = y * 0xc2b2ae35 \<longleftrightarrow> x = y"
  "x * 0xcc9e2d51 = y * 0xcc9e2d51 \<longleftrightarrow> x = y" "x * 0x1b873593 = y * 0x1b873593 \<longleftrightarrow> x = y"
  "x * 5 = y * 5 \<longleftrightarrow> x = y" for x y :: u32
  using word_mult_unit_inj [of "0x85ebca6b :: u32" "0xa5cb9243" x y] word_mult_unit_inj [of "0xc2b2ae35 :: u32" "0x7ed1b41d" x y]
    word_mult_unit_inj [of "0xcc9e2d51 :: u32" "0xdee13bb1" x y] word_mult_unit_inj [of "0x1b873593 :: u32" "0x56ed309b" x y]
    word_mult_unit_inj [of "5 :: u32" "0xcccccccd" x y]
  by auto

lemma mult_inj64:
  "x * 0xff51afd7ed558ccd = y * 0xff51afd7ed558ccd \<longleftrightarrow> x = y"
  "x * 0xc4ceb9fe1a85ec53 = y * 0xc4ceb9fe1a85ec53 \<longleftrightarrow> x = y"
  "x * 5 = y * 5 \<longleftrightarrow> x = y" for x y :: u64
  using word_mult_unit_inj [of "0xff51afd7ed558ccd :: u64" "0x4f74430c22a54005" x y]
    word_mult_unit_inj [of "0xc4ceb9fe1a85ec53 :: u64" "0x9cb4b2f8129337db" x y]
    word_mult_unit_inj [of "5 :: u64" "0xcccccccccccccccd" x y]
  by auto

lemma fmix32_inj: "fmix32 x = fmix32 y \<longleftrightarrow> x = y"
  by (auto simp: fmix32_def Let_def mult_inj32 dest!: xorshift_inj)

lemma fmix64_inj: "fmix64 x = fmix64 y \<longleftrightarrow> x = y"
  by (auto simp: fmix64_def Let_def mult_inj64 dest!: xorshift_inj)

lemma x86_32_k1_inj: "x86_32_k1 x = x86_32_k1 y \<longleftrightarrow> x = y"
  by (simp add: x86_32_k1_def mult_inj32 rotl_inj)

subsection \<open>Injectivity in the seed\<close>

lemma fold_inj:
  assumes "\<And>i x y. i \<in> set is \<Longrightarrow> f i x = f i y \<Longrightarrow> x = y"
  shows "fold f is x = fold f is y \<Longrightarrow> x = y"
  using assms by (induction "is" arbitrary: x y) (auto, metis)

lemma x86_32_block_inj: "x86_32_block d i x = x86_32_block d i y \<longleftrightarrow> x = y"
  by (simp add: x86_32_block_def Let_def mult_inj32 rotl_inj)

lemma x86_32_tail_inj: "x86_32_tail t r x = x86_32_tail t r y \<longleftrightarrow> x = y"
  by (simp add: x86_32_tail_def Let_def)

lemma x86_32_seed_inj:
  "MurmurHash3_x86_32 key s = MurmurHash3_x86_32 key t \<Longrightarrow> s = t"
  by (auto simp: MurmurHash3_x86_32_def Let_def fmix32_inj x86_32_tail_inj x86_32_block_inj
      dest!: fold_inj [rotated])

lemma mix_sum_inj32:
  fixes h h' g g' c :: u32
  assumes "(h + g) * 5 + c = (h' + g') * 5 + c"
  shows "h + g = h' + g'"
  using assms by (simp only: add_right_cancel mult_inj32(5))

lemma mix_sum_inj64:
  fixes h h' g g' c :: u64
  assumes "(h + g) * 5 + c = (h' + g') * 5 + c"
  shows "h + g = h' + g'"
  using assms by (simp only: add_right_cancel mult_inj64(3))

lemma x86_128_block_inj:
  assumes "x86_128_block d i x = x86_128_block d i y"
  shows "x = y"
proof -
  obtain a1 a2 a3 a4 b1 b2 b3 b4 where xy: "x = (a1, a2, a3, a4)" "y = (b1, b2, b3, b4)"
    by (cases x; cases y) auto
  note eqs = assms [unfolded xy x86_128_block_def Let_def split_conv prod.inject]
  from eqs have "a4 = b4"
    using mix_sum_inj32 [OF eqs [THEN conjunct2, THEN conjunct2, THEN conjunct2]] rotl_inj(1)
    by simp
  moreover from this have "a3 = b3"
    using mix_sum_inj32 [OF eqs [THEN conjunct2, THEN conjunct2, THEN conjunct1]] rotl_inj(1)
    by simp
  moreover from this have "a2 = b2"
    using mix_sum_inj32 [OF eqs [THEN conjunct2, THEN conjunct1]] rotl_inj(1)
    by simp
  moreover from this have "a1 = b1"
    using mix_sum_inj32 [OF eqs [THEN conjunct1]] rotl_inj(1)
    by simp
  ultimately show ?thesis by (simp add: xy)
qed

lemma x86_128_tail_inj: "x86_128_tail t r x = x86_128_tail t r y \<longleftrightarrow> x = y"
  by (cases x; cases y) (auto simp: x86_128_tail_def Let_def split: if_splits)

lemma x86_128_sum_inj: "x86_128_sum x = x86_128_sum y \<longleftrightarrow> x = y"
proof -
  have "x = y" if "x86_128_sum x = x86_128_sum y"
  proof -
    obtain a1 a2 a3 a4 b1 b2 b3 b4 where xy: "x = (a1, a2, a3, a4)" "y = (b1, b2, b3, b4)"
      by (cases x; cases y) auto
    note eqs = that [unfolded xy x86_128_sum_def Let_def split_conv prod.inject]
    then have s: "a1 + a2 + a3 + a4 = b1 + b2 + b3 + b4" by blast
    with eqs have "a2 = b2" "a3 = b3" "a4 = b4" by (metis add_right_cancel)+
    with s show ?thesis by (simp add: xy)
  qed
  then show ?thesis by auto
qed

lemma x86_128_sum_injD: "x86_128_sum x = z \<Longrightarrow> x86_128_sum y = z \<Longrightarrow> x = y"
  using x86_128_sum_inj by metis

lemma x86_128_final_inj: "x86_128_final n x = x86_128_final n y \<longleftrightarrow> x = y"
proof -
  have "x86_128_final n x = x86_128_final n y \<Longrightarrow> x = y"
    by (cases x; cases y) (auto simp: x86_128_final_def Let_def x86_128_sum_inj fmix32_inj
        split: prod.splits dest: x86_128_sum_injD)
  then show ?thesis by auto
qed

lemma x64_128_block_inj:
  assumes "x64_128_block d i x = x64_128_block d i y"
  shows "x = y"
proof -
  obtain a1 a2 b1 b2 where xy: "x = (a1, a2)" "y = (b1, b2)"
    by (cases x; cases y) auto
  note eqs = assms [unfolded xy x64_128_block_def Let_def split_conv prod.inject]
  from eqs have "a2 = b2"
    using mix_sum_inj64 [OF eqs [THEN conjunct2]] rotl_inj(2) by simp
  moreover from this have "a1 = b1"
    using mix_sum_inj64 [OF eqs [THEN conjunct1]] rotl_inj(2) by simp
  ultimately show ?thesis by (simp add: xy)
qed

lemma x64_128_tail_inj: "x64_128_tail t r x = x64_128_tail t r y \<longleftrightarrow> x = y"
  by (cases x; cases y) (auto simp: x64_128_tail_def Let_def split: if_splits)

lemma pair_sum_inj:
  fixes a b a' b' :: u64
  assumes "a + b = a' + b' \<and> b + (a + b) = b' + (a' + b')"
  shows "a = a' \<and> b = b'"
proof -
  from assms have "b = b'" by (metis add_right_cancel)
  with assms show ?thesis by simp
qed

lemma x64_128_final_inj:
  assumes "x64_128_final n x = x64_128_final n y"
  shows "x = y"
proof -
  obtain a1 a2 b1 b2 where xy: "x = (a1, a2)" "y = (b1, b2)"
    by (cases x; cases y) auto
  note eqs = assms [unfolded xy x64_128_final_def Let_def split_conv prod.inject]
  from pair_sum_inj [OF pair_sum_inj [OF eqs, unfolded fmix64_inj]] show ?thesis
    by (simp add: xy)
qed

lemma x86_128_seed_inj:
  "MurmurHash3_x86_128 key s = MurmurHash3_x86_128 key t \<Longrightarrow> s = t"
  by (auto simp: MurmurHash3_x86_128_def Let_def x86_128_final_inj x86_128_tail_inj
      dest!: fold_inj [rotated] dest: x86_128_block_inj)

lemma x64_128_seed_inj:
  assumes "MurmurHash3_x64_128 key s = MurmurHash3_x64_128 key t"
  shows "s = t"
proof -
  have "fold (x64_128_block key) [0..<length key div 16] (ucast s, ucast s) =
        fold (x64_128_block key) [0..<length key div 16] (ucast t, ucast t)"
    using x64_128_final_inj [OF assms [unfolded MurmurHash3_x64_128_def Let_def]]
    by (simp only: x64_128_tail_inj)
  then have "(ucast s :: u64) = ucast t"
    by (auto dest!: fold_inj [rotated] dest: x64_128_block_inj)
  then have "unat (ucast s :: u64) = unat (ucast t :: u64)" by simp
  then show ?thesis by (simp add: word_unat_eq_iff)
qed

subsection \<open>Injectivity in the key, for keys of one block\<close>

lemma getblock32_single: "length key = 4 \<Longrightarrow> getblock32 key 0 = le_word key"
  by (simp add: getblock32_def)

lemma x86_32_one_block:
  assumes "length key = 4"
  shows "MurmurHash3_x86_32 key seed =
    fmix32 ((rotl32 (seed XOR x86_32_k1 (le_word key)) 13 * 5 + 0xe6546b64) XOR 4)"
  using assms
  by (simp add: MurmurHash3_x86_32_def Let_def x86_32_block_def x86_32_tail_def getblock32_single)

subsection \<open>Properties\<close>

text \<open>For a fixed key every one of the three MurmurHash3 functions is injective in its seed: two
  seeds give the same hash only when they are equal.\<close>

theorem murmur_seed_injective:
  "(MurmurHash3_x86_32 key s = MurmurHash3_x86_32 key t \<longleftrightarrow> s = t) \<and>
   (MurmurHash3_x86_128 key s = MurmurHash3_x86_128 key t \<longleftrightarrow> s = t) \<and>
   (MurmurHash3_x64_128 key s = MurmurHash3_x64_128 key t \<longleftrightarrow> s = t)"
  using x86_32_seed_inj x86_128_seed_inj x64_128_seed_inj by metis

text \<open>On keys of four bytes the 32-bit hash has no collisions under any seed.\<close>

theorem hash32_four_byte_keys:
  assumes "length k = 4" and "length k' = 4"
  shows "hash32 k seed = hash32 k' seed \<longleftrightarrow> k = k'"
proof -
  have "(le_word k :: u32) = le_word k' \<longleftrightarrow> k = k'"
    using assms le_word_inj [of k k', where 'a = 32] by auto
  then show ?thesis
    using assms
    by (simp add: hash32_def x86_32_one_block fmix32_inj mult_inj32(5) rotl_inj x86_32_k1_inj)
qed

theorem hash32_four_byte_keys_witness:
  "hash32 [1, 2, 3, 4] 7 \<noteq> hash32 [1, 2, 3, 5] 7"
  using hash32_four_byte_keys [of "[1, 2, 3, 4]" "[1, 2, 3, 5]" 7] by simp

end
