(* ===== verification/Journal_Base.thy ===== *)
theory Journal_Base
  imports String_Utils Revoq_Hash
begin

section \<open>Locations, layout and page file names (include/revoq/JournalBase.h)\<close>

text \<open>
  The enumerations and their names, the \<^verbatim>\<open>Location\<close> of a journal with its unique name and hash, the
  directory layout, and \<^verbatim>\<open>Locator::listPageId\<close>, which recovers the page numbers of a journal from
  the names of the files in its directory.  The directory listing is an argument, in the order
  \<^verbatim>\<open>directory_iterator\<close> gives it.  The page file name is the one \<^verbatim>\<open>Page::getPagePath\<close> builds.
\<close>

subsection \<open>Enumerations\<close>

datatype Mode = Mode_UNKNOWN | LIVE | REPLAY

datatype Category =
  Category_UNKNOWN | MARKETDATA | RESEARCHDATA | EXECUTION | LOG | SYSTEM | STRATEGY

datatype Layout = Layout_UNKNOWN | JOURNAL | Layout_LOG

definition str2mode :: "string \<rightharpoonup> Mode" where
  "str2mode = map_of [(''live'', LIVE), (''replay'', REPLAY)]"

definition str2category :: "string \<rightharpoonup> Category" where
  "str2category = map_of [(''marketdata'', MARKETDATA), (''researchdata'', RESEARCHDATA),
     (''executiondata'', EXECUTION), (''log'', LOG)]"

fun categoryToStr :: "Category \<Rightarrow> string" where
  "categoryToStr MARKETDATA = ''marketdata''"
| "categoryToStr RESEARCHDATA = ''researchdata''"
| "categoryToStr EXECUTION = ''executiondata''"
| "categoryToStr LOG = ''log''"
| "categoryToStr _ = ''unknown''"

fun modeToStr :: "Mode \<Rightarrow> string" where
  "modeToStr LIVE = ''live''"
| "modeToStr REPLAY = ''replay''"
| "modeToStr _ = ''unknown''"

fun layoutToStr :: "Layout \<Rightarrow> string" where
  "layoutToStr JOURNAL = ''journal''"
| "layoutToStr Layout_LOG = ''log''"
| "layoutToStr _ = ''unknown''"

text \<open>\<^verbatim>\<open>enum class MsgType : int32_t\<close>: any 32-bit value can be cast to it; these are the named ones.\<close>

definition MsgType_Invalid :: u32 where "MsgType_Invalid = 0"
definition MsgType_Trade :: u32 where "MsgType_Trade = 100"
definition MsgType_MarketDepth20 :: u32 where "MsgType_MarketDepth20 = 101"
definition MsgType_BBO :: u32 where "MsgType_BBO = 102"
definition MsgType_BookReset :: u32 where "MsgType_BookReset = 103"
definition MsgType_PageEnd :: u32 where "MsgType_PageEnd = 10000"
definition MsgType_SessionStart :: u32 where "MsgType_SessionStart = 10001"
definition MsgType_SessionEnd :: u32 where "MsgType_SessionEnd = 10002"
definition MsgType_SimulationStart :: u32 where "MsgType_SimulationStart = 10003"
definition MsgType_SimulationEnd :: u32 where "MsgType_SimulationEnd = 10004"

text \<open>The mode and category names the Python binding accepts (\<^verbatim>\<open>parse_mode\<close>, \<^verbatim>\<open>parse_category\<close>).\<close>

definition parse_mode :: "string \<Rightarrow> error + Mode" where
  "parse_mode s = (case str2mode s of None \<Rightarrow> Inl (Invalid_argument ''Unknown mode'') | Some m \<Rightarrow> Inr m)"

definition parse_category :: "string \<Rightarrow> error + Category" where
  "parse_category s =
     (case str2category s of None \<Rightarrow> Inl (Invalid_argument ''Unknown category'') | Some c \<Rightarrow> Inr c)"

subsection \<open>Locations\<close>

record Location =
  loc_mode :: Mode
  loc_category :: Category
  loc_group :: string
  loc_name :: string
  loc_uname :: string
  loc_uid :: u32
  loc_home :: string

definition makeUname :: "string \<Rightarrow> string \<Rightarrow> string \<Rightarrow> string \<Rightarrow> string" where
  "makeUname cat_str g n mod_str = cat_str @ ''/'' @ g @ ''/'' @ n @ ''/'' @ mod_str"

definition Location_new :: "Mode \<Rightarrow> Category \<Rightarrow> string \<Rightarrow> string \<Rightarrow> string \<Rightarrow> Location" where
  "Location_new m c g n home =
     (let uname = makeUname (categoryToStr c) g n (modeToStr m) in
      \<lparr>loc_mode = m, loc_category = c, loc_group = g, loc_name = n, loc_uname = uname,
       loc_uid = hashStr32 uname 0, loc_home = home\<rparr>)"

subsection \<open>Directory layout\<close>

text \<open>\<^verbatim>\<open>std::filesystem::path::operator/\<close> on POSIX paths.\<close>

definition path_append :: "string \<Rightarrow> string \<Rightarrow> string" where
  "path_append p q =
     (if q \<noteq> [] \<and> hd q = CHR ''/'' then q
      else if p = [] \<or> last p = CHR ''/'' then p @ q
      else p @ ''/'' @ q)"

definition layoutDir :: "Location \<Rightarrow> Layout \<Rightarrow> string" where
  "layoutDir loc l =
     foldl path_append (loc_home loc)
       [categoryToStr (loc_category loc), loc_group loc, loc_name loc, layoutToStr l,
        modeToStr (loc_mode loc)]"

subsection \<open>Page file names\<close>

definition hex_digit :: "nat \<Rightarrow> char" where
  "hex_digit d = (if d < 10 then char_of (48 + d) else char_of (87 + d))"

text \<open>\<^verbatim>\<open>fmt::format("{:08x}", dest_id)\<close>\<close>

definition hex08 :: "u32 \<Rightarrow> string" where
  "hex08 w = map (\<lambda>i. hex_digit (unat (take_bit 4 (drop_bit (4 * i) w)))) (rev [0..<8])"

definition page_file_name :: "u32 \<Rightarrow> int \<Rightarrow> string" where
  "page_file_name dest_id page_id = hex08 dest_id @ ''.'' @ show_int page_id @ ''.journal''"

definition getPagePath :: "Location \<Rightarrow> u32 \<Rightarrow> int \<Rightarrow> string" where
  "getPagePath loc dest_id page_id =
     path_append (layoutDir loc JOURNAL) (page_file_name dest_id page_id)"

text \<open>
  \<^verbatim>\<open>std::stoi\<close>: leading white space, a sign, digits; whatever follows is ignored.  It throws when
  there is no digit or when the value is not an \<^verbatim>\<open>int\<close>.
\<close>

definition stoi :: "string \<Rightarrow> error + int" where
  "stoi str =
     (let s = dropWhile (\<lambda>c. c \<in> set ws) str;
          neg = (s \<noteq> [] \<and> hd s = CHR ''-'');
          t = (if s \<noteq> [] \<and> (hd s = CHR ''-'' \<or> hd s = CHR ''+'') then tl s else s);
          ds = takeWhile is_digit t;
          v = (if neg then - digits_value ds else digits_value ds)
      in if ds = [] then Inl (Invalid_argument ''stoi'')
         else if - (2 ^ 31) \<le> v \<and> v < 2 ^ 31 then Inr v else Inl (Out_of_range ''stoi''))"

text \<open>
  The loop of \<^verbatim>\<open>listPageId\<close>.  A file whose name is the destination alone has no second part, and
  \<^verbatim>\<open>parts[1]\<close> is then an access past the end of the vector.
\<close>

fun listPageId_loop :: "string \<Rightarrow> string list \<Rightarrow> int list \<Rightarrow> error + int list" where
  "listPageId_loop hex [] page_ids = Inr page_ids"
| "listPageId_loop hex (name # names) page_ids =
     (let parts = split name CHR ''.''
      in if parts ! 0 = hex then
           (if length parts < 2 then Inl Segv
            else case stoi (parts ! 1) of
                   Inl e \<Rightarrow> Inl e
                 | Inr i \<Rightarrow> listPageId_loop hex names (page_ids @ [i]))
         else listPageId_loop hex names page_ids)"

definition listPageId :: "u32 \<Rightarrow> string list \<Rightarrow> error + int list" where
  "listPageId dest_id names =
     (case listPageId_loop (hex08 dest_id) names [] of Inl e \<Rightarrow> Inl e | Inr ids \<Rightarrow> Inr (sort ids))"

subsection \<open>Names and numbers are recovered\<close>

lemma str2mode_modeToStr: "str2mode (modeToStr m) = (if m = Mode_UNKNOWN then None else Some m)"
  by (cases m) (simp_all add: str2mode_def)

lemma str2category_categoryToStr:
  "str2category (categoryToStr c) =
     (if c \<in> {MARKETDATA, RESEARCHDATA, EXECUTION, LOG} then Some c else None)"
  by (cases c) (simp_all add: str2category_def)

lemma ascii_hex_digit:
  "d < 16 \<Longrightarrow> (of_char (hex_digit d) :: nat) = (if d < 10 then 48 + d else 87 + d)"
  by (simp add: hex_digit_def)

lemma hex_digit_inj:
  assumes "d < 16" "e < 16" "hex_digit d = hex_digit e"
  shows "d = e"
proof -
  have "(if d < 10 then 48 + d else 87 + d) = (if e < 10 then 48 + e else 87 + e)"
    using ascii_hex_digit [OF assms(1)] ascii_hex_digit [OF assms(2)] assms(3) by metis
  then show ?thesis by (simp split: if_splits)
qed

lemma hex_digit_not_dot:
  assumes "d < 16"
  shows "hex_digit d \<noteq> CHR ''.''"
proof
  assume "hex_digit d = CHR ''.''"
  then have "(if d < 10 then 48 + d else 87 + d) = of_char CHR ''.''"
    using ascii_hex_digit [OF assms] by metis
  then show False by (simp split: if_splits)
qed

lemma unat_nibble: "unat (take_bit 4 w :: u32) < 16"
  using take_bit_nat_less_exp [of 4 "unat w"] by (simp add: unsigned_take_bit_eq)

lemma hex08_inj: "hex08 v = hex08 w \<Longrightarrow> v = w"
proof -
  assume eq: "hex08 v = hex08 w"
  have nib: "take_bit 4 (drop_bit (4 * i) v) = take_bit 4 (drop_bit (4 * i) w)" if "i < 8" for i
  proof -
    have "hex_digit (unat (take_bit 4 (drop_bit (4 * i) v))) =
          hex_digit (unat (take_bit 4 (drop_bit (4 * i) w)))"
      using eq that by (auto simp: hex08_def map_eq_conv)
    then show ?thesis using hex_digit_inj unat_nibble by (metis word_unat_eq_iff)
  qed
  show ?thesis
  proof (rule bit_word_eqI)
    fix n assume n: "n < LENGTH(32)"
    then have "n div 4 < 8" by simp
    from nib [OF this] have "bit (take_bit 4 (drop_bit (4 * (n div 4)) v)) (n mod 4) =
       bit (take_bit 4 (drop_bit (4 * (n div 4)) w)) (n mod 4)" by simp
    then show "bit v n = bit w n" by (simp add: bit_simps)
  qed
qed

lemma hex08_no_dot: "CHR ''.'' \<notin> set (hex08 w)"
proof
  assume "CHR ''.'' \<in> set (hex08 w)"
  then obtain i where "CHR ''.'' = hex_digit (unat (take_bit 4 (drop_bit (4 * i) w)))"
    by (auto simp: hex08_def)
  then show False using hex_digit_not_dot [OF unat_nibble] by metis
qed

lemma show_nat_no_dot: "CHR ''.'' \<notin> set (show_nat n)"
  using show_nat_digits [of n] digit_not_sign [of "CHR ''.''"] by blast

lemma show_int_no_dot: "CHR ''.'' \<notin> set (show_int i)"
  by (simp add: show_int_def show_nat_no_dot)

lemma takeWhile_show_nat [simp]: "takeWhile is_digit (show_nat n) = show_nat n"
  using show_nat_digits [of n] by (simp only: takeWhile_eq_all_conv)

lemma split_page_file_name:
  "split (page_file_name d i) CHR ''.'' = [hex08 d, show_int i, ''journal'']"
proof -
  have "page_file_name d i = join [hex08 d, show_int i, ''journal''] [CHR ''.'']"
    by (simp add: page_file_name_def join_Cons)
  then show ?thesis
    using split_ref_join [of "[hex08 d, show_int i, ''journal'']" "CHR ''.''"]
    by (simp add: split_eq_ref hex08_no_dot show_int_no_dot)
qed

lemma ws_no_digit_or_minus: "c \<in> set ws \<Longrightarrow> \<not> is_digit c \<and> c \<noteq> CHR ''-''"
  by (auto simp: ws_def is_digit_def ascii_def)

lemma show_nat_hd: "is_digit (hd (show_nat n))"
  using show_nat_digits [of n] by (cases "show_nat n") auto

lemma stoi_show_int:
  assumes "- (2 ^ 31) \<le> i" and "i < 2 ^ 31"
  shows "stoi (show_int i) = Inr i"
proof -
  let ?n = "show_nat (nat \<bar>i\<bar>)"
  have hd: "is_digit (hd ?n)" by (rule show_nat_hd)
  have "hd (show_int i) \<notin> set ws"
    using hd ws_no_digit_or_minus by (auto simp: show_int_def split: if_splits)
  then have dw: "dropWhile (\<lambda>c. c \<in> set ws) (show_int i) = show_int i"
    by (cases "show_int i") auto
  have "hd ?n \<noteq> CHR ''-''" "hd ?n \<noteq> CHR ''+''"
    using digit_not_sign [OF hd] by auto
  with assms show ?thesis
    unfolding stoi_def Let_def dw
    by (auto simp: show_int_def digits_value_show_nat)
qed

definition int32_range :: "int \<Rightarrow> bool" where
  "int32_range i \<longleftrightarrow> - (2 ^ 31) \<le> i \<and> i < 2 ^ 31"

lemma listPageId_loop_names:
  "\<forall>(d, i) \<in> set es. int32_range i \<Longrightarrow>
   listPageId_loop (hex08 dest) (map (\<lambda>(d, i). page_file_name d i) es) acc =
     Inr (acc @ map snd (filter (\<lambda>(d, i). d = dest) es))"
proof (induction es arbitrary: acc)
  case (Cons e es)
  obtain d i where e: "e = (d, i)" by (cases e)
  with Cons.prems have "stoi (show_int i) = Inr i"
    by (auto simp: int32_range_def intro!: stoi_show_int)
  moreover have "hex08 d = hex08 dest \<longleftrightarrow> d = dest" using hex08_inj by auto
  ultimately show ?case
    using Cons e by (auto simp: split_page_file_name Let_def)
qed simp

lemma listPageId_names:
  "\<forall>(d, i) \<in> set es. int32_range i \<Longrightarrow>
   listPageId dest (map (\<lambda>(d, i). page_file_name d i) es) =
     Inr (sort (map snd (filter (\<lambda>(d, i). d = dest) es)))"
  by (simp add: listPageId_def listPageId_loop_names)

subsection \<open>Properties\<close>

text \<open>C28: from a directory of page files of several destinations, \<^verbatim>\<open>listPageId\<close> recovers exactly the
  page numbers of the requested destination, in ascending order, whatever order the directory has.\<close>

theorem listPageId_recovers:
  assumes "list_all (\<lambda>(d, i). int32_range i) es"
  shows "listPageId dest (map (\<lambda>(d, i). page_file_name d i) es) =
    Inr (sort (map snd (filter (\<lambda>(d, i). d = dest) es)))"
  using assms by (intro listPageId_names) (simp add: list_all_iff)

theorem listPageId_recovers_witness:
  "listPageId 7 (map (\<lambda>(d, i). page_file_name d i) [(7, 12), (9, 1), (7, 2)]) = Inr [2, 12]"
  using listPageId_recovers [of "[(7, 12), (9, 1), (7, 2)]" 7] by (simp add: int32_range_def)

text \<open>A mode or category name is parsed to the value that prints it; the values without a name of
  their own, printed \<open>unknown\<close>, are rejected.\<close>

theorem mode_category_names:
  "str2mode (modeToStr m) = (if m = Mode_UNKNOWN then None else Some m) \<and>
   str2category (categoryToStr c) =
     (if c \<in> {MARKETDATA, RESEARCHDATA, EXECUTION, LOG} then Some c else None)"
  by (rule conjI [OF str2mode_modeToStr str2category_categoryToStr])

text \<open>Locations of the categories without a name of their own collide: a \<open>SYSTEM\<close> and a
  \<open>STRATEGY\<close> location with the same group, name and mode have the same unique name, the same hash
  and the same journal directory.\<close>

theorem unnamed_categories_collide:
  "loc_uname (Location_new m SYSTEM g n h) = loc_uname (Location_new m STRATEGY g n h) \<and>
   loc_uid (Location_new m SYSTEM g n h) = loc_uid (Location_new m STRATEGY g n h) \<and>
   getPagePath (Location_new m SYSTEM g n h) dest i = getPagePath (Location_new m STRATEGY g n h) dest i"
  by (simp add: Location_new_def getPagePath_def layoutDir_def Let_def)

end
