(* ===== verification/Journal_Frame.thy ===== *)
theory Journal_Frame
  imports Page_Memory
begin

section \<open>Frames (include/revoq/JournalFrame.h)\<close>

text \<open>
  The 32-byte frame header, the alignment arithmetic, and the accessors of class \<^verbatim>\<open>Frame\<close>.  A
  \<^verbatim>\<open>Frame\<close> is a pointer into a page, here a page image and an offset.  The theory ends with the
  snapshot of a frame that the Python binding takes (\<^verbatim>\<open>FrameSnap\<close>), which the rest of the
  development uses as the abstract view of a committed frame.
\<close>

subsection \<open>Constants and flags\<close>

definition JOURNAL_PAGE_VERSION :: u32 where
  "JOURNAL_PAGE_VERSION = 2"

definition FRAME_ALIGNMENT :: u64 where
  "FRAME_ALIGNMENT = 64"

definition sizeof_FrameHeader :: nat where
  "sizeof_FrameHeader = 32"

definition FRAME_NORMAL :: u16 where "FRAME_NORMAL = 0x0000"
definition FRAME_COMPRESSED :: u16 where "FRAME_COMPRESSED = 0x0001"
definition FRAME_HIGH_PRIORITY :: u16 where "FRAME_HIGH_PRIORITY = 0x0002"
definition FRAME_RETRY :: u16 where "FRAME_RETRY = 0x0004"
definition FRAME_CORRUPTED :: u16 where "FRAME_CORRUPTED = 0x0008"

lemmas frame_constants = JOURNAL_PAGE_VERSION_def FRAME_ALIGNMENT_def sizeof_FrameHeader_def
  FRAME_NORMAL_def FRAME_COMPRESSED_def FRAME_HIGH_PRIORITY_def FRAME_RETRY_def FRAME_CORRUPTED_def

lemmas frame_sizes [simp] = sizeof_FrameHeader_def FRAME_ALIGNMENT_def

subsection \<open>The header in memory\<close>

text \<open>
  The packed layout: \<^verbatim>\<open>length\<close> at 0, \<^verbatim>\<open>msg_type\<close> at 4, \<^verbatim>\<open>flags\<close> at 6, \<^verbatim>\<open>sequence\<close> at 8,
  \<^verbatim>\<open>gen_time\<close> at 16, \<^verbatim>\<open>event_time\<close> at 24.
\<close>

record FrameHeader =
  fh_length :: u32
  fh_msg_type :: u16
  fh_flags :: u16
  fh_sequence :: u64
  fh_gen_time :: u64
  fh_event_time :: u64

definition FrameHeader_at :: "memory \<Rightarrow> nat \<Rightarrow> FrameHeader" where
  "FrameHeader_at m off =
     \<lparr>fh_length = load_u32 m off, fh_msg_type = load_u16 m (off + 4),
      fh_flags = load_u16 m (off + 6), fh_sequence = load_u64 m (off + 8),
      fh_gen_time = load_u64 m (off + 16), fh_event_time = load_u64 m (off + 24)\<rparr>"

text \<open>\<^verbatim>\<open>new (p) FrameHeader{}\<close> value-initialises the 32 bytes at \<open>off\<close>.\<close>

definition new_FrameHeader :: "memory \<Rightarrow> nat \<Rightarrow> memory" where
  "new_FrameHeader m off = store_bytes m off (replicate sizeof_FrameHeader 0)"

subsection \<open>Alignment\<close>

definition alignUp :: "u64 \<Rightarrow> u64 \<Rightarrow> u64" where
  "alignUp value alignment = (value + alignment - 1) div alignment * alignment"

definition framePhysicalLength :: "u32 \<Rightarrow> u32" where
  "framePhysicalLength logical_length = ucast (alignUp (ucast logical_length) FRAME_ALIGNMENT)"

subsection \<open>Accessors of class Frame\<close>

definition getFrameLength :: "memory \<Rightarrow> nat \<Rightarrow> u32" where
  "getFrameLength m off = load_u32 m off"

definition getMsgType :: "memory \<Rightarrow> nat \<Rightarrow> int" where
  "getMsgType m off = uint (load_u16 m (off + 4))"

definition getFlags :: "memory \<Rightarrow> nat \<Rightarrow> u16" where
  "getFlags m off = load_u16 m (off + 6)"

definition getSequence :: "memory \<Rightarrow> nat \<Rightarrow> u64" where
  "getSequence m off = load_u64 m (off + 8)"

definition getGenTime :: "memory \<Rightarrow> nat \<Rightarrow> u64" where
  "getGenTime m off = load_u64 m (off + 16)"

definition getEventTime :: "memory \<Rightarrow> nat \<Rightarrow> u64" where
  "getEventTime m off = load_u64 m (off + 24)"

definition hasData_with :: "u32 \<Rightarrow> int \<Rightarrow> bool" where
  "hasData_with frame_length msg_type \<longleftrightarrow> frame_length > 0 \<and> msg_type > 0"

definition hasData :: "memory \<Rightarrow> nat \<Rightarrow> bool" where
  "hasData m off = hasData_with (getFrameLength m off) (getMsgType m off)"

definition getDataLength_of :: "u32 \<Rightarrow> u32" where
  "getDataLength_of frame_length =
     (if unat frame_length < sizeof_FrameHeader then 0
      else frame_length - of_nat sizeof_FrameHeader)"

definition getDataLength :: "memory \<Rightarrow> nat \<Rightarrow> u32" where
  "getDataLength m off = getDataLength_of (getFrameLength m off)"

definition isCompressed :: "memory \<Rightarrow> nat \<Rightarrow> bool" where
  "isCompressed m off \<longleftrightarrow> getFlags m off AND FRAME_COMPRESSED \<noteq> 0"

definition isHighPriority :: "memory \<Rightarrow> nat \<Rightarrow> bool" where
  "isHighPriority m off \<longleftrightarrow> getFlags m off AND FRAME_HIGH_PRIORITY \<noteq> 0"

text \<open>\<^verbatim>\<open>dataAsBytes\<close> is the address after the header; \<^verbatim>\<open>dataAsString\<close> the payload bytes.\<close>

definition dataAsBytes :: "nat \<Rightarrow> nat" where
  "dataAsBytes off = off + sizeof_FrameHeader"

definition dataAsString :: "memory \<Rightarrow> nat \<Rightarrow> u8 list" where
  "dataAsString m off = load_bytes m (dataAsBytes off) (unat (getDataLength m off))"

text \<open>\<^verbatim>\<open>copyData<T>\<close> copies the object representation of its argument behind the header.\<close>

definition copyData :: "memory \<Rightarrow> nat \<Rightarrow> u8 list \<Rightarrow> memory" where
  "copyData m off obj = store_bytes m (dataAsBytes off) obj"

definition moveToNext :: "nat \<Rightarrow> u32 \<Rightarrow> nat" where
  "moveToNext off frame_length = off + unat (framePhysicalLength frame_length)"

text \<open>\<^verbatim>\<open>setDataLength\<close> adds in \<^verbatim>\<open>size_t\<close> and stores the low 32 bits.\<close>

definition setDataLength :: "memory \<Rightarrow> nat \<Rightarrow> u32 \<Rightarrow> memory" where
  "setDataLength m off len =
     store_u32 m off (ucast (of_nat sizeof_FrameHeader + ucast len :: u64))"

definition setMsgType :: "memory \<Rightarrow> nat \<Rightarrow> u32 \<Rightarrow> memory" where
  "setMsgType m off msg_type = store_u16 m (off + 4) (ucast msg_type)"

definition setFlags :: "memory \<Rightarrow> nat \<Rightarrow> u16 \<Rightarrow> memory" where
  "setFlags m off fl = store_u16 m (off + 6) fl"

definition setSequence :: "memory \<Rightarrow> nat \<Rightarrow> u64 \<Rightarrow> memory" where
  "setSequence m off seq = store_u64 m (off + 8) seq"

definition setGenTime :: "memory \<Rightarrow> nat \<Rightarrow> u64 \<Rightarrow> memory" where
  "setGenTime m off t = store_u64 m (off + 16) t"

definition setEventTime :: "memory \<Rightarrow> nat \<Rightarrow> u64 \<Rightarrow> memory" where
  "setEventTime m off t = store_u64 m (off + 24) t"

lemmas frame_getters = getFrameLength_def getMsgType_def getFlags_def getSequence_def
  getGenTime_def getEventTime_def getDataLength_def

lemmas frame_setters = setDataLength_def setMsgType_def setFlags_def setSequence_def
  setGenTime_def setEventTime_def copyData_def

subsection \<open>Frame snapshots (python/revoq_py.cpp)\<close>

record FrameSnap =
  snap_sequence :: u64
  snap_msg_type :: int
  snap_gen_time :: u64
  snap_event_time :: u64
  snap_flags :: u16
  snap_payload :: "u8 list"

definition FrameSnap_from :: "memory \<Rightarrow> nat \<Rightarrow> FrameSnap" where
  "FrameSnap_from m off =
     (let n = getDataLength m off in
      \<lparr>snap_sequence = getSequence m off, snap_msg_type = getMsgType m off,
       snap_gen_time = getGenTime m off, snap_event_time = getEventTime m off,
       snap_flags = getFlags m off,
       snap_payload = (if n > 0 then load_bytes m (dataAsBytes off) (unat n) else [])\<rparr>)"

subsection \<open>Alignment arithmetic\<close>

lemma unat_alignUp_64: "unat (alignUp (ucast (l :: u32)) 64) = (unat l + 63) div 64 * 64"
proof -
  have l: "unat l < 4294967296" by (rule unat_u32_less)
  have sum: "unat (ucast l + 64 - 1 :: u64) = unat l + 63"
    using l by (simp add: unat_word_ariths)
  have "unat (alignUp (ucast l) 64) = (unat l + 63) div 64 * 64 mod 2 ^ 64"
    by (simp only: alignUp_def unat_word_ariths unat_div_distrib sum) (simp add: mod_simps)
  moreover have "(unat l + 63) div 64 * 64 \<le> unat l + 63" by simp
  ultimately show ?thesis using l by simp
qed

lemma unat_framePhysicalLength:
  "unat (framePhysicalLength l) = (unat l + 63) div 64 * 64 mod 2 ^ 32"
  by (simp only: framePhysicalLength_def FRAME_ALIGNMENT_def unat_ucast_u64_u32 unat_alignUp_64)

definition stride_of :: "nat \<Rightarrow> nat" where
  "stride_of n = (n + 63) div 64 * 64"

lemma stride_of_bounds:
  shows stride_of_ge: "n \<le> stride_of n" and stride_of_le: "stride_of n \<le> n + 63"
    and stride_of_mod: "stride_of n mod 64 = 0"
  by (simp_all add: stride_of_def)

lemma stride_of_pos: "0 < n \<Longrightarrow> 64 \<le> stride_of n"
  by (simp add: stride_of_def)

lemma stride_of_mono: "n \<le> k \<Longrightarrow> stride_of n \<le> stride_of k"
  unfolding stride_of_def by (intro mult_le_mono1 div_le_mono) simp

lemma framePhysicalLength_stride:
  "unat l \<le> 4294967232 \<Longrightarrow> unat (framePhysicalLength l) = stride_of (unat l)"
  using stride_of_le [of "unat l"] stride_of_mono [of "unat l" 4294967232]
  by (simp add: unat_framePhysicalLength stride_of_def)

subsection \<open>Reading back a frame\<close>

definition frame_at :: "memory \<Rightarrow> nat \<Rightarrow> FrameSnap \<Rightarrow> bool" where
  "frame_at m off f \<longleftrightarrow> FrameSnap_from m off = f \<and>
     unat (getFrameLength m off) = sizeof_FrameHeader + length (snap_payload f)"

definition frame_stride :: "FrameSnap \<Rightarrow> nat" where
  "frame_stride f = stride_of (sizeof_FrameHeader + length (snap_payload f))"

lemma unat_getDataLength:
  "32 \<le> unat (getFrameLength m off) \<Longrightarrow>
   unat (getDataLength m off) = unat (getFrameLength m off) - 32"
  by (simp add: getDataLength_def getDataLength_of_def unat_sub_if_size word_le_nat_alt)

lemma FrameSnap_same_on:
  assumes "same_on m m' off (off + 32)"
    and "same_on m m' off (off + 32 + unat (getDataLength m off))"
  shows "FrameSnap_from m' off = FrameSnap_from m off"
proof -
  have h: "same_on m m' (off + k) (off + k + n)" if "k + n \<le> 32" for k n
    using assms(1) that by (rule_tac same_on_sub) auto
  have eqs: "load_u32 m' off = load_u32 m off" "load_u16 m' (off + 4) = load_u16 m (off + 4)"
    "load_u16 m' (off + 6) = load_u16 m (off + 6)" "load_u64 m' (off + 8) = load_u64 m (off + 8)"
    "load_u64 m' (off + 16) = load_u64 m (off + 16)" "load_u64 m' (off + 24) = load_u64 m (off + 24)"
    using h [of 0 4] h [of 4 2] h [of 6 2] h [of 8 8] h [of 16 8] h [of 24 8]
    by (simp_all add: load_int_same_on)
  then have dl: "getDataLength m' off = getDataLength m off"
    by (simp add: getDataLength_def getFrameLength_def)
  have "load_bytes m' (off + 32) (unat (getDataLength m off)) =
        load_bytes m (off + 32) (unat (getDataLength m off))"
    using assms(2) by (intro load_bytes_same_on) (auto elim: same_on_sub)
  with eqs dl show ?thesis
    by (simp add: FrameSnap_from_def Let_def dataAsBytes_def frame_getters(2-6))
qed

lemma frame_at_same_on:
  assumes "frame_at m off f" and "same_on m m' off (off + 32 + length (snap_payload f))"
  shows "frame_at m' off f"
proof -
  from assms(1) have len: "unat (getFrameLength m off) = 32 + length (snap_payload f)"
    and snap: "FrameSnap_from m off = f"
    by (simp_all add: frame_at_def)
  then have "unat (getDataLength m off) = length (snap_payload f)"
    by (simp add: unat_getDataLength)
  moreover have "same_on m m' off (off + 32)" "same_on m m' off (off + 4)"
    using assms(2) by (auto elim: same_on_sub)
  ultimately show ?thesis
    using assms(2) len snap FrameSnap_same_on [of m m' off]
    by (simp add: frame_at_def getFrameLength_def load_int_same_on)
qed

lemma frame_at_moveToNext:
  "frame_at m off f \<Longrightarrow> length (snap_payload f) \<le> 4294967200 \<Longrightarrow>
   moveToNext off (getFrameLength m off) = off + frame_stride f"
  by (simp add: frame_at_def moveToNext_def frame_stride_def framePhysicalLength_stride)

lemma frame_at_hasData:
  "frame_at m off f \<Longrightarrow> hasData m off \<longleftrightarrow> snap_msg_type f > 0"
  by (auto simp: frame_at_def hasData_def hasData_with_def FrameSnap_from_def Let_def
      word_gt_0_no word_neq_0_conv [symmetric] unat_gt_0 [symmetric] simp del: unat_gt_0)

lemma frame_stride_bounds: "64 \<le> frame_stride f" "32 + length (snap_payload f) \<le> frame_stride f"
  "frame_stride f mod 64 = 0"
  unfolding frame_stride_def
  using stride_of_ge [of "sizeof_FrameHeader + length (snap_payload f)"]
  by (auto intro!: stride_of_pos stride_of_mod)

end
