(* ===== verification/Mmap_Buffer.thy ===== *)
theory Mmap_Buffer
  imports Page_Memory
begin

section \<open>Mapped files (src/MmapBuffer.cpp)\<close>

text \<open>
  The kernel state a journal touches: the files of its directory (by key), the number of open file
  descriptors, and the live mappings, named by the file they map.  A mapping is shared, so the bytes
  of a file and of every mapping of it are the same.  Whether a system call succeeds is not decided
  by the program: each operation takes an \<open>os\<close> record that fixes the outcome of every call it may
  make.  The Linux branches of the sources are modelled; \<^verbatim>\<open>madvise\<close> calls whose failure is only
  logged have no effect on the state and do not appear.
\<close>

record page_file =
  pf_size :: nat
  pf_mem :: memory

record 'k kernel =
  k_files :: "('k \<times> page_file) list"
  k_fds :: nat
  k_maps :: "'k list"

record os_env =
  os_open :: bool
  os_fallocate :: bool
  os_ftruncate :: bool
  os_fstat :: bool
  os_mmap :: bool
  os_mlock :: bool
  os_populate :: bool
  os_msync :: bool
  os_munmap :: bool

definition os_all_ok :: os_env where
  "os_all_ok = \<lparr>os_open = True, os_fallocate = True, os_ftruncate = True, os_fstat = True,
     os_mmap = True, os_mlock = True, os_populate = True, os_msync = True, os_munmap = True\<rparr>"

datatype MsyncMode = Msync_NONE | Msync_ASYNC | Msync_SYNC

record ReadOnlyMmapOptions =
  populate_read :: bool
  advise_hugepage :: bool

subsection \<open>System calls\<close>

definition lookup_file :: "'k kernel \<Rightarrow> 'k \<Rightarrow> page_file option" where
  "lookup_file K key = map_of (k_files K) key"

definition put_file :: "'k \<Rightarrow> page_file \<Rightarrow> 'k kernel \<Rightarrow> 'k kernel" where
  "put_file key pf K = K\<lparr>k_files := AList.update key pf (k_files K)\<rparr>"

definition empty_file :: page_file where
  "empty_file = \<lparr>pf_size = 0, pf_mem = (\<lambda>_. 0)\<rparr>"

text \<open>\<^verbatim>\<open>open\<close> with \<^verbatim>\<open>O_CREAT\<close>: a missing file appears, empty.\<close>

definition sys_open_creat :: "os_env \<Rightarrow> 'k \<Rightarrow> ('k kernel, bool) prog" where
  "sys_open_creat os key = (\<lambda>K.
     if os_open os then
       (Inr True, (case lookup_file K key of None \<Rightarrow> put_file key empty_file K | Some _ \<Rightarrow> K)
          \<lparr>k_fds := k_fds K + 1\<rparr>)
     else (Inr False, K))"

definition sys_close :: "('k kernel, unit) prog" where
  "sys_close = modify_p (\<lambda>K. K\<lparr>k_fds := k_fds K - 1\<rparr>)"

text \<open>\<^verbatim>\<open>fallocate\<close> only grows a file, \<^verbatim>\<open>ftruncate\<close> sets its size; new bytes are zero.\<close>

definition grow_file :: "nat \<Rightarrow> page_file \<Rightarrow> page_file" where
  "grow_file sz pf = \<lparr>pf_size = max (pf_size pf) sz,
     pf_mem = (\<lambda>i. if i < pf_size pf then pf_mem pf i else 0)\<rparr>"

definition truncate_file :: "nat \<Rightarrow> page_file \<Rightarrow> page_file" where
  "truncate_file sz pf = \<lparr>pf_size = sz,
     pf_mem = (\<lambda>i. if i < min sz (pf_size pf) then pf_mem pf i else 0)\<rparr>"

definition update_file :: "'k \<Rightarrow> (page_file \<Rightarrow> page_file) \<Rightarrow> 'k kernel \<Rightarrow> 'k kernel" where
  "update_file key f K = (case lookup_file K key of None \<Rightarrow> K | Some pf \<Rightarrow> put_file key (f pf) K)"

definition sys_mmap :: "os_env \<Rightarrow> 'k \<Rightarrow> ('k kernel, bool) prog" where
  "sys_mmap os key = (\<lambda>K.
     if os_mmap os then (Inr True, K\<lparr>k_maps := key # k_maps K\<rparr>) else (Inr False, K))"

definition sys_munmap :: "'k \<Rightarrow> ('k kernel, unit) prog" where
  "sys_munmap key = modify_p (\<lambda>K. K\<lparr>k_maps := remove1 key (k_maps K)\<rparr>)"

subsection \<open>MmapBuffer::loadMmapBuffer\<close>

text \<open>Lines 53 to 75: give the file its size when the caller is a master and the size is wrong.\<close>

definition mmap_allocate ::
    "os_env \<Rightarrow> 'k \<Rightarrow> nat \<Rightarrow> bool \<Rightarrow> bool \<Rightarrow> nat \<Rightarrow> ('k kernel, unit) prog" where
  "mmap_allocate os key sz master file_exists st_size =
     (if master \<and> (\<not> file_exists \<or> st_size \<noteq> sz) then
        (if os_fallocate os then modify_p (update_file key (grow_file sz))
         else if os_ftruncate os then modify_p (update_file key (truncate_file sz))
         else bind_p sys_close (\<lambda>_. throw_p (Mmap_error ''allocate'')))
      else return_p ())"

text \<open>Lines 99 to 164: lock the pages in memory and fault them in; a new file is zeroed.\<close>

definition mmap_prefault ::
    "os_env \<Rightarrow> 'k \<Rightarrow> nat \<Rightarrow> bool \<Rightarrow> bool \<Rightarrow> ('k kernel, unit) prog" where
  "mmap_prefault os key sz master file_exists =
     (if \<not> os_mlock os then bind_p (sys_munmap key) (\<lambda>_. throw_p (Mmap_error ''mlock''))
      else if master \<and> \<not> file_exists
      then modify_p (update_file key (\<lambda>pf. pf\<lparr>pf_mem := (\<lambda>i. if i < sz then 0 else pf_mem pf i)\<rparr>))
      else return_p ())"

definition loadMmapBuffer ::
    "os_env \<Rightarrow> 'k \<Rightarrow> nat \<Rightarrow> bool \<Rightarrow> bool \<Rightarrow> ('k kernel, unit) prog" where
  "loadMmapBuffer os key sz is_writing prefault =
     bind_p get_p (\<lambda>K.
     let master = is_writing \<or> prefault;
         file_exists = (lookup_file K key \<noteq> None);
         st_size = (case lookup_file K key of None \<Rightarrow> 0 | Some pf \<Rightarrow> pf_size pf)
     in bind_p (sys_open_creat os key) (\<lambda>fd.
        bind_p (assert_p fd (Mmap_error ''open'')) (\<lambda>_.
        bind_p (mmap_allocate os key sz master file_exists st_size) (\<lambda>_.
        bind_p (sys_mmap os key) (\<lambda>buffer.
        bind_p sys_close (\<lambda>_.
        bind_p (assert_p buffer (Mmap_error ''mmap'')) (\<lambda>_.
        if prefault then mmap_prefault os key sz master file_exists else return_p ())))))))"

subsection \<open>The read-only variants and the release\<close>

definition prepareReadOnlyMmapBuffer ::
    "os_env \<Rightarrow> ReadOnlyMmapOptions \<Rightarrow> ('k kernel, unit) prog" where
  "prepareReadOnlyMmapBuffer os options =
     assert_p (\<not> (populate_read options \<and> \<not> os_populate os)) (Mmap_error ''MADV_POPULATE_READ'')"

definition loadExistingReadOnlyMmapBuffer ::
    "os_env \<Rightarrow> 'k \<Rightarrow> nat \<Rightarrow> ReadOnlyMmapOptions \<Rightarrow> ('k kernel, unit) prog" where
  "loadExistingReadOnlyMmapBuffer os key sz options =
     bind_p get_p (\<lambda>K. case lookup_file K key of
       None \<Rightarrow> throw_p (Mmap_error ''open existing'')
     | Some pf \<Rightarrow>
         if \<not> os_open os then throw_p (Mmap_error ''open existing'') else
         bind_p (modify_p (\<lambda>K. K\<lparr>k_fds := k_fds K + 1\<rparr>)) (\<lambda>_.
         if \<not> os_fstat os then bind_p sys_close (\<lambda>_. throw_p (Mmap_error ''fstat''))
         else if pf_size pf \<noteq> sz then bind_p sys_close (\<lambda>_. throw_p (Mmap_error ''size''))
         else bind_p (sys_mmap os key) (\<lambda>buffer.
              bind_p sys_close (\<lambda>_.
              bind_p (assert_p buffer (Mmap_error ''read-only mmap'')) (\<lambda>_.
              catch_p (prepareReadOnlyMmapBuffer os options)
                (\<lambda>e. bind_p (sys_munmap key) (\<lambda>_. throw_p e)))))))"

definition releaseMmapBuffer ::
    "os_env \<Rightarrow> 'k \<Rightarrow> bool \<Rightarrow> MsyncMode \<Rightarrow> ('k kernel, bool) prog" where
  "releaseMmapBuffer os key prefault msync_mode =
     (if msync_mode = Msync_SYNC \<and> \<not> os_msync os then return_p False
      else if \<not> os_munmap os then return_p False
      else bind_p (sys_munmap key) (\<lambda>_. return_p True))"

lemmas mmap_defs = loadMmapBuffer_def mmap_allocate_def mmap_prefault_def sys_open_creat_def
  sys_close_def sys_mmap_def sys_munmap_def loadExistingReadOnlyMmapBuffer_def
  prepareReadOnlyMmapBuffer_def releaseMmapBuffer_def

subsection \<open>File lookups after updates\<close>

lemma lookup_put_file [simp]:
  "lookup_file (put_file key pf K) key' = (if key' = key then Some pf else lookup_file K key')"
  by (simp add: lookup_file_def put_file_def)

lemma put_file_fields [simp]:
  "k_fds (put_file key pf K) = k_fds K" "k_maps (put_file key pf K) = k_maps K"
  by (simp_all add: put_file_def)

lemma lookup_file_field_updates [simp]:
  "lookup_file (K\<lparr>k_fds := n\<rparr>) key = lookup_file K key"
  "lookup_file (K\<lparr>k_maps := ms\<rparr>) key = lookup_file K key"
  by (simp_all add: lookup_file_def)

lemma update_file_fields [simp]:
  "k_fds (update_file key f K) = k_fds K" "k_maps (update_file key f K) = k_maps K"
  by (simp_all add: update_file_def split: option.split)

lemma lookup_update_file [simp]:
  "lookup_file (update_file key f K) key' =
     (if key' = key then map_option f (lookup_file K key) else lookup_file K key')"
  by (auto simp: update_file_def split: option.split)

lemma put_file_commutes [simp]:
  "put_file key pf (K\<lparr>k_fds := n\<rparr>) = put_file key pf K\<lparr>k_fds := n\<rparr>"
  "put_file key pf (K\<lparr>k_maps := ms\<rparr>) = put_file key pf K\<lparr>k_maps := ms\<rparr>"
  by (simp_all add: put_file_def)

subsection \<open>No descriptor and no mapping is leaked\<close>

lemma loadMmapBuffer_fds: "k_fds (snd (loadMmapBuffer os key sz wr pre K)) = k_fds K"
  by (simp add: mmap_defs prog_simps Let_def split: option.split)

lemma loadMmapBuffer_maps:
  "loadMmapBuffer os key sz wr pre K = (r, K') \<Longrightarrow>
   k_maps K' = (if r = Inr () then key # k_maps K else k_maps K)"
  by (auto simp: mmap_defs prog_simps Let_def split: if_splits option.splits)

lemma loadExisting_fds:
  "k_fds (snd (loadExistingReadOnlyMmapBuffer os key sz opts K)) = k_fds K"
  by (simp add: mmap_defs prog_simps split: option.split)

lemma loadExisting_maps:
  "loadExistingReadOnlyMmapBuffer os key sz opts K = (r, K') \<Longrightarrow>
   k_maps K' = (if r = Inr () then key # k_maps K else k_maps K)"
  by (auto simp: mmap_defs prog_simps split: if_splits option.splits)

lemma loadExisting_files:
  "k_files (snd (loadExistingReadOnlyMmapBuffer os key sz opts K)) = k_files K"
  by (simp add: mmap_defs prog_simps split: option.split)

lemma releaseMmapBuffer_maps:
  "releaseMmapBuffer os key pre mode K = (r, K') \<Longrightarrow>
   k_maps K' = (if r = Inr True then remove1 key (k_maps K) else k_maps K) \<and>
   k_files K' = k_files K \<and> k_fds K' = k_fds K"
  by (auto simp: mmap_defs prog_simps split: if_splits)

subsection \<open>What a mapping shows\<close>

lemma loadMmapBuffer_other:
  "key' \<noteq> key \<Longrightarrow>
   lookup_file (snd (loadMmapBuffer os key sz wr pre K)) key' = lookup_file K key'"
  by (simp add: mmap_defs prog_simps Let_def split: option.split)

lemma loadMmapBuffer_existing:
  assumes "lookup_file K key = Some pf" and "pf_size pf = sz"
    and "os_open os" "os_mmap os" "os_mlock os"
  shows "loadMmapBuffer os key sz wr pre K = (Inr (), K\<lparr>k_maps := key # k_maps K\<rparr>)"
  using assms by (simp add: mmap_defs prog_simps Let_def)

lemma loadMmapBuffer_new:
  assumes "lookup_file K key = None" and "wr \<or> pre"
    and "os_open os" "os_fallocate os" "os_mmap os" "os_mlock os"
  shows "\<exists>K'. loadMmapBuffer os key sz wr pre K = (Inr (), K') \<and>
     lookup_file K' key = Some \<lparr>pf_size = sz, pf_mem = (\<lambda>_. 0)\<rparr> \<and>
     k_maps K' = key # k_maps K \<and> k_fds K' = k_fds K"
  using assms by (auto simp: mmap_defs prog_simps Let_def empty_file_def grow_file_def)

lemma loadMmapBuffer_sized:
  assumes "loadMmapBuffer os key sz wr pre K = (Inr (), K')" and "wr \<or> pre"
  obtains pf where "lookup_file K' key = Some pf" and "sz \<le> pf_size pf"
  using assms
  by (auto simp: mmap_defs prog_simps Let_def empty_file_def grow_file_def truncate_file_def
      split: if_splits option.splits)

lemma loadMmapBuffer_result:
  "loadMmapBuffer os key sz wr pre K = (r, K') \<Longrightarrow> r = Inr () \<or> (\<exists>e. r = Inl e \<and> is_exception e)"
  by (auto simp: mmap_defs prog_simps Let_def split: if_splits option.splits)

subsection \<open>Properties\<close>

text \<open>C27: neither way of mapping a file leaks: on every path, errors included, each descriptor that is
  opened is closed, and there is one mapping more exactly when the call succeeds; mapping an existing
  file read-only changes no file.\<close>

theorem mmap_no_leak:
  "(case loadMmapBuffer os key sz wr pre K of (r, K') \<Rightarrow>
      k_fds K' = k_fds K \<and> k_maps K' = (if r = Inr () then key # k_maps K else k_maps K)) \<and>
   (case loadExistingReadOnlyMmapBuffer os key sz opts K of (r, K') \<Rightarrow>
      k_fds K' = k_fds K \<and> k_maps K' = (if r = Inr () then key # k_maps K else k_maps K) \<and>
      k_files K' = k_files K)"
  using loadMmapBuffer_fds [of os key sz wr pre K] loadExisting_fds [of os key sz opts K]
    loadExisting_files [of os key sz opts K]
  by (auto dest: loadMmapBuffer_maps loadExisting_maps split: prod.split)

end
