(* ===== verification/Journal_Page.thy ===== *)
theory Journal_Page
  imports Journal_Base Journal_Frame Mmap_Buffer
begin

section \<open>Pages (include/revoq/JournalPage.h)\<close>

text \<open>
  The page header and class \<^verbatim>\<open>Page\<close>.  A page file is named by its key: the journal directory, the
  destination and the page number, which determine the path \<^verbatim>\<open>getPagePath\<close> builds.  Reads and
  writes through a page's mapping go through \<open>page_read\<close> and \<open>page_write\<close>, which fault where the
  hardware does: outside the mapping or through a read-only mapping (\<open>Segv\<close>), and beyond the last
  4096-byte block of the file (\<open>Sigbus\<close>).  Addresses inside a page are offsets from its start.
\<close>

type_synonym page_key = "string \<times> u32 \<times> int"

subsection \<open>Sizes\<close>

definition PAGE_SIZE_MARKETDATA :: u32 where "PAGE_SIZE_MARKETDATA = 134217728"
definition PAGE_SIZE_EXECUTION :: u32 where "PAGE_SIZE_EXECUTION = 4194304"
definition PAGE_SIZE_DEFAULT :: u32 where "PAGE_SIZE_DEFAULT = 2097152"

definition findPageSize :: "Location \<Rightarrow> u32 \<Rightarrow> u32" where
  "findPageSize loc dest_id =
     (if loc_category loc = MARKETDATA \<or> loc_category loc = RESEARCHDATA then PAGE_SIZE_MARKETDATA
      else if loc_category loc = EXECUTION \<and> dest_id \<noteq> 0 then PAGE_SIZE_EXECUTION
      else PAGE_SIZE_DEFAULT)"

lemmas page_size_defs = PAGE_SIZE_MARKETDATA_def PAGE_SIZE_EXECUTION_def PAGE_SIZE_DEFAULT_def

lemma findPageSize_bounds:
  "2097152 \<le> unat (findPageSize loc dest)" "unat (findPageSize loc dest) \<le> 134217728"
  "unat (findPageSize loc dest) mod 4096 = 0"
  by (simp_all add: findPageSize_def page_size_defs)

subsection \<open>The page header\<close>

text \<open>
  \<^verbatim>\<open>version\<close> at 0, \<^verbatim>\<open>page_header_length\<close> at 4, \<^verbatim>\<open>page_size\<close> at 8, \<^verbatim>\<open>frame_header_length\<close> at 12,
  \<^verbatim>\<open>last_frame_position\<close> at 16, padding up to 64.
\<close>

definition sizeof_PageHeader :: nat where
  "sizeof_PageHeader = 64"

record PageHeader =
  ph_version :: u32
  ph_page_header_length :: u32
  ph_page_size :: u32
  ph_frame_header_length :: u32
  ph_last_frame_position :: u64

definition PageHeader_at :: "memory \<Rightarrow> PageHeader" where
  "PageHeader_at m =
     \<lparr>ph_version = load_u32 m 0, ph_page_header_length = load_u32 m 4, ph_page_size = load_u32 m 8,
      ph_frame_header_length = load_u32 m 12, ph_last_frame_position = load_u64 m 16\<rparr>"

lemmas page_header_simps [simp] = sizeof_PageHeader_def

definition setLastFramePosition :: "u64 \<Rightarrow> memory \<Rightarrow> memory" where
  "setLastFramePosition position m = store_u64 m 16 position"

text \<open>The five header fields as both \<^verbatim>\<open>Page::load\<close> and the page warmer write them.\<close>

definition write_header_fields :: "u32 \<Rightarrow> memory \<Rightarrow> memory" where
  "write_header_fields page_size m =
     (let m = store_u32 m 0 JOURNAL_PAGE_VERSION;
          m = store_u32 m 4 (of_nat sizeof_PageHeader);
          m = store_u32 m 8 page_size;
          m = store_u32 m 12 (of_nat sizeof_FrameHeader)
      in store_u64 m 16 (of_nat sizeof_PageHeader))"

definition init_header :: "u32 \<Rightarrow> memory \<Rightarrow> memory" where
  "init_header page_size m =
     write_header_fields page_size (store_bytes m 0 (replicate sizeof_PageHeader 0))"

subsection \<open>Page objects and access through their mapping\<close>

record Page =
  pg_location :: Location
  pg_dest_id :: u32
  pg_page_id :: int
  pg_size :: u32
  pg_prefault :: bool
  pg_writable :: bool

definition page_key_of :: "Location \<Rightarrow> u32 \<Rightarrow> int \<Rightarrow> page_key" where
  "page_key_of loc dest_id page_id = (layoutDir loc JOURNAL, dest_id, page_id)"

definition pg_key :: "Page \<Rightarrow> page_key" where
  "pg_key p = page_key_of (pg_location p) (pg_dest_id p) (pg_page_id p)"

definition mapped_bytes :: "page_file \<Rightarrow> nat" where
  "mapped_bytes pf = (pf_size pf + 4095) div 4096 * 4096"

definition page_fault :: "page_key \<Rightarrow> nat \<Rightarrow> nat \<Rightarrow> page_key kernel \<Rightarrow> error option" where
  "page_fault key sz lim K =
     (case lookup_file K key of
        None \<Rightarrow> Some Segv
      | Some pf \<Rightarrow>
          if key \<notin> set (k_maps K) \<or> sz < lim then Some Segv
          else if mapped_bytes pf < lim then Some Sigbus else None)"

text \<open>A read of \<open>n\<close> bytes at \<open>off\<close>; the bytes of the whole page are returned for the accessors.\<close>

definition page_read :: "Page \<Rightarrow> nat \<Rightarrow> nat \<Rightarrow> (page_key kernel, memory) prog" where
  "page_read p off n = (\<lambda>K.
     case page_fault (pg_key p) (unat (pg_size p)) (off + n) K of
       Some e \<Rightarrow> (Inl e, K)
     | None \<Rightarrow> (Inr (case lookup_file K (pg_key p) of None \<Rightarrow> (\<lambda>_. 0) | Some pf \<Rightarrow> pf_mem pf), K))"

definition map_page :: "page_key \<Rightarrow> (memory \<Rightarrow> memory) \<Rightarrow> page_key kernel \<Rightarrow> page_key kernel" where
  "map_page key f K = update_file key (\<lambda>pf. pf\<lparr>pf_mem := f (pf_mem pf)\<rparr>) K"

text \<open>A write by \<open>f\<close> of at most \<open>n\<close> bytes at \<open>off\<close>.\<close>

definition page_write ::
    "Page \<Rightarrow> nat \<Rightarrow> nat \<Rightarrow> (memory \<Rightarrow> memory) \<Rightarrow> (page_key kernel, unit) prog" where
  "page_write p off n f = (\<lambda>K.
     if \<not> pg_writable p then (Inl Segv, K) else
     case page_fault (pg_key p) (unat (pg_size p)) (off + n) K of
       Some e \<Rightarrow> (Inl e, K)
     | None \<Rightarrow> (Inr (), map_page (pg_key p) f K))"

subsection \<open>Loading\<close>

text \<open>The four checks of \<^verbatim>\<open>Page::load\<close>, in their order.\<close>

definition validate_header :: "u32 \<Rightarrow> memory \<Rightarrow> error option" where
  "validate_header page_size m =
     (let h = PageHeader_at m in
      if ph_version h \<noteq> JOURNAL_PAGE_VERSION then Some (Journal_error ''version'')
      else if ph_page_header_length h \<noteq> of_nat sizeof_PageHeader
           then Some (Journal_error ''header length'')
      else if ph_page_size h \<noteq> page_size then Some (Journal_error ''page size'')
      else if unat (ph_last_frame_position h) \<ge> unat page_size
           then Some (Journal_error ''last_frame_position'')
      else None)"

definition throw_if :: "error option \<Rightarrow> ('s, unit) prog" where
  "throw_if e = (case e of None \<Rightarrow> return_p () | Some err \<Rightarrow> throw_p err)"

text \<open>
  \<^verbatim>\<open>Page::load\<close>.  Only when every check passes is a \<^verbatim>\<open>Page\<close> made that owns the mapping; when a
  check throws, nobody does.  The mapping is writable when the caller writes or prefaults.
\<close>

definition Page_load ::
    "(page_key \<Rightarrow> os_env) \<Rightarrow> Location \<Rightarrow> u32 \<Rightarrow> int \<Rightarrow> bool \<Rightarrow> bool \<Rightarrow> (page_key kernel, Page) prog" where
  "Page_load os loc dest_id page_id is_writing prefault =
     (let page_size = findPageSize loc dest_id;
          key = page_key_of loc dest_id page_id;
          page = \<lparr>pg_location = loc, pg_dest_id = dest_id, pg_page_id = page_id,
             pg_size = page_size, pg_prefault = prefault, pg_writable = (is_writing \<or> prefault)\<rparr>
      in bind_p (catch_p (loadMmapBuffer (os key) key (unat page_size) is_writing prefault)
                   (\<lambda>_. throw_p (Journal_error ''mmap''))) (\<lambda>_.
         bind_p (page_read page 16 8) (\<lambda>m.
         bind_p (if ph_last_frame_position (PageHeader_at m) = 0
                 then page_write page 0 sizeof_PageHeader (init_header page_size)
                 else return_p ()) (\<lambda>_.
         bind_p (page_read page 0 sizeof_PageHeader) (\<lambda>m.
         bind_p (throw_if (validate_header page_size m)) (\<lambda>_.
         return_p page))))))"

text \<open>
  \<^verbatim>\<open>Page::loadFromAddress\<close> takes over a mapping made elsewhere (\<open>writable\<close> says how) and checks
  the version and the header length only.  The null check is that of a pointer: here the caller
  holds a mapping.
\<close>

definition loadFromAddress ::
    "Location \<Rightarrow> u32 \<Rightarrow> int \<Rightarrow> u32 \<Rightarrow> bool \<Rightarrow> bool \<Rightarrow> (page_key kernel, Page) prog" where
  "loadFromAddress loc dest_id page_id map_size writable prefault =
     (let page = \<lparr>pg_location = loc, pg_dest_id = dest_id, pg_page_id = page_id,
             pg_size = map_size, pg_prefault = prefault, pg_writable = writable\<rparr>
      in bind_p (page_read page 0 sizeof_PageHeader) (\<lambda>m.
         let h = PageHeader_at m in
         if ph_version h \<noteq> JOURNAL_PAGE_VERSION then throw_p (Journal_error ''version'')
         else if ph_page_header_length h \<noteq> of_nat sizeof_PageHeader
              then throw_p (Journal_error ''header length'')
         else return_p (page\<lparr>pg_size := ph_page_size h\<rparr>)))"

text \<open>\<^verbatim>\<open>Page::~Page\<close>: the mapping is released; a failure is only logged.\<close>

definition page_msync_mode :: "Page \<Rightarrow> MsyncMode" where
  "page_msync_mode p =
     (if loc_category (pg_location p) = MARKETDATA \<or> loc_category (pg_location p) = RESEARCHDATA
      then Msync_NONE else Msync_ASYNC)"

definition Page_destroy :: "(page_key \<Rightarrow> os_env) \<Rightarrow> Page \<Rightarrow> (page_key kernel, unit) prog" where
  "Page_destroy os p =
     bind_p (releaseMmapBuffer (os (pg_key p)) (pg_key p) (pg_prefault p) (page_msync_mode p))
       (\<lambda>_. return_p ())"

subsection \<open>Accessors\<close>

text \<open>
  \<^verbatim>\<open>firstFrameAddress\<close>, \<^verbatim>\<open>lastFrameAddress\<close> and \<^verbatim>\<open>addressBorder\<close> as offsets from the start of
  the page; the border is an integer because the header's page size may be below 64.
\<close>

definition firstFrameAddress :: "memory \<Rightarrow> nat" where
  "firstFrameAddress m = unat (ph_page_header_length (PageHeader_at m))"

definition lastFrameAddress :: "memory \<Rightarrow> nat" where
  "lastFrameAddress m = unat (ph_last_frame_position (PageHeader_at m))"

definition addressBorder :: "memory \<Rightarrow> int" where
  "addressBorder m = uint (ph_page_size (PageHeader_at m)) - 64"

definition Page_firstFrame :: "Page \<Rightarrow> (page_key kernel, nat) prog" where
  "Page_firstFrame p = bind_p (page_read p 0 sizeof_PageHeader) (\<lambda>m. return_p (firstFrameAddress m))"

definition beginTime :: "Page \<Rightarrow> (page_key kernel, u64) prog" where
  "beginTime p =
     bind_p (Page_firstFrame p) (\<lambda>off.
     bind_p (page_read p off sizeof_FrameHeader) (\<lambda>m.
     return_p (if getFrameLength m off = 0 then 0 else getGenTime m off)))"

definition endTime :: "Page \<Rightarrow> (page_key kernel, u64) prog" where
  "endTime p =
     bind_p (page_read p 0 sizeof_PageHeader) (\<lambda>h.
     let off = lastFrameAddress h in
     bind_p (page_read p off sizeof_FrameHeader) (\<lambda>m.
     return_p (if getFrameLength m off = 0 then 0 else getGenTime m off)))"

definition isFull :: "Page \<Rightarrow> (page_key kernel, bool) prog" where
  "isFull p =
     bind_p (page_read p 0 sizeof_PageHeader) (\<lambda>h.
     let off = lastFrameAddress h in
     bind_p (page_read p off sizeof_FrameHeader) (\<lambda>m.
     return_p (int off + uint (framePhysicalLength (getFrameLength m off)) > addressBorder m)))"

subsection \<open>Finding the page of a time\<close>

text \<open>The page files of a journal as \<^verbatim>\<open>listPageId\<close> sees them in the journal's directory.\<close>

definition dir_entries :: "string \<Rightarrow> page_key kernel \<Rightarrow> (u32 \<times> int) list" where
  "dir_entries dir K = map snd (filter (\<lambda>(d, _). d = dir) (map fst (k_files K)))"

definition list_pages :: "Location \<Rightarrow> u32 \<Rightarrow> (page_key kernel, int list) prog" where
  "list_pages loc dest_id = (\<lambda>K.
     (listPageId dest_id (map (\<lambda>(d, i). page_file_name d i) (dir_entries (layoutDir loc JOURNAL) K)), K))"

text \<open>One probe of the binary search: load a page read-only, read its begin time, drop it.\<close>

definition probe_begin ::
    "(page_key \<Rightarrow> os_env) \<Rightarrow> Location \<Rightarrow> u32 \<Rightarrow> int \<Rightarrow> (page_key kernel, u64) prog" where
  "probe_begin os loc dest_id page_id =
     bind_p (Page_load os loc dest_id page_id False False) (\<lambda>page.
     bind_p (beginTime page) (\<lambda>t.
     bind_p (Page_destroy os page) (\<lambda>_. return_p t)))"

function findPageId_loop ::
    "(page_key \<Rightarrow> os_env) \<Rightarrow> Location \<Rightarrow> u32 \<Rightarrow> u64 \<Rightarrow> int list \<Rightarrow> int \<Rightarrow> int \<Rightarrow> int \<Rightarrow>
     page_key kernel \<Rightarrow> (error + int) \<times> page_key kernel" where
  "findPageId_loop os loc dest_id time page_ids left right best K =
     (if left \<le> right then
        let mid = left + (right - left) div 2;
            pid = page_ids ! nat mid
        in case probe_begin os loc dest_id pid K of
             (Inl e, K') \<Rightarrow> (Inl e, K')
           | (Inr t, K') \<Rightarrow>
               if t = 0 then findPageId_loop os loc dest_id time page_ids left (mid - 1) best K'
               else if sint t \<le> sint time
                    then findPageId_loop os loc dest_id time page_ids (mid + 1) right pid K'
               else findPageId_loop os loc dest_id time page_ids left (mid - 1) best K'
      else (Inr best, K))"
  by pat_completeness auto
termination
  by (relation "measure (\<lambda>(os, loc, dest_id, time, page_ids, left, right, best, K).
        nat (right - left + 1))") auto

declare findPageId_loop.simps [simp del]

definition findPageId ::
    "(page_key \<Rightarrow> os_env) \<Rightarrow> Location \<Rightarrow> u32 \<Rightarrow> u64 \<Rightarrow> (page_key kernel, int) prog" where
  "findPageId os loc dest_id time =
     bind_p (list_pages loc dest_id) (\<lambda>page_ids.
     if page_ids = [] then return_p 1
     else if time = 0 then return_p (hd page_ids)
     else findPageId_loop os loc dest_id time page_ids 0 (int (length page_ids) - 1) (hd page_ids))"

subsection \<open>Access to a page that is mapped\<close>

text \<open>\<open>page_ready K p pf\<close>: page \<open>p\<close> is mapped, its file \<open>pf\<close> is at least as long as the mapping.\<close>

definition page_ready :: "page_key kernel \<Rightarrow> Page \<Rightarrow> page_file \<Rightarrow> bool" where
  "page_ready K p pf \<longleftrightarrow> lookup_file K (pg_key p) = Some pf \<and> pg_key p \<in> set (k_maps K) \<and>
     unat (pg_size p) \<le> pf_size pf"

lemma map_page_fields [simp]:
  "k_fds (map_page key f K) = k_fds K" "k_maps (map_page key f K) = k_maps K"
  "lookup_file (map_page key f K) key' =
     (if key' = key then map_option (\<lambda>pf. pf\<lparr>pf_mem := f (pf_mem pf)\<rparr>) (lookup_file K key)
      else lookup_file K key')"
  by (simp_all add: map_page_def)

lemma map_page_compose [simp]: "map_page key f (map_page key g K) = map_page key (\<lambda>m. f (g m)) K"
  by (auto simp: map_page_def update_file_def put_file_def lookup_file_def split: option.split)

lemma mapped_bytes_ge: "pf_size pf \<le> mapped_bytes pf"
  by (simp add: mapped_bytes_def)

lemma page_fault_ready:
  "page_ready K p pf \<Longrightarrow>
   page_fault (pg_key p) (unat (pg_size p)) lim K = (if lim \<le> unat (pg_size p) then None else Some Segv)"
  using mapped_bytes_ge [of pf] by (auto simp: page_ready_def page_fault_def)

lemma page_read_ready:
  "page_ready K p pf \<Longrightarrow>
   page_read p off n K = (if off + n \<le> unat (pg_size p) then (Inr (pf_mem pf), K) else (Inl Segv, K))"
  by (simp add: page_read_def page_fault_ready) (simp add: page_ready_def)

lemma page_write_ready:
  "page_ready K p pf \<Longrightarrow> pg_writable p \<Longrightarrow>
   page_write p off n f K =
     (if off + n \<le> unat (pg_size p)
      then (Inr (), map_page (pg_key p) f K)
      else (Inl Segv, K))"
  by (simp add: page_write_def page_fault_ready)

lemma page_ready_update [simp]:
  "page_ready K p pf \<Longrightarrow>
   page_ready (map_page (pg_key p) f K) p (pf\<lparr>pf_mem := f (pf_mem pf)\<rparr>)"
  by (simp add: page_ready_def)

lemma page_ready_other:
  "page_ready K p pf \<Longrightarrow> pg_key p \<noteq> key \<Longrightarrow> page_ready (map_page key f K) p pf"
  by (simp add: page_ready_def)

subsection \<open>Headers\<close>

lemma write_header_fields_read [simp]:
  "PageHeader_at (write_header_fields sz m) =
     \<lparr>ph_version = JOURNAL_PAGE_VERSION, ph_page_header_length = 64, ph_page_size = sz,
      ph_frame_header_length = 32, ph_last_frame_position = 64\<rparr>"
  by (simp add: PageHeader_at_def write_header_fields_def Let_def mem_simps)

lemma init_header_read [simp]:
  "PageHeader_at (init_header sz m) = PageHeader_at (write_header_fields sz m)"
  by (simp add: init_header_def)

lemma init_header_outside: "64 \<le> i \<Longrightarrow> init_header sz m i = m i"
  by (simp add: init_header_def write_header_fields_def Let_def mem_simps)

lemma setLastFramePosition_read [simp]:
  "PageHeader_at (setLastFramePosition w m) = (PageHeader_at m)\<lparr>ph_last_frame_position := w\<rparr>"
  by (simp add: PageHeader_at_def setLastFramePosition_def mem_simps)

lemma PageHeader_same_on: "same_on m m' 0 64 \<Longrightarrow> PageHeader_at m' = PageHeader_at m"
  using same_on_sub [of m m' 0 64 0 4] same_on_sub [of m m' 0 64 4 8] same_on_sub [of m m' 0 64 8 12]
    same_on_sub [of m m' 0 64 12 16] same_on_sub [of m m' 0 64 16 24]
  by (simp add: PageHeader_at_def load_int_same_on)

text \<open>A header that \<^verbatim>\<open>Page::load\<close> accepts and does not initialise again.\<close>

definition header_ok :: "u32 \<Rightarrow> memory \<Rightarrow> bool" where
  "header_ok sz m \<longleftrightarrow> validate_header sz m = None \<and> ph_last_frame_position (PageHeader_at m) \<noteq> 0"

lemma header_ok_iff:
  "header_ok sz m \<longleftrightarrow> ph_version (PageHeader_at m) = JOURNAL_PAGE_VERSION \<and>
     ph_page_header_length (PageHeader_at m) = 64 \<and> ph_page_size (PageHeader_at m) = sz \<and>
     unat (ph_last_frame_position (PageHeader_at m)) < unat sz \<and>
     ph_last_frame_position (PageHeader_at m) \<noteq> 0"
  by (auto simp: header_ok_def validate_header_def Let_def split: if_splits)

lemma header_ok_first: "header_ok sz m \<Longrightarrow> firstFrameAddress m = 64"
  by (simp add: header_ok_iff firstFrameAddress_def)

lemma header_ok_init: "64 < unat sz \<Longrightarrow> header_ok sz (init_header sz m)"
  by (simp add: header_ok_iff)

lemma header_ok_setLast:
  "header_ok sz m \<Longrightarrow> 0 < n \<Longrightarrow> n < unat sz \<Longrightarrow> header_ok sz (setLastFramePosition (of_nat n) m)"
  using unat_u32_less [of sz] by (auto simp: header_ok_iff unat_of_nat word_unat_eq_iff)

definition page_file_ok :: "u32 \<Rightarrow> page_file \<Rightarrow> bool" where
  "page_file_ok sz pf \<longleftrightarrow> pf_size pf = unat sz \<and> header_ok sz (pf_mem pf)"

subsection \<open>Loading a page\<close>

definition the_page :: "Location \<Rightarrow> u32 \<Rightarrow> int \<Rightarrow> bool \<Rightarrow> bool \<Rightarrow> Page" where
  "the_page loc dest_id page_id is_writing prefault =
     \<lparr>pg_location = loc, pg_dest_id = dest_id, pg_page_id = page_id,
      pg_size = findPageSize loc dest_id, pg_prefault = prefault,
      pg_writable = (is_writing \<or> prefault)\<rparr>"

lemma the_page_simps [simp]:
  "pg_key (the_page loc dest i w pre) = page_key_of loc dest i"
  "pg_size (the_page loc dest i w pre) = findPageSize loc dest"
  "pg_writable (the_page loc dest i w pre) = (w \<or> pre)"
  "pg_page_id (the_page loc dest i w pre) = i"
  "pg_location (the_page loc dest i w pre) = loc"
  "pg_dest_id (the_page loc dest i w pre) = dest"
  "pg_prefault (the_page loc dest i w pre) = pre"
  by (simp_all add: the_page_def pg_key_def)

lemma findPageSize_gt [simp]: "k < 2097152 \<Longrightarrow> k < unat (findPageSize loc dest)"
  "k \<le> 2097152 \<Longrightarrow> k \<le> unat (findPageSize loc dest)"
  "k \<le> 2097152 \<Longrightarrow> \<not> unat (findPageSize loc dest) < k"
  using findPageSize_bounds(1) [of loc dest] by simp_all

definition os_works :: "(page_key \<Rightarrow> os_env) \<Rightarrow> bool" where
  "os_works os \<longleftrightarrow> (\<forall>key. os key = os_all_ok)"

lemma os_worksD [simp]:
  assumes "os_works os"
  shows "os_open (os key)" "os_fallocate (os key)" "os_mmap (os key)" "os_mlock (os key)"
    "os_munmap (os key)" "os_msync (os key)" "os_fstat (os key)" "os_populate (os key)"
proof -
  have "os key = os_all_ok" using assms unfolding os_works_def by blast
  then show "os_open (os key)" "os_fallocate (os key)" "os_mmap (os key)" "os_mlock (os key)"
    "os_munmap (os key)" "os_msync (os key)" "os_fstat (os key)" "os_populate (os key)"
    by (simp_all add: os_all_ok_def)
qed

lemma Page_load_unfold:
  "Page_load os loc dest i w pre =
     bind_p (catch_p (loadMmapBuffer (os (page_key_of loc dest i)) (page_key_of loc dest i)
        (unat (findPageSize loc dest)) w pre) (\<lambda>_. throw_p (Journal_error ''mmap''))) (\<lambda>_.
     bind_p (page_read (the_page loc dest i w pre) 16 8) (\<lambda>m.
     bind_p (if ph_last_frame_position (PageHeader_at m) = 0
             then page_write (the_page loc dest i w pre) 0 64 (init_header (findPageSize loc dest))
             else return_p ()) (\<lambda>_.
     bind_p (page_read (the_page loc dest i w pre) 0 64) (\<lambda>m.
     bind_p (throw_if (validate_header (findPageSize loc dest) m)) (\<lambda>_.
     return_p (the_page loc dest i w pre))))))"
  by (simp add: Page_load_def the_page_def Let_def cong: if_cong)

lemma Page_load_existing:
  assumes "lookup_file K (page_key_of loc dest i) = Some pf"
    and "page_file_ok (findPageSize loc dest) pf" and "os_works os"
  shows "Page_load os loc dest i w pre K =
    (Inr (the_page loc dest i w pre), K\<lparr>k_maps := page_key_of loc dest i # k_maps K\<rparr>)"
proof -
  let ?K = "K\<lparr>k_maps := page_key_of loc dest i # k_maps K\<rparr>"
  have load: "loadMmapBuffer (os (page_key_of loc dest i)) (page_key_of loc dest i)
     (unat (findPageSize loc dest)) w pre K = (Inr (), ?K)"
    using assms by (intro loadMmapBuffer_existing) (auto simp: page_file_ok_def)
  have "page_ready ?K (the_page loc dest i w pre) pf"
    using assms by (simp add: page_ready_def page_file_ok_def)
  note rd = page_read_ready [OF this]
  show ?thesis
    using assms(2)
    by (simp add: Page_load_unfold prog_simps load rd throw_if_def page_file_ok_def header_ok_def)
qed

text \<open>The image of a page that was just made: a header and nothing else.\<close>

definition blank_page :: "u32 \<Rightarrow> memory" where
  "blank_page sz = init_header sz (\<lambda>_. 0)"

lemma Page_load_new:
  assumes none: "lookup_file K (page_key_of loc dest i) = None" and wr: "w \<or> pre" and os: "os_works os"
  obtains K' where "Page_load os loc dest i w pre K = (Inr (the_page loc dest i w pre), K')"
    and "lookup_file K' (page_key_of loc dest i) =
      Some \<lparr>pf_size = unat (findPageSize loc dest), pf_mem = blank_page (findPageSize loc dest)\<rparr>"
    and "\<And>key. key \<noteq> page_key_of loc dest i \<Longrightarrow> lookup_file K' key = lookup_file K key"
    and "k_maps K' = page_key_of loc dest i # k_maps K" and "k_fds K' = k_fds K"
proof -
  let ?key = "page_key_of loc dest i" and ?sz = "findPageSize loc dest"
  let ?p = "the_page loc dest i w pre"
  let ?pf = "\<lparr>pf_size = unat ?sz, pf_mem = (\<lambda>_. 0)\<rparr>"
  obtain K1 where load: "loadMmapBuffer (os ?key) ?key (unat ?sz) w pre K = (Inr (), K1)"
    and K1: "lookup_file K1 ?key = Some ?pf" "k_maps K1 = ?key # k_maps K" "k_fds K1 = k_fds K"
    using loadMmapBuffer_new [OF none wr, of "os ?key" "unat ?sz"] os by auto
  have oth: "lookup_file K1 key = lookup_file K key" if "key \<noteq> ?key" for key
    using loadMmapBuffer_other [OF that, of "os ?key" "unat ?sz" w pre K] load by simp
  have rdy: "page_ready K1 ?p ?pf" using K1 by (simp add: page_ready_def)
  note rd = page_read_ready [OF rdy] page_write_ready [OF rdy] page_read_ready [OF page_ready_update [OF rdy]]
  have "validate_header ?sz (init_header ?sz (\<lambda>_. 0)) = None"
    using header_ok_init [of ?sz "\<lambda>_. 0"] by (simp add: header_ok_def)
  then have "Page_load os loc dest i w pre K = (Inr ?p,
      map_page ?key (init_header ?sz) K1)"
    using wr rd by (simp add: Page_load_unfold prog_simps load throw_if_def PageHeader_at_def)
  then show thesis
    by (rule that) (use K1 oth in \<open>simp_all add: blank_page_def\<close>)
qed

lemma blank_page_ok: "page_file_ok sz \<lparr>pf_size = unat sz, pf_mem = blank_page sz\<rparr>"
  if "64 < unat sz"
  using that by (simp add: page_file_ok_def blank_page_def header_ok_init)

lemma blank_page_zero: "zero_on (blank_page sz) 64 hi"
  by (simp add: zero_on_def blank_page_def init_header_outside)

subsection \<open>Destroying a page\<close>

lemma Page_destroy_eq:
  "Page_destroy os p K =
     (Inr (), if os_munmap (os (pg_key p)) then K\<lparr>k_maps := remove1 (pg_key p) (k_maps K)\<rparr> else K)"
  by (auto simp: Page_destroy_def releaseMmapBuffer_def prog_simps page_msync_mode_def sys_munmap_def)

subsection \<open>Listing and probing\<close>

definition page_ids_ok :: "page_key kernel \<Rightarrow> bool" where
  "page_ids_ok K = list_all (\<lambda>((_, _, i), _). int32_range i) (k_files K)"

definition journal_pages :: "Location \<Rightarrow> u32 \<Rightarrow> page_key kernel \<Rightarrow> int list" where
  "journal_pages loc dest_id K =
     sort (map snd (filter (\<lambda>(d, i). d = dest_id) (dir_entries (layoutDir loc JOURNAL) K)))"

lemma list_pages_eq:
  assumes "page_ids_ok K"
  shows "list_pages loc dest_id K = (Inr (journal_pages loc dest_id K), K)"
proof -
  have "\<forall>(d, i) \<in> set (dir_entries (layoutDir loc JOURNAL) K). int32_range i"
    using assms by (auto simp: dir_entries_def page_ids_ok_def list_all_iff)
  then show ?thesis
    by (simp add: list_pages_def journal_pages_def listPageId_names)
qed

lemma set_journal_pages:
  "set (journal_pages loc dest K) = {i. lookup_file K (page_key_of loc dest i) \<noteq> None}"
proof -
  have key: "lookup_file K key \<noteq> None \<longleftrightarrow> key \<in> fst ` set (k_files K)" for key
    unfolding lookup_file_def map_of_eq_None_iff by simp
  have "i \<in> set (journal_pages loc dest K) \<longleftrightarrow> page_key_of loc dest i \<in> fst ` set (k_files K)" for i
    by (auto simp: journal_pages_def dir_entries_def page_key_of_def image_iff)
  then show ?thesis using key by blast
qed

definition page_begin :: "memory \<Rightarrow> u64" where
  "page_begin m = (if getFrameLength m 64 = 0 then 0 else getGenTime m 64)"

definition page_mem :: "page_key kernel \<Rightarrow> page_key \<Rightarrow> memory" where
  "page_mem K key = (case lookup_file K key of None \<Rightarrow> (\<lambda>_. 0) | Some pf \<Rightarrow> pf_mem pf)"

lemma beginTime_ready:
  assumes "page_ready K p pf" and "header_ok (pg_size p) (pf_mem pf)" and "128 \<le> unat (pg_size p)"
  shows "beginTime p K = (Inr (page_begin (pf_mem pf)), K)"
  using assms(2,3)
  by (simp add: beginTime_def Page_firstFrame_def prog_simps page_read_ready [OF assms(1)]
      header_ok_first page_begin_def)

lemma probe_begin_ok:
  assumes "lookup_file K (page_key_of loc dest i) = Some pf"
    and "page_file_ok (findPageSize loc dest) pf" and "os_works os"
  shows "probe_begin os loc dest i K = (Inr (page_begin (pf_mem pf)), K)"
proof -
  let ?K = "K\<lparr>k_maps := page_key_of loc dest i # k_maps K\<rparr>"
  have "beginTime (the_page loc dest i False False) ?K = (Inr (page_begin (pf_mem pf)), ?K)"
    using assms(1,2) by (intro beginTime_ready) (simp_all add: page_ready_def page_file_ok_def)
  then show ?thesis
    using assms(3) by (simp add: probe_begin_def prog_simps Page_load_existing [OF assms] Page_destroy_eq)
qed

subsection \<open>The binary search\<close>

text \<open>Begin times in page order: non-zero and ascending up to some page, zero (empty) after it.\<close>

definition times_ordered :: "u64 list \<Rightarrow> bool" where
  "times_ordered ts \<longleftrightarrow> sorted (map sint (takeWhile (\<lambda>t. t \<noteq> 0) ts)) \<and>
     list_all (\<lambda>t. t = 0) (dropWhile (\<lambda>t. t \<noteq> 0) ts)"

definition starts_by :: "u64 \<Rightarrow> u64 \<Rightarrow> bool" where
  "starts_by time t \<longleftrightarrow> t \<noteq> 0 \<and> sint t \<le> sint time"

lemma times_ordered_Cons:
  "times_ordered (t # ts) \<longleftrightarrow>
     (if t = 0 then list_all (\<lambda>t. t = 0) ts
      else times_ordered ts \<and> (\<forall>u \<in> set ts. u \<noteq> 0 \<longrightarrow> sint t \<le> sint u))"
proof -
  have "u \<in> set (takeWhile (\<lambda>t. t \<noteq> 0) ts)"
    if "list_all (\<lambda>t. t = 0) (dropWhile (\<lambda>t. t \<noteq> 0) ts)" "u \<in> set ts" "u \<noteq> 0" for u
    using that takeWhile_dropWhile_id [of "\<lambda>t. t \<noteq> 0" ts]
    by (metis (mono_tags, lifting) Un_iff list_all_iff set_append)
  then show ?thesis
    by (auto simp: times_ordered_def dest: set_takeWhileD)
qed

lemma starts_by_down:
  "times_ordered ts \<Longrightarrow> i \<le> j \<Longrightarrow> j < length ts \<Longrightarrow> starts_by time (ts ! j) \<Longrightarrow> starts_by time (ts ! i)"
proof (induction ts arbitrary: i j)
  case (Cons t ts)
  show ?case
  proof (cases i)
    case 0
    then show ?thesis
      using Cons.prems by (cases j) (auto simp: times_ordered_Cons starts_by_def list_all_length
          split: if_splits dest!: bspec [where x = "ts ! (j - 1)"])
  next
    case (Suc i')
    then obtain j' where "j = Suc j'" using Cons.prems by (cases j) auto
    then show ?thesis
      using Suc Cons by (auto simp: times_ordered_Cons starts_by_def list_all_length split: if_splits)
  qed
qed simp

lemma findPageId_loop_correct:
  assumes probe: "\<And>k. k < length ids \<Longrightarrow> probe_begin os loc dest (ids ! k) K = (Inr (ts ! k), K)"
    and ord: "times_ordered ts" and len: "length ts = length ids"
  shows "0 \<le> left \<Longrightarrow> left \<le> right + 1 \<Longrightarrow> right < int (length ids) \<Longrightarrow>
    (\<And>k. k < nat left \<Longrightarrow> starts_by time (ts ! k)) \<Longrightarrow>
    (\<And>k. right < int k \<Longrightarrow> k < length ids \<Longrightarrow> \<not> starts_by time (ts ! k)) \<Longrightarrow>
    \<exists>n \<le> length ids. (\<forall>k < length ids. starts_by time (ts ! k) \<longleftrightarrow> k < n) \<and>
      findPageId_loop os loc dest time ids left right best K =
        (Inr (if n = nat left then best else ids ! (n - 1)), K) \<and> nat left \<le> n"
proof (induction "nat (right - left + 1)" arbitrary: left right best rule: less_induct)
  case less
  show ?case
  proof (cases "left \<le> right")
    case False
    with less.prems have "left = right + 1" by simp
    with less.prems have "\<forall>k < length ids. starts_by time (ts ! k) \<longleftrightarrow> k < nat left"
      by (metis add1_zle_eq not_less nat_less_iff of_nat_less_iff linorder_not_le zless_nat_eq_int_zless)
    moreover have "nat left \<le> length ids" using \<open>left = right + 1\<close> less.prems by simp
    ultimately show ?thesis
      using False by (intro exI [of _ "nat left"]) (simp add: findPageId_loop.simps)
  next
    case True
    define mid where "mid = left + (right - left) div 2"
    have mid: "left \<le> mid" "mid \<le> right" using True by (simp_all add: mid_def)
    then have nm: "nat mid < length ids" using less.prems by simp
    show ?thesis
    proof (cases "starts_by time (ts ! nat mid)")
      case hit: True
      have step: "findPageId_loop os loc dest time ids left right best K =
          findPageId_loop os loc dest time ids (mid + 1) right (ids ! nat mid) K"
        using True hit probe [OF nm]
        by (subst findPageId_loop.simps) (simp add: mid_def [symmetric] starts_by_def Let_def)
      have low: "starts_by time (ts ! k)" if "k < nat (mid + 1)" for k
        using starts_by_down [OF ord, of k "nat mid"] hit that nm len mid less.prems(1) by simp
      have "\<exists>n \<le> length ids. (\<forall>k < length ids. starts_by time (ts ! k) \<longleftrightarrow> k < n) \<and>
        findPageId_loop os loc dest time ids (mid + 1) right (ids ! nat mid) K =
          (Inr (if n = nat (mid + 1) then ids ! nat mid else ids ! (n - 1)), K) \<and> nat (mid + 1) \<le> n"
        using mid less.prems low by (intro less.hyps) auto
      then obtain n where n: "n \<le> length ids" "\<forall>k < length ids. starts_by time (ts ! k) \<longleftrightarrow> k < n"
        "findPageId_loop os loc dest time ids (mid + 1) right (ids ! nat mid) K =
          (Inr (if n = nat (mid + 1) then ids ! nat mid else ids ! (n - 1)), K)" "nat (mid + 1) \<le> n"
        by blast
      then have "ids ! nat mid = ids ! (n - 1)" if "n = nat (mid + 1)"
        using that mid less.prems(1) by (simp add: nat_add_distrib)
      with n show ?thesis
        unfolding step using mid less.prems(1) by (intro exI [of _ n]) auto
    next
      case miss: False
      have step: "findPageId_loop os loc dest time ids left right best K =
          findPageId_loop os loc dest time ids left (mid - 1) best K"
        using True miss probe [OF nm]
        by (subst findPageId_loop.simps) (auto simp: mid_def [symmetric] starts_by_def Let_def)
      have high: "\<not> starts_by time (ts ! k)" if "mid - 1 < int k" "k < length ids" for k
        using starts_by_down [OF ord, of "nat mid" k] miss that len by auto
      show ?thesis
        unfolding step using mid less.prems high by (intro less.hyps) auto
    qed
  qed
qed

lemma filter_prefix:
  "(\<And>k. k < length xs \<Longrightarrow> P (xs ! k) \<longleftrightarrow> k < n) \<Longrightarrow> n \<le> length xs \<Longrightarrow> filter P xs = take n xs"
proof (induction xs arbitrary: n)
  case (Cons x xs)
  have "P (xs ! k) \<longleftrightarrow> k < n - 1" if "k < length xs" for k
    using Cons.prems(1) [of "Suc k"] that by auto
  with Cons.IH [of "n - 1"] Cons.prems Cons.prems(1) [of 0] show ?case
    by (cases n) auto
qed simp

definition begin_times :: "Location \<Rightarrow> u32 \<Rightarrow> page_key kernel \<Rightarrow> u64 list" where
  "begin_times loc dest K =
     map (\<lambda>i. page_begin (page_mem K (page_key_of loc dest i))) (journal_pages loc dest K)"

definition journal_ok :: "Location \<Rightarrow> u32 \<Rightarrow> page_key kernel \<Rightarrow> bool" where
  "journal_ok loc dest K \<longleftrightarrow> page_ids_ok K \<and>
     list_all (\<lambda>i. case lookup_file K (page_key_of loc dest i) of
         None \<Rightarrow> False | Some pf \<Rightarrow> page_file_ok (findPageSize loc dest) pf)
       (journal_pages loc dest K)"

lemma journal_ok_probe:
  assumes "journal_ok loc dest K" and "os_works os" and "k < length (journal_pages loc dest K)"
  shows "probe_begin os loc dest (journal_pages loc dest K ! k) K = (Inr (begin_times loc dest K ! k), K)"
proof -
  obtain pf where "lookup_file K (page_key_of loc dest (journal_pages loc dest K ! k)) = Some pf"
    "page_file_ok (findPageSize loc dest) pf"
    using assms(1,3) by (auto simp: journal_ok_def list_all_length split: option.splits)
  with probe_begin_ok [OF this assms(2)] assms(3) show ?thesis
    by (simp add: begin_times_def page_mem_def)
qed

lemma findPageId_correct:
  assumes ok: "journal_ok loc dest K" and os: "os_works os" and ids: "journal_pages loc dest K \<noteq> []"
    and ord: "times_ordered (begin_times loc dest K)" and time: "time \<noteq> 0"
  shows "findPageId os loc dest time K =
    (Inr (last (hd (journal_pages loc dest K) #
       filter (\<lambda>i. starts_by time (page_begin (page_mem K (page_key_of loc dest i))))
         (journal_pages loc dest K))), K)"
proof -
  let ?ids = "journal_pages loc dest K" and ?ts = "begin_times loc dest K"
  have len: "length ?ts = length ?ids" by (simp add: begin_times_def)
  obtain n where n: "n \<le> length ?ids" "\<forall>k < length ?ids. starts_by time (?ts ! k) \<longleftrightarrow> k < n"
    "findPageId_loop os loc dest time ?ids 0 (int (length ?ids) - 1) (hd ?ids) K =
       (Inr (if n = 0 then hd ?ids else ?ids ! (n - 1)), K)"
    using findPageId_loop_correct [OF journal_ok_probe [OF ok os] ord len, of 0 "int (length ?ids) - 1"
        time "hd ?ids"] ids by auto
  have "filter (\<lambda>i. starts_by time (page_begin (page_mem K (page_key_of loc dest i)))) ?ids = take n ?ids"
    using n(1,2) by (intro filter_prefix) (simp_all add: begin_times_def)
  moreover have "?ids ! (n - 1) = last (take n ?ids)" if "n \<noteq> 0"
    using that n(1) ids by (subst last_conv_nth) (auto simp: min_def)
  ultimately show ?thesis
    using n ids time ok by (auto simp: findPageId_def prog_simps list_pages_eq journal_ok_def)
qed

subsection \<open>Properties\<close>

text \<open>C31: when the begin times of a journal's pages are in page order, the binary search of
  \<^verbatim>\<open>findPageId\<close> returns the last page that starts at or before the time, or the first page when none
  does; it leaves every file and mapping as it was.\<close>

theorem findPageId_finds:
  assumes "journal_ok loc dest K" and "os_works os" and "journal_pages loc dest K \<noteq> []"
    and "times_ordered (begin_times loc dest K)" and "time \<noteq> 0"
  shows "findPageId os loc dest time K =
    (Inr (last (hd (journal_pages loc dest K) #
       filter (\<lambda>i. starts_by time (page_begin (page_mem K (page_key_of loc dest i))))
         (journal_pages loc dest K))), K)"
  by (rule findPageId_correct [OF assms])

definition ex_location :: Location where
  "ex_location = Location_new LIVE EXECUTION ''nyse'' ''spy'' ''/data''"

definition ex_page_at :: "u64 \<Rightarrow> page_file" where
  "ex_page_at t = \<lparr>pf_size = unat PAGE_SIZE_DEFAULT,
     pf_mem = store_u64 (store_u32 (blank_page PAGE_SIZE_DEFAULT) 64 32) 80 t\<rparr>"

definition ex_kernel :: "page_key kernel" where
  "ex_kernel = \<lparr>k_files = [(page_key_of ex_location 0 3, ex_page_at 900),
      (page_key_of ex_location 0 1, ex_page_at 100), (page_key_of ex_location 0 2, ex_page_at 500)],
     k_fds = 0, k_maps = []\<rparr>"

lemma ex_location_size: "findPageSize ex_location 0 = PAGE_SIZE_DEFAULT"
  by (simp add: findPageSize_def ex_location_def Location_new_def Let_def)

lemma ex_page_at_ok: "page_file_ok PAGE_SIZE_DEFAULT (ex_page_at t)"
proof -
  have "PageHeader_at (pf_mem (ex_page_at t)) = PageHeader_at (blank_page PAGE_SIZE_DEFAULT)"
    by (rule PageHeader_same_on) (simp add: same_on_def ex_page_at_def mem_simps)
  then show ?thesis
    by (simp add: page_file_ok_def header_ok_iff ex_page_at_def blank_page_def PAGE_SIZE_DEFAULT_def)
qed

lemma ex_page_at_begin: "page_begin (pf_mem (ex_page_at t)) = t"
  by (simp add: page_begin_def ex_page_at_def getFrameLength_def getGenTime_def mem_simps)

lemma ex_kernel_simps:
  "journal_pages ex_location 0 ex_kernel = [1, 2, 3]"
  "lookup_file ex_kernel (page_key_of ex_location 0 1) = Some (ex_page_at 100)"
  "lookup_file ex_kernel (page_key_of ex_location 0 2) = Some (ex_page_at 500)"
  "lookup_file ex_kernel (page_key_of ex_location 0 3) = Some (ex_page_at 900)"
  by (simp_all add: journal_pages_def dir_entries_def ex_kernel_def page_key_of_def lookup_file_def)

theorem findPageId_finds_witness:
  "findPageId (\<lambda>_. os_all_ok) ex_location 0 600 ex_kernel = (Inr 2, ex_kernel)"
proof -
  have "journal_ok ex_location 0 ex_kernel"
    by (simp add: journal_ok_def ex_kernel_simps ex_location_size ex_page_at_ok)
      (simp add: page_ids_ok_def ex_kernel_def page_key_of_def int32_range_def)
  moreover have "begin_times ex_location 0 ex_kernel = [100, 500, 900]"
    by (simp add: begin_times_def ex_kernel_simps page_mem_def ex_page_at_begin)
  ultimately show ?thesis
    using findPageId_finds [of ex_location 0 ex_kernel "\<lambda>_. os_all_ok" 600]
    by (simp add: ex_kernel_simps os_works_def times_ordered_def starts_by_def page_mem_def
        ex_page_at_begin)
qed

text \<open>Loading a page for writing creates a missing page as a file of the page size with a valid
  header and no frame, and leaves an existing valid page as it is; no other file changes, and exactly
  one mapping is added.\<close>

theorem Page_load_creates_or_keeps:
  assumes "os_works os"
    and "pred_option (page_file_ok (findPageSize loc dest)) (lookup_file K (page_key_of loc dest i))"
  shows "\<exists>K'. Page_load os loc dest i True pre K = (Inr (the_page loc dest i True pre), K') \<and>
    k_maps K' = page_key_of loc dest i # k_maps K \<and> k_fds K' = k_fds K \<and>
    lookup_file K' = (lookup_file K)(page_key_of loc dest i \<mapsto>
      (case lookup_file K (page_key_of loc dest i) of
         Some pf \<Rightarrow> pf
       | None \<Rightarrow> \<lparr>pf_size = unat (findPageSize loc dest), pf_mem = blank_page (findPageSize loc dest)\<rparr>))"
proof (cases "lookup_file K (page_key_of loc dest i)")
  case None
  obtain K' where "Page_load os loc dest i True pre K = (Inr (the_page loc dest i True pre), K')"
    "lookup_file K' (page_key_of loc dest i) =
      Some \<lparr>pf_size = unat (findPageSize loc dest), pf_mem = blank_page (findPageSize loc dest)\<rparr>"
    "\<And>key. key \<noteq> page_key_of loc dest i \<Longrightarrow> lookup_file K' key = lookup_file K key"
    "k_maps K' = page_key_of loc dest i # k_maps K" "k_fds K' = k_fds K"
    by (rule Page_load_new [OF None _ assms(1), of True pre]) auto
  with None show ?thesis by (intro exI [of _ K'] conjI ext) (simp_all del: split_paired_All)
next
  case (Some pf)
  with assms Page_load_existing [OF Some, of os True pre] show ?thesis
    by (simp add: fun_upd_idem) (simp add: lookup_file_def fun_eq_iff)
qed

theorem Page_load_creates_or_keeps_witness:
  "\<exists>K'. Page_load (\<lambda>_. os_all_ok) ex_location 0 4 True True ex_kernel =
     (Inr (the_page ex_location 0 4 True True), K') \<and> k_maps K' = [page_key_of ex_location 0 4]"
proof -
  have "lookup_file ex_kernel (page_key_of ex_location 0 4) = None"
    by (simp add: ex_kernel_def page_key_of_def lookup_file_def)
  then show ?thesis
    using Page_load_creates_or_keeps [of "\<lambda>_. os_all_ok" ex_location 0 ex_kernel 4 True]
    by (auto simp: os_works_def ex_kernel_def)
qed

text \<open>C32: when a header check of \<^verbatim>\<open>Page::load\<close> fails on an existing file, the error is thrown and the
  mapping made before it is left behind: no page owns it and nobody releases it.\<close>

theorem Page_load_rejects_and_leaks:
  assumes "lookup_file K (page_key_of loc dest i) = Some pf"
    and "pf_size pf = unat (findPageSize loc dest)"
    and "ph_last_frame_position (PageHeader_at (pf_mem pf)) \<noteq> 0"
    and "validate_header (findPageSize loc dest) (pf_mem pf) = Some e" and "os_works os"
  shows "Page_load os loc dest i w pre K =
    (Inl e, K\<lparr>k_maps := page_key_of loc dest i # k_maps K\<rparr>)"
proof -
  let ?K = "K\<lparr>k_maps := page_key_of loc dest i # k_maps K\<rparr>"
  have load: "loadMmapBuffer (os (page_key_of loc dest i)) (page_key_of loc dest i)
     (unat (findPageSize loc dest)) w pre K = (Inr (), ?K)"
    using assms by (intro loadMmapBuffer_existing) auto
  have "page_ready ?K (the_page loc dest i w pre) pf"
    using assms by (simp add: page_ready_def)
  note rd = page_read_ready [OF this]
  show ?thesis
    using assms(3,4) by (simp add: Page_load_unfold prog_simps load rd throw_if_def)
qed

theorem Page_load_rejects_and_leaks_witness:
  "\<exists>K. Page_load (\<lambda>_. os_all_ok) ex_location 0 1 False False K =
     (Inl (Journal_error ''version''), K\<lparr>k_maps := page_key_of ex_location 0 1 # k_maps K\<rparr>)"
proof -
  let ?pf = "\<lparr>pf_size = unat PAGE_SIZE_DEFAULT, pf_mem = store_u64 (\<lambda>_. 0) 16 64\<rparr>"
  let ?K = "\<lparr>k_files = [(page_key_of ex_location 0 1, ?pf)], k_fds = 0, k_maps = []\<rparr>"
  have "validate_header PAGE_SIZE_DEFAULT (store_u64 (\<lambda>_. 0) 16 64) = Some (Journal_error ''version'')"
    by (simp add: validate_header_def PageHeader_at_def mem_simps JOURNAL_PAGE_VERSION_def Let_def)
  then show ?thesis
    using Page_load_rejects_and_leaks [of ?K ex_location 0 1 ?pf "Journal_error ''version''"
        "\<lambda>_. os_all_ok" False False]
    by (intro exI [of _ ?K])
      (simp add: lookup_file_def ex_location_size os_works_def PageHeader_at_def mem_simps)
qed



end
