(* ===== verification/Frame_Log.thy ===== *)
theory Frame_Log
  imports Journal_Page
begin

section \<open>Frames laid out on a page\<close>

text \<open>
  The abstract content of a page is the list of its frames.  \<open>frames_at m off fs\<close> says that the
  frames \<open>fs\<close> lie back to back from offset \<open>off\<close>, each at the stride its length gives.  The second
  half gives the byte-level effect of opening, filling and publishing one frame, as
  \<^verbatim>\<open>JournalWriter\<close> does it (include/revoq/JournalWriter.h), and shows that it appends one frame to
  the list and disturbs nothing else.
\<close>

subsection \<open>Lists of frames\<close>

fun frames_at :: "memory \<Rightarrow> nat \<Rightarrow> FrameSnap list \<Rightarrow> bool" where
  "frames_at m off [] = True"
| "frames_at m off (f # fs) = (frame_at m off f \<and> frames_at m (off + frame_stride f) fs)"

definition frames_len :: "FrameSnap list \<Rightarrow> nat" where
  "frames_len fs = sum_list (map frame_stride fs)"

lemma frames_len_simps [simp]:
  "frames_len [] = 0" "frames_len (f # fs) = frame_stride f + frames_len fs"
  "frames_len (fs @ gs) = frames_len fs + frames_len gs"
  by (simp_all add: frames_len_def)

lemma frames_at_append [simp]:
  "frames_at m off (fs @ gs) \<longleftrightarrow> frames_at m off fs \<and> frames_at m (off + frames_len fs) gs"
  by (induction fs arbitrary: off) (auto simp: add.assoc)

lemma frames_at_nth:
  "frames_at m off fs \<Longrightarrow> k < length fs \<Longrightarrow> frame_at m (off + frames_len (take k fs)) (fs ! k)"
proof (induction fs arbitrary: off k)
  case (Cons f fs)
  then show ?case using Cons.IH [of "off + frame_stride f" "k - 1"]
    by (cases k) (simp_all add: add.assoc)
qed simp

lemma frames_len_take_le: "frames_len (take k fs) \<le> frames_len fs"
proof -
  have "frames_len fs = frames_len (take k fs) + frames_len (drop k fs)"
    by (metis append_take_drop_id frames_len_simps(3))
  then show ?thesis by simp
qed

lemma frames_len_take_Suc:
  "k < length fs \<Longrightarrow> frames_len (take (Suc k) fs) = frames_len (take k fs) + frame_stride (fs ! k)"
  by (simp add: take_Suc_conv_app_nth)

lemma frames_len_mod: "frames_len fs mod 64 = 0"
proof (induction fs)
  case (Cons f fs)
  then show ?case using frame_stride_bounds(3) [of f] by (simp add: mod_add_eq [symmetric])
qed simp

lemma frames_at_same_on:
  "frames_at m off fs \<Longrightarrow> same_on m m' off (off + frames_len fs) \<Longrightarrow> frames_at m' off fs"
proof (induction fs arbitrary: off)
  case (Cons f fs)
  have "same_on m m' off (off + 32 + length (snap_payload f))"
    using Cons.prems(2) frame_stride_bounds(2) [of f] by (auto elim!: same_on_sub)
  moreover have "same_on m m' (off + frame_stride f) (off + frame_stride f + frames_len fs)"
    using Cons.prems(2) by (auto elim!: same_on_sub)
  ultimately show ?case
    using Cons frame_at_same_on [of m off f m'] by auto
qed simp

subsection \<open>Writing one frame\<close>

definition open_frame_mem :: "nat \<Rightarrow> u64 \<Rightarrow> u32 \<Rightarrow> u16 \<Rightarrow> u64 \<Rightarrow> memory \<Rightarrow> memory" where
  "open_frame_mem off timestamp msg_type fl seq m =
     (let m = new_FrameHeader m off;
          m = setGenTime m off timestamp;
          m = setEventTime m off 0;
          m = setMsgType m off msg_type;
          m = setFlags m off fl;
          m = setSequence m off seq
      in store_u32 m off 0)"

text \<open>The \<^verbatim>\<open>PageEnd\<close> sentinel that \<^verbatim>\<open>rotatePage\<close> writes: the fields, then the length.\<close>

definition page_end_mem :: "nat \<Rightarrow> u64 \<Rightarrow> u64 \<Rightarrow> memory \<Rightarrow> memory" where
  "page_end_mem off now seq m =
     (let m = new_FrameHeader m off;
          m = setGenTime m off now;
          m = setEventTime m off 0;
          m = setMsgType m off MsgType_PageEnd;
          m = setFlags m off FRAME_NORMAL;
          m = setSequence m off seq
      in store_u32 m off (of_nat sizeof_FrameHeader))"

definition put_FrameHeader :: "memory \<Rightarrow> nat \<Rightarrow> FrameHeader \<Rightarrow> memory" where
  "put_FrameHeader m off h =
     (let m = store_u32 m off (fh_length h);
          m = store_u16 m (off + 4) (fh_msg_type h);
          m = store_u16 m (off + 6) (fh_flags h);
          m = store_u64 m (off + 8) (fh_sequence h);
          m = store_u64 m (off + 16) (fh_gen_time h)
      in store_u64 m (off + 24) (fh_event_time h))"

text \<open>The hook may change the header; then the length is stored, which publishes the frame.\<close>

definition close_frame_mem ::
    "(FrameHeader \<Rightarrow> FrameHeader) \<Rightarrow> nat \<Rightarrow> u32 \<Rightarrow> memory \<Rightarrow> memory" where
  "close_frame_mem hook off total_size m =
     store_u32 (put_FrameHeader m off (hook (FrameHeader_at m off))) off total_size"

lemma FrameHeader_put [simp]: "FrameHeader_at (put_FrameHeader m off h) off = h"
  by (simp add: FrameHeader_at_def put_FrameHeader_def Let_def mem_simps)

lemma put_FrameHeader_outside:
  "i < off \<or> off + 32 \<le> i \<Longrightarrow> put_FrameHeader m off h i = m i"
  by (auto simp: put_FrameHeader_def Let_def mem_simps)

lemma open_frame_outside: "i < off \<or> off + 32 \<le> i \<Longrightarrow> open_frame_mem off t ty fl seq m i = m i"
  by (auto simp: open_frame_mem_def Let_def frame_setters new_FrameHeader_def mem_simps)

lemma open_frame_header:
  "FrameHeader_at (open_frame_mem off t ty fl seq m) off =
     \<lparr>fh_length = 0, fh_msg_type = ucast ty, fh_flags = fl, fh_sequence = seq, fh_gen_time = t,
      fh_event_time = 0\<rparr>"
  by (simp add: FrameHeader_at_def open_frame_mem_def Let_def frame_setters mem_simps)

lemma close_frame_outside:
  "i < off \<or> off + 32 \<le> i \<Longrightarrow> close_frame_mem hook off n m i = m i"
  by (auto simp: close_frame_mem_def mem_simps put_FrameHeader_outside)

lemma close_frame_header:
  "FrameHeader_at (close_frame_mem hook off n m) off = (hook (FrameHeader_at m off))\<lparr>fh_length := n\<rparr>"
proof -
  let ?m = "put_FrameHeader m off (hook (FrameHeader_at m off))"
  have "FrameHeader_at (store_u32 ?m off n) off = (FrameHeader_at ?m off)\<lparr>fh_length := n\<rparr>"
    by (simp add: FrameHeader_at_def mem_simps)
  then show ?thesis by (simp add: close_frame_mem_def)
qed

lemma FrameHeader_same_on:
  "same_on m m' off (off + 32) \<Longrightarrow> FrameHeader_at m' off = FrameHeader_at m off"
  using same_on_sub [of m m' off "off + 32" off "off + 4"]
    same_on_sub [of m m' off "off + 32" "off + 4" "off + 4 + 2"]
    same_on_sub [of m m' off "off + 32" "off + 6" "off + 6 + 2"]
    same_on_sub [of m m' off "off + 32" "off + 8" "off + 8 + 8"]
    same_on_sub [of m m' off "off + 32" "off + 16" "off + 16 + 8"]
    same_on_sub [of m m' off "off + 32" "off + 24" "off + 24 + 8"]
  by (simp add: FrameHeader_at_def load_int_same_on)

text \<open>A frame as its header and the bytes behind it show it.\<close>

lemma frame_at_header:
  assumes "fh_length (FrameHeader_at m off) = of_nat (32 + length bs)" and "32 + length bs < 2 ^ 32"
    and "load_bytes m (off + 32) (length bs) = bs"
  shows "frame_at m off
    \<lparr>snap_sequence = fh_sequence (FrameHeader_at m off), snap_msg_type = uint (fh_msg_type (FrameHeader_at m off)),
     snap_gen_time = fh_gen_time (FrameHeader_at m off), snap_event_time = fh_event_time (FrameHeader_at m off),
     snap_flags = fh_flags (FrameHeader_at m off), snap_payload = bs\<rparr>"
proof -
  have len: "unat (getFrameLength m off) = 32 + length bs"
    using assms(1) unat_of_nat_u32 [OF assms(2)]
    by (simp add: FrameHeader_at_def getFrameLength_def del: of_nat_add)
  then have dl: "unat (getDataLength m off) = length bs"
    by (simp add: unat_getDataLength)
  then have "getDataLength m off = 0 \<longleftrightarrow> bs = []"
    by (metis length_0_conv unat_eq_zero)
  then show ?thesis
    using len dl assms(3)
    by (auto simp: frame_at_def FrameSnap_from_def Let_def FrameHeader_at_def frame_getters(2-6)
        dataAsBytes_def word_neq_0_conv [symmetric] simp del: word_neq_0_conv)
qed

definition put_frame ::
    "(FrameHeader \<Rightarrow> FrameHeader) \<Rightarrow> nat \<Rightarrow> u64 \<Rightarrow> u32 \<Rightarrow> u16 \<Rightarrow> u64 \<Rightarrow> u8 list \<Rightarrow> memory \<Rightarrow> memory" where
  "put_frame hook off t ty fl seq bs m =
     close_frame_mem hook off (of_nat (32 + length bs))
       (store_bytes (open_frame_mem off t ty fl seq m) (off + 32) bs)"

definition snap_of :: "u64 \<Rightarrow> u32 \<Rightarrow> u16 \<Rightarrow> u64 \<Rightarrow> u8 list \<Rightarrow> FrameSnap" where
  "snap_of t ty fl seq bs =
     \<lparr>snap_sequence = seq, snap_msg_type = uint (ucast ty :: u16), snap_gen_time = t,
      snap_event_time = 0, snap_flags = fl, snap_payload = bs\<rparr>"

lemma put_frame_outside:
  "i < off \<or> off + 32 + length bs \<le> i \<Longrightarrow> put_frame hook off t ty fl seq bs m i = m i"
  by (auto simp: put_frame_def close_frame_outside open_frame_outside mem_simps)

lemma put_frame_at:
  assumes "32 + length bs < 2 ^ 32"
  shows "frame_at (put_frame id off t ty fl seq bs m) off (snap_of t ty fl seq bs)"
proof -
  let ?m1 = "open_frame_mem off t ty fl seq m"
  let ?m2 = "store_bytes ?m1 (off + 32) bs"
  let ?m = "put_frame id off t ty fl seq bs m"
  have "FrameHeader_at ?m2 off = FrameHeader_at ?m1 off"
    by (rule FrameHeader_same_on) (rule same_on_store_bytes, simp)
  then have h: "FrameHeader_at ?m off = \<lparr>fh_length = of_nat (32 + length bs), fh_msg_type = ucast ty,
     fh_flags = fl, fh_sequence = seq, fh_gen_time = t, fh_event_time = 0\<rparr>"
    by (simp add: put_frame_def close_frame_header open_frame_header)
  have "load_bytes ?m (off + 32) (length bs) = load_bytes ?m2 (off + 32) (length bs)"
    by (auto simp: load_bytes_def put_frame_def close_frame_outside)
  then have "load_bytes ?m (off + 32) (length bs) = bs"
    by (simp add: mem_simps)
  from frame_at_header [OF _ assms this] h show ?thesis
    by (simp add: snap_of_def)
qed

lemma put_frame_appends:
  assumes "frames_at m lo fs" and "off = lo + frames_len fs" and "32 + length bs < 2 ^ 32"
  shows "frames_at (put_frame id off t ty fl seq bs m) lo (fs @ [snap_of t ty fl seq bs])"
proof -
  have "same_on m (put_frame id off t ty fl seq bs m) lo (lo + frames_len fs)"
    using assms(2) by (simp add: same_on_def put_frame_outside)
  with assms put_frame_at [OF assms(3), of off t ty fl seq m] show ?thesis
    by (simp add: frames_at_same_on)
qed

lemma snap_of_simps [simp]:
  "snap_payload (snap_of t ty fl seq bs) = bs" "snap_sequence (snap_of t ty fl seq bs) = seq"
  "snap_gen_time (snap_of t ty fl seq bs) = t"
  "snap_msg_type (snap_of t ty fl seq bs) = uint (ucast ty :: u16)"
  "frame_stride (snap_of t ty fl seq bs) = stride_of (32 + length bs)"
  by (simp_all add: snap_of_def frame_stride_def)

lemma page_end_outside: "i < off \<or> off + 32 \<le> i \<Longrightarrow> page_end_mem off now seq m i = m i"
  by (auto simp: page_end_mem_def Let_def frame_setters new_FrameHeader_def mem_simps)

lemma page_end_at: "frame_at (page_end_mem off now seq m) off (snap_of now MsgType_PageEnd FRAME_NORMAL seq [])"
proof -
  let ?m = "page_end_mem off now seq m"
  have h: "FrameHeader_at ?m off = \<lparr>fh_length = 32, fh_msg_type = ucast MsgType_PageEnd,
     fh_flags = FRAME_NORMAL, fh_sequence = seq, fh_gen_time = now, fh_event_time = 0\<rparr>"
    by (simp add: FrameHeader_at_def page_end_mem_def Let_def frame_setters mem_simps)
  show ?thesis
    using frame_at_header [of ?m off "[]"] h by (simp add: snap_of_def)
qed

end
