(* ===== verification/Page_Warmer.thy ===== *)
theory Page_Warmer
  imports Journal_Page "HOL-Library.Multiset"
begin

section \<open>The page warmer (include/revoq/PageWarmer.h)\<close>

text \<open>
  A ring of slots in which a background thread maps the pages ahead of the writer's current page.  A
  slot's page number is \<open>-1\<close> when it is empty, \<open>-2\<close> while it is being warmed, and the page otherwise.
  An address is the key of the mapped page file, \<open>None\<close> for the null pointer.  The thread's loop body
  is cut where another thread can come in between: claiming a slot, mapping the file, and filling and
  publishing the slot.  Compare-and-exchange on a slot is a test and an assignment in one step.  The
  lemmas show which mappings the ring owns at every moment.
\<close>

record PageSlot =
  slot_page_id :: int
  slot_address :: "page_key option"
  slot_size :: u32
  slot_sequence :: u64
  slot_is_owned :: bool

record PageWarmer =
  pw_location :: Location
  pw_dest_id :: u32
  pw_page_size :: u32
  pw_is_writer :: bool
  pw_distance :: nat
  pw_running :: bool
  pw_write_index :: u64
  pw_read_index :: u64
  pw_current_page :: int
  pw_local_seq :: u64
  pw_ring :: "PageSlot list"

definition RingSize :: nat where
  "RingSize = 16"

definition empty_slot :: PageSlot where
  "empty_slot = \<lparr>slot_page_id = - 1, slot_address = None, slot_size = 0, slot_sequence = 0,
     slot_is_owned = False\<rparr>"

definition PageWarmer_new :: "Location \<Rightarrow> u32 \<Rightarrow> u32 \<Rightarrow> bool \<Rightarrow> nat \<Rightarrow> PageWarmer" where
  "PageWarmer_new loc dest_id page_size is_writer warmup_distance =
     \<lparr>pw_location = loc, pw_dest_id = dest_id, pw_page_size = page_size, pw_is_writer = is_writer,
      pw_distance = min warmup_distance (RingSize div 2), pw_running = False, pw_write_index = 0,
      pw_read_index = 0, pw_current_page = - 1, pw_local_seq = 1,
      pw_ring = replicate RingSize empty_slot\<rparr>"

definition PageWarmer_start :: "PageWarmer \<Rightarrow> PageWarmer" where
  "PageWarmer_start w = (if pw_running w then w else w\<lparr>pw_running := True\<rparr>)"

definition PageWarmer_stop :: "PageWarmer \<Rightarrow> PageWarmer" where
  "PageWarmer_stop w = (if \<not> pw_running w then w else w\<lparr>pw_running := False\<rparr>)"

definition set_slot :: "nat \<Rightarrow> (PageSlot \<Rightarrow> PageSlot) \<Rightarrow> PageWarmer \<Rightarrow> PageWarmer" where
  "set_slot idx f w = w\<lparr>pw_ring := (pw_ring w)[idx := f (pw_ring w ! idx)]\<rparr>"

definition ring_index :: "u64 \<Rightarrow> nat" where
  "ring_index i = unat (i AND (of_nat RingSize - 1))"

subsection \<open>The writer's side\<close>

text \<open>
  \<^verbatim>\<open>getWarmedPage\<close>: the first slot from the read index that holds the page is claimed; its address
  and size are returned.
\<close>

fun getWarmedPage_scan ::
    "u64 \<Rightarrow> int \<Rightarrow> nat list \<Rightarrow> PageWarmer \<Rightarrow> (page_key option \<times> u32) \<times> PageWarmer" where
  "getWarmedPage_scan start_read page_id [] w = ((None, 0), w)"
| "getWarmedPage_scan start_read page_id (i # is) w =
     (let idx = ring_index (start_read + of_nat i);
          slot = pw_ring w ! idx
      in if slot_page_id slot = page_id then
           ((slot_address slot, slot_size slot),
            (set_slot idx (\<lambda>s. s\<lparr>slot_page_id := - 1, slot_is_owned := False\<rparr>) w)
              \<lparr>pw_read_index := of_nat (idx + 1) AND (of_nat RingSize - 1)\<rparr>)
         else getWarmedPage_scan start_read page_id is w)"

definition getWarmedPage :: "int \<Rightarrow> PageWarmer \<Rightarrow> (page_key option \<times> u32) \<times> PageWarmer" where
  "getWarmedPage page_id w = getWarmedPage_scan (pw_read_index w) page_id [0..<RingSize] w"

definition updateCurrentPage :: "int \<Rightarrow> PageWarmer \<Rightarrow> PageWarmer" where
  "updateCurrentPage page_id w = w\<lparr>pw_current_page := page_id\<rparr>"

subsection \<open>The background thread\<close>

definition isPageInRing :: "PageWarmer \<Rightarrow> int \<Rightarrow> bool" where
  "isPageInRing w page_id = list_ex (\<lambda>s. slot_page_id s = page_id) (pw_ring w)"

definition warmer_page :: "PageWarmer \<Rightarrow> int \<Rightarrow> Page" where
  "warmer_page w page_id = \<lparr>pg_location = pw_location w, pg_dest_id = pw_dest_id w,
     pg_page_id = page_id, pg_size = pw_page_size w, pg_prefault = True, pg_writable = True\<rparr>"

definition memset_zero :: "nat \<Rightarrow> nat \<Rightarrow> memory \<Rightarrow> memory" where
  "memset_zero off n m = (\<lambda>i. if off \<le> i \<and> i < off + n then 0 else m i)"

text \<open>
  \<^verbatim>\<open>warmPageIntoSlot\<close>, in two steps: whether the file existed is looked up and the file is mapped
  (and prefaulted); then, for a writer and a new file, header and body are written, and the slot is
  published.
\<close>

definition warm_map :: "(page_key \<Rightarrow> os_env) \<Rightarrow> int \<Rightarrow> (PageWarmer \<times> page_key kernel, bool) prog" where
  "warm_map os page_id =
     bind_p get_fst (\<lambda>w.
     let key = page_key_of (pw_location w) (pw_dest_id w) page_id in
     bind_p (on_snd get_p) (\<lambda>K.
     bind_p (on_snd (loadMmapBuffer (os key) key (unat (pw_page_size w)) (pw_is_writer w) True)) (\<lambda>_.
     return_p (lookup_file K key \<noteq> None))))"

definition warm_fill ::
    "int \<Rightarrow> nat \<Rightarrow> u64 \<Rightarrow> bool \<Rightarrow> (PageWarmer \<times> page_key kernel, unit) prog" where
  "warm_fill page_id slot_idx seq file_existed =
     bind_p get_fst (\<lambda>w.
     let sz = pw_page_size w; page = warmer_page w page_id in
     bind_p (if pw_is_writer w \<and> \<not> file_existed
             then on_snd (page_write page 0 (unat sz) (\<lambda>m.
                    memset_zero sizeof_PageHeader (unat sz - sizeof_PageHeader)
                      (write_header_fields sz m)))
             else return_p ()) (\<lambda>_.
     modify_fst (set_slot slot_idx (\<lambda>s. s\<lparr>slot_address := Some (pg_key page), slot_size := sz,
       slot_is_owned := True, slot_sequence := seq, slot_page_id := page_id\<rparr>))))"

definition warmPageIntoSlot ::
    "(page_key \<Rightarrow> os_env) \<Rightarrow> int \<Rightarrow> nat \<Rightarrow> u64 \<Rightarrow> (PageWarmer \<times> page_key kernel, unit) prog" where
  "warmPageIntoSlot os page_id slot_idx seq =
     bind_p (warm_map os page_id) (warm_fill page_id slot_idx seq)"

text \<open>The body of the loop over the pages ahead (\<^verbatim>\<open>warmupLoop\<close>, lines 180 to 200).\<close>

definition warm_claim :: "int \<Rightarrow> PageWarmer \<Rightarrow> (nat \<times> PageWarmer) option" where
  "warm_claim next_page_id w =
     (let slot_idx = ring_index (pw_write_index w) in
      if isPageInRing w next_page_id then None
      else if slot_page_id (pw_ring w ! slot_idx) \<noteq> - 1 then None
      else Some (slot_idx, set_slot slot_idx (\<lambda>s. s\<lparr>slot_page_id := - 2\<rparr>) w))"

definition warm_page ::
    "(page_key \<Rightarrow> os_env) \<Rightarrow> int \<Rightarrow> (PageWarmer \<times> page_key kernel, unit) prog" where
  "warm_page os next_page_id =
     bind_p get_fst (\<lambda>w. case warm_claim next_page_id w of
       None \<Rightarrow> return_p ()
     | Some (slot_idx, w') \<Rightarrow>
         bind_p (modify_fst (\<lambda>_. w'\<lparr>pw_local_seq := pw_local_seq w' + 1\<rparr>)) (\<lambda>_.
         catch_p (bind_p (warmPageIntoSlot os next_page_id slot_idx (pw_local_seq w')) (\<lambda>_.
                  modify_fst (\<lambda>w. w\<lparr>pw_write_index := pw_write_index w + 1\<rparr>)))
           (\<lambda>_. modify_fst (set_slot slot_idx (\<lambda>s. s\<lparr>slot_page_id := - 1\<rparr>)))))"

fun warm_pages ::
    "(page_key \<Rightarrow> os_env) \<Rightarrow> int list \<Rightarrow> (PageWarmer \<times> page_key kernel, unit) prog" where
  "warm_pages os [] = return_p ()"
| "warm_pages os (i # is) = bind_p (warm_page os i) (\<lambda>_. warm_pages os is)"

definition release_slot ::
    "(page_key \<Rightarrow> os_env) \<Rightarrow> nat \<Rightarrow> (PageWarmer \<times> page_key kernel, unit) prog" where
  "release_slot os i =
     bind_p get_fst (\<lambda>w.
     let slot = pw_ring w ! i in
     case slot_address slot of
       Some key \<Rightarrow>
         if slot_is_owned slot then
           bind_p (on_snd (releaseMmapBuffer (os key) key False Msync_NONE)) (\<lambda>_.
           modify_fst (set_slot i (\<lambda>s. s\<lparr>slot_address := None, slot_is_owned := False\<rparr>)))
         else return_p ()
     | None \<Rightarrow> return_p ())"

fun cleanup_slots ::
    "(page_key \<Rightarrow> os_env) \<Rightarrow> int \<Rightarrow> nat list \<Rightarrow> (PageWarmer \<times> page_key kernel, unit) prog" where
  "cleanup_slots os threshold [] = return_p ()"
| "cleanup_slots os threshold (i # is) =
     bind_p get_fst (\<lambda>w.
     let pid = slot_page_id (pw_ring w ! i) in
     bind_p (if pid \<ge> 0 \<and> pid < threshold
             then bind_p (modify_fst (set_slot i (\<lambda>s. s\<lparr>slot_page_id := - 1\<rparr>))) (\<lambda>_. release_slot os i)
             else return_p ()) (\<lambda>_.
     cleanup_slots os threshold is))"

definition cleanupOldPages ::
    "(page_key \<Rightarrow> os_env) \<Rightarrow> int \<Rightarrow> (PageWarmer \<times> page_key kernel, unit) prog" where
  "cleanupOldPages os current_page =
     cleanup_slots os (current_page - int RingSize) [0..<RingSize]"

text \<open>One pass of the loop of the running thread.\<close>

definition warmup_pass :: "(page_key \<Rightarrow> os_env) \<Rightarrow> (PageWarmer \<times> page_key kernel, unit) prog" where
  "warmup_pass os =
     bind_p get_fst (\<lambda>w.
     if \<not> pw_running w \<or> pw_current_page w < 0 then return_p ()
     else bind_p (warm_pages os
              (map (\<lambda>i. pw_current_page w + int i) [1..<pw_distance w + 1])) (\<lambda>_.
          cleanupOldPages os (pw_current_page w)))"

fun release_slots ::
    "(page_key \<Rightarrow> os_env) \<Rightarrow> nat list \<Rightarrow> (PageWarmer \<times> page_key kernel, unit) prog" where
  "release_slots os [] = return_p ()"
| "release_slots os (i # is) = bind_p (release_slot os i) (\<lambda>_. release_slots os is)"

definition releaseAllPages :: "(page_key \<Rightarrow> os_env) \<Rightarrow> (PageWarmer \<times> page_key kernel, unit) prog" where
  "releaseAllPages os = release_slots os [0..<RingSize]"

definition PageWarmer_destroy :: "(page_key \<Rightarrow> os_env) \<Rightarrow> (PageWarmer \<times> page_key kernel, unit) prog" where
  "PageWarmer_destroy os = bind_p (modify_fst PageWarmer_stop) (\<lambda>_. releaseAllPages os)"

subsection \<open>Ring positions\<close>

lemma ring_index_mod: "ring_index w = unat w mod 16"
proof -
  have "w AND mask 4 = take_bit 4 w" by (rule take_bit_eq_mask [symmetric])
  then have "w AND 15 = take_bit 4 w" by (simp add: mask_numeral)
  then show ?thesis
    by (simp add: ring_index_def RingSize_def take_bit_eq_mod unat_mod)
qed

lemma ring_index_less [simp]: "ring_index w < RingSize"
  by (simp add: ring_index_mod RingSize_def)

lemma ring_index_add: "ring_index (w + of_nat i) = (ring_index w + i) mod 16"
proof -
  have "unat (w + of_nat i) mod 16 = (unat w + i) mod 2 ^ 64 mod 16"
    by (simp add: unat_word_ariths unat_of_nat mod_simps)
  also have "\<dots> = (unat w + i) mod 16"
    by (rule mod_mod_cancel) simp
  finally show ?thesis by (simp add: ring_index_mod mod_simps)
qed

lemma ring_index_covers:
  assumes "j < RingSize"
  shows "\<exists>i \<in> set [0..<RingSize]. ring_index (w + of_nat i) = j"
proof -
  let ?r = "ring_index w"
  have r: "?r < 16" by (simp add: ring_index_mod)
  have "(?r + (j + 16 - ?r) mod 16) mod 16 = j"
    using assms r by (simp add: mod_simps RingSize_def)
  then show ?thesis
    by (intro bexI [of _ "(j + 16 - ?r) mod 16"]) (simp_all add: ring_index_add RingSize_def)
qed

subsection \<open>Ownership of mappings\<close>

definition owned_mset :: "PageWarmer \<Rightarrow> page_key multiset" where
  "owned_mset w =
     image_mset (\<lambda>s. the (slot_address s)) (filter_mset slot_is_owned (mset (pw_ring w)))"

definition slot_ok :: "PageWarmer \<Rightarrow> PageSlot \<Rightarrow> bool" where
  "slot_ok w s \<longleftrightarrow> slot_page_id s \<ge> - 2 \<and> (slot_is_owned s \<longleftrightarrow> slot_page_id s \<ge> 0) \<and>
     (slot_is_owned s \<longrightarrow> slot_size s = pw_page_size w \<and>
        slot_address s = Some (page_key_of (pw_location w) (pw_dest_id w) (slot_page_id s)))"

definition ring_ok :: "PageWarmer \<Rightarrow> bool" where
  "ring_ok w \<longleftrightarrow> length (pw_ring w) = RingSize \<and> list_all (slot_ok w) (pw_ring w)"

definition warmer_inv :: "PageWarmer \<Rightarrow> page_key kernel \<Rightarrow> bool" where
  "warmer_inv w K \<longleftrightarrow> ring_ok w \<and> owned_mset w \<subseteq># mset (k_maps K)"

lemma mset_list_update:
  assumes "i < length xs"
  obtains M where "mset xs = add_mset (xs ! i) M" and "\<And>v. mset (xs[i := v]) = add_mset v M"
  using assms by (intro that [of "mset xs - {# xs ! i #}"]) (simp_all add: mset_update)

lemma set_slot_simps [simp]:
  "pw_ring (set_slot i f w) = (pw_ring w)[i := f (pw_ring w ! i)]"
  "pw_location (set_slot i f w) = pw_location w" "pw_dest_id (set_slot i f w) = pw_dest_id w"
  "pw_page_size (set_slot i f w) = pw_page_size w" "pw_is_writer (set_slot i f w) = pw_is_writer w"
  "pw_write_index (set_slot i f w) = pw_write_index w" "pw_local_seq (set_slot i f w) = pw_local_seq w"
  "pw_distance (set_slot i f w) = pw_distance w"
  by (simp_all add: set_slot_def)

lemma slot_ok_cong:
  "pw_location w' = pw_location w \<Longrightarrow> pw_dest_id w' = pw_dest_id w \<Longrightarrow>
   pw_page_size w' = pw_page_size w \<Longrightarrow> slot_ok w' = slot_ok w"
  by (rule ext) (simp add: slot_ok_def)

lemma warmer_field_updates [simp]:
  "ring_ok (w\<lparr>pw_read_index := u\<rparr>) = ring_ok w" "ring_ok (w\<lparr>pw_write_index := u\<rparr>) = ring_ok w"
  "ring_ok (w\<lparr>pw_local_seq := u\<rparr>) = ring_ok w" "ring_ok (w\<lparr>pw_current_page := c\<rparr>) = ring_ok w"
  "ring_ok (w\<lparr>pw_running := b\<rparr>) = ring_ok w"
  "owned_mset (w\<lparr>pw_read_index := u\<rparr>) = owned_mset w"
  "owned_mset (w\<lparr>pw_write_index := u\<rparr>) = owned_mset w"
  "owned_mset (w\<lparr>pw_local_seq := u\<rparr>) = owned_mset w"
  "owned_mset (w\<lparr>pw_current_page := c\<rparr>) = owned_mset w"
  "owned_mset (w\<lparr>pw_running := b\<rparr>) = owned_mset w"
  by (simp_all add: ring_ok_def owned_mset_def slot_ok_def list_all_iff)

lemma ring_ok_set_slot:
  "ring_ok w \<Longrightarrow> slot_ok w (f (pw_ring w ! i)) \<Longrightarrow> ring_ok (set_slot i f w)"
  by (auto simp: ring_ok_def slot_ok_cong [of "set_slot i f w" w] list_all_iff
      dest: set_update_subset_insert [THEN subsetD])

lemma ring_ok_slot: "ring_ok w \<Longrightarrow> i < RingSize \<Longrightarrow> slot_ok w (pw_ring w ! i)"
  by (simp add: ring_ok_def list_all_length)

lemma owned_mset_set_slot:
  assumes "i < length (pw_ring w)"
  shows "owned_mset (set_slot i f w) +
      (if slot_is_owned (pw_ring w ! i) then {# the (slot_address (pw_ring w ! i)) #} else {#}) =
    owned_mset w +
      (if slot_is_owned (f (pw_ring w ! i)) then {# the (slot_address (f (pw_ring w ! i))) #} else {#})"
proof -
  obtain M where "mset (pw_ring w) = add_mset (pw_ring w ! i) M"
    and "\<And>v. mset ((pw_ring w)[i := v]) = add_mset v M"
    using mset_list_update [OF assms] by blast
  then show ?thesis by (simp add: owned_mset_def)
qed

lemma owned_mset_empty: "owned_mset w = {#} \<longleftrightarrow> (\<forall>s \<in> set (pw_ring w). \<not> slot_is_owned s)"
proof -
  have "owned_mset w = mset (map (\<lambda>s. the (slot_address s)) (filter slot_is_owned (pw_ring w)))"
    by (simp add: owned_mset_def)
  then show ?thesis by (auto simp: filter_empty_conv)
qed

subsection \<open>Claiming a warmed page\<close>

lemma getWarmedPage_scan_miss:
  "\<forall>i \<in> set is. slot_page_id (pw_ring w ! ring_index (start + of_nat i)) \<noteq> pid \<Longrightarrow>
   getWarmedPage_scan start pid is w = ((None, 0), w)"
  by (induction "is") (auto simp: Let_def)

lemma getWarmedPage_scan_hit:
  "\<exists>i \<in> set is. slot_page_id (pw_ring w ! ring_index (start + of_nat i)) = pid \<Longrightarrow>
   \<exists>idx < RingSize. slot_page_id (pw_ring w ! idx) = pid \<and>
     getWarmedPage_scan start pid is w =
       ((slot_address (pw_ring w ! idx), slot_size (pw_ring w ! idx)),
        (set_slot idx (\<lambda>s. s\<lparr>slot_page_id := - 1, slot_is_owned := False\<rparr>) w)
          \<lparr>pw_read_index := of_nat (idx + 1) AND (of_nat RingSize - 1)\<rparr>)"
  by (induction "is") (auto simp: Let_def intro: exI [of _ "ring_index _"])

lemma getWarmedPage_cases:
  assumes "length (pw_ring w) = RingSize"
  shows "if isPageInRing w pid
    then \<exists>idx < RingSize. slot_page_id (pw_ring w ! idx) = pid \<and>
      getWarmedPage pid w = ((slot_address (pw_ring w ! idx), slot_size (pw_ring w ! idx)),
        (set_slot idx (\<lambda>s. s\<lparr>slot_page_id := - 1, slot_is_owned := False\<rparr>) w)
          \<lparr>pw_read_index := of_nat (idx + 1) AND (of_nat RingSize - 1)\<rparr>)
    else getWarmedPage pid w = ((None, 0), w)"
proof (cases "isPageInRing w pid")
  case True
  then obtain j where j: "j < RingSize" "slot_page_id (pw_ring w ! j) = pid"
    using assms by (auto simp: isPageInRing_def list_ex_length)
  then have "\<exists>i \<in> set [0..<RingSize]. slot_page_id (pw_ring w ! ring_index (pw_read_index w + of_nat i)) = pid"
    using ring_index_covers [OF j(1), of "pw_read_index w"] by metis
  with True show ?thesis
    unfolding getWarmedPage_def by (simp only: if_True getWarmedPage_scan_hit)
next
  case False
  then have "slot_page_id (pw_ring w ! ring_index v) \<noteq> pid" for v
    using assms by (auto simp: isPageInRing_def list_ex_length)
  with False show ?thesis
    unfolding getWarmedPage_def by (simp add: getWarmedPage_scan_miss)
qed

lemma getWarmedPage_hit:
  assumes ok: "ring_ok w" and pid: "pid \<ge> 0" and inr: "isPageInRing w pid"
  obtains w' where "getWarmedPage pid w =
      ((Some (page_key_of (pw_location w) (pw_dest_id w) pid), pw_page_size w), w')"
    and "ring_ok w'"
    and "owned_mset w = add_mset (page_key_of (pw_location w) (pw_dest_id w) pid) (owned_mset w')"
    and "pw_location w' = pw_location w" "pw_dest_id w' = pw_dest_id w" "pw_page_size w' = pw_page_size w"
    and "pw_is_writer w' = pw_is_writer w" "pw_distance w' = pw_distance w" "\<forall>j \<ge> 0. isPageInRing w' j \<longrightarrow> isPageInRing w j"
proof -
  let ?f = "\<lambda>s. s\<lparr>slot_page_id := - 1, slot_is_owned := False\<rparr> :: PageSlot"
  have len: "length (pw_ring w) = RingSize" using ok by (simp add: ring_ok_def)
  obtain idx where idx: "idx < RingSize" "slot_page_id (pw_ring w ! idx) = pid"
    and get: "getWarmedPage pid w = ((slot_address (pw_ring w ! idx), slot_size (pw_ring w ! idx)),
        (set_slot idx ?f w)\<lparr>pw_read_index := of_nat (idx + 1) AND (of_nat RingSize - 1)\<rparr>)"
    using getWarmedPage_cases [OF len, of pid] inr by auto
  have slot: "slot_ok w (pw_ring w ! idx)" using ring_ok_slot [OF ok idx(1)] .
  then have own: "slot_is_owned (pw_ring w ! idx)" "slot_size (pw_ring w ! idx) = pw_page_size w"
    "slot_address (pw_ring w ! idx) = Some (page_key_of (pw_location w) (pw_dest_id w) pid)"
    using idx pid by (auto simp: slot_ok_def)
  let ?w = "(set_slot idx ?f w)\<lparr>pw_read_index := of_nat (idx + 1) AND (of_nat RingSize - 1)\<rparr>"
  have "ring_ok ?w"
    using slot by (simp add: ring_ok_set_slot [OF ok] slot_ok_def)
  moreover have "owned_mset w = add_mset (page_key_of (pw_location w) (pw_dest_id w) pid) (owned_mset ?w)"
    using owned_mset_set_slot [of idx w ?f] idx(1) len own by simp
  moreover have "\<forall>j \<ge> 0. isPageInRing ?w j \<longrightarrow> isPageInRing w j"
    by (auto simp: isPageInRing_def list_ex_iff dest!: set_update_subset_insert [THEN subsetD])
  ultimately show thesis
    using get own by (intro that [of ?w]) simp_all
qed

subsection \<open>Warming\<close>

lemma mark_unowned:
  assumes "ring_ok w" "i < RingSize" "\<not> slot_is_owned (pw_ring w ! i)" "- 2 \<le> v" "v < 0"
  shows "ring_ok (set_slot i (\<lambda>s. s\<lparr>slot_page_id := v\<rparr>) w)"
    and "owned_mset (set_slot i (\<lambda>s. s\<lparr>slot_page_id := v\<rparr>) w) = owned_mset w"
proof -
  show "ring_ok (set_slot i (\<lambda>s. s\<lparr>slot_page_id := v\<rparr>) w)"
    using assms by (intro ring_ok_set_slot) (simp_all add: slot_ok_def)
  show "owned_mset (set_slot i (\<lambda>s. s\<lparr>slot_page_id := v\<rparr>) w) = owned_mset w"
    using owned_mset_set_slot [of i w "\<lambda>s. s\<lparr>slot_page_id := v\<rparr>"] assms(1-3)
    by (simp add: ring_ok_def)
qed

lemma warm_claim_Some:
  assumes "warm_claim pid w = Some (i, w')" and "ring_ok w"
  shows "i = ring_index (pw_write_index w)" "w' = set_slot i (\<lambda>s. s\<lparr>slot_page_id := - 2\<rparr>) w"
    and "slot_page_id (pw_ring w ! i) = - 1" "\<not> isPageInRing w pid"
    and "ring_ok w'" "owned_mset w' = owned_mset w"
proof -
  show i: "i = ring_index (pw_write_index w)" "w' = set_slot i (\<lambda>s. s\<lparr>slot_page_id := - 2\<rparr>) w"
    and e: "slot_page_id (pw_ring w ! i) = - 1" "\<not> isPageInRing w pid"
    using assms(1) by (auto simp: warm_claim_def Let_def split: if_splits)
  have s: "slot_ok w (pw_ring w ! i)" using ring_ok_slot [OF assms(2)] i(1) by simp
  then have n: "\<not> slot_is_owned (pw_ring w ! i)" using e(1) by (simp add: slot_ok_def)
  then show "ring_ok w'" "owned_mset w' = owned_mset w"
    using mark_unowned [OF assms(2), of i "- 2"] i by simp_all
qed

text \<open>Publishing a slot that is being warmed.\<close>

lemma publish_slot:
  fixes w :: PageWarmer
  defines "f \<equiv> \<lambda>pid key sz seq s. s\<lparr>slot_address := Some key, slot_size := sz,
    slot_is_owned := True, slot_sequence := seq, slot_page_id := pid\<rparr> :: PageSlot"
  assumes "ring_ok w" "i < RingSize" "slot_page_id (pw_ring w ! i) = - 2" "pid \<ge> 0"
  shows "ring_ok (set_slot i (f pid (page_key_of (pw_location w) (pw_dest_id w) pid) (pw_page_size w) seq) w)"
    and "owned_mset (set_slot i (f pid key sz seq) w) = add_mset key (owned_mset w)"
proof -
  have s: "\<not> slot_is_owned (pw_ring w ! i)"
    using ring_ok_slot [OF assms(2,3)] assms(4) by (simp add: slot_ok_def)
  show "ring_ok (set_slot i (f pid (page_key_of (pw_location w) (pw_dest_id w) pid) (pw_page_size w) seq) w)"
    using assms by (intro ring_ok_set_slot) (simp_all add: slot_ok_def)
  show "owned_mset (set_slot i (f pid key sz seq) w) = add_mset key (owned_mset w)"
    using owned_mset_set_slot [of i w "f pid key sz seq"] s assms(2,3)
    by (simp add: f_def ring_ok_def)
qed

lemma warmer_page_key [simp]:
  "pg_key (warmer_page w pid) = page_key_of (pw_location w) (pw_dest_id w) pid"
  "pg_size (warmer_page w pid) = pw_page_size w" "pg_writable (warmer_page w pid)"
  by (simp_all add: warmer_page_def pg_key_def)

lemma warm_fill_ok:
  assumes ok: "ring_ok w" and i: "i < RingSize" "slot_page_id (pw_ring w ! i) = - 2" and pid: "pid \<ge> 0"
    and own: "add_mset (page_key_of (pw_location w) (pw_dest_id w) pid) (owned_mset w) \<subseteq># mset (k_maps K)"
    and fl: "lookup_file K (page_key_of (pw_location w) (pw_dest_id w) pid) = Some pf"
      "unat (pw_page_size w) \<le> pf_size pf"
  obtains w' K' where "warm_fill pid i seq existed (w, K) = (Inr (), (w', K'))"
    and "warmer_inv w' K'" and "k_maps K' = k_maps K" and "k_fds K' = k_fds K"
    and "owned_mset w' = add_mset (page_key_of (pw_location w) (pw_dest_id w) pid) (owned_mset w)"
proof -
  let ?key = "page_key_of (pw_location w) (pw_dest_id w) pid"
  have "?key \<in># mset (k_maps K)" using own by (auto dest: mset_subset_eqD)
  then have "page_ready K (warmer_page w pid) pf"
    using fl by (simp add: page_ready_def)
  note wr = page_write_ready [OF this]
  let ?w = "set_slot i (\<lambda>s. s\<lparr>slot_address := Some ?key, slot_size := pw_page_size w,
    slot_is_owned := True, slot_sequence := seq, slot_page_id := pid\<rparr>) w"
  let ?K = "if pw_is_writer w \<and> \<not> existed then map_page ?key (\<lambda>m.
    memset_zero 64 (unat (pw_page_size w) - 64) (write_header_fields (pw_page_size w) m)) K else K"
  have "warm_fill pid i seq existed (w, K) = (Inr (), (?w, ?K))"
    by (simp add: warm_fill_def prog_simps Let_def wr)
  moreover have "ring_ok ?w" "owned_mset ?w = add_mset ?key (owned_mset w)"
    using publish_slot [OF ok i pid] by blast+
  moreover have "k_maps ?K = k_maps K" "k_fds ?K = k_fds K" by simp_all
  ultimately show thesis using own by (intro that [of ?w ?K]) (simp_all only: warmer_inv_def)
qed

lemma warm_page_inv:
  assumes inv: "warmer_inv w K" and pid: "pid \<ge> 0"
  shows "\<exists>w' K'. warm_page os pid (w, K) = (Inr (), (w', K')) \<and> warmer_inv w' K' \<and> k_fds K' = k_fds K \<and>
    mset (k_maps K') - owned_mset w' = mset (k_maps K) - owned_mset w"
proof (cases "warm_claim pid w")
  case None
  with inv show ?thesis by (simp add: warm_page_def prog_simps)
next
  case (Some c)
  then obtain i w1 where c: "warm_claim pid w = Some (i, w1)" by (cases c) auto
  from inv have ok: "ring_ok w" and own: "owned_mset w \<subseteq># mset (k_maps K)" by (simp_all add: warmer_inv_def)
  note cl = warm_claim_Some [OF c ok]
  define w2 where "w2 = w1\<lparr>pw_local_seq := pw_local_seq w1 + 1\<rparr>"
  let ?key = "page_key_of (pw_location w) (pw_dest_id w) pid"
  have w2: "ring_ok w2" "owned_mset w2 = owned_mset w" "pw_location w2 = pw_location w"
    "pw_dest_id w2 = pw_dest_id w" "pw_page_size w2 = pw_page_size w" "pw_is_writer w2 = pw_is_writer w"
    "slot_page_id (pw_ring w2 ! i) = - 2" "i < RingSize"
    using cl ok by (simp_all add: w2_def) (simp add: ring_ok_def)
  obtain r K1 where load: "loadMmapBuffer (os ?key) ?key (unat (pw_page_size w)) (pw_is_writer w) True K = (r, K1)"
    by (cases "loadMmapBuffer (os ?key) ?key (unat (pw_page_size w)) (pw_is_writer w) True K")
  note K1 = loadMmapBuffer_maps [OF load] loadMmapBuffer_fds [of "os ?key" ?key "unat (pw_page_size w)" "pw_is_writer w" True K]
  show ?thesis
  proof (cases r)
    case (Inl e)
    with load have e: "is_exception e" by (auto dest: loadMmapBuffer_result)
    let ?w = "set_slot i (\<lambda>s. s\<lparr>slot_page_id := - 1\<rparr>) w2"
    have "\<not> slot_is_owned (pw_ring w2 ! i)"
      using ring_ok_slot [OF w2(1) w2(8)] w2(7) by (simp add: slot_ok_def)
    then have "ring_ok ?w" "owned_mset ?w = owned_mset w2"
      using mark_unowned [OF w2(1,8), of "- 1"] by simp_all
    moreover have "warm_page os pid (w, K) = (Inr (), (?w, K1))"
      using c Inl e load w2
      by (simp add: warm_page_def prog_simps w2_def [symmetric] warmPageIntoSlot_def warm_map_def Let_def)
    ultimately show ?thesis using K1 Inl load own w2(2) by (auto simp: warmer_inv_def)
  next
    case (Inr u)
    then have K1': "k_maps K1 = ?key # k_maps K" "k_fds K1 = k_fds K" using K1 load by auto
    obtain pf where "lookup_file K1 ?key = Some pf" "unat (pw_page_size w) \<le> pf_size pf"
      using loadMmapBuffer_sized [of "os ?key" ?key _ _ True K K1] load Inr by auto
    then obtain w3 K3 where f: "warm_fill pid i (pw_local_seq w1) (lookup_file K ?key \<noteq> None) (w2, K1) = (Inr (), (w3, K3))"
      "warmer_inv w3 K3" "k_maps K3 = k_maps K1" "k_fds K3 = k_fds K1"
      "owned_mset w3 = add_mset ?key (owned_mset w2)"
      using warm_fill_ok [OF w2(1,8,7) pid, of K1 pf "pw_local_seq w1" "lookup_file K ?key \<noteq> None"] w2 K1' own
      by auto
    have "warm_page os pid (w, K) = (Inr (), (w3\<lparr>pw_write_index := pw_write_index w3 + 1\<rparr>, K3))"
      using c load Inr f(1) w2
      by (simp add: warm_page_def prog_simps w2_def [symmetric] warmPageIntoSlot_def warm_map_def Let_def)
    with f K1' w2 show ?thesis by (simp add: warmer_inv_def)
  qed
qed

subsection \<open>What warming does to the files\<close>

lemma blank_page_memset: "memset_zero 64 n (write_header_fields sz (\<lambda>_. 0)) = blank_page sz"
proof (rule ext)
  fix i
  have "store_bytes (\<lambda>_. 0) 0 (replicate 64 0) = (\<lambda>_. 0 :: u8)"
    by (rule ext) (simp add: store_bytes_def)
  then have "blank_page sz = write_header_fields sz (\<lambda>_. 0)"
    by (simp add: blank_page_def init_header_def)
  then show "memset_zero 64 n (write_header_fields sz (\<lambda>_. 0)) i = blank_page sz i"
    using init_header_outside [of i sz "\<lambda>_. 0"] by (auto simp: memset_zero_def blank_page_def)
qed

definition same_warmer :: "PageWarmer \<Rightarrow> PageWarmer \<Rightarrow> bool" where
  "same_warmer w w' \<longleftrightarrow> pw_location w' = pw_location w \<and> pw_dest_id w' = pw_dest_id w \<and>
     pw_page_size w' = pw_page_size w \<and> pw_is_writer w' = pw_is_writer w \<and>
     pw_current_page w' = pw_current_page w \<and> pw_distance w' = pw_distance w"

lemma same_warmer_trans: "same_warmer w w' \<Longrightarrow> same_warmer w' w'' \<Longrightarrow> same_warmer w w''"
  by (simp add: same_warmer_def)

lemma isPageInRing_set_slot:
  "isPageInRing (set_slot i f w) j \<Longrightarrow> isPageInRing w j \<or> slot_page_id (f (pw_ring w ! i)) = j"
  by (auto simp: isPageInRing_def list_ex_iff dest!: set_update_subset_insert [THEN subsetD])

text \<open>The ring after a claimed slot has been filled with a page.\<close>

lemma claimed_slot:
  assumes inv: "warmer_inv w K" and c: "warm_claim pid w = Some (i, w1)"
  defines "w2 \<equiv> w1\<lparr>pw_local_seq := pw_local_seq w1 + 1\<rparr>"
  defines "f \<equiv> \<lambda>s. s\<lparr>slot_address := Some (page_key_of (pw_location w) (pw_dest_id w) pid), slot_size := pw_page_size w, slot_is_owned := True,
       slot_sequence := pw_local_seq w1, slot_page_id := pid\<rparr> :: PageSlot"
  defines "w' \<equiv> (set_slot i f w2)\<lparr>pw_write_index := pw_write_index w2 + 1\<rparr>"
  shows "same_warmer w w'" and "isPageInRing w' j \<Longrightarrow> j \<ge> 0 \<Longrightarrow> isPageInRing w j \<or> j = pid"
    and "pw_location w2 = pw_location w" "pw_dest_id w2 = pw_dest_id w" "pw_page_size w2 = pw_page_size w" "pw_is_writer w2 = pw_is_writer w"
proof -
  have w1: "w1 = set_slot i (\<lambda>s. s\<lparr>slot_page_id := - 2\<rparr>) w"
    using warm_claim_Some(2) [OF c] inv by (simp add: warmer_inv_def)
  show "same_warmer w w'" by (simp add: same_warmer_def w'_def w2_def w1 set_slot_def)
  show "pw_location w2 = pw_location w" "pw_dest_id w2 = pw_dest_id w" "pw_page_size w2 = pw_page_size w" "pw_is_writer w2 = pw_is_writer w"
    by (simp_all add: w2_def w1)
  assume j: "isPageInRing w' j" "j \<ge> 0"
  then have "isPageInRing (set_slot i f w2) j" by (simp add: isPageInRing_def w'_def)
  then have "isPageInRing w2 j \<or> j = pid" by (auto simp: f_def dest: isPageInRing_set_slot)
  moreover have "isPageInRing w2 j = isPageInRing w1 j" by (simp add: isPageInRing_def w2_def)
  ultimately show "isPageInRing w j \<or> j = pid" using j(2) by (auto simp: w1 dest: isPageInRing_set_slot)
qed

text \<open>Warming a page makes at most its own file, blank, and adds at most this page to the ring.\<close>

lemma warm_page_files:
  assumes inv: "warmer_inv w K" and os: "os_works os" and wr: "pw_is_writer w"
    and szs: "pred_option (\<lambda>pf. pf_size pf = unat (pw_page_size w))
      (lookup_file K (page_key_of (pw_location w) (pw_dest_id w) pid))"
    and run: "warm_page os pid (w, K) = (r, (w', K'))"
  shows "same_warmer w w'"
    and "lookup_file K' = lookup_file K \<or>
      lookup_file K (page_key_of (pw_location w) (pw_dest_id w) pid) = None \<and>
      lookup_file K' = (lookup_file K)(page_key_of (pw_location w) (pw_dest_id w) pid \<mapsto>
        \<lparr>pf_size = unat (pw_page_size w), pf_mem = blank_page (pw_page_size w)\<rparr>)"
    and "isPageInRing w' j \<Longrightarrow> j \<ge> 0 \<Longrightarrow> isPageInRing w j \<or>
      j = pid \<and> lookup_file K' (page_key_of (pw_location w) (pw_dest_id w) pid) \<noteq> None"
proof -
  let ?key = "page_key_of (pw_location w) (pw_dest_id w) pid" and ?sz = "pw_page_size w"
  have all: "same_warmer w w' \<and> (lookup_file K' = lookup_file K \<or> lookup_file K ?key = None \<and>
      lookup_file K' = (lookup_file K)(?key \<mapsto> \<lparr>pf_size = unat ?sz, pf_mem = blank_page ?sz\<rparr>)) \<and>
      (\<forall>j \<ge> 0. isPageInRing w' j \<longrightarrow> isPageInRing w j \<or> j = pid \<and> lookup_file K' ?key \<noteq> None)"
  proof (cases "warm_claim pid w")
    case None
    with run show ?thesis by (simp add: warm_page_def prog_simps same_warmer_def)
  next
    case (Some c)
    then obtain i w1 where c: "warm_claim pid w = Some (i, w1)" by (cases c) auto
    define w2 where "w2 = w1\<lparr>pw_local_seq := pw_local_seq w1 + 1\<rparr>"
    let ?f = "\<lambda>s. s\<lparr>slot_address := Some ?key, slot_size := ?sz, slot_is_owned := True,
       slot_sequence := pw_local_seq w1, slot_page_id := pid\<rparr> :: PageSlot"
    let ?w = "(set_slot i ?f w2)\<lparr>pw_write_index := pw_write_index w2 + 1\<rparr>"
    note claim = claimed_slot [OF inv c, folded w2_def]
    have f: "pw_location w2 = pw_location w" "pw_dest_id w2 = pw_dest_id w" "pw_page_size w2 = ?sz" "pw_is_writer w2"
      using claim(3-6) wr by simp_all
    show ?thesis
    proof (cases "lookup_file K ?key")
      case none: None
      obtain K1 where K1: "loadMmapBuffer (os ?key) ?key (unat ?sz) True True K = (Inr (), K1)"
        "lookup_file K1 ?key = Some \<lparr>pf_size = unat ?sz, pf_mem = (\<lambda>_. 0)\<rparr>" "k_maps K1 = ?key # k_maps K"
        using loadMmapBuffer_new [OF none, of True True "os ?key" "unat ?sz"] os by auto
      have "lookup_file K1 key = lookup_file K key" if "key \<noteq> ?key" for key
        using loadMmapBuffer_other [OF that, of "os ?key" "unat ?sz" True True K] K1(1) by simp
      then have look: "lookup_file (map_page ?key (\<lambda>m. memset_zero 64 (unat ?sz - 64) (write_header_fields ?sz m)) K1) =
          (lookup_file K)(?key \<mapsto> \<lparr>pf_size = unat ?sz, pf_mem = blank_page ?sz\<rparr>)"
        using K1(2) by (intro ext) (simp add: blank_page_memset)
      have "page_ready K1 (warmer_page w2 pid) \<lparr>pf_size = unat ?sz, pf_mem = (\<lambda>_. 0)\<rparr>"
        using K1 f by (simp add: page_ready_def)
      from page_write_ready [OF this] have "w' = ?w \<and>
          K' = map_page ?key (\<lambda>m. memset_zero 64 (unat ?sz - 64) (write_header_fields ?sz m)) K1"
        using run c K1(1) none f wr
        by (simp add: warm_page_def prog_simps w2_def [symmetric] warmPageIntoSlot_def warm_map_def warm_fill_def Let_def)
      then show ?thesis using claim(1,2) look none by auto
    next
      case (Some pf)
      then have "loadMmapBuffer (os ?key) ?key (unat ?sz) True True K = (Inr (), K\<lparr>k_maps := ?key # k_maps K\<rparr>)"
        using szs os by (intro loadMmapBuffer_existing [OF Some]) simp_all
      then have "w' = ?w \<and> K' = K\<lparr>k_maps := ?key # k_maps K\<rparr>"
        using run c Some f wr
        by (simp add: warm_page_def prog_simps w2_def [symmetric] warmPageIntoSlot_def warm_map_def warm_fill_def Let_def)
      moreover have "lookup_file (K\<lparr>k_maps := ?key # k_maps K\<rparr>) = lookup_file K"
        by (rule ext) simp
      ultimately show ?thesis using claim(1,2) Some by auto
    qed
  qed
  then show "same_warmer w w'"
    and "lookup_file K' = lookup_file K \<or> lookup_file K ?key = None \<and>
      lookup_file K' = (lookup_file K)(?key \<mapsto> \<lparr>pf_size = unat ?sz, pf_mem = blank_page ?sz\<rparr>)"
    by blast+
  show "isPageInRing w' j \<Longrightarrow> j \<ge> 0 \<Longrightarrow> isPageInRing w j \<or> j = pid \<and> lookup_file K' ?key \<noteq> None"
    using all by blast
qed

subsection \<open>Releasing\<close>

text \<open>Mappings in the kernel that the ring does not own.\<close>

definition foreign_maps :: "PageWarmer \<Rightarrow> page_key kernel \<Rightarrow> page_key multiset" where
  "foreign_maps w K = mset (k_maps K) - owned_mset w"

definition addresses_ok :: "PageWarmer \<Rightarrow> bool" where
  "addresses_ok w \<longleftrightarrow> length (pw_ring w) = RingSize \<and>
     list_all (\<lambda>s. slot_is_owned s \<longrightarrow> slot_address s \<noteq> None) (pw_ring w)"

lemma ring_ok_addresses: "ring_ok w \<Longrightarrow> addresses_ok w"
  by (auto simp: ring_ok_def addresses_ok_def slot_ok_def list_all_iff page_key_of_def)

definition drop_slot :: "nat \<Rightarrow> PageWarmer \<Rightarrow> PageWarmer" where
  "drop_slot i w = (if slot_is_owned (pw_ring w ! i)
     then set_slot i (\<lambda>s. s\<lparr>slot_address := None, slot_is_owned := False\<rparr>) w else w)"

lemma release_slot_step:
  assumes ok: "addresses_ok w" and i: "i < RingSize" and own: "owned_mset w \<subseteq># mset (k_maps K)"
    and os: "os_works os"
  obtains K' where "release_slot os i (w, K) = (Inr (), (drop_slot i w, K'))"
    and "owned_mset (drop_slot i w) \<subseteq># mset (k_maps K')" and "k_fds K' = k_fds K"
    and "foreign_maps (drop_slot i w) K' = foreign_maps w K"
proof (cases "slot_is_owned (pw_ring w ! i)")
  case False
  then have "release_slot os i (w, K) = (Inr (), (drop_slot i w, K))"
    by (simp add: release_slot_def prog_simps Let_def drop_slot_def split: option.split)
  with False own show thesis by (intro that [of K]) (simp_all add: drop_slot_def)
next
  case True
  then obtain key where key: "slot_address (pw_ring w ! i) = Some key"
    using ok i by (auto simp: addresses_ok_def list_all_length)
  let ?K = "K\<lparr>k_maps := remove1 key (k_maps K)\<rparr>"
  have "release_slot os i (w, K) = (Inr (), (drop_slot i w, ?K))"
    using True key os
    by (simp add: release_slot_def prog_simps Let_def drop_slot_def releaseMmapBuffer_def sys_munmap_def)
  moreover have own': "owned_mset w = add_mset key (owned_mset (drop_slot i w))"
    using owned_mset_set_slot [of i w "\<lambda>s. s\<lparr>slot_address := None, slot_is_owned := False\<rparr>"]
      True key ok i by (simp add: drop_slot_def addresses_ok_def)
  moreover have "mset (k_maps ?K) = mset (k_maps K) - {# key #}" by simp
  ultimately show thesis
    using own by (intro that [of ?K])
      (auto simp: foreign_maps_def mset_subset_eq_insertD insert_subset_eq_iff)
qed

lemma addresses_ok_drop: "addresses_ok w \<Longrightarrow> addresses_ok (drop_slot i w)"
  by (auto simp: addresses_ok_def drop_slot_def list_all_iff
      dest!: set_update_subset_insert [THEN subsetD])

lemma release_slots_all:
  assumes "addresses_ok w" and "\<forall>i \<in> set is. i < RingSize" and "owned_mset w \<subseteq># mset (k_maps K)"
    and "os_works os"
  shows "\<exists>w' K'. release_slots os is (w, K) = (Inr (), (w', K')) \<and> addresses_ok w' \<and>
    owned_mset w' \<subseteq># mset (k_maps K') \<and> foreign_maps w' K' = foreign_maps w K \<and> k_fds K' = k_fds K \<and>
    (\<forall>j. slot_is_owned (pw_ring w' ! j) \<longrightarrow> j < RingSize \<longrightarrow> j \<notin> set is \<and> slot_is_owned (pw_ring w ! j))"
  using assms
proof (induction "is" arbitrary: w K)
  case (Cons i "is")
  obtain K1 where K1: "release_slot os i (w, K) = (Inr (), (drop_slot i w, K1))"
    "owned_mset (drop_slot i w) \<subseteq># mset (k_maps K1)" "k_fds K1 = k_fds K"
    "foreign_maps (drop_slot i w) K1 = foreign_maps w K"
    using release_slot_step [of w i K os] Cons.prems by auto
  have sl: "slot_is_owned (pw_ring (drop_slot i w) ! j) \<longleftrightarrow> j \<noteq> i \<and> slot_is_owned (pw_ring w ! j)"
    if "j < RingSize" for j
    using that Cons.prems(1) by (cases "j = i") (simp_all add: drop_slot_def addresses_ok_def)
  from Cons.IH [OF addresses_ok_drop [OF Cons.prems(1)] _ K1(2) Cons.prems(4)] Cons.prems(2)
  show ?case
    using K1 sl by (auto simp: prog_simps)
qed (auto simp: prog_simps)

lemma releaseAllPages_maps:
  assumes "warmer_inv w K" and "os_works os"
  shows "\<exists>w' K'. releaseAllPages os (w, K) = (Inr (), (w', K')) \<and> owned_mset w' = {#} \<and>
    mset (k_maps K') = mset (k_maps K) - owned_mset w \<and> k_fds K' = k_fds K"
proof -
  obtain w' K' where r: "releaseAllPages os (w, K) = (Inr (), (w', K'))" "addresses_ok w'"
    "foreign_maps w' K' = foreign_maps w K" "k_fds K' = k_fds K"
    "\<forall>j. slot_is_owned (pw_ring w' ! j) \<longrightarrow> j < RingSize \<longrightarrow> False"
    using release_slots_all [of w "[0..<RingSize]" K os] assms ring_ok_addresses
    unfolding releaseAllPages_def warmer_inv_def by fastforce
  have "owned_mset w' = {#}"
    using r(2,5) by (auto simp: owned_mset_empty addresses_ok_def in_set_conv_nth)
  with r show ?thesis by (auto simp: foreign_maps_def)
qed

subsection \<open>Cleaning up\<close>

lemma cleanup_slot_step:
  assumes inv: "warmer_inv w K" and i: "i < RingSize" and os: "os_works os"
    and pid: "slot_page_id (pw_ring w ! i) \<ge> 0"
  obtains w' K' where
    "release_slot os i (set_slot i (\<lambda>s. s\<lparr>slot_page_id := - 1\<rparr>) w, K) = (Inr (), (w', K'))"
    and "warmer_inv w' K'" and "k_fds K' = k_fds K" and "foreign_maps w' K' = foreign_maps w K"
proof -
  let ?w = "set_slot i (\<lambda>s. s\<lparr>slot_page_id := - 1\<rparr>) w"
  from inv have ok: "ring_ok w" and own: "owned_mset w \<subseteq># mset (k_maps K)" by (simp_all add: warmer_inv_def)
  have sl: "slot_is_owned (pw_ring w ! i)" "slot_ok w (pw_ring w ! i)" "i < length (pw_ring w)"
    using ring_ok_slot [OF ok i] pid i ok by (simp_all add: slot_ok_def ring_ok_def)
  have om: "owned_mset ?w = owned_mset w"
    using owned_mset_set_slot [OF sl(3), of "\<lambda>s. s\<lparr>slot_page_id := - 1\<rparr>"] by (auto split: if_splits)
  have ad: "addresses_ok ?w"
    using ring_ok_addresses [OF ok] sl
    by (auto simp: addresses_ok_def list_all_iff dest!: set_update_subset_insert [THEN subsetD])
  obtain K' where K': "release_slot os i (?w, K) = (Inr (), (drop_slot i ?w, K'))"
    "owned_mset (drop_slot i ?w) \<subseteq># mset (k_maps K')" "k_fds K' = k_fds K"
    "foreign_maps (drop_slot i ?w) K' = foreign_maps ?w K"
    using release_slot_step [OF ad i _ os, of K] om own by auto
  have "drop_slot i ?w = set_slot i (\<lambda>s. s\<lparr>slot_page_id := - 1, slot_address := None, slot_is_owned := False\<rparr>) w"
    using sl by (simp add: drop_slot_def) (simp add: set_slot_def)
  then have "ring_ok (drop_slot i ?w)"
    using ok by (simp add: ring_ok_set_slot slot_ok_def)
  with K' om show thesis
    by (intro that [of "drop_slot i ?w" K']) (simp_all add: prog_simps warmer_inv_def foreign_maps_def)
qed

lemma cleanup_slots_inv:
  assumes "warmer_inv w K" and "\<forall>i \<in> set is. i < RingSize" and "os_works os"
  shows "\<exists>w' K'. cleanup_slots os threshold is (w, K) = (Inr (), (w', K')) \<and> warmer_inv w' K' \<and>
    k_fds K' = k_fds K \<and> foreign_maps w' K' = foreign_maps w K"
  using assms
proof (induction "is" arbitrary: w K)
  case (Cons i "is")
  show ?case
  proof (cases "slot_page_id (pw_ring w ! i) \<ge> 0 \<and> slot_page_id (pw_ring w ! i) < threshold")
    case True
    obtain w1 K1 where s: "release_slot os i (set_slot i (\<lambda>s. s\<lparr>slot_page_id := - 1\<rparr>) w, K) =
      (Inr (), (w1, K1))" "warmer_inv w1 K1" "k_fds K1 = k_fds K" "foreign_maps w1 K1 = foreign_maps w K"
      using cleanup_slot_step [of w K i os] Cons.prems True by auto
    with True Cons.IH [OF s(2)] Cons.prems show ?thesis
      by (simp add: prog_simps Let_def s(1))
  next
    case False
    with Cons.IH [OF Cons.prems(1)] Cons.prems show ?thesis
      by (auto simp: prog_simps Let_def)
  qed
qed (simp add: prog_simps)

lemma release_slot_files:
  assumes "release_slot os i (w, K) = (r, (w', K'))"
  shows "lookup_file K' = lookup_file K" "same_warmer w w'"
    and "map slot_page_id (pw_ring w') = map slot_page_id (pw_ring w)"
proof -
  have eq: "lookup_file (K\<lparr>k_maps := ms\<rparr>) = lookup_file K" for ms by (rule ext) simp
  have upd: "map slot_page_id ((pw_ring w)[i := (pw_ring w ! i)\<lparr>slot_address := a, slot_is_owned := b\<rparr>]) =
      map slot_page_id (pw_ring w)" for a b
    by (cases "i < length (pw_ring w)") (simp_all add: map_update list_update_same_conv list_update_beyond)
  show "lookup_file K' = lookup_file K" "same_warmer w w'"
    "map slot_page_id (pw_ring w') = map slot_page_id (pw_ring w)"
    using assms
    by (auto simp: release_slot_def prog_simps Let_def releaseMmapBuffer_def sys_munmap_def eq upd
        same_warmer_def set_slot_def split: option.splits if_splits)
qed

lemma isPageInRing_ids: "isPageInRing w j \<longleftrightarrow> j \<in> set (map slot_page_id (pw_ring w))"
  by (auto simp: isPageInRing_def list_ex_iff)

lemma cleanup_slots_files:
  assumes "cleanup_slots os threshold is (w, K) = (r, (w', K'))"
  shows "lookup_file K' = lookup_file K \<and> same_warmer w w' \<and>
    (\<forall>j \<ge> 0. isPageInRing w' j \<longrightarrow> isPageInRing w j)"
  using assms
proof (induction "is" arbitrary: w K)
  case Nil
  then show ?case by (simp add: prog_simps same_warmer_def)
next
  case (Cons i "is")
  let ?w = "set_slot i (\<lambda>s. s\<lparr>slot_page_id := - 1\<rparr>) w"
  show ?case
  proof (cases "slot_page_id (pw_ring w ! i) \<ge> 0 \<and> slot_page_id (pw_ring w ! i) < threshold")
    case False
    with Cons.prems have "cleanup_slots os threshold is (w, K) = (r, (w', K'))"
      by (auto simp: prog_simps Let_def)
    then show ?thesis by (rule Cons.IH)
  next
    case True
    obtain q w1 K1 where rel: "release_slot os i (?w, K) = (q, (w1, K1))" by (metis prod.exhaust)
    note f = release_slot_files [OF rel]
    have w1: "same_warmer w w1" using f(2) by (simp add: same_warmer_def set_slot_def)
    have ring: "isPageInRing w j" if "isPageInRing w1 j" "j \<ge> 0" for j
      using that f(3) isPageInRing_set_slot [of i "\<lambda>s. s\<lparr>slot_page_id := - 1\<rparr>" w j]
      unfolding isPageInRing_ids by auto
    show ?thesis
    proof (cases q)
      case (Inl e)
      then show ?thesis using Cons.prems True rel f w1 ring by (simp add: prog_simps Let_def)
    next
      case (Inr u)
      then have "cleanup_slots os threshold is (w1, K1) = (r, (w', K'))"
        using Cons.prems True rel by (simp add: prog_simps Let_def)
      from Cons.IH [OF this] show ?thesis
        using f(1) w1 ring same_warmer_trans by auto
    qed
  qed
qed

lemma warm_pages_inv:
  assumes "warmer_inv w K" and "\<forall>i \<in> set is. i \<ge> 0"
  shows "\<exists>w' K'. warm_pages os is (w, K) = (Inr (), (w', K')) \<and> warmer_inv w' K' \<and>
    k_fds K' = k_fds K \<and> foreign_maps w' K' = foreign_maps w K"
  using assms
proof (induction "is" arbitrary: w K)
  case (Cons i "is")
  obtain w1 K1 where s: "warm_page os i (w, K) = (Inr (), (w1, K1))" "warmer_inv w1 K1"
    "k_fds K1 = k_fds K" "foreign_maps w1 K1 = foreign_maps w K"
    using warm_page_inv [OF Cons.prems(1), of i os] Cons.prems(2) by (auto simp: foreign_maps_def)
  with Cons.IH [OF s(2)] Cons.prems show ?case by (simp add: prog_simps s(1))
qed (simp add: prog_simps)

lemma warmup_pass_inv:
  assumes inv: "warmer_inv w K" and os: "os_works os"
  shows "\<exists>w' K'. warmup_pass os (w, K) = (Inr (), (w', K')) \<and> warmer_inv w' K' \<and>
    k_fds K' = k_fds K \<and> foreign_maps w' K' = foreign_maps w K"
proof (cases "\<not> pw_running w \<or> pw_current_page w < 0")
  case True
  with inv show ?thesis by (auto simp: warmup_pass_def prog_simps)
next
  case False
  let ?is = "map (\<lambda>i. pw_current_page w + int i) [1..<pw_distance w + 1]"
  obtain w1 K1 where s: "warm_pages os ?is (w, K) = (Inr (), (w1, K1))" "warmer_inv w1 K1"
    "k_fds K1 = k_fds K" "foreign_maps w1 K1 = foreign_maps w K"
    using warm_pages_inv [OF inv, of ?is os] False by auto
  obtain w2 K2 where "cleanupOldPages os (pw_current_page w) (w1, K1) = (Inr (), (w2, K2))"
    "warmer_inv w2 K2" "k_fds K2 = k_fds K1" "foreign_maps w2 K2 = foreign_maps w1 K1"
    using cleanup_slots_inv [OF s(2) _ os, of "[0..<RingSize]" "pw_current_page w - int RingSize"]
    by (auto simp: cleanupOldPages_def)
  with s False show ?thesis
    by (simp add: warmup_pass_def prog_simps s(1))
qed

lemma warmer_inv_new: "warmer_inv (PageWarmer_new loc dest sz wr dist) K"
proof -
  have "owned_mset (PageWarmer_new loc dest sz wr dist) = {#}"
    by (simp add: owned_mset_empty PageWarmer_new_def empty_slot_def)
  then show ?thesis
    by (simp add: warmer_inv_def ring_ok_def PageWarmer_new_def empty_slot_def slot_ok_def list_all_iff)
qed

subsection \<open>Properties\<close>

text \<open>C34: every pass of the warmer thread terminates normally and keeps the ring invariant: a slot owns
  a mapping exactly when it is ready, the mapping is the one of its page, and all owned mappings are
  live.  The mappings the ring does not own are the same before and after: the warmer neither leaks a
  mapping nor releases one that somebody else holds.\<close>

theorem warmer_pass_keeps_ownership:
  assumes "warmer_inv w K" and "os_works os"
  shows "\<exists>w' K'. warmup_pass os (w, K) = (Inr (), (w', K')) \<and> warmer_inv w' K' \<and>
    k_fds K' = k_fds K \<and> foreign_maps w' K' = foreign_maps w K"
  by (rule warmup_pass_inv [OF assms])

definition ex_warmer :: PageWarmer where
  "ex_warmer = updateCurrentPage 1 (PageWarmer_start
     (PageWarmer_new ex_location 0 PAGE_SIZE_DEFAULT True 2))"

lemma ex_warmer_inv: "warmer_inv ex_warmer K"
  using warmer_inv_new [of ex_location 0 PAGE_SIZE_DEFAULT True 2 K]
  by (simp add: ex_warmer_def PageWarmer_start_def updateCurrentPage_def warmer_inv_def)

theorem warmer_pass_keeps_ownership_witness:
  "\<exists>w' K'. warmup_pass (\<lambda>_. os_all_ok) (ex_warmer, ex_kernel) = (Inr (), (w', K')) \<and> warmer_inv w' K'"
  using warmer_pass_keeps_ownership [OF ex_warmer_inv [of ex_kernel], of "\<lambda>_. os_all_ok"]
  by (auto simp: os_works_def)

text \<open>\<^verbatim>\<open>getWarmedPage\<close> finds a page exactly when the ring holds it, whatever the read index is; it
  then hands over the mapping of that page, which the ring no longer owns, and otherwise changes
  nothing.\<close>

theorem getWarmedPage_hands_over:
  assumes "ring_ok w" and "pid \<ge> 0"
  shows "case getWarmedPage pid w of ((a, sz), w') \<Rightarrow>
    if isPageInRing w pid
    then a = Some (page_key_of (pw_location w) (pw_dest_id w) pid) \<and> sz = pw_page_size w \<and>
      ring_ok w' \<and> owned_mset w = add_mset (the a) (owned_mset w')
    else a = None \<and> w' = w"
proof (cases "isPageInRing w pid")
  case True
  show ?thesis by (rule getWarmedPage_hit [OF assms True]) (simp add: True)
next
  case False
  then show ?thesis using getWarmedPage_cases [of w pid] assms(1) by (simp add: ring_ok_def)
qed

theorem getWarmedPage_hands_over_witness:
  "case getWarmedPage 2 ex_warmer of ((a, sz), w') \<Rightarrow> a = None \<and> w' = ex_warmer"
proof -
  have "ring_ok ex_warmer" using ex_warmer_inv by (simp add: warmer_inv_def)
  moreover have "\<not> isPageInRing ex_warmer 2"
    by (simp add: isPageInRing_def ex_warmer_def PageWarmer_start_def updateCurrentPage_def
        PageWarmer_new_def empty_slot_def list_ex_iff)
  ultimately show ?thesis using getWarmedPage_hands_over [of ex_warmer 2] by simp
qed

text \<open>Destroying the warmer releases exactly the mappings it still owns, each once.\<close>

theorem releaseAllPages_releases_owned:
  assumes "warmer_inv w K" and "os_works os"
  shows "\<exists>w' K'. PageWarmer_destroy os (w, K) = (Inr (), (w', K')) \<and> owned_mset w' = {#} \<and>
    mset (k_maps K') = mset (k_maps K) - owned_mset w \<and> k_fds K' = k_fds K"
proof -
  have "warmer_inv (PageWarmer_stop w) K" "owned_mset (PageWarmer_stop w) = owned_mset w"
    using assms(1) by (simp_all add: PageWarmer_stop_def warmer_inv_def)
  with releaseAllPages_maps [of "PageWarmer_stop w" K os] assms(2) show ?thesis
    by (simp add: PageWarmer_destroy_def prog_simps)
qed

theorem releaseAllPages_releases_owned_witness:
  "\<exists>w' K'. PageWarmer_destroy (\<lambda>_. os_all_ok) (ex_warmer, ex_kernel) = (Inr (), (w', K')) \<and>
     mset (k_maps K') = {#}"
  using releaseAllPages_releases_owned [OF ex_warmer_inv [of ex_kernel], of "\<lambda>_. os_all_ok"]
  by (auto simp: os_works_def ex_kernel_def)

end
