(* ===== verification/Journal_Writer.thy ===== *)
theory Journal_Writer
  imports Frame_Log Page_Warmer
begin

section \<open>The journal writer (include/revoq/JournalWriter.h)\<close>

text \<open>
  Class \<^verbatim>\<open>JournalWriter\<close> with its write policy as a flag.  An operation is a program over the writer
  and the kernel state.  \<open>jw_cur\<close> is \<^verbatim>\<open>current_frame_address_\<close> as an offset in the current page;
  \<open>jw_open\<close> is \<^verbatim>\<open>open_frame_header_\<close>, a page and an offset in it.  \<^verbatim>\<open>Timestamp::now()\<close> is an
  argument.  Assertions are those of a release build, that is, absent; the invariant of
  \<open>Writer_Invariant\<close> shows that they would hold.  The retire thread is the pair of operations
  \<open>retireLoop_step\<close> and \<open>retireLoop_drain\<close>.
\<close>

subsection \<open>State\<close>

record JournalWriterOptions =
  wo_prefault :: bool
  wo_warmup_pages :: nat
  wo_background_threads :: bool
  wo_retained_page_limit :: nat

definition DEFAULT_JOURNAL_WRITER_RETAINED_PAGES :: nat where
  "DEFAULT_JOURNAL_WRITER_RETAINED_PAGES = 10"

definition kWriterPageWarmerRingSize :: nat where
  "kWriterPageWarmerRingSize = 16"

record JournalWriter =
  jw_location :: Location
  jw_dest_id :: u32
  jw_prefault :: bool
  jw_background :: bool
  jw_max_retained :: nat
  jw_page_size :: u32
  jw_serialize :: bool
  jw_writing :: bool
  jw_sequence :: u64
  jw_page_id :: int
  jw_page :: "Page option"
  jw_open :: "(Page \<times> nat) option"
  jw_cur :: nat
  jw_warmer :: "PageWarmer option"
  jw_retired :: "Page list"
  jw_retire_queue :: "Page list"
  jw_retire_running :: bool

type_synonym 'a writer_prog = "(JournalWriter \<times> page_key kernel, 'a) prog"

subsection \<open>The write lock\<close>

definition lock_acquire :: "unit writer_prog" where
  "lock_acquire = (\<lambda>(w, K).
     if jw_serialize w then
       (if jw_writing w then (Inl Blocked, (w, K)) else (Inr (), (w\<lparr>jw_writing := True\<rparr>, K)))
     else (Inr (), (w, K)))"

definition lock_release :: "JournalWriter \<Rightarrow> JournalWriter" where
  "lock_release w = (if jw_serialize w then w\<lparr>jw_writing := False\<rparr> else w)"

text \<open>\<^verbatim>\<open>WriteLockGuard\<close>: the destructor releases on a normal return and on an exception.\<close>

definition with_lock :: "'a writer_prog \<Rightarrow> 'a writer_prog" where
  "with_lock body = (\<lambda>s. case lock_acquire s of
     (Inl e, s') \<Rightarrow> (Inl e, s')
   | (Inr _, s') \<Rightarrow> (case body s' of (r, (w, K)) \<Rightarrow> (r, (lock_release w, K))))"

subsection \<open>Sequence numbers and the retire queue\<close>

definition nextSeq :: "u64 writer_prog" where
  "nextSeq = (\<lambda>(w, K). (Inr (jw_sequence w), (w\<lparr>jw_sequence := jw_sequence w + 1\<rparr>, K)))"

text \<open>
  The loop of \<^verbatim>\<open>rotatePage\<close> that hands pages over the limit to the retire thread, or destroys them
  when there is none.
\<close>

fun retire_overflow ::
    "(page_key \<Rightarrow> os_env) \<Rightarrow> bool \<Rightarrow> nat \<Rightarrow> Page list \<Rightarrow> Page list \<Rightarrow>
     (page_key kernel, Page list \<times> Page list) prog" where
  "retire_overflow os bg mx [] q = return_p ([], q)"
| "retire_overflow os bg mx (p # ps) q =
     (if length (p # ps) > mx then
        (if bg then retire_overflow os bg mx ps (q @ [p])
         else bind_p (Page_destroy os p) (\<lambda>_. retire_overflow os bg mx ps q))
      else return_p (p # ps, q))"

definition retireLoop_step :: "(page_key \<Rightarrow> os_env) \<Rightarrow> unit writer_prog" where
  "retireLoop_step os =
     bind_p get_fst (\<lambda>w. case jw_retire_queue w of
       [] \<Rightarrow> return_p ()
     | p # ps \<Rightarrow> bind_p (modify_fst (\<lambda>w. w\<lparr>jw_retire_queue := ps\<rparr>)) (\<lambda>_. on_snd (Page_destroy os p)))"

fun destroy_pages :: "(page_key \<Rightarrow> os_env) \<Rightarrow> Page list \<Rightarrow> (page_key kernel, unit) prog" where
  "destroy_pages os [] = return_p ()"
| "destroy_pages os (p # ps) = bind_p (Page_destroy os p) (\<lambda>_. destroy_pages os ps)"

definition retireLoop_drain :: "(page_key \<Rightarrow> os_env) \<Rightarrow> unit writer_prog" where
  "retireLoop_drain os =
     bind_p get_fst (\<lambda>w.
     bind_p (on_snd (destroy_pages os (jw_retire_queue w))) (\<lambda>_.
     modify_fst (\<lambda>w. w\<lparr>jw_retire_queue := []\<rparr>)))"

subsection \<open>Opening a journal\<close>

text \<open>
  \<^verbatim>\<open>findLastWrittenPage\<close>: from the highest page down, the first page whose last frame position is
  beyond the first frame; a page that cannot be loaded is skipped.
\<close>

definition page_has_data ::
    "(page_key \<Rightarrow> os_env) \<Rightarrow> Location \<Rightarrow> u32 \<Rightarrow> bool \<Rightarrow> int \<Rightarrow> (page_key kernel, bool) prog" where
  "page_has_data os loc dest_id prefault page_id =
     catch_p
       (bind_p (Page_load os loc dest_id page_id False prefault) (\<lambda>page.
        bind_p (page_read page 0 sizeof_PageHeader) (\<lambda>m.
        let last_frame_pos = unat (ph_last_frame_position (PageHeader_at m)) in
        bind_p (Page_destroy os page) (\<lambda>_.
        return_p (last_frame_pos > sizeof_PageHeader)))))
       (\<lambda>_. return_p False)"

fun findLastWrittenPage_loop ::
    "(page_key \<Rightarrow> os_env) \<Rightarrow> Location \<Rightarrow> u32 \<Rightarrow> bool \<Rightarrow> nat \<Rightarrow> (page_key kernel, int) prog" where
  "findLastWrittenPage_loop os loc dest_id prefault 0 = return_p 0"
| "findLastWrittenPage_loop os loc dest_id prefault (Suc n) =
     bind_p (page_has_data os loc dest_id prefault (int (Suc n))) (\<lambda>found.
     if found then return_p (int (Suc n)) else findLastWrittenPage_loop os loc dest_id prefault n)"

definition findLastWrittenPage ::
    "(page_key \<Rightarrow> os_env) \<Rightarrow> Location \<Rightarrow> u32 \<Rightarrow> bool \<Rightarrow> (page_key kernel, int) prog" where
  "findLastWrittenPage os loc dest_id prefault =
     bind_p (list_pages loc dest_id) (\<lambda>page_ids.
     if page_ids = [] then return_p 0
     else findLastWrittenPage_loop os loc dest_id prefault (nat (last page_ids)))"

text \<open>The scan of \<^verbatim>\<open>findLastSequenceNumber\<close>; every frame header it touches is read through the page.\<close>

function scan_sequence ::
    "Page \<Rightarrow> u32 \<Rightarrow> nat \<Rightarrow> u64 \<Rightarrow> bool \<Rightarrow> page_key kernel \<Rightarrow> (error + u64 \<times> bool) \<times> page_key kernel" where
  "scan_sequence page dest_id addr last_seq found K =
     (let page_size = findPageSize (pg_location page) dest_id; end_addr = unat page_size in
      if addr + sizeof_FrameHeader \<le> end_addr then
        case page_read page addr sizeof_FrameHeader K of
          (Inl e, K') \<Rightarrow> (Inl e, K')
        | (Inr m, K') \<Rightarrow>
            let len = getFrameLength m addr; stride = unat (framePhysicalLength len) in
            if len = 0 \<or> unat len < sizeof_FrameHeader \<or> len > page_size then (Inr (last_seq, found), K')
            else if addr + stride > end_addr then (Inr (last_seq, found), K')
            else if getMsgType m addr = sint MsgType_PageEnd then (Inr (getSequence m addr, True), K')
            else scan_sequence page dest_id (addr + stride) (getSequence m addr) True K'
      else (Inr (last_seq, found), K))"
  by pat_completeness auto
termination
proof (relation "measure (\<lambda>(page, dest_id, addr, last_seq, found, K).
      unat (findPageSize (pg_location page) dest_id) - addr)", goal_cases)
  case (2 page dest_id addr last_seq found K page_size end_addr r K' m len stride)
  have "unat len \<le> unat page_size" using 2 by (simp add: word_le_nat_alt [symmetric] not_less)
  then have "unat len \<le> 134217728" using 2 findPageSize_bounds(2) [of "pg_location page" dest_id] by simp
  then have "stride = stride_of (unat len)" using 2 by (simp add: framePhysicalLength_stride)
  then have "64 \<le> stride" using 2 by (simp add: stride_of_pos)
  then show ?case using 2 by simp
qed simp

declare scan_sequence.simps [simp del]

definition findLastSequenceNumber ::
    "(page_key \<Rightarrow> os_env) \<Rightarrow> Location \<Rightarrow> u32 \<Rightarrow> bool \<Rightarrow> int \<Rightarrow> (page_key kernel, u64) prog" where
  "findLastSequenceNumber os loc dest_id prefault page_id =
     (if page_id < 0 then return_p 0 else
      catch_p
        (bind_p (Page_load os loc dest_id page_id False prefault) (\<lambda>page.
         bind_p (Page_firstFrame page) (\<lambda>addr.
         bind_p (scan_sequence page dest_id addr 0 False) (\<lambda>(last_seq, found).
         bind_p (Page_destroy os page) (\<lambda>_.
         return_p (if found then last_seq else 0))))))
        (\<lambda>_. return_p 0))"

definition loadInitialPage :: "(page_key \<Rightarrow> os_env) \<Rightarrow> unit writer_prog" where
  "loadInitialPage os =
     bind_p (modify_fst (\<lambda>w. w\<lparr>jw_page_id := jw_page_id w + 1\<rparr>)) (\<lambda>_.
     bind_p get_fst (\<lambda>w.
     bind_p (on_snd (Page_load os (jw_location w) (jw_dest_id w) (jw_page_id w) True (jw_prefault w))) (\<lambda>page.
     bind_p (modify_fst (\<lambda>w. w\<lparr>jw_page := Some page\<rparr>)) (\<lambda>_.
     bind_p (on_snd (Page_firstFrame page)) (\<lambda>off.
     modify_fst (\<lambda>w. w\<lparr>jw_cur := off\<rparr>))))))"

definition blank_writer :: "Location \<Rightarrow> u32 \<Rightarrow> JournalWriterOptions \<Rightarrow> bool \<Rightarrow> JournalWriter" where
  "blank_writer loc dest_id options serialize =
     \<lparr>jw_location = loc, jw_dest_id = dest_id, jw_prefault = wo_prefault options,
      jw_background = wo_background_threads options,
      jw_max_retained = wo_retained_page_limit options, jw_page_size = findPageSize loc dest_id,
      jw_serialize = serialize, jw_writing = False, jw_sequence = 0, jw_page_id = 0, jw_page = None,
      jw_open = None, jw_cur = 0, jw_warmer = None, jw_retired = [], jw_retire_queue = [],
      jw_retire_running = False\<rparr>"

text \<open>When the constructor throws after the page is loaded, the page member is destroyed.\<close>

definition start_warmer :: "(page_key \<Rightarrow> os_env) \<Rightarrow> JournalWriterOptions \<Rightarrow> unit writer_prog" where
  "start_warmer os options =
     bind_p get_fst (\<lambda>w.
     if wo_warmup_pages options = 0 then return_p ()
     else if wo_warmup_pages options > kWriterPageWarmerRingSize then
       bind_p (case jw_page w of None \<Rightarrow> return_p () | Some p \<Rightarrow> on_snd (Page_destroy os p)) (\<lambda>_.
       throw_p (Invalid_argument ''warmup_pages''))
     else modify_fst (\<lambda>w. w\<lparr>jw_warmer := Some (updateCurrentPage (jw_page_id w) (PageWarmer_start
            (PageWarmer_new (jw_location w) (jw_dest_id w) (jw_page_size w) True
               (wo_warmup_pages options))))\<rparr>))"

definition open_writer :: "(page_key \<Rightarrow> os_env) \<Rightarrow> JournalWriterOptions \<Rightarrow> unit writer_prog" where
  "open_writer os options =
     bind_p get_fst (\<lambda>w.
     bind_p (on_snd (findLastWrittenPage os (jw_location w) (jw_dest_id w) (jw_prefault w))) (\<lambda>last_page_id.
     bind_p (if last_page_id > 0 then
               bind_p (modify_fst (\<lambda>w. w\<lparr>jw_page_id := last_page_id\<rparr>)) (\<lambda>_.
               bind_p (on_snd (findLastSequenceNumber os (jw_location w) (jw_dest_id w) (jw_prefault w)
                         last_page_id)) (\<lambda>last_seq.
               modify_fst (\<lambda>w. w\<lparr>jw_sequence := last_seq + 1\<rparr>)))
             else return_p ()) (\<lambda>_.
     bind_p (loadInitialPage os) (\<lambda>_.
     bind_p (start_warmer os options) (\<lambda>_.
     modify_fst (\<lambda>w. if jw_background w then w\<lparr>jw_retire_running := True\<rparr> else w))))))"

definition JournalWriter_new ::
    "(page_key \<Rightarrow> os_env) \<Rightarrow> Location \<Rightarrow> u32 \<Rightarrow> JournalWriterOptions \<Rightarrow> bool \<Rightarrow>
     (page_key kernel, JournalWriter) prog" where
  "JournalWriter_new os loc dest_id options serialize = (\<lambda>K.
     case open_writer os options (blank_writer loc dest_id options serialize, K) of
       (Inl e, (_, K')) \<Rightarrow> (Inl e, K')
     | (Inr _, (w, K')) \<Rightarrow> (Inr w, K'))"

subsection \<open>Rotation\<close>

text \<open>The page to go on with: a warmed one when the warmer has it, otherwise a loaded one.\<close>

definition next_page :: "(page_key \<Rightarrow> os_env) \<Rightarrow> int \<Rightarrow> Page writer_prog" where
  "next_page os new_page_id =
     bind_p get_fst (\<lambda>w.
     let load = on_snd (Page_load os (jw_location w) (jw_dest_id w) new_page_id True (jw_prefault w))
     in case jw_warmer w of
          None \<Rightarrow> load
        | Some wm \<Rightarrow>
            let ((addr, sz), wm') = getWarmedPage new_page_id wm in
            bind_p (modify_fst (\<lambda>w. w\<lparr>jw_warmer := Some wm'\<rparr>)) (\<lambda>_.
            bind_p (case addr of
                      Some _ \<Rightarrow> on_snd (loadFromAddress (jw_location w) (jw_dest_id w) new_page_id
                                  sz True (jw_prefault w))
                    | None \<Rightarrow> load) (\<lambda>page.
            bind_p (modify_fst (\<lambda>w. w\<lparr>jw_warmer := Some (updateCurrentPage new_page_id wm')\<rparr>)) (\<lambda>_.
            return_p page))))"

text \<open>The sentinel that ends the current page.\<close>

definition write_page_end :: "u64 \<Rightarrow> unit writer_prog" where
  "write_page_end now =
     bind_p get_fst (\<lambda>w. case jw_page w of
       None \<Rightarrow> return_p ()
     | Some page \<Rightarrow>
         bind_p nextSeq (\<lambda>seq.
         bind_p (on_snd (page_write page (jw_cur w) sizeof_FrameHeader
                   (page_end_mem (jw_cur w) now seq))) (\<lambda>_.
         on_snd (page_write page 16 8 (setLastFramePosition (of_nat (jw_cur w)))))))"

definition retire_current :: "(page_key \<Rightarrow> os_env) \<Rightarrow> unit writer_prog" where
  "retire_current os =
     bind_p get_fst (\<lambda>w. case jw_page w of
       None \<Rightarrow> return_p ()
     | Some page \<Rightarrow>
         bind_p (on_snd (retire_overflow os (jw_background w) (jw_max_retained w)
                   (jw_retired w @ [page]) (jw_retire_queue w))) (\<lambda>(retired, queue).
         modify_fst (\<lambda>w. w\<lparr>jw_retired := retired, jw_retire_queue := queue\<rparr>)))"

definition rotatePage :: "(page_key \<Rightarrow> os_env) \<Rightarrow> u64 \<Rightarrow> unit writer_prog" where
  "rotatePage os now =
     bind_p (modify_fst (\<lambda>w. w\<lparr>jw_page_id := jw_page_id w + 1\<rparr>)) (\<lambda>_.
     bind_p get_fst (\<lambda>w.
     bind_p (next_page os (jw_page_id w)) (\<lambda>page.
     bind_p (write_page_end now) (\<lambda>_.
     bind_p (retire_current os) (\<lambda>_.
     bind_p (modify_fst (\<lambda>w. w\<lparr>jw_page := Some page\<rparr>)) (\<lambda>_.
     bind_p (on_snd (Page_firstFrame page)) (\<lambda>off.
     modify_fst (\<lambda>w. w\<lparr>jw_cur := off\<rparr>))))))))"

subsection \<open>Frames\<close>

definition total_size :: "u64 \<Rightarrow> u32" where
  "total_size payload_size = ucast (of_nat sizeof_FrameHeader + payload_size)"

definition current_page :: "Page writer_prog" where
  "current_page = bind_p get_fst (\<lambda>w. case jw_page w of None \<Rightarrow> throw_p Segv | Some p \<Rightarrow> return_p p)"

text \<open>The two halves of \<^verbatim>\<open>openFrame\<close>: make room, and write the header of the new frame.\<close>

definition make_room :: "(page_key \<Rightarrow> os_env) \<Rightarrow> u64 \<Rightarrow> u64 \<Rightarrow> unit writer_prog" where
  "make_room os now payload_size =
     bind_p current_page (\<lambda>_.
     bind_p get_fst (\<lambda>w.
     let stride = unat (framePhysicalLength (total_size payload_size)) in
     if jw_cur w + stride > unat (jw_page_size w) - unat FRAME_ALIGNMENT
     then rotatePage os now else return_p ()))"

definition place_header :: "u64 \<Rightarrow> u32 \<Rightarrow> u16 \<Rightarrow> (Page \<times> nat) writer_prog" where
  "place_header timestamp msg_type fl =
     bind_p current_page (\<lambda>page.
     bind_p get_fst (\<lambda>w.
     bind_p nextSeq (\<lambda>seq.
     bind_p (on_snd (page_write page (jw_cur w) sizeof_FrameHeader
               (open_frame_mem (jw_cur w) timestamp msg_type fl seq))) (\<lambda>_.
     return_p (page, jw_cur w)))))"

definition openFrame ::
    "(page_key \<Rightarrow> os_env) \<Rightarrow> u64 \<Rightarrow> u64 \<Rightarrow> u32 \<Rightarrow> u64 \<Rightarrow> u16 \<Rightarrow> (Page \<times> nat) writer_prog" where
  "openFrame os now timestamp msg_type payload_size fl =
     bind_p (make_room os now payload_size) (\<lambda>_. place_header timestamp msg_type fl)"

definition closeFrame ::
    "Page \<times> nat \<Rightarrow> u64 \<Rightarrow> (FrameHeader \<Rightarrow> FrameHeader) \<Rightarrow> unit writer_prog" where
  "closeFrame frame payload_size before_publish =
     bind_p (on_snd (page_write (fst frame) (snd frame) sizeof_FrameHeader
               (close_frame_mem before_publish (snd frame) (total_size payload_size)))) (\<lambda>_.
     bind_p current_page (\<lambda>page.
     bind_p (assert_p (pg_key page = pg_key (fst frame)) Placement_dependent) (\<lambda>_.
     bind_p (on_snd (page_write page 16 8 (setLastFramePosition (of_nat (snd frame))))) (\<lambda>_.
     modify_fst (\<lambda>w. w\<lparr>jw_cur :=
       snd frame + unat (framePhysicalLength (total_size payload_size))\<rparr>)))))"

definition ensure_page :: "(page_key \<Rightarrow> os_env) \<Rightarrow> u64 \<Rightarrow> unit writer_prog" where
  "ensure_page os now =
     bind_p get_fst (\<lambda>w. if jw_page w = None then rotatePage os now else return_p ())"

subsection \<open>The public operations\<close>

definition mark :: "(page_key \<Rightarrow> os_env) \<Rightarrow> u64 \<Rightarrow> u64 \<Rightarrow> u32 \<Rightarrow> unit writer_prog" where
  "mark os now timestamp msg_type =
     with_lock (bind_p (ensure_page os now) (\<lambda>_.
       bind_p (openFrame os now timestamp msg_type 0 FRAME_NORMAL) (\<lambda>frame.
       closeFrame frame 0 id)))"

text \<open>The body of \<^verbatim>\<open>writeBytes\<close> under its lock.\<close>

definition copy_and_close :: "u8 list \<Rightarrow> Page \<times> nat \<Rightarrow> unit writer_prog" where
  "copy_and_close data frame =
     bind_p (if data \<noteq> [] then
               on_snd (page_write (fst frame) (dataAsBytes (snd frame)) (length data)
                 (\<lambda>m. store_bytes m (dataAsBytes (snd frame)) data))
             else return_p ()) (\<lambda>_.
     closeFrame frame (of_nat (length data)) id)"

definition write_frame ::
    "(page_key \<Rightarrow> os_env) \<Rightarrow> u64 \<Rightarrow> u64 \<Rightarrow> u32 \<Rightarrow> u8 list \<Rightarrow> unit writer_prog" where
  "write_frame os now timestamp msg_type data =
     bind_p (ensure_page os now) (\<lambda>_.
     bind_p (openFrame os now timestamp msg_type (of_nat (length data)) FRAME_NORMAL)
       (copy_and_close data))"

definition writeBytes ::
    "(page_key \<Rightarrow> os_env) \<Rightarrow> u64 \<Rightarrow> u64 \<Rightarrow> u32 \<Rightarrow> u8 list \<Rightarrow> unit writer_prog" where
  "writeBytes os now timestamp msg_type data = with_lock (write_frame os now timestamp msg_type data)"

text \<open>
  \<^verbatim>\<open>openData<T>\<close> and \<^verbatim>\<open>closeData<T>\<close> with \<open>sz\<close> for \<^verbatim>\<open>sizeof(T)\<close>.  The reference that
  \<^verbatim>\<open>openData\<close> returns is the open frame; \<open>fill_data\<close> is the caller's store through it.
\<close>

definition openData ::
    "(page_key \<Rightarrow> os_env) \<Rightarrow> u64 \<Rightarrow> u64 \<Rightarrow> u64 \<Rightarrow> u32 \<Rightarrow> u16 \<Rightarrow> unit writer_prog" where
  "openData os now sz timestamp msg_type fl =
     bind_p lock_acquire (\<lambda>_.
     bind_p (ensure_page os now) (\<lambda>_.
     bind_p (openFrame os now timestamp msg_type sz fl) (\<lambda>frame.
     modify_fst (\<lambda>w. w\<lparr>jw_open := Some frame\<rparr>))))"

definition fill_data :: "u8 list \<Rightarrow> unit writer_prog" where
  "fill_data data =
     bind_p get_fst (\<lambda>w. case jw_open w of
       None \<Rightarrow> throw_p Segv
     | Some (page, off) \<Rightarrow> on_snd (page_write page (dataAsBytes off) (length data)
         (\<lambda>m. store_bytes m (dataAsBytes off) data)))"

definition closeData :: "u64 \<Rightarrow> (FrameHeader \<Rightarrow> FrameHeader) \<Rightarrow> unit writer_prog" where
  "closeData sz before_publish =
     bind_p get_fst (\<lambda>w. case jw_open w of
       None \<Rightarrow> bind_p (modify_fst lock_release) (\<lambda>_. throw_p (Runtime_error ''No frame opened''))
     | Some frame \<Rightarrow>
         bind_p (catch_p (bind_p (closeFrame frame sz before_publish) (\<lambda>_.
                   modify_fst (\<lambda>w. w\<lparr>jw_open := None\<rparr>)))
                 (\<lambda>e. bind_p (modify_fst lock_release) (\<lambda>_. throw_p e))) (\<lambda>_.
         modify_fst lock_release))"

definition getCurrentSequence :: "JournalWriter \<Rightarrow> u64" where
  "getCurrentSequence w = jw_sequence w"

definition getCurrentPageId :: "JournalWriter \<Rightarrow> int" where
  "getCurrentPageId w = jw_page_id w"

text \<open>
  The destructor: the warmer and the current page go first; the retained pages go to the retire
  thread, which drains its queue before it is joined, or are destroyed when there is no thread.
\<close>

definition destroy_warmer :: "(page_key \<Rightarrow> os_env) \<Rightarrow> unit writer_prog" where
  "destroy_warmer os = (\<lambda>(w, K). case jw_warmer w of
     None \<Rightarrow> (Inr (), (w, K))
   | Some wm \<Rightarrow> (case PageWarmer_destroy os (wm, K) of (r, (wm', K')) \<Rightarrow> (r, (w\<lparr>jw_warmer := None\<rparr>, K'))))"

definition JournalWriter_destroy :: "(page_key \<Rightarrow> os_env) \<Rightarrow> unit writer_prog" where
  "JournalWriter_destroy os =
     bind_p (destroy_warmer os) (\<lambda>_.
     bind_p get_fst (\<lambda>w.
     bind_p (case jw_page w of None \<Rightarrow> return_p () | Some p \<Rightarrow> on_snd (Page_destroy os p)) (\<lambda>_.
     bind_p (modify_fst (\<lambda>w. w\<lparr>jw_page := None\<rparr>)) (\<lambda>_.
     if jw_background w then
       bind_p (modify_fst (\<lambda>w. w\<lparr>jw_retire_queue := jw_retire_queue w @ jw_retired w, jw_retired := [],
         jw_retire_running := False\<rparr>)) (\<lambda>_. retireLoop_drain os)
     else
       bind_p (on_snd (destroy_pages os (jw_retired w))) (\<lambda>_.
       modify_fst (\<lambda>w. w\<lparr>jw_retired := []\<rparr>))))))"

text \<open>One pass of the warmer thread of a writer.\<close>

definition warmer_thread_pass :: "(page_key \<Rightarrow> os_env) \<Rightarrow> unit writer_prog" where
  "warmer_thread_pass os = (\<lambda>(w, K). case jw_warmer w of
     None \<Rightarrow> (Inr (), (w, K))
   | Some wm \<Rightarrow> (case warmup_pass os (wm, K) of (r, (wm', K')) \<Rightarrow> (r, (w\<lparr>jw_warmer := Some wm'\<rparr>, K'))))"

subsection \<open>CRC-16\<close>

fun crc_bits :: "nat \<Rightarrow> u16 \<Rightarrow> u16" where
  "crc_bits 0 crc = crc"
| "crc_bits (Suc j) crc =
     crc_bits j (if crc AND 1 \<noteq> 0 then drop_bit 1 crc XOR 0xA001 else drop_bit 1 crc)"

definition calculateCRC16 :: "u8 list \<Rightarrow> u16" where
  "calculateCRC16 data = foldl (\<lambda>crc b. crc_bits 8 (crc XOR ucast b)) 0xFFFF data"

end
