(* ===== verification/Writer_Invariant.thy ===== *)
theory Writer_Invariant
  imports Journal_Writer
begin

section \<open>What the writer keeps true\<close>

text \<open>
  The content of a journal as lists of frames, one list per page, and the invariant that ties a
  \<^verbatim>\<open>JournalWriter\<close> to it.  Each write appends to the last list, or closes it with a \<^verbatim>\<open>PageEnd\<close>
  frame and starts the next one (\<open>log_append\<close>); the theory proves that the operations of
  \<open>Journal_Writer\<close> implement exactly this, for a writer with or without page warmer and retire
  thread, as long as system calls succeed.
\<close>

subsection \<open>Page images\<close>

definition page_image :: "u32 \<Rightarrow> FrameSnap list \<Rightarrow> memory \<Rightarrow> bool" where
  "page_image sz fs m \<longleftrightarrow> header_ok sz m \<and> frames_at m 64 fs \<and> 64 + frames_len fs \<le> unat sz \<and>
     unat (ph_last_frame_position (PageHeader_at m)) = 64 + frames_len (butlast fs)"

definition open_image :: "u32 \<Rightarrow> FrameSnap list \<Rightarrow> memory \<Rightarrow> bool" where
  "open_image sz fs m \<longleftrightarrow> page_image sz fs m \<and> zero_on m (64 + frames_len fs) (unat sz)"

lemma blank_page_open: "64 < unat sz \<Longrightarrow> open_image sz [] (blank_page sz)"
  using blank_page_zero [of sz] by (simp add: open_image_def page_image_def) (simp add: blank_page_def header_ok_init)

lemma open_image_append:
  assumes img: "open_image sz fs m" and cur: "cur = 64 + frames_len fs"
    and outside: "\<And>i. i < cur \<or> cur + 32 + length (snap_payload f) \<le> i \<Longrightarrow> m' i = m i"
    and frame: "frame_at m' cur f" and fits: "cur + frame_stride f \<le> unat sz"
  shows "open_image sz (fs @ [f]) (setLastFramePosition (of_nat cur) m')"
proof -
  let ?m = "setLastFramePosition (of_nat cur) m'"
  have cur_sz: "cur < unat sz" using fits frame_stride_bounds(1) [of f] by simp
  have le: "unat sz < 2 ^ 64" using unat_u32_less [of sz] by simp
  have beyond: "same_on m' ?m 64 n" for n
    by (auto simp: same_on_def setLastFramePosition_def mem_simps)
  have m': "same_on m m' 0 cur" using outside by (simp add: same_on_def)
  have "header_ok sz m'"
    using img PageHeader_same_on [OF same_on_sub [OF m', of 0 64]] cur
    by (simp add: open_image_def page_image_def header_ok_iff)
  then have h: "header_ok sz ?m" using cur cur_sz by (intro header_ok_setLast) simp_all
  have fa: "frames_at m' 64 fs"
    using img cur same_on_sub [OF m', of 64 cur] by (auto simp: open_image_def page_image_def intro: frames_at_same_on)
  then have "frames_at m' 64 (fs @ [f])" using frame cur by simp
  then have f: "frames_at ?m 64 (fs @ [f])" by (rule frames_at_same_on [OF _ beyond])
  have "zero_on m' (cur + frame_stride f) (unat sz)"
    using img cur outside frame_stride_bounds(2) [of f] by (simp add: open_image_def zero_on_def)
  then have z: "zero_on ?m (cur + frame_stride f) (unat sz)"
    using cur by (intro zero_on_same_on [OF _ same_on_sub [OF beyond]]) auto
  have "unat (ph_last_frame_position (PageHeader_at ?m)) = cur"
    using cur_sz le by (simp add: unat_of_nat)
  with h f z cur fits show ?thesis by (simp add: open_image_def page_image_def add.assoc)
qed

subsection \<open>The content of a journal\<close>

definition page_holds :: "page_key kernel \<Rightarrow> page_key \<Rightarrow> u32 \<Rightarrow> (memory \<Rightarrow> bool) \<Rightarrow> bool" where
  "page_holds K key sz P \<longleftrightarrow> (case lookup_file K key of
     None \<Rightarrow> False | Some pf \<Rightarrow> pf_size pf = unat sz \<and> P (pf_mem pf))"

definition is_page_end :: "FrameSnap \<Rightarrow> bool" where
  "is_page_end f \<longleftrightarrow> snap_msg_type f = sint MsgType_PageEnd"

definition plain_frame :: "FrameSnap \<Rightarrow> bool" where
  "plain_frame f \<longleftrightarrow> snap_msg_type f > 0 \<and> \<not> is_page_end f"

definition closed_frames :: "FrameSnap list \<Rightarrow> bool" where
  "closed_frames fs \<longleftrightarrow> fs \<noteq> [] \<and> is_page_end (last fs) \<and> list_all plain_frame (butlast fs)"

text \<open>
  \<open>journal_log loc dest K first front cur\<close>: the pages numbered from \<open>first\<close> hold the frames
  \<open>front\<close>, each closed by a \<^verbatim>\<open>PageEnd\<close> frame; the page after them holds \<open>cur\<close>, has room for a
  \<^verbatim>\<open>PageEnd\<close> frame and is zero behind its frames.
\<close>

definition journal_log ::
    "Location \<Rightarrow> u32 \<Rightarrow> page_key kernel \<Rightarrow> int \<Rightarrow> FrameSnap list list \<Rightarrow> FrameSnap list \<Rightarrow> bool" where
  "journal_log loc dest K first front cur \<longleftrightarrow>
     (\<forall>j < length front. closed_frames (front ! j) \<and>
        page_holds K (page_key_of loc dest (first + int j)) (findPageSize loc dest)
          (page_image (findPageSize loc dest) (front ! j))) \<and>
     list_all plain_frame cur \<and> 128 + frames_len cur \<le> unat (findPageSize loc dest) \<and>
     page_holds K (page_key_of loc dest (first + int (length front))) (findPageSize loc dest)
       (open_image (findPageSize loc dest) cur)"

text \<open>The abstract effect of one write: the next sequence number and the frames of the pages.\<close>

type_synonym log_state = "u64 \<times> FrameSnap list list \<times> FrameSnap list"

definition log_rotate :: "u64 \<Rightarrow> log_state \<Rightarrow> log_state" where
  "log_rotate now = (\<lambda>(seq, front, cur).
     (seq + 1, front @ [cur @ [snap_of now MsgType_PageEnd FRAME_NORMAL seq []]], []))"

definition log_put :: "u64 \<Rightarrow> u32 \<Rightarrow> u16 \<Rightarrow> u8 list \<Rightarrow> log_state \<Rightarrow> log_state" where
  "log_put t ty fl data = (\<lambda>(seq, front, cur). (seq + 1, front, cur @ [snap_of t ty fl seq data]))"

definition log_append ::
    "nat \<Rightarrow> u64 \<Rightarrow> u64 \<Rightarrow> u32 \<Rightarrow> u16 \<Rightarrow> u8 list \<Rightarrow> log_state \<Rightarrow> log_state" where
  "log_append sz now t ty fl data = (\<lambda>(seq, front, cur).
     log_put t ty fl data
       (if 128 + frames_len cur + stride_of (32 + length data) > sz
        then log_rotate now (seq, front, cur) else (seq, front, cur)))"

lemma page_holds_update_other [simp]:
  "key' \<noteq> key \<Longrightarrow> page_holds (map_page key f K) key' sz P = page_holds K key' sz P"
  by (simp add: page_holds_def)

lemma page_holds_mem:
  assumes "page_holds K key sz P" and "\<And>m. P m \<Longrightarrow> Q (f m)"
  shows "page_holds (map_page key f K) key sz Q"
  using assms by (auto simp: page_holds_def split: option.splits)

lemma page_holds_cong:
  "lookup_file K' key = lookup_file K key \<Longrightarrow> page_holds K' key sz P = page_holds K key sz P"
  by (simp add: page_holds_def)

lemma page_holds_maps [simp]:
  "page_holds (K\<lparr>k_maps := ms\<rparr>) key sz P = page_holds K key sz P"
  by (simp add: page_holds_def)

lemma page_key_of_inj [simp]: "page_key_of loc dest i = page_key_of loc dest j \<longleftrightarrow> i = j"
  by (simp add: page_key_of_def)

lemma journal_log_cong:
  assumes "\<And>i. i \<le> first + int (length front) \<Longrightarrow>
    lookup_file K' (page_key_of loc dest i) = lookup_file K (page_key_of loc dest i)"
  shows "journal_log loc dest K' first front cur = journal_log loc dest K first front cur"
proof -
  have "page_holds K' (page_key_of loc dest i) sz P = page_holds K (page_key_of loc dest i) sz P"
    if "i \<le> first + int (length front)" for i sz P
    using assms [OF that] by (rule page_holds_cong)
  then show ?thesis by (auto simp: journal_log_def)
qed

lemma journal_log_append:
  assumes log: "journal_log loc dest K first front cur"
    and cur: "page_holds K' (page_key_of loc dest (first + int (length front))) (findPageSize loc dest)
       (open_image (findPageSize loc dest) (cur @ [f]))"
    and others: "\<And>i. i < first + int (length front) \<Longrightarrow>
       lookup_file K' (page_key_of loc dest i) = lookup_file K (page_key_of loc dest i)"
    and f: "plain_frame f" "128 + frames_len cur + frame_stride f \<le> unat (findPageSize loc dest)"
  shows "journal_log loc dest K' first front (cur @ [f])"
proof -
  have "page_holds K' (page_key_of loc dest (first + int j)) sz P = page_holds K (page_key_of loc dest (first + int j)) sz P"
    if "j < length front" for j sz P
    using others [of "first + int j"] that by (intro page_holds_cong) simp
  then show ?thesis using log cur f by (auto simp: journal_log_def)
qed

lemma journal_log_rotate:
  assumes log: "journal_log loc dest K first front cur"
    and old: "page_holds K' (page_key_of loc dest (first + int (length front))) (findPageSize loc dest)
       (page_image (findPageSize loc dest) (cur @ [f]))"
    and new: "page_holds K' (page_key_of loc dest (first + int (length front) + 1)) (findPageSize loc dest)
       (open_image (findPageSize loc dest) [])"
    and others: "\<And>i. i < first + int (length front) \<Longrightarrow>
       lookup_file K' (page_key_of loc dest i) = lookup_file K (page_key_of loc dest i)"
    and f: "is_page_end f"
  shows "journal_log loc dest K' first (front @ [cur @ [f]]) []"
proof -
  have oth: "page_holds K' (page_key_of loc dest (first + int j)) sz P = page_holds K (page_key_of loc dest (first + int j)) sz P"
    if "j < length front" for j sz P
    using others [of "first + int j"] that by (intro page_holds_cong) simp
  have "closed_frames (cur @ [f])" using log f by (simp add: closed_frames_def journal_log_def)
  moreover have "page_holds K' (page_key_of loc dest (first + (1 + int (length front))))
      (findPageSize loc dest) (open_image (findPageSize loc dest) [])"
    using new by (simp add: ac_simps)
  ultimately show ?thesis
    using log old oth by (auto simp: journal_log_def nth_append less_Suc_eq)
qed

subsection \<open>The invariant\<close>

text \<open>Every mapping a writer is responsible for: its pages' and those its warmer owns.\<close>

definition writer_maps :: "JournalWriter \<Rightarrow> page_key multiset" where
  "writer_maps w =
     (case jw_page w of None \<Rightarrow> {#} | Some p \<Rightarrow> {# pg_key p #}) +
     mset (map pg_key (jw_retired w @ jw_retire_queue w)) +
     (case jw_warmer w of None \<Rightarrow> {#} | Some wm \<Rightarrow> owned_mset wm)"

definition w_key :: "JournalWriter \<Rightarrow> int \<Rightarrow> page_key" where
  "w_key w i = page_key_of (jw_location w) (jw_dest_id w) i"

definition blank_file :: "u32 \<Rightarrow> page_file" where
  "blank_file sz = \<lparr>pf_size = unat sz, pf_mem = blank_page sz\<rparr>"

text \<open>A page ahead of the current page \<open>c\<close>: blank, and not farther ahead than the warmer's ring reaches.\<close>

definition future_file :: "u32 \<Rightarrow> int \<Rightarrow> int \<Rightarrow> page_file \<Rightarrow> bool" where
  "future_file sz c i pf \<longleftrightarrow> pf = blank_file sz \<and> i \<le> c + 16"

definition warmer_ok :: "JournalWriter \<Rightarrow> page_key kernel \<Rightarrow> bool" where
  "warmer_ok w K \<longleftrightarrow> (case jw_warmer w of
     None \<Rightarrow> True
   | Some wm \<Rightarrow> ring_ok wm \<and> pw_location wm = jw_location w \<and> pw_dest_id wm = jw_dest_id w \<and>
       pw_page_size wm = jw_page_size w \<and> pw_is_writer wm \<and> pw_current_page wm = jw_page_id w \<and>
       pw_distance wm \<le> 16 \<and>
       (\<forall>i. isPageInRing wm i \<longrightarrow> i \<ge> 0 \<longrightarrow> lookup_file K (w_key w i) \<noteq> None))"

definition writer_inv ::
    "JournalWriter \<Rightarrow> page_key kernel \<Rightarrow> int \<Rightarrow> FrameSnap list list \<Rightarrow> FrameSnap list \<Rightarrow> bool" where
  "writer_inv w K first front cur \<longleftrightarrow>
     journal_log (jw_location w) (jw_dest_id w) K first front cur \<and>
     first \<ge> 0 \<and> jw_page_id w = first + int (length front) \<and>
     jw_page_size w = findPageSize (jw_location w) (jw_dest_id w) \<and>
     (\<exists>p. jw_page w = Some p \<and> pg_key p = w_key w (jw_page_id w) \<and> pg_size p = jw_page_size w \<and>
        pg_writable p) \<and>
     jw_cur w = 64 + frames_len cur \<and>
     (\<forall>i > jw_page_id w. pred_option (future_file (jw_page_size w) (jw_page_id w) i) (lookup_file K (w_key w i))) \<and>
     writer_maps w \<subseteq># mset (k_maps K) \<and> warmer_ok w K"

definition other_maps :: "JournalWriter \<Rightarrow> page_key kernel \<Rightarrow> page_key multiset" where
  "other_maps w K = mset (k_maps K) - writer_maps w"

text \<open>What the operations leave alone: the configuration, other journals, other mappings.\<close>

definition same_config :: "JournalWriter \<Rightarrow> JournalWriter \<Rightarrow> bool" where
  "same_config w w' \<longleftrightarrow> jw_location w' = jw_location w \<and> jw_dest_id w' = jw_dest_id w \<and>
     jw_page_size w' = jw_page_size w \<and> jw_serialize w' = jw_serialize w \<and>
     jw_prefault w' = jw_prefault w \<and> jw_background w' = jw_background w \<and>
     jw_max_retained w' = jw_max_retained w"

lemma same_config_refl [simp]: "same_config w w"
  by (simp add: same_config_def)

lemma same_config_trans: "same_config w w' \<Longrightarrow> same_config w' w'' \<Longrightarrow> same_config w w''"
  by (simp add: same_config_def)

lemma writer_invD:
  assumes "writer_inv w K first front cur"
  shows "journal_log (jw_location w) (jw_dest_id w) K first front cur" and "first \<ge> 0"
    and "jw_page_id w = first + int (length front)"
    and "jw_page_size w = findPageSize (jw_location w) (jw_dest_id w)"
    and "jw_cur w = 64 + frames_len cur"
    and "jw_page_id w < i \<Longrightarrow>
      pred_option (future_file (jw_page_size w) (jw_page_id w) i) (lookup_file K (w_key w i))"
    and "writer_maps w \<subseteq># mset (k_maps K)" and "warmer_ok w K"
  using assms unfolding writer_inv_def by blast+

lemma writer_inv_page:
  assumes "writer_inv w K first front cur"
  obtains p pf where "jw_page w = Some p" and "pg_key p = w_key w (jw_page_id w)"
    and "pg_size p = jw_page_size w" and "pg_writable p" and "page_ready K p pf"
    and "open_image (jw_page_size w) cur (pf_mem pf)"
proof -
  obtain p where p: "jw_page w = Some p" "pg_key p = w_key w (jw_page_id w)" "pg_size p = jw_page_size w"
    "pg_writable p"
    using assms by (auto simp: writer_inv_def)
  have "page_holds K (w_key w (jw_page_id w)) (jw_page_size w) (open_image (jw_page_size w) cur)"
    using assms by (simp add: writer_inv_def journal_log_def w_key_def)
  then obtain pf where pf: "lookup_file K (pg_key p) = Some pf" "pf_size pf = unat (jw_page_size w)"
    "open_image (jw_page_size w) cur (pf_mem pf)"
    by (auto simp: page_holds_def p(2) split: option.splits)
  have "writer_maps w \<subseteq># mset (k_maps K)" using assms by (simp add: writer_inv_def)
  then have "pg_key p \<in># mset (k_maps K)" using p(1) by (auto simp: writer_maps_def dest: mset_subset_eqD)
  then have "page_ready K p pf" using pf p(3) by (simp add: page_ready_def)
  with p pf that show thesis by blast
qed

subsection \<open>Appending to the current page\<close>

lemma writer_inv_append:
  assumes inv: "writer_inv w K first front cur"
    and G: "\<And>m i. i < jw_cur w \<or> jw_cur w + 32 + length (snap_payload f) \<le> i \<Longrightarrow> G m i = m i"
      "\<And>m. frame_at (G m) (jw_cur w) f"
    and f: "plain_frame f" "128 + frames_len cur + frame_stride f \<le> unat (jw_page_size w)"
  shows "writer_inv (w\<lparr>jw_sequence := s, jw_cur := jw_cur w + frame_stride f, jw_open := op\<rparr>)
    (map_page (w_key w (jw_page_id w)) (\<lambda>m. setLastFramePosition (of_nat (jw_cur w)) (G m)) K)
    first front (cur @ [f])" (is "writer_inv ?w ?K _ _ _")
proof -
  let ?loc = "jw_location w" and ?dest = "jw_dest_id w" and ?sz = "jw_page_size w"
  have log: "journal_log ?loc ?dest K first front cur" and id: "jw_page_id w = first + int (length front)"
    and sz: "?sz = findPageSize ?loc ?dest" and c: "jw_cur w = 64 + frames_len cur"
    using inv by (simp_all add: writer_inv_def)
  have "page_holds K (w_key w (jw_page_id w)) ?sz (open_image ?sz cur)"
    using log sz id by (simp add: journal_log_def w_key_def)
  then have "page_holds ?K (w_key w (jw_page_id w)) ?sz (open_image ?sz (cur @ [f]))"
    by (rule page_holds_mem, intro open_image_append [OF _ c G]) (use c f in simp_all)
  then have "journal_log ?loc ?dest ?K first front (cur @ [f])"
    using log f sz id by (intro journal_log_append [OF log]) (simp_all add: w_key_def)
  then show ?thesis
    using inv by (auto simp: writer_inv_def w_key_def writer_maps_def warmer_ok_def split: option.splits)
qed

lemma total_size_nat: "total_size (of_nat n) = of_nat (32 + n)"
  using ucast_of_nat_u64_u32 [of "32 + n"] by (simp add: total_size_def)

lemma unat_total_size: "32 + n < 2 ^ 32 \<Longrightarrow> unat (total_size (of_nat n)) = 32 + n"
  by (simp only: total_size_nat unat_of_nat_u32)

lemma stride_total_size:
  "n \<le> 4294967200 \<Longrightarrow> unat (framePhysicalLength (total_size (of_nat n))) = stride_of (32 + n)"
  by (simp add: framePhysicalLength_stride unat_total_size)

subsection \<open>Rotation\<close>

lemma retire_overflow_ok:
  assumes "os_works os"
  obtains ret q' D K' where "retire_overflow os bg mx ps q K = (Inr (ret, q'), K')"
    and "mset (map pg_key (ps @ q)) = D + mset (map pg_key (ret @ q'))"
    and "mset (k_maps K') = mset (k_maps K) - D" and "lookup_file K' = lookup_file K" and "k_fds K' = k_fds K"
    and "length ret \<le> mx"
  using assms
proof (induction ps arbitrary: q K thesis)
  case Nil
  show ?case by (rule Nil.prems(1) [of "[]" q K "{#}"]) (simp_all add: prog_simps)
next
  case (Cons p ps)
  show ?case
  proof (cases "length (p # ps) > mx")
    case False
    then show ?thesis
      by (intro Cons.prems(1) [of "p # ps" q K "{#}"]) (simp_all add: prog_simps)
  next
    case over: True
    show ?thesis
    proof (cases bg)
      case True
      obtain ret q' D K' where r: "retire_overflow os bg mx ps (q @ [p]) K = (Inr (ret, q'), K')"
        "mset (map pg_key (ps @ q @ [p])) = D + mset (map pg_key (ret @ q'))"
        "mset (k_maps K') = mset (k_maps K) - D" "lookup_file K' = lookup_file K" "k_fds K' = k_fds K"
        "length ret \<le> mx"
        by (rule Cons.IH [OF _ Cons.prems(2)])
      show ?thesis
        by (rule Cons.prems(1) [of ret q' K' D]) (use over True r in simp_all)
    next
      case False
      let ?K = "K\<lparr>k_maps := remove1 (pg_key p) (k_maps K)\<rparr>"
      obtain ret q' D K' where r: "retire_overflow os bg mx ps q ?K = (Inr (ret, q'), K')"
        "mset (map pg_key (ps @ q)) = D + mset (map pg_key (ret @ q'))"
        "mset (k_maps K') = mset (k_maps ?K) - D" "lookup_file K' = lookup_file ?K" "k_fds K' = k_fds ?K"
        "length ret \<le> mx"
        by (rule Cons.IH [OF _ Cons.prems(2)])
      have "lookup_file ?K = lookup_file K" by (rule ext) simp
      then show ?thesis
        by (intro Cons.prems(1) [of ret q' K' "add_mset (pg_key p) D"])
          (use over False r Cons.prems(2) in \<open>simp_all add: prog_simps Page_destroy_eq\<close>)
    qed
  qed
qed

text \<open>The page a rotation moves to, and who owns its mapping.\<close>

definition next_page_post ::
    "JournalWriter \<Rightarrow> page_key kernel \<Rightarrow> Page \<Rightarrow> PageWarmer option \<Rightarrow> page_key kernel \<Rightarrow> bool" where
  "next_page_post w K p wmo K' \<longleftrightarrow>
     (let key = w_key w (jw_page_id w + 1);
          maps = add_mset key (writer_maps (w\<lparr>jw_warmer := wmo\<rparr>))
      in pg_key p = key \<and> pg_size p = jw_page_size w \<and> pg_writable p \<and>
         lookup_file K' = (lookup_file K)(key \<mapsto> blank_file (jw_page_size w)) \<and> k_fds K' = k_fds K \<and>
         maps \<subseteq># mset (k_maps K') \<and> mset (k_maps K') - maps = other_maps w K \<and>
         warmer_ok (w\<lparr>jw_page_id := jw_page_id w + 1, jw_warmer := wmo\<rparr>) K')"

lemma load_next_page:
  assumes inv: "writer_inv w K first front cur" and os: "os_works os"
  obtains K' where
    "Page_load os (jw_location w) (jw_dest_id w) (jw_page_id w + 1) True pre K =
      (Inr (the_page (jw_location w) (jw_dest_id w) (jw_page_id w + 1) True pre), K')"
    and "lookup_file K' = (lookup_file K)(w_key w (jw_page_id w + 1) \<mapsto> blank_file (jw_page_size w))"
    and "k_maps K' = w_key w (jw_page_id w + 1) # k_maps K" and "k_fds K' = k_fds K"
proof -
  let ?loc = "jw_location w" and ?dest = "jw_dest_id w" and ?i = "jw_page_id w + 1"
  have sz: "jw_page_size w = findPageSize ?loc ?dest"
    and fut: "pred_option (future_file (jw_page_size w) (jw_page_id w) ?i) (lookup_file K (w_key w ?i))"
    using writer_invD(4) [OF inv] writer_invD(6) [OF inv, of ?i] by simp_all
  show thesis
  proof (cases "lookup_file K (w_key w ?i)")
    case None
    then have n: "lookup_file K (page_key_of ?loc ?dest ?i) = None" by (simp add: w_key_def)
    show thesis
    proof (rule Page_load_new [OF n _ os, of True pre])
      fix K' assume K': "Page_load os ?loc ?dest ?i True pre K = (Inr (the_page ?loc ?dest ?i True pre), K')"
        "lookup_file K' (page_key_of ?loc ?dest ?i) =
          Some \<lparr>pf_size = unat (findPageSize ?loc ?dest), pf_mem = blank_page (findPageSize ?loc ?dest)\<rparr>"
        "\<And>key. key \<noteq> page_key_of ?loc ?dest ?i \<Longrightarrow> lookup_file K' key = lookup_file K key"
        "k_maps K' = page_key_of ?loc ?dest ?i # k_maps K" "k_fds K' = k_fds K"
      have "lookup_file K' = (lookup_file K)(w_key w ?i \<mapsto> blank_file (jw_page_size w))"
        using K'(2,3) by (intro ext) (simp add: w_key_def blank_file_def sz)
      with K' show thesis by (intro that [of K']) (simp_all add: w_key_def)
    qed simp
  next
    case (Some pf)
    then have pf: "lookup_file K (page_key_of ?loc ?dest ?i) = Some pf" "pf = blank_file (jw_page_size w)"
      using fut by (simp_all add: w_key_def future_file_def)
    have "page_file_ok (findPageSize ?loc ?dest) pf"
      using pf(2) sz blank_page_ok [of "findPageSize ?loc ?dest"] by (simp add: blank_file_def)
    from Page_load_existing [OF pf(1) this os, of True pre] show thesis
      by (rule that) (use pf in \<open>auto simp: w_key_def fun_eq_iff\<close>)
  qed
qed

lemma writer_maps_warmer:
  "writer_maps (w\<lparr>jw_warmer := Some wm\<rparr>) = writer_maps (w\<lparr>jw_warmer := None\<rparr>) + owned_mset wm"
  by (simp add: writer_maps_def)

text \<open>The next page is mapped when there is no warmer or the warmer does not have it.\<close>

lemma next_page_loaded:
  assumes inv: "writer_inv w K first front cur" and os: "os_works os"
    and miss: "pred_option (\<lambda>wm. \<not> isPageInRing wm (jw_page_id w + 1)) (jw_warmer w)"
  obtains p wmo K' where
    "next_page os (jw_page_id w + 1) (w\<lparr>jw_page_id := jw_page_id w + 1\<rparr>, K) =
      (Inr p, (w\<lparr>jw_page_id := jw_page_id w + 1, jw_warmer := wmo\<rparr>, K'))"
    and "next_page_post w K p wmo K'"
proof -
  let ?i = "jw_page_id w + 1"
  let ?key = "w_key w ?i" and ?p = "the_page (jw_location w) (jw_dest_id w) (jw_page_id w + 1) True (jw_prefault w)"
  note invD = writer_invD [OF inv]
  obtain K1 where load: "Page_load os (jw_location w) (jw_dest_id w) ?i True (jw_prefault w) K = (Inr ?p, K1)"
    and K1: "lookup_file K1 = (lookup_file K)(?key \<mapsto> blank_file (jw_page_size w))"
      "k_maps K1 = ?key # k_maps K" "k_fds K1 = k_fds K"
    by (rule load_next_page [OF inv os, of "jw_prefault w"])
  have p: "pg_key ?p = ?key" "pg_size ?p = jw_page_size w" "pg_writable ?p"
    using invD(4) by (simp_all add: w_key_def)
  have maps: "add_mset ?key (writer_maps w) \<subseteq># mset (k_maps K1)"
    "mset (k_maps K1) - add_mset ?key (writer_maps w) = other_maps w K"
    using invD(7) K1(2) by (simp_all add: other_maps_def)
  define wmo where "wmo = map_option (updateCurrentPage ?i) (jw_warmer w)"
  have own: "writer_maps (w\<lparr>jw_warmer := wmo\<rparr>) = writer_maps w"
    by (cases "jw_warmer w") (simp_all add: wmo_def writer_maps_def updateCurrentPage_def)
  have get: "getWarmedPage ?i wm = ((None, 0), wm)" if "jw_warmer w = Some wm" for wm
    using getWarmedPage_cases [of wm ?i] invD(8) miss that by (simp add: warmer_ok_def ring_ok_def)
  have "next_page os ?i (w\<lparr>jw_page_id := ?i\<rparr>, K) = (Inr ?p, (w\<lparr>jw_page_id := ?i, jw_warmer := wmo\<rparr>, K1))"
    using get load by (cases "jw_warmer w"; cases w) (simp_all add: next_page_def wmo_def prog_simps)
  moreover have "next_page_post w K ?p wmo K1"
    using p K1 maps own invD(8)
    by (cases "jw_warmer w") (auto simp: next_page_post_def Let_def warmer_ok_def wmo_def updateCurrentPage_def isPageInRing_def w_key_def)
  ultimately show thesis by (rule that)
qed

text \<open>A page the warmer has is taken over with its mapping.\<close>

lemma next_page_warmed:
  assumes inv: "writer_inv w K first front cur" and Some: "jw_warmer w = Some wm" and hit: "isPageInRing wm (jw_page_id w + 1)"
  obtains p wmo where
    "next_page os (jw_page_id w + 1) (w\<lparr>jw_page_id := jw_page_id w + 1\<rparr>, K) =
      (Inr p, (w\<lparr>jw_page_id := jw_page_id w + 1, jw_warmer := wmo\<rparr>, K))"
    and "next_page_post w K p wmo K"
proof -
  let ?loc = "jw_location w" and ?dest = "jw_dest_id w" and ?i = "jw_page_id w + 1"
  let ?key = "w_key w ?i"
  note invD = writer_invD [OF inv]
  note ok = invD(8) [unfolded warmer_ok_def Some option.case]
  have i0: "?i \<ge> 0" using invD(2,3) by simp
  obtain wm' where get: "getWarmedPage ?i wm = ((Some (page_key_of (pw_location wm) (pw_dest_id wm) ?i), pw_page_size wm), wm')"
    and wm': "ring_ok wm'"
      "owned_mset wm = add_mset (page_key_of (pw_location wm) (pw_dest_id wm) ?i) (owned_mset wm')"
      "pw_location wm' = pw_location wm" "pw_dest_id wm' = pw_dest_id wm" "pw_page_size wm' = pw_page_size wm"
      "pw_is_writer wm' = pw_is_writer wm" "pw_distance wm' = pw_distance wm" "\<forall>j \<ge> 0. isPageInRing wm' j \<longrightarrow> isPageInRing wm j"
    by (rule getWarmedPage_hit [OF conjunct1 [OF ok] i0 hit])
  have key: "page_key_of (pw_location wm) (pw_dest_id wm) ?i = ?key" using ok by (simp add: w_key_def)
  let ?q = "\<lparr>pg_location = ?loc, pg_dest_id = ?dest, pg_page_id = ?i, pg_size = jw_page_size w,
    pg_prefault = jw_prefault w, pg_writable = True\<rparr>"
  let ?wm = "updateCurrentPage ?i wm'"
  have blank: "lookup_file K ?key = Some (blank_file (jw_page_size w))"
    using invD(6) [of ?i] ok hit i0 by (cases "lookup_file K ?key") (auto simp: future_file_def simp del: not_None_eq)
  have own: "writer_maps w = add_mset ?key (writer_maps (w\<lparr>jw_warmer := Some ?wm\<rparr>))"
    using Some wm'(2) key by (simp add: writer_maps_def updateCurrentPage_def)
  then have "?key \<in># mset (k_maps K)" using invD(7) by (auto dest: mset_subset_eqD)
  then have rdy: "page_ready K ?q (blank_file (jw_page_size w))"
    using blank by (simp add: page_ready_def pg_key_def w_key_def blank_file_def)
  have "loadFromAddress ?loc ?dest ?i (jw_page_size w) True (jw_prefault w) K = (Inr ?q, K)"
    using page_read_ready [OF rdy, of 0 64] invD(4)
    by (simp add: loadFromAddress_def prog_simps Let_def blank_file_def blank_page_def)
  then have "next_page os ?i (w\<lparr>jw_page_id := ?i\<rparr>, K) = (Inr ?q, (w\<lparr>jw_page_id := ?i, jw_warmer := Some ?wm\<rparr>, K))"
    using Some get ok by (simp add: next_page_def prog_simps)
  moreover have "lookup_file K = (lookup_file K)(?key \<mapsto> blank_file (jw_page_size w))"
    using blank by (simp add: fun_upd_idem)
  then have "next_page_post w K ?q (Some ?wm) K"
    using own invD(7) ok wm' i0
    by (auto simp: next_page_post_def Let_def warmer_ok_def updateCurrentPage_def
        isPageInRing_def w_key_def pg_key_def other_maps_def)
  ultimately show thesis by (rule that)
qed

lemma next_page_ok:
  assumes inv: "writer_inv w K first front cur" and os: "os_works os"
  obtains p wmo K' where
    "next_page os (jw_page_id w + 1) (w\<lparr>jw_page_id := jw_page_id w + 1\<rparr>, K) =
      (Inr p, (w\<lparr>jw_page_id := jw_page_id w + 1, jw_warmer := wmo\<rparr>, K'))"
    and "next_page_post w K p wmo K'"
proof (cases "pred_option (\<lambda>wm. \<not> isPageInRing wm (jw_page_id w + 1)) (jw_warmer w)")
  case True
  then show thesis using next_page_loaded [OF inv os] that by metis
next
  case False
  then obtain wm where "jw_warmer w = Some wm" "isPageInRing wm (jw_page_id w + 1)" by (cases "jw_warmer w") auto
  then show thesis using next_page_warmed [OF inv] that by metis
qed

text \<open>Files of other journals and pages before the current one.\<close>

definition same_elsewhere :: "JournalWriter \<Rightarrow> page_key kernel \<Rightarrow> page_key kernel \<Rightarrow> bool" where
  "same_elsewhere w K K' \<longleftrightarrow> k_fds K' = k_fds K \<and>
     (\<forall>key. (\<forall>i \<ge> jw_page_id w. key \<noteq> w_key w i) \<longrightarrow> lookup_file K' key = lookup_file K key)"

definition step_post ::
    "JournalWriter \<Rightarrow> page_key kernel \<Rightarrow> JournalWriter \<Rightarrow> page_key kernel \<Rightarrow> bool" where
  "step_post w K w' K' \<longleftrightarrow> same_config w w' \<and> jw_writing w' = jw_writing w \<and> jw_open w' = jw_open w \<and>
     jw_page_id w \<le> jw_page_id w' \<and> other_maps w' K' = other_maps w K \<and> same_elsewhere w K K'"

lemma step_post_trans:
  assumes "step_post w K w' K'" and "step_post w' K' w'' K''"
  shows "step_post w K w'' K''"
proof -
  have "w_key w' = w_key w" using assms(1) by (simp add: step_post_def same_config_def w_key_def fun_eq_iff)
  then show ?thesis
    using assms unfolding step_post_def same_elsewhere_def
    by (auto intro: same_config_trans)
qed

lemma snap_page_end [simp]: "is_page_end (snap_of now MsgType_PageEnd fl seq bs)"
  by (simp add: is_page_end_def MsgType_PageEnd_def)

lemma stride_32 [simp]: "stride_of 32 = 64"
  by (simp add: stride_of_def)

lemma Page_firstFrame_ready:
  "page_ready K p pf \<Longrightarrow> header_ok sz (pf_mem pf) \<Longrightarrow> 64 \<le> unat (pg_size p) \<Longrightarrow>
   Page_firstFrame p K = (Inr 64, K)"
  by (simp add: Page_firstFrame_def prog_simps page_read_ready header_ok_first)

lemma mset_sub_diff: "D + W \<subseteq># M \<Longrightarrow> W \<subseteq># M - D"
  by (auto simp: mset_subset_eq_exists_conv add.assoc)

lemma warmer_ok_cong:
  assumes "warmer_ok w K" and "jw_warmer w' = jw_warmer w" "jw_page_id w' = jw_page_id w"
    "jw_location w' = jw_location w" "jw_dest_id w' = jw_dest_id w" "jw_page_size w' = jw_page_size w"
    and "\<And>i. lookup_file K (w_key w i) \<noteq> None \<Longrightarrow> lookup_file K' (w_key w i) \<noteq> None"
  shows "warmer_ok w' K'"
proof -
  have "w_key w' = w_key w" using assms by (simp add: w_key_def fun_eq_iff)
  with assms show ?thesis
    unfolding warmer_ok_def by (auto simp del: not_None_eq split: option.splits)
qed

text \<open>The \<^verbatim>\<open>PageEnd\<close> frame closes the page that was current.\<close>

lemma write_page_end_closes:
  fixes now :: u64
  assumes inv: "writer_inv w K first front cur" and p: "jw_page w = Some p" "pg_key p = w_key w (jw_page_id w)"
      "pg_size p = jw_page_size w" "pg_writable p" "page_ready K1 p pf" "open_image (jw_page_size w) cur (pf_mem pf)"
  defines "f \<equiv> \<lambda>m. setLastFramePosition (of_nat (jw_cur w)) (page_end_mem (jw_cur w) now (jw_sequence w) m)"
  shows "write_page_end now (w\<lparr>jw_page_id := i, jw_warmer := wmo\<rparr>, K1) =
      (Inr (), (w\<lparr>jw_page_id := i, jw_warmer := wmo, jw_sequence := jw_sequence w + 1\<rparr>, map_page (w_key w (jw_page_id w)) f K1))"
    and "page_image (jw_page_size w) (cur @ [snap_of now MsgType_PageEnd FRAME_NORMAL (jw_sequence w) []]) (f (pf_mem pf))"
proof -
  note invD = writer_invD [OF inv]
  have c: "jw_cur w + 32 \<le> unat (jw_page_size w)" "24 \<le> unat (jw_page_size w)" using invD(1,4,5) by (simp_all add: journal_log_def)
  show "write_page_end now (w\<lparr>jw_page_id := i, jw_warmer := wmo\<rparr>, K1) =
      (Inr (), (w\<lparr>jw_page_id := i, jw_warmer := wmo, jw_sequence := jw_sequence w + 1\<rparr>, map_page (w_key w (jw_page_id w)) f K1))"
    using p c page_write_ready [OF p(5,4)] page_write_ready [OF page_ready_update [OF p(5)] p(4)]
    by (simp add: write_page_end_def nextSeq_def prog_simps f_def)
  have "open_image (jw_page_size w) (cur @ [snap_of now MsgType_PageEnd FRAME_NORMAL (jw_sequence w) []]) (f (pf_mem pf))"
    unfolding f_def using page_end_outside page_end_at invD(1,4,5)
    by (intro open_image_append [OF p(6) invD(5)]) (simp_all add: journal_log_def)
  then show "page_image (jw_page_size w) (cur @ [snap_of now MsgType_PageEnd FRAME_NORMAL (jw_sequence w) []]) (f (pf_mem pf))"
    by (simp add: open_image_def)
qed

lemma rotatePage_ok:
  assumes inv: "writer_inv w K first front cur" and os: "os_works os"
  obtains w' K' where "rotatePage os now (w, K) = (Inr (), (w', K'))"
    and "writer_inv w' K' first (front @ [cur @ [snap_of now MsgType_PageEnd FRAME_NORMAL (jw_sequence w) []]]) []"
    and "jw_sequence w' = jw_sequence w + 1" and "step_post w K w' K'"
    and "length (jw_retired w') \<le> jw_max_retained w"
proof -
  let ?i = "jw_page_id w" and ?seq = "jw_sequence w" and ?c = "jw_cur w" and ?sz = "jw_page_size w"
  let ?pe = "snap_of now MsgType_PageEnd FRAME_NORMAL (jw_sequence w) []"
  note invD = writer_invD [OF inv]
  obtain p pf where p: "jw_page w = Some p" "pg_key p = w_key w ?i" "pg_size p = ?sz" "pg_writable p"
    "page_ready K p pf" "open_image ?sz cur (pf_mem pf)"
    by (rule writer_inv_page [OF inv])
  obtain p' wmo K1 where np: "next_page os (?i + 1) (w\<lparr>jw_page_id := ?i + 1\<rparr>, K) =
      (Inr p', (w\<lparr>jw_page_id := ?i + 1, jw_warmer := wmo\<rparr>, K1))" and post: "next_page_post w K p' wmo K1"
    by (rule next_page_ok [OF inv os])
  note post' = post [unfolded next_page_post_def Let_def]
  have k: "w_key w ?i \<noteq> w_key w (?i + 1)" by (simp add: w_key_def)
  have "w_key w ?i \<in># writer_maps (w\<lparr>jw_warmer := wmo\<rparr>)" using p(1,2) by (simp add: writer_maps_def)
  then have "w_key w ?i \<in># mset (k_maps K1)" using post' by (auto dest: mset_subset_eqD)
  then have rdy1: "page_ready K1 p pf" using p post' k by (simp add: page_ready_def)
  let ?f = "\<lambda>m. setLastFramePosition (of_nat ?c) (page_end_mem ?c now ?seq m)"
  let ?K2 = "map_page (w_key w ?i) ?f K1"
  let ?w2 = "w\<lparr>jw_page_id := ?i + 1, jw_warmer := wmo, jw_sequence := ?seq + 1\<rparr>"
  note pe = write_page_end_closes [OF inv p(1-4) rdy1 p(6), of now]
  obtain ret q' D K3 where ro: "retire_overflow os (jw_background w) (jw_max_retained w)
      (jw_retired w @ [p]) (jw_retire_queue w) ?K2 = (Inr (ret, q'), K3)"
    "mset (map pg_key ((jw_retired w @ [p]) @ jw_retire_queue w)) = D + mset (map pg_key (ret @ q'))"
    "mset (k_maps K3) = mset (k_maps ?K2) - D" "lookup_file K3 = lookup_file ?K2" "k_fds K3 = k_fds ?K2"
    "length ret \<le> jw_max_retained w"
    by (rule retire_overflow_ok [OF os])
  let ?w3 = "?w2\<lparr>jw_retired := ret, jw_retire_queue := q'\<rparr>"
  have rc: "retire_current os (?w2, ?K2) = (Inr (), (?w3, K3))"
    using p(1) ro(1) by (simp add: retire_current_def prog_simps)
  let ?w4 = "?w3\<lparr>jw_page := Some p'\<rparr>"
  let ?w5 = "?w4\<lparr>jw_cur := 64\<rparr>"
  have own: "add_mset (w_key w (?i + 1)) (writer_maps (w\<lparr>jw_warmer := wmo\<rparr>)) = D + writer_maps ?w5"
    using ro(2) p post' by (simp add: writer_maps_def)
  then have sub: "writer_maps ?w5 \<subseteq># mset (k_maps K3)"
    using post' ro(3) mset_sub_diff [of D "writer_maps ?w5" "mset (k_maps K1)"] by simp
  have oth: "other_maps ?w5 K3 = other_maps w K"
    using post' ro(3) own by (simp add: other_maps_def)
  have lk: "lookup_file K3 (w_key w (?i + 1)) = Some (blank_file ?sz)"
    using ro(4) post' k by simp
  then have "page_ready K3 p' (blank_file ?sz)"
    using sub post' by (auto simp: page_ready_def writer_maps_def blank_file_def dest: mset_subset_eqD)
  then have ff: "Page_firstFrame p' K3 = (Inr 64, K3)"
    by (rule Page_firstFrame_ready [where sz = ?sz])
      (use post' invD(4) in \<open>simp_all add: blank_file_def blank_page_def header_ok_init\<close>)
  have run: "rotatePage os now (w, K) = (Inr (), (?w5, K3))"
    using np pe(1) rc ff by (simp add: rotatePage_def prog_simps)
  have look: "lookup_file K3 key = (if key = w_key w (?i + 1) then Some (blank_file ?sz)
      else if key = w_key w ?i then Some (pf\<lparr>pf_mem := ?f (pf_mem pf)\<rparr>) else lookup_file K key)" for key
    using ro(4) post' k rdy1 p(2) by (simp add: page_ready_def)
  have old: "page_holds K3 (w_key w ?i) ?sz (page_image ?sz (cur @ [?pe]))"
    using look [of "w_key w ?i"] k pe(2) p(5,6) invD(1,3,4) rdy1
    by (auto simp: page_holds_def open_image_def journal_log_def w_key_def page_ready_def p(2) split: option.splits)
  have new: "page_holds K3 (w_key w (?i + 1)) ?sz (open_image ?sz [])"
    using lk blank_page_open [of ?sz] invD(4) by (simp add: page_holds_def blank_file_def)
  have log: "journal_log (jw_location w) (jw_dest_id w) K3 first (front @ [cur @ [?pe]]) []"
    using old new invD(3,4) look by (intro journal_log_rotate [OF invD(1)]) (simp_all add: w_key_def)
  have wk: "warmer_ok ?w5 K3"
    by (rule warmer_ok_cong [of "w\<lparr>jw_page_id := ?i + 1, jw_warmer := wmo\<rparr>" K1])
      (use post' look in \<open>auto simp: w_key_def simp del: not_None_eq\<close>)
  have fut: "pred_option (future_file ?sz (?i + 1) j) (lookup_file K3 (w_key w j))" if "j > ?i + 1" for j
    using invD(6) [of j] look [of "w_key w j"] that
    by (cases "lookup_file K (w_key w j)") (simp_all add: w_key_def future_file_def)
  have "writer_inv ?w5 K3 first (front @ [cur @ [?pe]]) []"
    using log wk fut sub invD(2,3,4) post' by (simp add: writer_inv_def w_key_def)
  moreover have "step_post w K ?w5 K3"
    using oth look ro(5) post' by (simp add: step_post_def same_config_def same_elsewhere_def)
  ultimately show thesis using run ro(6) by (intro that [of ?w5 K3]) simp_all
qed

subsection \<open>Writing a frame\<close>

definition valid_type :: "u32 \<Rightarrow> bool" where
  "valid_type ty \<longleftrightarrow> (ucast ty :: u16) \<noteq> 0 \<and> (ucast ty :: u16) \<noteq> ucast MsgType_PageEnd"

lemma plain_snap_of: "valid_type ty \<Longrightarrow> plain_frame (snap_of t ty fl seq bs)"
  by (auto simp: valid_type_def plain_frame_def is_page_end_def MsgType_PageEnd_def word_uint_eq_iff
      word_gt_0_no uint_ge_0 order_less_le)

text \<open>A payload fits when a fresh page has room for it and for the \<^verbatim>\<open>PageEnd\<close> frame.\<close>

definition fits_page :: "u32 \<Rightarrow> nat \<Rightarrow> bool" where
  "fits_page sz n \<longleftrightarrow> 128 + stride_of (32 + n) \<le> unat sz"

lemma fits_page_bound:
  assumes "fits_page (findPageSize loc dest) n"
  shows "n \<le> 134217728"
  using assms findPageSize_bounds(2) [of loc dest] stride_of_ge [of "32 + n"] by (simp add: fits_page_def)

lemma make_room_ok:
  assumes inv: "writer_inv w K first front cur" and os: "os_works os" and fits: "fits_page (jw_page_size w) n"
  obtains w' K' front' cur' where "make_room os now (of_nat n) (w, K) = (Inr (), (w', K'))"
    and "writer_inv w' K' first front' cur'"
    and "(jw_sequence w', front', cur') =
      (if 128 + frames_len cur + stride_of (32 + n) > unat (jw_page_size w)
       then log_rotate now (jw_sequence w, front, cur) else (jw_sequence w, front, cur))"
    and "128 + frames_len cur' + stride_of (32 + n) \<le> unat (jw_page_size w)" and "step_post w K w' K'"
proof -
  note invD = writer_invD [OF inv]
  have n: "n \<le> 134217728" using fits_page_bound fits invD(4) by metis
  have st: "unat (framePhysicalLength (total_size (of_nat n))) = stride_of (32 + n)"
    using n by (simp add: stride_total_size)
  have cond: "jw_cur w + stride_of (32 + n) > unat (jw_page_size w) - 64 \<longleftrightarrow>
      128 + frames_len cur + stride_of (32 + n) > unat (jw_page_size w)"
    using invD(4,5) findPageSize_bounds(1) [of "jw_location w" "jw_dest_id w"] by linarith
  obtain p where p: "jw_page w = Some p" using writer_inv_page [OF inv] by metis
  have mr: "make_room os now (of_nat n) (w, K) =
      (if 128 + frames_len cur + stride_of (32 + n) > unat (jw_page_size w)
       then rotatePage os now (w, K) else (Inr (), (w, K)))"
    using p by (simp add: make_room_def current_page_def prog_simps st Let_def cond)
  show thesis
  proof (cases "128 + frames_len cur + stride_of (32 + n) > unat (jw_page_size w)")
    case False
    then show thesis
      using mr inv by (intro that [of w K front cur]) (simp_all add: step_post_def same_elsewhere_def)
  next
    case True
    obtain w' K' where r: "rotatePage os now (w, K) = (Inr (), (w', K'))"
      "writer_inv w' K' first (front @ [cur @ [snap_of now MsgType_PageEnd FRAME_NORMAL (jw_sequence w) []]]) []"
      "jw_sequence w' = jw_sequence w + 1" "step_post w K w' K'" "length (jw_retired w') \<le> jw_max_retained w"
      by (rule rotatePage_ok [OF inv os])
    show thesis
      by (rule that [OF _ r(2)]) (use mr True r fits in \<open>simp_all add: log_rotate_def fits_page_def\<close>)
  qed
qed

lemma writer_step_frame:
  assumes inv: "writer_inv w K first front cur" and ty: "valid_type ty"
    and room: "128 + frames_len cur + stride_of (32 + length data) \<le> unat (jw_page_size w)"
  obtains p pf where "jw_page w = Some p" and "pg_key p = w_key w (jw_page_id w)" and "pg_writable p"
    and "page_ready K p pf" and "unat (pg_size p) = unat (jw_page_size w)"
    and "jw_cur w + 32 + length data \<le> unat (jw_page_size w)"
    and "writer_inv (w\<lparr>jw_sequence := s, jw_cur := jw_cur w + stride_of (32 + length data), jw_open := op\<rparr>)
      (map_page (w_key w (jw_page_id w)) (\<lambda>m. setLastFramePosition (of_nat (jw_cur w))
         (put_frame id (jw_cur w) t ty fl seq data m)) K)
      first front (cur @ [snap_of t ty fl seq data])"
proof -
  note invD = writer_invD [OF inv]
  have len: "32 + length data < 2 ^ 32"
    using room invD(4) findPageSize_bounds(2) [of "jw_location w" "jw_dest_id w"]
      stride_of_ge [of "32 + length data"] by simp
  obtain p pf where p: "jw_page w = Some p" "pg_key p = w_key w (jw_page_id w)" "pg_size p = jw_page_size w"
    "pg_writable p" "page_ready K p pf" "open_image (jw_page_size w) cur (pf_mem pf)"
    by (rule writer_inv_page [OF inv])
  have "writer_inv (w\<lparr>jw_sequence := s, jw_cur := jw_cur w + frame_stride (snap_of t ty fl seq data), jw_open := op\<rparr>)
      (map_page (w_key w (jw_page_id w)) (\<lambda>m. setLastFramePosition (of_nat (jw_cur w))
         (put_frame id (jw_cur w) t ty fl seq data m)) K)
      first front (cur @ [snap_of t ty fl seq data])"
    by (rule writer_inv_append [OF inv _ put_frame_at [OF len] plain_snap_of [OF ty]])
      (use room in \<open>auto simp: put_frame_outside\<close>)
  then show thesis
    using p room invD(5) stride_of_ge [of "32 + length data"] by (intro that [of p pf]) simp_all
qed

text \<open>The frame as the three writes of an operation build it: header, payload, publication.\<close>

lemma place_header_ready:
  assumes "jw_page w = Some p" "pg_writable p" "page_ready K p pf" "jw_cur w + 32 \<le> unat (pg_size p)"
  shows "place_header t ty fl (w, K) = (Inr (p, jw_cur w),
    (w\<lparr>jw_sequence := jw_sequence w + 1\<rparr>,
     map_page (pg_key p) (open_frame_mem (jw_cur w) t ty fl (jw_sequence w)) K))"
  using assms page_write_ready [OF assms(3,2)]
  by (simp add: place_header_def current_page_def nextSeq_def prog_simps)

lemma closeFrame_ready:
  assumes "jw_page w = Some p" "pg_writable p" "page_ready K p pf" "off + 32 \<le> unat (pg_size p)"
    "24 \<le> unat (pg_size p)" "n \<le> 4294967200"
  shows "closeFrame (p, off) (of_nat n) hook (w, K) =
    (Inr (), (w\<lparr>jw_cur := off + stride_of (32 + n)\<rparr>,
      map_page (pg_key p) (\<lambda>m. setLastFramePosition (of_nat off) (close_frame_mem hook off (of_nat (32 + n)) m)) K))"
proof -
  have st: "unat (framePhysicalLength (total_size (of_nat n))) = stride_of (32 + n)"
    using assms(6) by (rule stride_total_size)
  note st' = st [unfolded total_size_nat]
  show ?thesis
    using assms page_write_ready [OF assms(3,2)] page_write_ready [OF page_ready_update [OF assms(3)] assms(2)]
    by (simp add: closeFrame_def current_page_def prog_simps st' total_size_nat del: of_nat_add)
qed

lemma store_payload_ready:
  assumes "pg_writable p" "page_ready K p pf" "off + 32 + length data \<le> unat (pg_size p)"
  shows "page_write p (dataAsBytes off) (length data) (\<lambda>m. store_bytes m (dataAsBytes off) data) K =
    (Inr (), map_page (pg_key p) (\<lambda>m. store_bytes m (off + 32) data) K)"
  using page_write_ready [OF assms(2,1)] assms(3) by (simp add: dataAsBytes_def)

lemma frame_written:
  assumes inv: "writer_inv w K first front cur" and ty: "valid_type ty"
    and room: "128 + frames_len cur + stride_of (32 + length data) \<le> unat (jw_page_size w)"
  obtains w' K' where
    "bind_p (place_header t ty fl) (copy_and_close data) (w, K) = (Inr (), (w', K'))"
    and "writer_inv w' K' first front (cur @ [snap_of t ty fl (jw_sequence w) data])"
    and "jw_sequence w' = jw_sequence w + 1" and "step_post w K w' K'"
proof -
  let ?c = "jw_cur w" and ?seq = "jw_sequence w" and ?n = "length data"
  let ?w' = "w\<lparr>jw_sequence := ?seq + 1, jw_cur := ?c + stride_of (32 + ?n), jw_open := jw_open w\<rparr>"
  let ?K' = "map_page (w_key w (jw_page_id w)) (\<lambda>m. setLastFramePosition (of_nat ?c)
     (put_frame id ?c t ty fl ?seq data m)) K"
  obtain p pf where p: "jw_page w = Some p" "pg_key p = w_key w (jw_page_id w)" "pg_writable p"
    "page_ready K p pf" "unat (pg_size p) = unat (jw_page_size w)"
    "?c + 32 + ?n \<le> unat (jw_page_size w)"
    and inv': "writer_inv ?w' ?K' first front (cur @ [snap_of t ty fl ?seq data])"
    by (rule writer_step_frame [OF inv ty room, where s = "?seq + 1" and op = "jw_open w" and seq = ?seq
          and t = t and fl = fl])
  have n: "?n \<le> 4294967200" "24 \<le> unat (pg_size p)"
    using p(5,6) writer_invD(4) [OF inv] findPageSize_bounds(2) [of "jw_location w" "jw_dest_id w"] by simp_all
  let ?o = "open_frame_mem ?c t ty fl ?seq"
  note r1 = page_ready_update [OF p(4), of ?o]
  note r2 = page_ready_update [OF r1, of "\<lambda>m. store_bytes m (?c + 32) data"]
  have "bind_p (place_header t ty fl) (copy_and_close data) (w, K) = (Inr (), (?w', ?K'))"
    using p n place_header_ready [OF p(1,3,4), of t ty fl]
      store_payload_ready [OF p(3) r1, of ?c data]
      closeFrame_ready [OF _ p(3) r2, of "w\<lparr>jw_sequence := ?seq + 1\<rparr>" ?c ?n id]
      closeFrame_ready [OF _ p(3) r1, of "w\<lparr>jw_sequence := ?seq + 1\<rparr>" ?c ?n id]
    by (cases "data = []") (simp_all add: prog_simps put_frame_def copy_and_close_def)
  moreover have "step_post w K ?w' ?K'"
    by (auto simp: step_post_def same_config_def same_elsewhere_def other_maps_def writer_maps_def w_key_def)
  ultimately show thesis using inv' by (intro that [of ?w' ?K']) simp_all
qed

subsection \<open>The public operations\<close>

lemma writer_inv_writing [simp]:
  "writer_inv (w\<lparr>jw_writing := b\<rparr>) K first front cur = writer_inv w K first front cur"
  "writer_inv (w\<lparr>jw_open := op\<rparr>) K first front cur = writer_inv w K first front cur"
  by (simp_all add: writer_inv_def w_key_def writer_maps_def warmer_ok_def cong: option.case_cong)

definition lock_free :: "JournalWriter \<Rightarrow> bool" where
  "lock_free w \<longleftrightarrow> (jw_serialize w \<longrightarrow> \<not> jw_writing w)"

definition locked :: "JournalWriter \<Rightarrow> JournalWriter" where
  "locked w = (if jw_serialize w then w\<lparr>jw_writing := True\<rparr> else w)"

lemma lock_acquire_free: "lock_free w \<Longrightarrow> lock_acquire (w, K) = (Inr (), (locked w, K))"
  by (simp add: lock_acquire_def lock_free_def locked_def)

lemma with_lock_free:
  "lock_free w \<Longrightarrow> body (locked w, K) = (r, (w', K')) \<Longrightarrow>
   with_lock body (w, K) = (r, (lock_release w', K'))"
  by (simp add: with_lock_def lock_acquire_free)

lemma locked_simps [simp]:
  "writer_inv (locked w) K first front cur = writer_inv w K first front cur"
  "jw_sequence (locked w) = jw_sequence w" "jw_page_size (locked w) = jw_page_size w"
  "jw_page (locked w) = jw_page w" "jw_open (locked w) = jw_open w"
  "writer_inv (lock_release w) K first front cur = writer_inv w K first front cur"
  "jw_sequence (lock_release w) = jw_sequence w" "jw_open (lock_release w) = jw_open w"
  "jw_page_size (lock_release w) = jw_page_size w"
  by (simp_all add: locked_def lock_release_def)

lemma step_post_locked:
  assumes "step_post (locked w) K w' K'" and "lock_free w"
  shows "step_post w K (lock_release w') K'"
  using assms
  by (auto simp: step_post_def locked_def lock_release_def lock_free_def same_config_def
      same_elsewhere_def other_maps_def writer_maps_def w_key_def split: if_splits)

lemma ensure_page_ok: "writer_inv w K first front cur \<Longrightarrow> ensure_page os now (w, K) = (Inr (), (w, K))"
  by (auto simp: ensure_page_def prog_simps writer_inv_def)

lemma write_frame_ok:
  assumes inv: "writer_inv w K first front cur" and os: "os_works os" and ty: "valid_type ty"
    and fits: "fits_page (jw_page_size w) (length data)"
  obtains w' K' front' cur' where
    "write_frame os now t ty data (w, K) = (Inr (), (w', K'))"
    and "writer_inv w' K' first front' cur'"
    and "(jw_sequence w', front', cur') =
      log_append (unat (jw_page_size w)) now t ty FRAME_NORMAL data (jw_sequence w, front, cur)"
    and "step_post w K w' K'"
proof -
  obtain w1 K1 front1 cur1 where mr: "make_room os now (of_nat (length data)) (w, K) = (Inr (), (w1, K1))"
    and inv1: "writer_inv w1 K1 first front1 cur1"
    and log1: "(jw_sequence w1, front1, cur1) =
      (if 128 + frames_len cur + stride_of (32 + length data) > unat (jw_page_size w)
       then log_rotate now (jw_sequence w, front, cur) else (jw_sequence w, front, cur))"
    and room: "128 + frames_len cur1 + stride_of (32 + length data) \<le> unat (jw_page_size w)"
    and post1: "step_post w K w1 K1"
    by (rule make_room_ok [OF inv os fits])
  have "jw_page_size w1 = jw_page_size w" using post1 by (simp add: step_post_def same_config_def)
  with room have room1: "128 + frames_len cur1 + stride_of (32 + length data) \<le> unat (jw_page_size w1)"
    by simp
  obtain w2 K2 where fw: "bind_p (place_header t ty FRAME_NORMAL) (copy_and_close data) (w1, K1) = (Inr (), (w2, K2))"
    and inv2: "writer_inv w2 K2 first front1 (cur1 @ [snap_of t ty FRAME_NORMAL (jw_sequence w1) data])"
    and seq2: "jw_sequence w2 = jw_sequence w1 + 1" and post2: "step_post w1 K1 w2 K2"
    by (rule frame_written [OF inv1 ty room1])
  have run: "write_frame os now t ty data (w, K) = (Inr (), (w2, K2))"
    unfolding write_frame_def openFrame_def bind_p_assoc
    by (simp only: bind_p_Inr [of "ensure_page os now", OF ensure_page_ok [OF inv]]
        bind_p_Inr [of "make_room os now (of_nat (length data))", OF mr] fw)
  show thesis
    by (rule that [OF run inv2 _ step_post_trans [OF post1 post2]])
      (simp add: log_append_def log1 [symmetric] log_put_def seq2)
qed

lemma writeBytes_ok:
  assumes inv: "writer_inv w K first front cur" and os: "os_works os" and ty: "valid_type ty"
    and fits: "fits_page (jw_page_size w) (length data)" and free: "lock_free w"
  obtains w' K' front' cur' where "writeBytes os now t ty data (w, K) = (Inr (), (w', K'))"
    and "writer_inv w' K' first front' cur'"
    and "(jw_sequence w', front', cur') =
      log_append (unat (jw_page_size w)) now t ty FRAME_NORMAL data (jw_sequence w, front, cur)"
    and "step_post w K w' K'"
proof -
  have inv': "writer_inv (locked w) K first front cur" and fits': "fits_page (jw_page_size (locked w)) (length data)"
    using inv fits by simp_all
  obtain w1 K1 front1 cur1 where r: "write_frame os now t ty data (locked w, K) = (Inr (), (w1, K1))"
    "writer_inv w1 K1 first front1 cur1"
    "(jw_sequence w1, front1, cur1) =
      log_append (unat (jw_page_size (locked w))) now t ty FRAME_NORMAL data (jw_sequence (locked w), front, cur)"
    "step_post (locked w) K w1 K1"
    by (rule write_frame_ok [OF inv' os ty fits'])
  show thesis
    by (rule that [of "lock_release w1" K1 front1 cur1])
      (use r step_post_locked [OF r(4) free] in
        \<open>simp_all add: writeBytes_def with_lock_free [OF free, of "write_frame os now t ty data", OF r(1)]\<close>)
qed

lemma mark_eq: "mark os now t ty = writeBytes os now t ty []"
proof -
  have "copy_and_close [] = (\<lambda>frame. closeFrame frame 0 id)"
    by (intro ext) (simp add: copy_and_close_def prog_simps)
  then show ?thesis by (simp add: mark_def writeBytes_def write_frame_def)
qed

text \<open>The typed interface: open, fill through the returned reference, close.\<close>

definition write_data ::
    "(page_key \<Rightarrow> os_env) \<Rightarrow> u64 \<Rightarrow> u64 \<Rightarrow> u32 \<Rightarrow> u16 \<Rightarrow> u8 list \<Rightarrow> unit writer_prog" where
  "write_data os now t ty fl data =
     bind_p (openData os now (of_nat (length data)) t ty fl) (\<lambda>_.
     bind_p (fill_data data) (\<lambda>_.
     closeData (of_nat (length data)) id))"

lemma fill_and_close:
  assumes inv: "writer_inv w K first front cur" and ty: "valid_type ty"
    and room: "128 + frames_len cur + stride_of (32 + length data) \<le> unat (jw_page_size w)"
  obtains w' K' where
    "bind_p (bind_p (place_header t ty fl) (\<lambda>frame. modify_fst (\<lambda>w. w\<lparr>jw_open := Some frame\<rparr>))) (\<lambda>_.
       bind_p (fill_data data) (\<lambda>_. closeData (of_nat (length data)) id)) (w, K) = (Inr (), (lock_release w', K'))"
    and "writer_inv w' K' first front (cur @ [snap_of t ty fl (jw_sequence w) data])"
    and "jw_sequence w' = jw_sequence w + 1" and "jw_open w' = None"
    and "step_post w K (w'\<lparr>jw_open := jw_open w\<rparr>) K'"
proof -
  let ?c = "jw_cur w" and ?seq = "jw_sequence w" and ?n = "length data"
  let ?w' = "w\<lparr>jw_sequence := ?seq + 1, jw_cur := ?c + stride_of (32 + ?n), jw_open := None\<rparr>"
  let ?K' = "map_page (w_key w (jw_page_id w)) (\<lambda>m. setLastFramePosition (of_nat ?c)
     (put_frame id ?c t ty fl ?seq data m)) K"
  obtain p pf where p: "jw_page w = Some p" "pg_key p = w_key w (jw_page_id w)" "pg_writable p"
    "page_ready K p pf" "unat (pg_size p) = unat (jw_page_size w)"
    "?c + 32 + ?n \<le> unat (jw_page_size w)"
    and inv': "writer_inv ?w' ?K' first front (cur @ [snap_of t ty fl ?seq data])"
    by (rule writer_step_frame [OF inv ty room, where s = "?seq + 1" and op = None and seq = ?seq
          and t = t and fl = fl])
  have n: "?n \<le> 4294967200" "24 \<le> unat (pg_size p)"
    using p(5,6) writer_invD(4) [OF inv] findPageSize_bounds(2) [of "jw_location w" "jw_dest_id w"] by simp_all
  note r1 = page_ready_update [OF p(4), of "open_frame_mem ?c t ty fl ?seq"]
  note r2 = page_ready_update [OF r1, of "\<lambda>m. store_bytes m (?c + 32) data"]
  have "bind_p (bind_p (place_header t ty fl) (\<lambda>frame. modify_fst (\<lambda>w. w\<lparr>jw_open := Some frame\<rparr>))) (\<lambda>_.
       bind_p (fill_data data) (\<lambda>_. closeData (of_nat (length data)) id)) (w, K) = (Inr (), (lock_release ?w', ?K'))"
    using p n place_header_ready [OF p(1,3,4), of t ty fl]
      store_payload_ready [OF p(3) r1, of ?c data]
      closeFrame_ready [OF _ p(3) r2, of "w\<lparr>jw_sequence := ?seq + 1, jw_open := Some (p, ?c)\<rparr>" ?c ?n id]
    by (simp add: prog_simps put_frame_def fill_data_def closeData_def)
  moreover have "step_post w K (?w'\<lparr>jw_open := jw_open w\<rparr>) ?K'"
    by (auto simp: step_post_def same_config_def same_elsewhere_def other_maps_def writer_maps_def w_key_def)
  ultimately show thesis using inv' by (intro that [of ?w' ?K']) simp_all
qed

lemma write_data_ok:
  assumes inv: "writer_inv w K first front cur" and os: "os_works os" and ty: "valid_type ty"
    and fits: "fits_page (jw_page_size w) (length data)" and free: "lock_free w"
  obtains w' K' front' cur' where "write_data os now t ty fl data (w, K) = (Inr (), (w', K'))"
    and "writer_inv w' K' first front' cur'"
    and "(jw_sequence w', front', cur') =
      log_append (unat (jw_page_size w)) now t ty fl data (jw_sequence w, front, cur)"
    and "step_post w K (w'\<lparr>jw_open := jw_open w\<rparr>) K'"
proof -
  have inv': "writer_inv (locked w) K first front cur" and fits': "fits_page (jw_page_size (locked w)) (length data)"
    using inv fits by simp_all
  obtain w1 K1 front1 cur1 where mr: "make_room os now (of_nat (length data)) (locked w, K) = (Inr (), (w1, K1))"
    and inv1: "writer_inv w1 K1 first front1 cur1"
    and log1: "(jw_sequence w1, front1, cur1) =
      (if 128 + frames_len cur + stride_of (32 + length data) > unat (jw_page_size (locked w))
       then log_rotate now (jw_sequence (locked w), front, cur) else (jw_sequence (locked w), front, cur))"
    and room: "128 + frames_len cur1 + stride_of (32 + length data) \<le> unat (jw_page_size (locked w))"
    and post1: "step_post (locked w) K w1 K1"
    by (rule make_room_ok [OF inv' os fits'])
  have w1: "jw_page_size w1 = jw_page_size (locked w)" "jw_open w1 = jw_open w"
    using post1 by (simp_all add: step_post_def same_config_def)
  with room have room1: "128 + frames_len cur1 + stride_of (32 + length data) \<le> unat (jw_page_size w1)"
    by simp
  obtain w2 K2 where fw: "bind_p (bind_p (place_header t ty fl) (\<lambda>frame. modify_fst (\<lambda>w. w\<lparr>jw_open := Some frame\<rparr>))) (\<lambda>_.
       bind_p (fill_data data) (\<lambda>_. closeData (of_nat (length data)) id)) (w1, K1) = (Inr (), (lock_release w2, K2))"
    and inv2: "writer_inv w2 K2 first front1 (cur1 @ [snap_of t ty fl (jw_sequence w1) data])"
    and seq2: "jw_sequence w2 = jw_sequence w1 + 1" and op2: "jw_open w2 = None"
    and post2: "step_post w1 K1 (w2\<lparr>jw_open := jw_open w1\<rparr>) K2"
    by (rule fill_and_close [OF inv1 ty room1])
  have run: "write_data os now t ty fl data (w, K) = (Inr (), (lock_release w2, K2))"
    unfolding write_data_def openData_def openFrame_def bind_p_assoc
    using fw [unfolded bind_p_assoc]
    by (simp only: bind_p_Inr [of lock_acquire, OF lock_acquire_free [OF free]]
        bind_p_Inr [of "ensure_page os now", OF ensure_page_ok [OF inv']]
        bind_p_Inr [of "make_room os now (of_nat (length data))", OF mr])
  have "step_post w K (lock_release (w2\<lparr>jw_open := jw_open w\<rparr>)) K2"
    using step_post_locked [OF step_post_trans [OF post1 post2] free] w1 by simp
  moreover have "lock_release (w2\<lparr>jw_open := jw_open w\<rparr>) = (lock_release w2)\<lparr>jw_open := jw_open w\<rparr>"
    by (cases w2) (simp add: lock_release_def)
  ultimately have post: "step_post w K ((lock_release w2)\<lparr>jw_open := jw_open w\<rparr>) K2" by simp
  show thesis
    by (rule that [OF run _ _ post]) (use inv2 seq2 in \<open>simp_all add: log_append_def log1 [unfolded locked_simps, symmetric] log_put_def\<close>)
qed

subsection \<open>Opening a writer\<close>

text \<open>A kernel without any page of the journal.\<close>

definition fresh_journal :: "Location \<Rightarrow> u32 \<Rightarrow> page_key kernel \<Rightarrow> bool" where
  "fresh_journal loc dest K \<longleftrightarrow> page_ids_ok K \<and> journal_pages loc dest K = []"

lemma fresh_journal_lookup: "fresh_journal loc dest K \<Longrightarrow> lookup_file K (page_key_of loc dest i) = None"
  using set_journal_pages [of loc dest K] by (auto simp: fresh_journal_def)

text \<open>The first page of a writer that goes on after page \<open>n\<close>.\<close>

lemma loadInitialPage_ok:
  assumes w: "jw_page w = None" "jw_retired w = []" "jw_retire_queue w = []" "jw_warmer w = None"
      "jw_page_size w = findPageSize (jw_location w) (jw_dest_id w)" "jw_page_id w \<ge> 0"
    and none: "\<And>i. i > jw_page_id w \<Longrightarrow> lookup_file K (w_key w i) = None" and os: "os_works os"
  obtains w' K' where "loadInitialPage os (w, K) = (Inr (), (w', K'))"
    and "writer_inv w' K' (jw_page_id w + 1) [] []" and "jw_warmer w' = None"
    and "jw_sequence w' = jw_sequence w" and "same_config w w'" and "other_maps w' K' = mset (k_maps K)"
    and "k_fds K' = k_fds K" and "jw_writing w' = jw_writing w" and "jw_page_id w' = jw_page_id w + 1"
    and "\<forall>key. key \<noteq> w_key w (jw_page_id w + 1) \<longrightarrow> lookup_file K' key = lookup_file K key"
proof -
  let ?loc = "jw_location w" and ?dest = "jw_dest_id w" and ?i = "jw_page_id w + 1"
  let ?p = "the_page ?loc ?dest ?i True (jw_prefault w)" and ?sz = "jw_page_size w"
  have n: "lookup_file K (page_key_of ?loc ?dest ?i) = None" using none [of ?i] by (simp add: w_key_def)
  obtain K' where load: "Page_load os ?loc ?dest ?i True (jw_prefault w) K = (Inr ?p, K')"
    and K': "lookup_file K' (page_key_of ?loc ?dest ?i) =
        Some \<lparr>pf_size = unat (findPageSize ?loc ?dest), pf_mem = blank_page (findPageSize ?loc ?dest)\<rparr>"
      "\<And>key. key \<noteq> page_key_of ?loc ?dest ?i \<Longrightarrow> lookup_file K' key = lookup_file K key"
      "k_maps K' = page_key_of ?loc ?dest ?i # k_maps K" "k_fds K' = k_fds K"
    by (rule Page_load_new [OF n _ os, of True "jw_prefault w"]) auto
  have rdy: "page_ready K' ?p \<lparr>pf_size = unat (findPageSize ?loc ?dest), pf_mem = blank_page (findPageSize ?loc ?dest)\<rparr>"
    using K' by (simp add: page_ready_def)
  have ff: "Page_firstFrame ?p K' = (Inr 64, K')"
    by (rule Page_firstFrame_ready [OF rdy, where sz = "findPageSize ?loc ?dest"])
      (simp_all add: blank_page_def header_ok_init)
  let ?w = "w\<lparr>jw_page_id := ?i, jw_page := Some ?p, jw_cur := 64\<rparr>"
  have "loadInitialPage os (w, K) = (Inr (), (?w, K'))"
    using load ff by (simp add: loadInitialPage_def prog_simps)
  moreover have "writer_inv ?w K' ?i [] []"
    using w K' none blank_page_open [of "findPageSize ?loc ?dest"]
    by (auto simp: writer_inv_def journal_log_def page_holds_def w_key_def writer_maps_def warmer_ok_def)
  ultimately show thesis
    using K' w by (intro that [of ?w K'])
      (simp_all add: same_config_def other_maps_def writer_maps_def w_key_def)
qed

lemma start_warmer_ok:
  assumes inv: "writer_inv w K first front cur" and "jw_warmer w = None" and "wo_warmup_pages opts \<le> 16"
  obtains w' where "start_warmer os opts (w, K) = (Inr (), (w', K))" and "writer_inv w' K first front cur"
    and "jw_sequence w' = jw_sequence w" and "same_config w w'" and "jw_writing w' = jw_writing w"
    and "other_maps w' K = other_maps w K" and "jw_page_id w' = jw_page_id w"
proof (cases "wo_warmup_pages opts = 0")
  case True
  then show thesis using inv by (intro that [of w]) (simp_all add: start_warmer_def prog_simps)
next
  case False
  let ?n = "PageWarmer_new (jw_location w) (jw_dest_id w) (jw_page_size w) True (wo_warmup_pages opts)"
  let ?wm = "updateCurrentPage (jw_page_id w) (PageWarmer_start ?n)"
  let ?w = "w\<lparr>jw_warmer := Some ?wm\<rparr>"
  have n: "ring_ok ?n" "owned_mset ?n = {#}"
    using warmer_inv_new [of "jw_location w" "jw_dest_id w" "jw_page_size w" True "wo_warmup_pages opts" "K\<lparr>k_maps := []\<rparr>"]
    by (simp_all add: warmer_inv_def)
  have rs: "ring_ok ?wm" "owned_mset ?wm = {#}"
    using n by (simp_all add: updateCurrentPage_def PageWarmer_start_def)
  have wm: "pw_location ?wm = jw_location w" "pw_dest_id ?wm = jw_dest_id w"
    "pw_page_size ?wm = jw_page_size w" "pw_is_writer ?wm" "pw_current_page ?wm = jw_page_id w"
    "pw_distance ?wm \<le> 16"
    using assms(3) by (simp_all add: updateCurrentPage_def PageWarmer_start_def PageWarmer_new_def)
  have "\<not> isPageInRing ?wm i" if "i \<ge> 0" for i
    using that by (simp add: isPageInRing_def updateCurrentPage_def PageWarmer_start_def PageWarmer_new_def
        empty_slot_def list_ex_iff)
  then have "writer_inv ?w K first front cur"
    using inv rs wm assms(2) by (auto simp: writer_inv_def warmer_ok_def writer_maps_def w_key_def)
  moreover have "start_warmer os opts (w, K) = (Inr (), (?w, K))"
    using False assms(3) by (simp add: start_warmer_def prog_simps kWriterPageWarmerRingSize_def)
  ultimately show thesis
    using rs assms(2) by (intro that [of ?w]) (simp_all add: same_config_def other_maps_def writer_maps_def)
qed

lemma writer_inv_running [simp]:
  "writer_inv (w\<lparr>jw_retire_running := b\<rparr>) K first front cur = writer_inv w K first front cur"
  by (simp_all add: writer_inv_def w_key_def writer_maps_def warmer_ok_def cong: option.case_cong)

lemma blank_writer_simps [simp]:
  "jw_location (blank_writer loc dest opts ser) = loc" "jw_dest_id (blank_writer loc dest opts ser) = dest"
  "jw_page_size (blank_writer loc dest opts ser) = findPageSize loc dest"
  "jw_page (blank_writer loc dest opts ser) = None" "jw_warmer (blank_writer loc dest opts ser) = None"
  "jw_retired (blank_writer loc dest opts ser) = []" "jw_retire_queue (blank_writer loc dest opts ser) = []"
  "jw_page_id (blank_writer loc dest opts ser) = 0" "jw_sequence (blank_writer loc dest opts ser) = 0"
  "jw_writing (blank_writer loc dest opts ser) = False" "jw_serialize (blank_writer loc dest opts ser) = ser"
  "jw_prefault (blank_writer loc dest opts ser) = wo_prefault opts"
  "jw_background (blank_writer loc dest opts ser) = wo_background_threads opts"
  by (simp_all add: blank_writer_def)

lemma JournalWriter_new_fresh:
  assumes fresh: "fresh_journal loc dest K" and os: "os_works os" and wp: "wo_warmup_pages opts \<le> 16"
  obtains w K' where "JournalWriter_new os loc dest opts serialize K = (Inr w, K')"
    and "writer_inv w K' 1 [] []" and "jw_sequence w = 0" and "lock_free w"
    and "jw_location w = loc" and "jw_dest_id w = dest" and "jw_page_size w = findPageSize loc dest"
    and "other_maps w K' = mset (k_maps K)" and "k_fds K' = k_fds K" and "jw_page_id w = 1"
    and "\<forall>key. key \<noteq> page_key_of loc dest 1 \<longrightarrow> lookup_file K' key = lookup_file K key"
    and "jw_background w = wo_background_threads opts"
proof -
  let ?b = "blank_writer loc dest opts serialize"
  have none: "lookup_file K (w_key ?b i) = None" for i
    using fresh_journal_lookup [OF fresh] by (simp add: w_key_def)
  have last: "findLastWrittenPage os loc dest pre K = (Inr 0, K)" for pre
    using fresh by (simp add: findLastWrittenPage_def prog_simps list_pages_eq fresh_journal_def)
  obtain w1 K1 where l: "loadInitialPage os (?b, K) = (Inr (), (w1, K1))" "writer_inv w1 K1 1 [] []"
    "jw_warmer w1 = None" "jw_sequence w1 = 0" "same_config ?b w1" "other_maps w1 K1 = mset (k_maps K)"
    "k_fds K1 = k_fds K" "\<not> jw_writing w1" "jw_page_id w1 = 1"
    "\<forall>key. key \<noteq> page_key_of loc dest 1 \<longrightarrow> lookup_file K1 key = lookup_file K key"
    by (rule loadInitialPage_ok [of ?b K os]) (use none os in \<open>simp_all add: w_key_def\<close>)
  obtain w2 where s: "start_warmer os opts (w1, K1) = (Inr (), (w2, K1))" "writer_inv w2 K1 1 [] []"
    "jw_sequence w2 = jw_sequence w1" "same_config w1 w2" "jw_writing w2 = jw_writing w1"
    "other_maps w2 K1 = other_maps w1 K1" "jw_page_id w2 = jw_page_id w1"
    by (rule start_warmer_ok [OF l(2,3) wp])
  let ?w = "if jw_background w2 then w2\<lparr>jw_retire_running := True\<rparr> else w2"
  have "JournalWriter_new os loc dest opts serialize K = (Inr ?w, K1)"
    using l(1) s(1) last by (simp add: JournalWriter_new_def open_writer_def prog_simps)
  then show thesis
    using l s by (intro that [of ?w K1])
      (auto simp: same_config_def lock_free_def other_maps_def writer_maps_def simp del: split_paired_All)
qed

subsection \<open>The background threads\<close>

lemma retireLoop_step_ok:
  assumes inv: "writer_inv w K first front cur" and os: "os_works os"
  obtains w' K' where "retireLoop_step os (w, K) = (Inr (), (w', K'))" and "writer_inv w' K' first front cur"
    and "jw_sequence w' = jw_sequence w" and "step_post w K w' K'"
proof (cases "jw_retire_queue w")
  case Nil
  then show thesis
    using inv by (intro that [of w K]) (simp_all add: retireLoop_step_def prog_simps step_post_def same_elsewhere_def)
next
  case (Cons p ps)
  let ?w = "w\<lparr>jw_retire_queue := ps\<rparr>" and ?K = "K\<lparr>k_maps := remove1 (pg_key p) (k_maps K)\<rparr>"
  note invD = writer_invD [OF inv]
  have m: "writer_maps w = add_mset (pg_key p) (writer_maps ?w)"
    using Cons by (simp add: writer_maps_def)
  have "retireLoop_step os (w, K) = (Inr (), (?w, ?K))"
    using Cons os by (simp add: retireLoop_step_def prog_simps Page_destroy_eq)
  moreover have "writer_maps ?w \<subseteq># mset (k_maps ?K)"
    using invD(7) m mset_sub_diff [of "{# pg_key p #}" "writer_maps ?w"] by simp
  moreover have "other_maps ?w ?K = other_maps w K"
    using m by (simp add: other_maps_def)
  moreover have "journal_log (jw_location w) (jw_dest_id w) ?K first front cur"
    using invD(1) by (simp add: journal_log_def)
  moreover have "warmer_ok ?w ?K"
    by (rule warmer_ok_cong [OF invD(8)]) simp_all
  moreover obtain q where "jw_page w = Some q" "pg_key q = w_key w (jw_page_id w)"
    "pg_size q = jw_page_size w" "pg_writable q"
    using writer_inv_page [OF inv] by metis
  moreover have "pred_option (future_file (jw_page_size w) (jw_page_id w) i) (lookup_file ?K (w_key w i))"
    if "i > jw_page_id w" for i
    using invD(6) [OF that] by simp
  ultimately show thesis
    using invD(2-5) by (intro that [of ?w ?K])
      (auto simp: writer_inv_def w_key_def step_post_def same_config_def same_elsewhere_def)
qed

text \<open>The state of the warmer thread between two pages: everything ahead of page \<open>c\<close> is blank.\<close>

definition ahead_ok :: "int \<Rightarrow> PageWarmer \<Rightarrow> page_key kernel \<Rightarrow> PageWarmer \<Rightarrow> page_key kernel \<Rightarrow> bool" where
  "ahead_ok c w0 K0 w K \<longleftrightarrow>
     same_warmer w0 w \<and> pw_is_writer w0 \<and> warmer_inv w K \<and> k_fds K = k_fds K0 \<and>
     foreign_maps w K = foreign_maps w0 K0 \<and>
     (\<forall>key. (\<forall>i > c. key \<noteq> page_key_of (pw_location w0) (pw_dest_id w0) i) \<longrightarrow> lookup_file K key = lookup_file K0 key) \<and>
     (\<forall>i > c. pred_option (future_file (pw_page_size w0) c i)
        (lookup_file K (page_key_of (pw_location w0) (pw_dest_id w0) i))) \<and>
     (\<forall>i \<ge> 0. isPageInRing w i \<longrightarrow> lookup_file K (page_key_of (pw_location w0) (pw_dest_id w0) i) \<noteq> None)"

lemma ahead_okD:
  assumes "ahead_ok c w0 K0 w K"
  shows "same_warmer w0 w" "pw_is_writer w0" "warmer_inv w K" "k_fds K = k_fds K0"
    and "foreign_maps w K = foreign_maps w0 K0"
    and "(\<And>i. i > c \<Longrightarrow> key \<noteq> page_key_of (pw_location w0) (pw_dest_id w0) i) \<Longrightarrow> lookup_file K key = lookup_file K0 key"
    and "i > c \<Longrightarrow> pred_option (future_file (pw_page_size w0) c i)
        (lookup_file K (page_key_of (pw_location w0) (pw_dest_id w0) i))"
    and "i \<ge> 0 \<Longrightarrow> isPageInRing w i \<Longrightarrow> lookup_file K (page_key_of (pw_location w0) (pw_dest_id w0) i) \<noteq> None"
  using assms unfolding ahead_ok_def by blast+

lemma ahead_ok_step:
  assumes a: "ahead_ok c w0 K0 w K" and sw: "same_warmer w w'" and inv: "warmer_inv w' K'"
    and k: "k_fds K' = k_fds K" "foreign_maps w' K' = foreign_maps w K"
    and files: "\<And>key. lookup_file K' key = lookup_file K key \<or>
      (\<exists>i > c. i \<le> c + 16 \<and> key = page_key_of (pw_location w0) (pw_dest_id w0) i) \<and>
      lookup_file K' key = Some (blank_file (pw_page_size w0))"
    and ring: "\<And>j. j \<ge> 0 \<Longrightarrow> isPageInRing w' j \<Longrightarrow> isPageInRing w j \<or>
      lookup_file K' (page_key_of (pw_location w0) (pw_dest_id w0) j) \<noteq> None"
  shows "ahead_ok c w0 K0 w' K'"
proof -
  let ?key = "page_key_of (pw_location w0) (pw_dest_id w0)"
  note a' = ahead_okD [OF a]
  have "lookup_file K' key = lookup_file K0 key" if "\<And>i. i > c \<Longrightarrow> key \<noteq> ?key i" for key
    using files [of key] a'(6) [OF that] that by auto
  moreover have "pred_option (future_file (pw_page_size w0) c i) (lookup_file K' (?key i))" if "i > c" for i
    using files [of "?key i"] a'(7) [OF that] by (auto simp: future_file_def)
  moreover have "lookup_file K' (?key i) \<noteq> None" if "i \<ge> 0" "isPageInRing w' i" for i
    using ring [OF that] files [of "?key i"] a'(8) [OF that(1)] by (auto simp del: not_None_eq)
  ultimately show ?thesis
    unfolding ahead_ok_def using same_warmer_trans [OF a'(1) sw] a'(2,4,5) inv k by simp
qed

lemma warm_page_ahead:
  assumes a: "ahead_ok c w0 K0 w K" and os: "os_works os" and pid: "pid > c" "pid \<ge> 0" "pid \<le> c + 16"
  obtains w' K' where "warm_page os pid (w, K) = (Inr (), (w', K'))" and "ahead_ok c w0 K0 w' K'"
proof -
  let ?key = "page_key_of (pw_location w0) (pw_dest_id w0)"
  note a' = ahead_okD [OF a]
  have wr: "pw_is_writer w" and k: "page_key_of (pw_location w) (pw_dest_id w) pid = ?key pid"
      "pw_page_size w = pw_page_size w0"
    using a'(1,2) by (simp_all add: same_warmer_def)
  obtain w' K' where run: "warm_page os pid (w, K) = (Inr (), (w', K'))" and i: "warmer_inv w' K'"
    "k_fds K' = k_fds K" "foreign_maps w' K' = foreign_maps w K"
    using warm_page_inv [OF a'(3) pid(2), of os] by (auto simp: foreign_maps_def)
  have szs: "pred_option (\<lambda>pf. pf_size pf = unat (pw_page_size w)) (lookup_file K (page_key_of (pw_location w) (pw_dest_id w) pid))"
    using a'(7) [OF pid(1)] k by (cases "lookup_file K (?key pid)") (simp_all add: blank_file_def future_file_def)
  note f = warm_page_files [OF a'(3) os wr szs run, unfolded k blank_file_def [symmetric]]
  have "ahead_ok c w0 K0 w' K'"
  proof (rule ahead_ok_step [OF a f(1) i])
    show "lookup_file K' key = lookup_file K key \<or> (\<exists>i > c. i \<le> c + 16 \<and> key = ?key i) \<and>
        lookup_file K' key = Some (blank_file (pw_page_size w0))" for key
      using f(2) pid(1,3) by (cases "key = ?key pid") auto
    show "isPageInRing w j \<or> lookup_file K' (?key j) \<noteq> None" if "j \<ge> 0" "isPageInRing w' j" for j
      using f(3) [OF that(2,1)] by blast
  qed
  with run that show thesis by blast
qed

lemma warm_pages_ahead:
  assumes "ahead_ok c w0 K0 w K" and "os_works os" and "\<forall>i \<in> set is. i > c \<and> i \<ge> 0 \<and> i \<le> c + 16"
  shows "\<exists>w' K'. warm_pages os is (w, K) = (Inr (), (w', K')) \<and> ahead_ok c w0 K0 w' K'"
  using assms
proof (induction "is" arbitrary: w K)
  case (Cons i "is")
  obtain w1 K1 where s: "warm_page os i (w, K) = (Inr (), (w1, K1))" "ahead_ok c w0 K0 w1 K1"
    using warm_page_ahead [OF Cons.prems(1,2), of i] Cons.prems(3) by auto
  with Cons.IH [OF s(2)] Cons.prems show ?case by (simp add: prog_simps s(1))
qed (simp add: prog_simps)

lemma cleanup_ahead:
  assumes a: "ahead_ok c w0 K0 w K" and os: "os_works os"
  obtains w' K' where "cleanupOldPages os n (w, K) = (Inr (), (w', K'))" and "ahead_ok c w0 K0 w' K'"
proof -
  note a' = ahead_okD [OF a]
  obtain w' K' where run: "cleanupOldPages os n (w, K) = (Inr (), (w', K'))" and i: "warmer_inv w' K'"
    "k_fds K' = k_fds K" "foreign_maps w' K' = foreign_maps w K"
    using cleanup_slots_inv [OF a'(3) _ os, of "[0..<RingSize]" "n - int RingSize"]
    by (auto simp: cleanupOldPages_def)
  note f = cleanup_slots_files [OF run [unfolded cleanupOldPages_def]]
  have "ahead_ok c w0 K0 w' K'"
    by (rule ahead_ok_step [OF a _ i]) (use f in auto)
  with run that show thesis by blast
qed

lemma warmup_pass_ahead:
  assumes a: "ahead_ok (pw_current_page w) w K w K" and os: "os_works os" and c: "pw_current_page w \<ge> 0" "pw_distance w \<le> 16"
  obtains w' K' where "warmup_pass os (w, K) = (Inr (), (w', K'))" and "ahead_ok (pw_current_page w) w K w' K'"
proof (cases "pw_running w")
  case False
  then show thesis using a by (intro that [of w K]) (simp_all add: warmup_pass_def prog_simps)
next
  case True
  let ?is = "map (\<lambda>i. pw_current_page w + int i) [1..<pw_distance w + 1]"
  obtain w1 K1 where s1: "warm_pages os ?is (w, K) = (Inr (), (w1, K1))" "ahead_ok (pw_current_page w) w K w1 K1"
    using warm_pages_ahead [OF a os, of ?is] c by (auto simp del: upt_Suc)
  obtain w2 K2 where s2: "cleanupOldPages os (pw_current_page w) (w1, K1) = (Inr (), (w2, K2))"
    "ahead_ok (pw_current_page w) w K w2 K2"
    by (rule cleanup_ahead [OF s1(2) os])
  show thesis
    by (rule that [of w2 K2]) (use s1 s2 True c in \<open>simp_all add: warmup_pass_def prog_simps\<close>)
qed

lemma warmer_thread_pass_ok:
  assumes inv: "writer_inv w K first front cur" and os: "os_works os"
  obtains w' K' where "warmer_thread_pass os (w, K) = (Inr (), (w', K'))" and "writer_inv w' K' first front cur"
    and "jw_sequence w' = jw_sequence w" and "step_post w K w' K'"
proof (cases "jw_warmer w")
  case None
  then show thesis
    using inv by (intro that [of w K]) (simp_all add: warmer_thread_pass_def step_post_def same_elsewhere_def)
next
  case (Some wm)
  note invD = writer_invD [OF inv]
  note ok = invD(8) [unfolded warmer_ok_def Some option.case]
  let ?base = "writer_maps (w\<lparr>jw_warmer := None\<rparr>)"
  have wmaps: "writer_maps w = ?base + owned_mset wm" using Some by (simp add: writer_maps_def)
  have key: "page_key_of (pw_location wm) (pw_dest_id wm) i = w_key w i" for i
    using ok by (simp add: w_key_def)
  have "owned_mset wm \<subseteq># mset (k_maps K)"
    using invD(7) wmaps by (metis mset_subset_eq_add_right subset_mset.trans)
  moreover have "\<And>i. i \<ge> 0 \<Longrightarrow> isPageInRing wm i \<Longrightarrow> lookup_file K (w_key w i) \<noteq> None" using ok by blast
  ultimately have a: "ahead_ok (pw_current_page wm) wm K wm K"
    unfolding ahead_ok_def key using ok invD(6)
    by (auto simp: same_warmer_def warmer_inv_def simp del: not_None_eq)
  obtain wm' K' where run: "warmup_pass os (wm, K) = (Inr (), (wm', K'))"
    and a': "ahead_ok (pw_current_page wm) wm K wm' K'"
    by (rule warmup_pass_ahead [OF a os]) (use ok invD(2,3) in simp_all)
  note aD = ahead_okD [OF a', unfolded key]
  let ?w = "w\<lparr>jw_warmer := Some wm'\<rparr>"
  have sub: "owned_mset wm' \<subseteq># mset (k_maps K')" using aD(3) by (simp add: warmer_inv_def)
  have "?base \<subseteq># foreign_maps wm K"
    using invD(7) wmaps mset_sub_diff [of "owned_mset wm" ?base] by (simp add: foreign_maps_def add.commute)
  then have "?base \<subseteq># mset (k_maps K') - owned_mset wm'"
    using aD(5) by (simp add: foreign_maps_def)
  then have maps: "writer_maps ?w \<subseteq># mset (k_maps K')"
    using sub by (simp add: writer_maps_warmer subset_mset.le_diff_conv2)
  have oth: "other_maps ?w K' = other_maps w K"
  proof -
    have "mset (k_maps K') - (owned_mset wm' + ?base) = mset (k_maps K) - (owned_mset wm + ?base)"
      using aD(5) unfolding foreign_maps_def by (simp only: diff_diff_add_mset [symmetric])
    then show ?thesis by (simp add: other_maps_def wmaps writer_maps_warmer add.commute)
  qed
  have below: "lookup_file K' (w_key w i) = lookup_file K (w_key w i)" if "i \<le> jw_page_id w" for i
    using that ok by (intro aD(6)) (simp add: w_key_def)
  have log: "journal_log (jw_location w) (jw_dest_id w) K' first front cur"
    using journal_log_cong [of first front K' "jw_location w" "jw_dest_id w" K cur] invD(1,3) below
    by (simp add: w_key_def)
  have fut: "pred_option (future_file (jw_page_size w) (jw_page_id w) i) (lookup_file K' (w_key w i))" if "i > jw_page_id w" for i
    using aD(7) [of i] that ok by simp
  have wk: "warmer_ok ?w K'"
    using aD(1,3,8) ok unfolding warmer_ok_def same_warmer_def warmer_inv_def
    by (auto simp: w_key_def simp del: not_None_eq)
  obtain q where "jw_page w = Some q" "pg_key q = w_key w (jw_page_id w)"
    "pg_size q = jw_page_size w" "pg_writable q"
    using writer_inv_page [OF inv] by metis
  then have "writer_inv ?w K' first front cur"
    using log fut wk maps invD(2-5) by (auto simp: writer_inv_def w_key_def)
  moreover have "lookup_file K' key = lookup_file K key" if "\<forall>i \<ge> jw_page_id w. key \<noteq> w_key w i" for key
    using that ok by (intro aD(6)) auto
  then have "step_post w K ?w K'"
    using oth aD(4) by (simp add: step_post_def same_config_def same_elsewhere_def)
  moreover have "warmer_thread_pass os (w, K) = (Inr (), (?w, K'))"
    using Some run by (simp add: warmer_thread_pass_def)
  ultimately show thesis by (intro that [of ?w K']) simp_all
qed

end
