(* ===== verification/Writer_Log.thy ===== *)
theory Writer_Log
  imports Writer_Invariant
begin

section \<open>The writer as an append-only log\<close>

text \<open>
  The contract the operations of a writer share, as an interface: an operation that is allowed in a
  related state succeeds, reaches a related state and changes the abstract state as its specification
  says.  What follows for sequences of operations is proved once from the contract.  The
  interpretation discharges it for \<^verbatim>\<open>writeBytes\<close>, \<^verbatim>\<open>mark\<close>, the typed \<^verbatim>\<open>openData\<close>/\<^verbatim>\<open>closeData\<close>
  pair, a step of the retire thread and a pass of the warmer thread, in any order.
\<close>

locale refined_ops =
  fixes run :: "'op \<Rightarrow> 's \<Rightarrow> (error + unit) \<times> 's"
    and rel :: "'s \<Rightarrow> 'a \<Rightarrow> bool"
    and spec :: "'op \<Rightarrow> 'a \<Rightarrow> 'a"
    and allowed :: "'op \<Rightarrow> bool"
  assumes step: "rel s a \<Longrightarrow> allowed op \<Longrightarrow> \<exists>s'. run op s = (Inr (), s') \<and> rel s' (spec op a)"
begin

fun run_all :: "'op list \<Rightarrow> 's \<Rightarrow> (error + unit) \<times> 's" where
  "run_all [] s = (Inr (), s)"
| "run_all (op # ops) s = (case run op s of (Inl e, s') \<Rightarrow> (Inl e, s') | (Inr _, s') \<Rightarrow> run_all ops s')"

lemma run_all_refines:
  "rel s a \<Longrightarrow> list_all allowed ops \<Longrightarrow> \<exists>s'. run_all ops s = (Inr (), s') \<and> rel s' (fold spec ops a)"
proof (induction ops arbitrary: s a)
  case (Cons op ops)
  then obtain s1 where "run op s = (Inr (), s1)" "rel s1 (spec op a)" using step [of s a op] by auto
  with Cons.IH [of s1 "spec op a"] Cons.prems show ?case by simp
qed simp

lemma run_all_append:
  "run_all (xs @ ys) s = (case run_all xs s of (Inl e, s') \<Rightarrow> (Inl e, s') | (Inr _, s') \<Rightarrow> run_all ys s')"
  by (induction xs arbitrary: s) (auto split: prod.split sum.split)

end

subsection \<open>The operations\<close>

datatype writer_op =
    Write_bytes u64 u64 u32 "u8 list"
  | Mark u64 u64 u32
  | Write_data u64 u64 u32 u16 "u8 list"
  | Retire_step
  | Warmer_pass

fun run_op :: "(page_key \<Rightarrow> os_env) \<Rightarrow> writer_op \<Rightarrow> unit writer_prog" where
  "run_op os (Write_bytes now t ty data) = writeBytes os now t ty data"
| "run_op os (Mark now t ty) = mark os now t ty"
| "run_op os (Write_data now t ty fl data) = write_data os now t ty fl data"
| "run_op os Retire_step = retireLoop_step os"
| "run_op os Warmer_pass = warmer_thread_pass os"

fun run_ops :: "(page_key \<Rightarrow> os_env) \<Rightarrow> writer_op list \<Rightarrow> unit writer_prog" where
  "run_ops os [] = return_p ()"
| "run_ops os (op # ops) = bind_p (run_op os op) (\<lambda>_. run_ops os ops)"

fun spec_op :: "nat \<Rightarrow> writer_op \<Rightarrow> log_state \<Rightarrow> log_state" where
  "spec_op sz (Write_bytes now t ty data) = log_append sz now t ty FRAME_NORMAL data"
| "spec_op sz (Mark now t ty) = log_append sz now t ty FRAME_NORMAL []"
| "spec_op sz (Write_data now t ty fl data) = log_append sz now t ty fl data"
| "spec_op sz Retire_step = id"
| "spec_op sz Warmer_pass = id"

fun op_ok :: "u32 \<Rightarrow> writer_op \<Rightarrow> bool" where
  "op_ok sz (Write_bytes now t ty data) = (valid_type ty \<and> fits_page sz (length data))"
| "op_ok sz (Mark now t ty) = valid_type ty"
| "op_ok sz (Write_data now t ty fl data) = (valid_type ty \<and> fits_page sz (length data))"
| "op_ok sz Retire_step = True"
| "op_ok sz Warmer_pass = True"

definition os_ok :: "page_key \<Rightarrow> os_env" where
  "os_ok = (\<lambda>_. os_all_ok)"

lemma os_works_ok [simp]: "os_works os_ok"
  by (simp add: os_works_def os_ok_def)

text \<open>
  What surrounds the journal \<open>(loc, dest)\<close> from page \<open>first\<close> on: the mappings of others, the other
  files and the number of open descriptors.
\<close>

record surroundings =
  s_maps :: "page_key multiset"
  s_files :: "page_key \<Rightarrow> page_file option"
  s_fds :: nat

definition surrounded ::
    "Location \<Rightarrow> u32 \<Rightarrow> int \<Rightarrow> surroundings \<Rightarrow> page_key multiset \<Rightarrow> page_key kernel \<Rightarrow> bool" where
  "surrounded loc dest first E own K \<longleftrightarrow> mset (k_maps K) - own = s_maps E \<and> k_fds K = s_fds E \<and>
     (\<forall>key. (\<forall>i \<ge> first. key \<noteq> page_key_of loc dest i) \<longrightarrow> lookup_file K key = s_files E key)"

text \<open>A writer of the journal \<open>(loc, dest)\<close> and the log it has written from page \<open>first\<close> on.\<close>

definition log_rel ::
    "Location \<Rightarrow> u32 \<Rightarrow> int \<Rightarrow> surroundings \<Rightarrow> JournalWriter \<times> page_key kernel \<Rightarrow> log_state \<Rightarrow> bool" where
  "log_rel loc dest first E = (\<lambda>(w, K) (seq, front, cur).
     writer_inv w K first front cur \<and> jw_sequence w = seq \<and> lock_free w \<and>
     jw_location w = loc \<and> jw_dest_id w = dest \<and> surrounded loc dest first E (writer_maps w) K)"

lemma fits_page_0: "fits_page (findPageSize loc dest) 0"
  by (simp add: fits_page_def)

lemma log_rel_post:
  assumes "step_post w K (w'\<lparr>jw_open := jw_open w\<rparr>) K'" and "writer_inv w' K' first front' cur'"
    and "(jw_sequence w', front', cur') = a'" and "log_rel loc dest first E (w, K) a"
  shows "log_rel loc dest first E (w', K') a'"
proof -
  obtain seq front cur where a: "a = (seq, front, cur)" by (cases a)
  note rel = assms(4) [unfolded log_rel_def a, simplified]
  note post = assms(1) [unfolded step_post_def same_config_def, simplified]
  have "first \<le> jw_page_id w" using rel writer_invD(3) by fastforce
  then have "lookup_file K' key = lookup_file K key" if "\<forall>i \<ge> first. key \<noteq> page_key_of loc dest i" for key
  proof -
    have "\<forall>i \<ge> jw_page_id w. key \<noteq> w_key w i" using rel that \<open>first \<le> jw_page_id w\<close> by (simp add: w_key_def)
    then show ?thesis using post unfolding same_elsewhere_def by blast
  qed
  moreover have "k_fds K' = k_fds K" using post by (simp add: same_elsewhere_def)
  moreover have "other_maps w' K' = other_maps w K" using post by (simp add: other_maps_def writer_maps_def)
  ultimately have "surrounded loc dest first E (writer_maps w') K'"
    using rel by (simp add: surrounded_def other_maps_def del: split_paired_All)
  then show ?thesis
    using rel assms(2) post by (auto simp: log_rel_def lock_free_def assms(3) [symmetric])
qed

lemma step_post_open: "step_post w K w' K' \<Longrightarrow> step_post w K (w'\<lparr>jw_open := jw_open w\<rparr>) K'"
  by (simp add: step_post_def same_config_def other_maps_def writer_maps_def)

lemma writeBytes_step:
  assumes rel: "log_rel loc dest first E (w, K) a" and "valid_type ty"
    and "fits_page (findPageSize loc dest) (length data)"
  shows "\<exists>s'. writeBytes os_ok now t ty data (w, K) = (Inr (), s') \<and>
    log_rel loc dest first E s' (log_append (unat (findPageSize loc dest)) now t ty FRAME_NORMAL data a)"
proof -
  obtain seq front cur where a: "a = (seq, front, cur)" by (cases a)
  with rel have inv: "writer_inv w K first front cur" and free: "lock_free w" and seq: "jw_sequence w = seq"
    and sz: "jw_page_size w = findPageSize loc dest"
    using writer_invD(4) by (auto simp: log_rel_def)
  have fits: "fits_page (jw_page_size w) (length data)" using assms(3) sz by simp
  obtain w' K' front' cur' where "writeBytes os_ok now t ty data (w, K) = (Inr (), (w', K'))"
    "writer_inv w' K' first front' cur'"
    "(jw_sequence w', front', cur') = log_append (unat (jw_page_size w)) now t ty FRAME_NORMAL data (jw_sequence w, front, cur)"
    "step_post w K w' K'"
    by (rule writeBytes_ok [OF inv os_works_ok assms(2) fits free])
  then show ?thesis
    using log_rel_post [OF step_post_open _ _ rel, of w' K'] a sz seq by auto
qed

lemma write_data_step:
  assumes rel: "log_rel loc dest first E (w, K) a" and "valid_type ty"
    and "fits_page (findPageSize loc dest) (length data)"
  shows "\<exists>s'. write_data os_ok now t ty fl data (w, K) = (Inr (), s') \<and>
    log_rel loc dest first E s' (log_append (unat (findPageSize loc dest)) now t ty fl data a)"
proof -
  obtain seq front cur where a: "a = (seq, front, cur)" by (cases a)
  with rel have inv: "writer_inv w K first front cur" and free: "lock_free w" and seq: "jw_sequence w = seq"
    and sz: "jw_page_size w = findPageSize loc dest"
    using writer_invD(4) by (auto simp: log_rel_def)
  have fits: "fits_page (jw_page_size w) (length data)" using assms(3) sz by simp
  obtain w' K' front' cur' where "write_data os_ok now t ty fl data (w, K) = (Inr (), (w', K'))"
    "writer_inv w' K' first front' cur'"
    "(jw_sequence w', front', cur') = log_append (unat (jw_page_size w)) now t ty fl data (jw_sequence w, front, cur)"
    "step_post w K (w'\<lparr>jw_open := jw_open w\<rparr>) K'"
    by (rule write_data_ok [OF inv os_works_ok assms(2) fits free])
  then show ?thesis
    using log_rel_post [OF _ _ _ rel, of w' K'] a sz seq by auto
qed

lemma background_step:
  assumes rel: "log_rel loc dest first E (w, K) a"
  shows "\<exists>s'. retireLoop_step os_ok (w, K) = (Inr (), s') \<and> log_rel loc dest first E s' a"
    and "\<exists>s'. warmer_thread_pass os_ok (w, K) = (Inr (), s') \<and> log_rel loc dest first E s' a"
proof -
  obtain seq front cur where a: "a = (seq, front, cur)" by (cases a)
  with rel have inv: "writer_inv w K first front cur" and seq: "jw_sequence w = seq"
    by (auto simp: log_rel_def)
  obtain w1 K1 where "retireLoop_step os_ok (w, K) = (Inr (), (w1, K1))" "writer_inv w1 K1 first front cur"
    "jw_sequence w1 = jw_sequence w" "step_post w K w1 K1"
    by (rule retireLoop_step_ok [OF inv os_works_ok])
  then show "\<exists>s'. retireLoop_step os_ok (w, K) = (Inr (), s') \<and> log_rel loc dest first E s' a"
    using log_rel_post [OF step_post_open _ _ rel, of w1 K1] a seq by auto
  obtain w2 K2 where "warmer_thread_pass os_ok (w, K) = (Inr (), (w2, K2))" "writer_inv w2 K2 first front cur"
    "jw_sequence w2 = jw_sequence w" "step_post w K w2 K2"
    by (rule warmer_thread_pass_ok [OF inv os_works_ok])
  then show "\<exists>s'. warmer_thread_pass os_ok (w, K) = (Inr (), s') \<and> log_rel loc dest first E s' a"
    using log_rel_post [OF step_post_open _ _ rel, of w2 K2] a seq by auto
qed

interpretation wlog: refined_ops "run_op os_ok" "log_rel loc dest first E"
  "spec_op (unat (findPageSize loc dest))" "op_ok (findPageSize loc dest)"
  for loc dest first E
proof
  fix s :: "JournalWriter \<times> page_key kernel" and a op
  assume "log_rel loc dest first E s a" "op_ok (findPageSize loc dest) op"
  then show "\<exists>s'. run_op os_ok op s = (Inr (), s') \<and>
      log_rel loc dest first E s' (spec_op (unat (findPageSize loc dest)) op a)"
    using writeBytes_step write_data_step background_step fits_page_0
    by (cases s; cases op) (simp_all add: mark_eq)
qed

lemma run_ops_eq: "run_ops os_ok ops s = wlog.run_all ops s"
  by (induction ops arbitrary: s) (simp_all add: prog_simps cong: option.case_cong split: prod.split sum.split)

subsection \<open>What is in the log\<close>

definition log_frames :: "log_state \<Rightarrow> FrameSnap list" where
  "log_frames = (\<lambda>(seq, front, cur). concat front @ cur)"

definition message_of :: "FrameSnap \<Rightarrow> u64 \<times> int \<times> u16 \<times> u8 list" where
  "message_of f = (snap_gen_time f, snap_msg_type f, snap_flags f, snap_payload f)"

fun op_messages :: "writer_op \<Rightarrow> (u64 \<times> int \<times> u16 \<times> u8 list) list" where
  "op_messages (Write_bytes now t ty data) = [(t, uint (ucast ty :: u16), FRAME_NORMAL, data)]"
| "op_messages (Mark now t ty) = [(t, uint (ucast ty :: u16), FRAME_NORMAL, [])]"
| "op_messages (Write_data now t ty fl data) = [(t, uint (ucast ty :: u16), fl, data)]"
| "op_messages _ = []"

text \<open>Sequence numbers count the frames of the log from \<open>s0\<close>.\<close>

definition counted :: "u64 \<Rightarrow> log_state \<Rightarrow> bool" where
  "counted s0 a \<longleftrightarrow> fst a = s0 + of_nat (length (log_frames a)) \<and>
     map snap_sequence (log_frames a) = map (\<lambda>n. s0 + of_nat n) [0..<length (log_frames a)]"

lemma counted_snoc:
  assumes "counted s0 (seq, front, cur)" and "log_frames (seq + 1, front', cur') = log_frames (seq, front, cur) @ [f]"
    and "snap_sequence f = seq"
  shows "counted s0 (seq + 1, front', cur')"
  using assms by (simp add: counted_def)

lemma log_append_frames:
  "\<exists>es. log_frames (log_append sz now t ty fl data a) = log_frames a @ es @ [snap_of t ty fl (fst (log_append sz now t ty fl data a) - 1) data] \<and>
     list_all is_page_end es"
  by (cases a) (auto simp: log_append_def log_put_def log_rotate_def log_frames_def add.commute)

lemma counted_log_append: "counted s0 a \<Longrightarrow> counted s0 (log_append sz now t ty fl data a)"
proof -
  assume a: "counted s0 a"
  have put: "counted s0 (log_put t ty fl data b)" if "counted s0 b" for b
    using that by (cases b) (auto simp: log_put_def log_frames_def intro!: counted_snoc)
  have "counted s0 (log_rotate now b)" if "counted s0 b" for b
    using that by (cases b) (auto simp: log_rotate_def log_frames_def intro!: counted_snoc)
  then show ?thesis using a put by (cases a) (simp add: log_append_def)
qed

lemma counted_fold: "counted s0 a \<Longrightarrow> counted s0 (fold (spec_op sz) ops a)"
proof (induction ops arbitrary: a)
  case (Cons op ops)
  then have "counted s0 (spec_op sz op a)" by (cases op) (auto intro: counted_log_append)
  with Cons.IH show ?case by simp
qed simp

lemma message_snap_of: "message_of (snap_of t ty fl seq data) = (t, uint (ucast ty :: u16), fl, data)"
  by (simp add: message_of_def snap_of_def)

lemma spec_op_messages:
  assumes "op_ok psz op"
  shows "map message_of (filter (\<lambda>f. \<not> is_page_end f) (log_frames (spec_op sz op a))) =
    map message_of (filter (\<lambda>f. \<not> is_page_end f) (log_frames a)) @ op_messages op"
proof -
  have app: "map message_of (filter (\<lambda>f. \<not> is_page_end f) (log_frames (log_append sz now t ty fl data a))) =
      map message_of (filter (\<lambda>f. \<not> is_page_end f) (log_frames a)) @ [(t, uint (ucast ty :: u16), fl, data)]"
    if "valid_type ty" for now t ty fl data
  proof -
    obtain es where "log_frames (log_append sz now t ty fl data a) =
        log_frames a @ es @ [snap_of t ty fl (fst (log_append sz now t ty fl data a) - 1) data]" "list_all is_page_end es"
      using log_append_frames by blast
    then show ?thesis
      using plain_snap_of [OF that] by (simp add: message_snap_of plain_frame_def list_all_iff)
  qed
  show ?thesis using assms app by (cases op) simp_all
qed

lemma fold_messages:
  "list_all (op_ok psz) ops \<Longrightarrow>
   map message_of (filter (\<lambda>f. \<not> is_page_end f) (log_frames (fold (spec_op sz) ops a))) =
     map message_of (filter (\<lambda>f. \<not> is_page_end f) (log_frames a)) @ concat (map op_messages ops)"
  by (induction ops arbitrary: a) (simp_all add: spec_op_messages [of psz])

subsection \<open>A whole session\<close>

text \<open>Open a writer on a journal and run operations on it.\<close>

definition write_session ::
    "(page_key \<Rightarrow> os_env) \<Rightarrow> Location \<Rightarrow> u32 \<Rightarrow> JournalWriterOptions \<Rightarrow> bool \<Rightarrow> writer_op list \<Rightarrow>
     (page_key kernel, JournalWriter) prog" where
  "write_session os loc dest opts serialize ops = (\<lambda>K.
     case JournalWriter_new os loc dest opts serialize K of
       (Inl e, K') \<Rightarrow> (Inl e, K')
     | (Inr w, K') \<Rightarrow> (case run_ops os ops (w, K') of
          (Inl e, (_, K'')) \<Rightarrow> (Inl e, K'') | (Inr _, (w', K'')) \<Rightarrow> (Inr w', K'')))"

definition around :: "page_key kernel \<Rightarrow> surroundings" where
  "around K = \<lparr>s_maps = mset (k_maps K), s_files = lookup_file K, s_fds = k_fds K\<rparr>"

lemma log_rel_new:
  assumes "fresh_journal loc dest K" and "wo_warmup_pages opts \<le> 16"
  obtains w K' where "JournalWriter_new os_ok loc dest opts serialize K = (Inr w, K')"
    and "log_rel loc dest 1 (around K) (w, K') (0, [], [])"
proof -
  obtain w K' where r: "JournalWriter_new os_ok loc dest opts serialize K = (Inr w, K')" "writer_inv w K' 1 [] []"
    "jw_sequence w = 0" "lock_free w" "jw_location w = loc" "jw_dest_id w = dest"
    "other_maps w K' = mset (k_maps K)" "k_fds K' = k_fds K"
    "\<forall>key. key \<noteq> page_key_of loc dest 1 \<longrightarrow> lookup_file K' key = lookup_file K key"
    by (rule JournalWriter_new_fresh [OF assms(1) os_works_ok assms(2), of serialize])
  have "surrounded loc dest 1 (around K) (writer_maps w) K'"
    unfolding surrounded_def around_def using r(7,8,9) by (auto simp: other_maps_def)
  with r show thesis by (intro that [of w K']) (simp_all add: log_rel_def)
qed

lemma write_session_refines:
  assumes "fresh_journal loc dest K" and "wo_warmup_pages opts \<le> 16"
    and "list_all (op_ok (findPageSize loc dest)) ops"
  obtains w K' where "write_session os_ok loc dest opts serialize ops K = (Inr w, K')"
    and "log_rel loc dest 1 (around K) (w, K') (fold (spec_op (unat (findPageSize loc dest))) ops (0, [], []))"
proof -
  obtain w0 K0 where n: "JournalWriter_new os_ok loc dest opts serialize K = (Inr w0, K0)"
    "log_rel loc dest 1 (around K) (w0, K0) (0, [], [])"
    by (rule log_rel_new [OF assms(1,2)])
  obtain w K' where "run_ops os_ok ops (w0, K0) = (Inr (), (w, K'))"
    "log_rel loc dest 1 (around K) (w, K') (fold (spec_op (unat (findPageSize loc dest))) ops (0, [], []))"
    using wlog.run_all_refines [OF n(2) assms(3)] by (auto simp: run_ops_eq)
  then show thesis using n by (intro that [of w K']) (simp_all add: write_session_def)
qed

text \<open>An example: an empty disk and a few operations.\<close>

definition ex_disk :: "page_key kernel" where
  "ex_disk = \<lparr>k_files = [], k_fds = 3, k_maps = []\<rparr>"

definition ex_writer_options :: JournalWriterOptions where
  "ex_writer_options = \<lparr>wo_prefault = True, wo_warmup_pages = 4, wo_background_threads = True, wo_retained_page_limit = 10\<rparr>"

definition ex_ops :: "writer_op list" where
  "ex_ops = [Write_bytes 10 11 100 [1, 2, 3], Warmer_pass, Write_data 20 21 7 5 [4], Mark 22 22 7]"

lemma ex_fresh: "fresh_journal ex_location 0 ex_disk"
  by (simp add: fresh_journal_def page_ids_ok_def journal_pages_def dir_entries_def ex_disk_def)

lemma ex_ops_ok: "list_all (op_ok (findPageSize ex_location 0)) ex_ops" "wo_warmup_pages ex_writer_options \<le> 16"
  by (simp_all add: ex_ops_def ex_writer_options_def ex_location_size page_size_defs valid_type_def MsgType_PageEnd_def
      fits_page_def stride_of_def)

lemma ex_writer:
  obtains w K where "JournalWriter_new os_ok ex_location 0 ex_writer_options True ex_disk = (Inr w, K)"
    and "log_rel ex_location 0 1 (around ex_disk) (w, K) (0, [], [])"
  by (rule log_rel_new [OF ex_fresh ex_ops_ok(2)])

subsection \<open>Properties\<close>

text \<open>C4: the writer refines an append-only log.  From a state that stands for a log, every operation
  that the type and size rules allow succeeds and reaches a state that stands for the log with the
  operation's frame appended -- after a \<^verbatim>\<open>PageEnd\<close> frame and on a new page when the current one has no
  room -- and the threads in the background change nothing of it.  Mappings of others, other files
  and the number of open descriptors stay as they are (they are part of the relation).\<close>

theorem writer_refines_log:
  assumes "log_rel loc dest first E s a" and "op_ok (findPageSize loc dest) op"
  shows "\<exists>s'. run_op os_ok op s = (Inr (), s') \<and>
    log_rel loc dest first E s' (spec_op (unat (findPageSize loc dest)) op a)"
  by (rule wlog.step [OF assms])

theorem writer_refines_log_witness:
  "\<exists>s s'. log_rel ex_location 0 1 (around ex_disk) s (0, [], []) \<and> run_op os_ok (Mark 1 2 7) s = (Inr (), s') \<and>
    log_rel ex_location 0 1 (around ex_disk) s' (spec_op (unat (findPageSize ex_location 0)) (Mark 1 2 7) (0, [], []))"
proof -
  obtain w K where r: "log_rel ex_location 0 1 (around ex_disk) (w, K) (0, [], [])" by (rule ex_writer)
  have "op_ok (findPageSize ex_location 0) (Mark 1 2 7)" by (simp add: valid_type_def MsgType_PageEnd_def)
  from writer_refines_log [OF r this] r show ?thesis by blast
qed

text \<open>C15: a session leaves the rest of the machine alone.  Opening a writer on a fresh journal and running
  any allowed operations succeeds; afterwards the mappings are those from before and exactly the ones
  the writer knows and will release, no descriptor stays open, and no file changes that is not a page
  of the journal.\<close>

theorem write_session_leaves_rest:
  assumes "fresh_journal loc dest K" and "wo_warmup_pages opts \<le> 16" and "list_all (op_ok (findPageSize loc dest)) ops"
  shows "\<exists>w K'. write_session os_ok loc dest opts serialize ops K = (Inr w, K') \<and>
    mset (k_maps K') = writer_maps w + mset (k_maps K) \<and> k_fds K' = k_fds K \<and>
    (\<forall>key. (\<forall>i. key \<noteq> page_key_of loc dest i) \<longrightarrow> lookup_file K' key = lookup_file K key)"
proof -
  obtain w K' where w: "write_session os_ok loc dest opts serialize ops K = (Inr w, K')"
    "log_rel loc dest 1 (around K) (w, K') (fold (spec_op (unat (findPageSize loc dest))) ops (0, [], []))"
    by (rule write_session_refines [OF assms])
  then have sur: "surrounded loc dest 1 (around K) (writer_maps w) K'" and "writer_maps w \<subseteq># mset (k_maps K')"
    using writer_invD(7) by (auto simp: log_rel_def split: prod.splits)
  then have "mset (k_maps K') = writer_maps w + mset (k_maps K)"
    by (metis surrounded_def around_def surroundings.select_convs(1) subset_mset.add_diff_inverse)
  moreover have "k_fds K' = k_fds K" "\<forall>key. (\<forall>i. key \<noteq> page_key_of loc dest i) \<longrightarrow> lookup_file K' key = lookup_file K key"
    using sur unfolding surrounded_def around_def surroundings.simps by blast+
  ultimately show ?thesis using w(1) by blast
qed

theorem write_session_leaves_rest_witness:
  "\<exists>w K'. write_session os_ok ex_location 0 ex_writer_options True ex_ops ex_disk = (Inr w, K') \<and>
    mset (k_maps K') = writer_maps w + {#} \<and> k_fds K' = 3 \<and>
    (\<forall>key. (\<forall>i. key \<noteq> page_key_of ex_location 0 i) \<longrightarrow> lookup_file K' key = None)"
proof -
  have "mset (k_maps ex_disk) = {#}" "k_fds ex_disk = 3" "lookup_file ex_disk key = None" for key
    by (simp_all add: ex_disk_def lookup_file_def)
  with write_session_leaves_rest [OF ex_fresh ex_ops_ok(2,1), of True] show ?thesis by (simp del: split_paired_All)
qed

text \<open>Bounded history.  Rotating to a new page succeeds, closes the page with a \<^verbatim>\<open>PageEnd\<close> frame (one
  sequence number), starts the next page at its first frame position, keeps the writer well formed,
  and never keeps more retired pages mapped than the configured limit.\<close>

theorem rotatePage_bounds_retained:
  assumes "writer_inv w K first front cur"
  shows "\<exists>w' K'. rotatePage os_ok now (w, K) = (Inr (), (w', K')) \<and>
    writer_inv w' K' first (front @ [cur @ [snap_of now MsgType_PageEnd FRAME_NORMAL (jw_sequence w) []]]) [] \<and>
    jw_page_id w' = jw_page_id w + 1 \<and> jw_cur w' = 64 \<and> jw_sequence w' = jw_sequence w + 1 \<and>
    length (jw_retired w') \<le> jw_max_retained w"
proof -
  obtain w' K' where r: "rotatePage os_ok now (w, K) = (Inr (), (w', K'))"
    "writer_inv w' K' first (front @ [cur @ [snap_of now MsgType_PageEnd FRAME_NORMAL (jw_sequence w) []]]) []"
    "jw_sequence w' = jw_sequence w + 1" "length (jw_retired w') \<le> jw_max_retained w"
    by (rule rotatePage_ok [OF assms os_works_ok, of now])
  then show ?thesis using writer_invD(3,5) [OF r(2)] writer_invD(3) [OF assms] by simp
qed

theorem rotatePage_bounds_retained_witness:
  "\<exists>w K w' K'. JournalWriter_new os_ok ex_location 0 ex_writer_options True ex_disk = (Inr w, K) \<and>
    rotatePage os_ok 5 (w, K) = (Inr (), (w', K')) \<and> jw_page_id w' = 2 \<and> jw_sequence w' = 1 \<and>
    length (jw_retired w') \<le> jw_max_retained w"
proof -
  obtain w K where r: "JournalWriter_new os_ok ex_location 0 ex_writer_options True ex_disk = (Inr w, K)"
    "log_rel ex_location 0 1 (around ex_disk) (w, K) (0, [], [])"
    by (rule ex_writer)
  then have "writer_inv w K 1 [] []" "jw_sequence w = 0" by (simp_all add: log_rel_def)
  from rotatePage_bounds_retained [OF this(1), of 5] r(1) this(2) writer_invD(3) [OF this(1)] show ?thesis by auto
qed

end
