(* ===== verification/Journal_Cursor.thy ===== *)
theory Journal_Cursor
  imports Frame_Log
begin

section \<open>A reader's position in one journal (include/revoq/Journal.h)\<close>

text \<open>
  Class \<^verbatim>\<open>Journal\<close>: the page a reader is on, the frame pointer in it (an offset, \<open>j_frame\<close>), the
  pages waiting to be unmapped, and the slot in which the reader's warmer thread leaves the next page
  mapped in advance.  The two threads are operations: \<open>journal_retire_step\<close> and \<open>reader_warm\<close>, the
  latter with an argument that says at which of its checks it finds a newer request or the shutdown.
  \<^verbatim>\<open>seekToTime\<close> has two loops that only end when the data let them; they take fuel.
\<close>

subsection \<open>State\<close>

record JournalOptions =
  jo_is_writing :: bool
  jo_prefault :: bool
  jo_background_threads :: bool
  jo_retained_page_limit :: nat

record Journal =
  j_location :: Location
  j_dest_id :: u32
  j_is_writing :: bool
  j_prefault :: bool
  j_background :: bool
  j_max_retained :: nat
  j_page_size :: u32
  j_page :: "Page option"
  j_frame :: nat
  j_page_frame_nb :: nat
  j_retired :: "Page list"
  j_retire_queue :: "Page list"
  j_retire_running :: bool
  j_warmer_next_page :: int
  j_warmer_pending :: bool
  j_warmer_addr :: "page_key option"
  j_warmer_ready_id :: int

type_synonym 'a journal_prog = "(Journal \<times> page_key kernel, 'a) prog"

definition Journal_new :: "Location \<Rightarrow> u32 \<Rightarrow> JournalOptions \<Rightarrow> Journal" where
  "Journal_new loc dest_id options =
     \<lparr>j_location = loc, j_dest_id = dest_id, j_is_writing = jo_is_writing options,
      j_prefault = jo_prefault options, j_background = jo_background_threads options,
      j_max_retained = jo_retained_page_limit options, j_page_size = findPageSize loc dest_id,
      j_page = None, j_frame = 0, j_page_frame_nb = 0, j_retired = [], j_retire_queue = [],
      j_retire_running = jo_background_threads options, j_warmer_next_page = - 1,
      j_warmer_pending = False, j_warmer_addr = None, j_warmer_ready_id = - 1\<rparr>"

subsection \<open>Changing pages\<close>

text \<open>The fast path of \<^verbatim>\<open>loadPage\<close>: take the warmer's mapping, or give it up when its header is bad.\<close>

definition take_warmed :: "(page_key \<Rightarrow> os_env) \<Rightarrow> int \<Rightarrow> Page option journal_prog" where
  "take_warmed os page_id =
     bind_p get_fst (\<lambda>j. case j_warmer_addr j of
       Some addr \<Rightarrow>
         if \<not> j_prefault j \<and> j_background j \<and> j_warmer_ready_id j = page_id then
           catch_p
             (bind_p (on_snd (loadFromAddress (j_location j) (j_dest_id j) page_id (j_page_size j)
                        False False)) (\<lambda>page.
              bind_p (modify_fst (\<lambda>j. j\<lparr>j_warmer_addr := None, j_warmer_ready_id := - 1\<rparr>)) (\<lambda>_.
              return_p (Some page))))
             (\<lambda>_. bind_p (on_snd (releaseMmapBuffer (os addr) addr False Msync_NONE)) (\<lambda>_.
              bind_p (modify_fst (\<lambda>j. j\<lparr>j_warmer_addr := None, j_warmer_ready_id := - 1\<rparr>)) (\<lambda>_.
              return_p None)))
         else return_p None
     | None \<Rightarrow> return_p None)"

fun journal_retire_overflow :: "nat \<Rightarrow> Page list \<Rightarrow> Page list \<Rightarrow> Page list \<times> Page list" where
  "journal_retire_overflow mx [] q = ([], q)"
| "journal_retire_overflow mx (p # ps) q =
     (if length (p # ps) > mx then journal_retire_overflow mx ps (q @ [p]) else (p # ps, q))"

definition retire_old_page :: "(page_key \<Rightarrow> os_env) \<Rightarrow> Page option \<Rightarrow> unit journal_prog" where
  "retire_old_page os old_page =
     (case old_page of
        None \<Rightarrow> return_p ()
      | Some p \<Rightarrow>
          bind_p get_fst (\<lambda>j.
          if j_background j then
            (let (ret, q) = journal_retire_overflow (j_max_retained j) (j_retired j @ [p]) (j_retire_queue j)
             in modify_fst (\<lambda>j. j\<lparr>j_retired := ret, j_retire_queue := q\<rparr>))
          else on_snd (Page_destroy os p)))"

definition signal_warmer :: "int \<Rightarrow> Journal \<Rightarrow> Journal" where
  "signal_warmer page_id j =
     (if \<not> j_prefault j \<and> j_background j
      then j\<lparr>j_warmer_next_page := page_id + 1, j_warmer_pending := True\<rparr> else j)"

definition loadPage :: "(page_key \<Rightarrow> os_env) \<Rightarrow> int \<Rightarrow> unit journal_prog" where
  "loadPage os page_id =
     bind_p get_fst (\<lambda>j.
     if (case j_page j of None \<Rightarrow> True | Some p \<Rightarrow> pg_page_id p \<noteq> page_id) then
       bind_p (take_warmed os page_id) (\<lambda>warmed.
       bind_p (case warmed of
                 Some page \<Rightarrow> return_p page
               | None \<Rightarrow> on_snd (Page_load os (j_location j) (j_dest_id j) page_id
                           (j_is_writing j) (j_prefault j))) (\<lambda>new_page.
       bind_p (modify_fst (\<lambda>j. j\<lparr>j_page := Some new_page\<rparr>)) (\<lambda>_.
       bind_p (on_snd (Page_firstFrame new_page)) (\<lambda>off.
       bind_p (modify_fst (\<lambda>j. j\<lparr>j_frame := off, j_page_frame_nb := 0\<rparr>)) (\<lambda>_.
       bind_p (retire_old_page os (j_page j)) (\<lambda>_.
       modify_fst (signal_warmer page_id)))))))
     else return_p ())"

definition the_current :: "Page journal_prog" where
  "the_current = bind_p get_fst (\<lambda>j. case j_page j of None \<Rightarrow> throw_p Segv | Some p \<Rightarrow> return_p p)"

definition loadNextPage :: "(page_key \<Rightarrow> os_env) \<Rightarrow> unit journal_prog" where
  "loadNextPage os = bind_p the_current (\<lambda>p. loadPage os (pg_page_id p + 1))"

subsection \<open>Reading and advancing\<close>

text \<open>The header of the current frame, read through the page.\<close>

definition current_frame :: "memory journal_prog" where
  "current_frame =
     bind_p the_current (\<lambda>p.
     bind_p get_fst (\<lambda>j. on_snd (page_read p (j_frame j) sizeof_FrameHeader)))"

definition next_with :: "(page_key \<Rightarrow> os_env) \<Rightarrow> u32 \<Rightarrow> int \<Rightarrow> unit journal_prog" where
  "next_with os frame_length msg_type =
     (if msg_type = sint MsgType_PageEnd then loadNextPage os
      else modify_fst (\<lambda>j. j\<lparr>j_frame := moveToNext (j_frame j) frame_length,
             j_page_frame_nb := j_page_frame_nb j + 1\<rparr>))"

definition journal_next :: "(page_key \<Rightarrow> os_env) \<Rightarrow> unit journal_prog" where
  "journal_next os =
     bind_p current_frame (\<lambda>m.
     bind_p get_fst (\<lambda>j. next_with os (getFrameLength m (j_frame j)) (getMsgType m (j_frame j))))"

fun seek_pages :: "(page_key \<Rightarrow> os_env) \<Rightarrow> u64 \<Rightarrow> nat \<Rightarrow> unit journal_prog" where
  "seek_pages os timestamp 0 = throw_p Out_of_fuel"
| "seek_pages os timestamp (Suc fuel) =
     bind_p the_current (\<lambda>p.
     bind_p (on_snd (isFull p)) (\<lambda>full.
     if full then
       bind_p (on_snd (endTime p)) (\<lambda>e.
       if sint e < sint timestamp
       then bind_p (loadNextPage os) (\<lambda>_. seek_pages os timestamp fuel)
       else return_p ())
     else return_p ()))"

fun seek_frames :: "(page_key \<Rightarrow> os_env) \<Rightarrow> u64 \<Rightarrow> nat \<Rightarrow> unit journal_prog" where
  "seek_frames os timestamp 0 = throw_p Out_of_fuel"
| "seek_frames os timestamp (Suc fuel) =
     bind_p current_frame (\<lambda>m.
     bind_p get_fst (\<lambda>j.
     if hasData m (j_frame j) \<and> sint (getGenTime m (j_frame j)) < sint timestamp
     then bind_p (journal_next os) (\<lambda>_. seek_frames os timestamp fuel)
     else return_p ()))"

definition journal_seekToTime :: "(page_key \<Rightarrow> os_env) \<Rightarrow> nat \<Rightarrow> u64 \<Rightarrow> unit journal_prog" where
  "journal_seekToTime os fuel timestamp =
     bind_p get_fst (\<lambda>j.
     bind_p (on_snd (findPageId os (j_location j) (j_dest_id j) timestamp)) (\<lambda>page_id.
     bind_p (loadPage os page_id) (\<lambda>_.
     bind_p (seek_pages os timestamp fuel) (\<lambda>_.
     seek_frames os timestamp fuel))))"

subsection \<open>The threads\<close>

definition journal_retire_step :: "(page_key \<Rightarrow> os_env) \<Rightarrow> unit journal_prog" where
  "journal_retire_step os =
     bind_p get_fst (\<lambda>j. case j_retire_queue j of
       [] \<Rightarrow> return_p ()
     | p # ps \<Rightarrow> bind_p (modify_fst (\<lambda>j. j\<lparr>j_retire_queue := ps\<rparr>)) (\<lambda>_. on_snd (Page_destroy os p)))"

definition release_warmed :: "(page_key \<Rightarrow> os_env) \<Rightarrow> page_key \<Rightarrow> unit journal_prog" where
  "release_warmed os addr =
     bind_p (on_snd (releaseMmapBuffer (os addr) addr False Msync_NONE)) (\<lambda>_. return_p ())"

definition releaseWarmedPage :: "(page_key \<Rightarrow> os_env) \<Rightarrow> unit journal_prog" where
  "releaseWarmedPage os =
     bind_p get_fst (\<lambda>j. case j_warmer_addr j of
       None \<Rightarrow> return_p ()
     | Some addr \<Rightarrow>
         bind_p (release_warmed os addr) (\<lambda>_.
         modify_fst (\<lambda>j. j\<lparr>j_warmer_addr := None, j_warmer_ready_id := - 1\<rparr>)))"

text \<open>
  One round of \<^verbatim>\<open>readerWarmerLoop\<close>.  \<open>intr\<close> gives the outcome of the four checks for a newer
  request; \<open>file_ready\<close> and \<open>header_ready\<close> are decided by the state at the last poll.
\<close>

definition warmer_header_ok :: "memory \<Rightarrow> bool" where
  "warmer_header_ok m \<longleftrightarrow> ph_version (PageHeader_at m) = JOURNAL_PAGE_VERSION \<and>
     ph_page_header_length (PageHeader_at m) = of_nat sizeof_PageHeader"

definition warmer_install ::
    "(page_key \<Rightarrow> os_env) \<Rightarrow> (nat \<Rightarrow> bool) \<Rightarrow> int \<Rightarrow> page_key \<Rightarrow> unit journal_prog" where
  "warmer_install os intr page_to_warm addr =
     bind_p get_fst (\<lambda>j.
     let page = \<lparr>pg_location = j_location j, pg_dest_id = j_dest_id j, pg_page_id = page_to_warm,
           pg_size = j_page_size j, pg_prefault = False, pg_writable = False\<rparr> in
     if intr 2 then release_warmed os addr else
     bind_p (on_snd (page_read page 0 sizeof_PageHeader)) (\<lambda>m.
     if \<not> warmer_header_ok m then release_warmed os addr
     else if \<not> os_populate (os addr) then release_warmed os addr
     else if intr 3 then release_warmed os addr
     else
       bind_p (case j_warmer_addr j of None \<Rightarrow> return_p () | Some old \<Rightarrow> release_warmed os old) (\<lambda>_.
       modify_fst (\<lambda>j. j\<lparr>j_warmer_addr := Some addr, j_warmer_ready_id := page_to_warm\<rparr>))))"

definition reader_warm :: "(page_key \<Rightarrow> os_env) \<Rightarrow> (nat \<Rightarrow> bool) \<Rightarrow> unit journal_prog" where
  "reader_warm os intr =
     bind_p get_fst (\<lambda>j.
     if \<not> j_warmer_pending j \<or> \<not> j_retire_running j then return_p () else
     bind_p (modify_fst (\<lambda>j. j\<lparr>j_warmer_pending := False\<rparr>)) (\<lambda>_.
     let page_to_warm = j_warmer_next_page j;
         key = page_key_of (j_location j) (j_dest_id j) page_to_warm in
     if page_to_warm < 0 \<or> intr 0 then return_p () else
     bind_p (on_snd get_p) (\<lambda>K.
     let file_ready = (case lookup_file K key of None \<Rightarrow> False | Some pf \<Rightarrow> pf_size pf = unat (j_page_size j)) in
     if \<not> file_ready \<or> intr 1 then return_p () else
     bind_p (catch_p (bind_p (on_snd (loadExistingReadOnlyMmapBuffer (os key) key (unat (j_page_size j))
                 \<lparr>populate_read = False, advise_hugepage = False\<rparr>)) (\<lambda>_. return_p True))
               (\<lambda>_. return_p False)) (\<lambda>mapped.
     if mapped then warmer_install os intr page_to_warm key else return_p ()))))"

text \<open>The destructor, after both threads are joined.\<close>

fun journal_destroy_pages :: "(page_key \<Rightarrow> os_env) \<Rightarrow> Page list \<Rightarrow> (page_key kernel, unit) prog" where
  "journal_destroy_pages os [] = return_p ()"
| "journal_destroy_pages os (p # ps) = bind_p (Page_destroy os p) (\<lambda>_. journal_destroy_pages os ps)"

definition Journal_destroy :: "(page_key \<Rightarrow> os_env) \<Rightarrow> unit journal_prog" where
  "Journal_destroy os =
     bind_p get_fst (\<lambda>j.
     bind_p (on_snd (journal_destroy_pages os (j_retire_queue j @
        (case j_page j of None \<Rightarrow> [] | Some p \<Rightarrow> [p]) @ j_retired j))) (\<lambda>_.
     bind_p (modify_fst (\<lambda>j. j\<lparr>j_page := None, j_retired := [], j_retire_queue := [],
       j_retire_running := False\<rparr>)) (\<lambda>_.
     releaseWarmedPage os)))"

end
