(* ===== verification/Min_Heap.thy ===== *)
theory Min_Heap
  imports Revoq_Prelude "HOL-Library.Multiset"
begin

section \<open>The priority queue of the reader\<close>

text \<open>
  \<^verbatim>\<open>std::make_heap\<close>, \<^verbatim>\<open>std::push_heap\<close>, \<^verbatim>\<open>std::pop_heap\<close> and \<^verbatim>\<open>std::priority_queue\<close> as
  \<^verbatim>\<open>JournalReader\<close> uses them (include/revoq/JournalReader.h), on lists that stand for the
  underlying vector, with the comparison as an argument and the element moves of the GNU library:
  the hole sinks to a leaf, then the value rises to its place.  The contract is an interface of its
  own (\<open>min_queue\<close>): what a queue holds after each operation, and that its top is least.
\<close>

subsection \<open>The algorithms\<close>

function push_up :: "('a \<Rightarrow> 'a \<Rightarrow> bool) \<Rightarrow> nat \<Rightarrow> 'a \<Rightarrow> 'a list \<Rightarrow> nat \<Rightarrow> 'a list" where
  "push_up cmp top_index v xs hole =
     (let parent = (hole - 1) div 2 in
      if top_index < hole \<and> cmp (xs ! parent) v
      then push_up cmp top_index v (xs[hole := xs ! parent]) parent
      else xs[hole := v])"
  by pat_completeness auto
termination by (relation "measure (\<lambda>(cmp, top_index, v, xs, hole). hole)") auto

declare push_up.simps [simp del]

lemma push_up_cases:
  "lo < h \<and> cmp (xs ! ((h - 1) div 2)) v \<Longrightarrow>
     push_up cmp lo v xs h = push_up cmp lo v (xs[h := xs ! ((h - 1) div 2)]) ((h - 1) div 2)"
  "\<not> (lo < h \<and> cmp (xs ! ((h - 1) div 2)) v) \<Longrightarrow> push_up cmp lo v xs h = xs[h := v]"
  by (subst push_up.simps, simp add: Let_def) (subst push_up.simps, auto simp: Let_def)

function sink :: "('a \<Rightarrow> 'a \<Rightarrow> bool) \<Rightarrow> nat \<Rightarrow> 'a list \<Rightarrow> nat \<Rightarrow> 'a list \<times> nat" where
  "sink cmp len xs hole =
     (if hole < (len - 1) div 2 then
        let child = 2 * (hole + 1);
            child = (if cmp (xs ! child) (xs ! (child - 1)) then child - 1 else child)
        in sink cmp len (xs[hole := xs ! child]) child
      else if even len \<and> hole = (len - 2) div 2
           then (xs[hole := xs ! (2 * (hole + 1) - 1)], 2 * (hole + 1) - 1)
      else (xs, hole))"
  by pat_completeness auto
termination by (relation "measure (\<lambda>(cmp, len, xs, hole). len - hole)") (auto simp: Let_def)

declare sink.simps [simp del]

definition adjust_heap :: "('a \<Rightarrow> 'a \<Rightarrow> bool) \<Rightarrow> nat \<Rightarrow> nat \<Rightarrow> 'a \<Rightarrow> 'a list \<Rightarrow> 'a list" where
  "adjust_heap cmp hole len v xs =
     (let (ys, bottom) = sink cmp len xs hole in push_up cmp hole v ys bottom)"

fun make_heap_from :: "('a \<Rightarrow> 'a \<Rightarrow> bool) \<Rightarrow> nat \<Rightarrow> 'a list \<Rightarrow> 'a list" where
  "make_heap_from cmp 0 xs = adjust_heap cmp 0 (length xs) (xs ! 0) xs"
| "make_heap_from cmp (Suc parent) xs =
     make_heap_from cmp parent (adjust_heap cmp (Suc parent) (length xs) (xs ! Suc parent) xs)"

definition make_heap :: "('a \<Rightarrow> 'a \<Rightarrow> bool) \<Rightarrow> 'a list \<Rightarrow> 'a list" where
  "make_heap cmp xs = (if length xs < 2 then xs else make_heap_from cmp ((length xs - 2) div 2) xs)"

definition pq_emplace :: "('a \<Rightarrow> 'a \<Rightarrow> bool) \<Rightarrow> 'a \<Rightarrow> 'a list \<Rightarrow> 'a list" where
  "pq_emplace cmp v xs = push_up cmp 0 v (xs @ [v]) (length xs)"

definition pq_pop :: "('a \<Rightarrow> 'a \<Rightarrow> bool) \<Rightarrow> 'a list \<Rightarrow> 'a list" where
  "pq_pop cmp xs =
     (if length xs > 1
      then butlast (adjust_heap cmp 0 (length xs - 1) (last xs) (xs[length xs - 1 := hd xs]))
      else butlast xs)"

subsection \<open>What a heap is\<close>

definition heap_from :: "('a \<Rightarrow> int) \<Rightarrow> nat \<Rightarrow> nat \<Rightarrow> 'a list \<Rightarrow> bool" where
  "heap_from key lo len xs \<longleftrightarrow>
     (\<forall>i. 0 < i \<longrightarrow> i < len \<longrightarrow> lo \<le> (i - 1) div 2 \<longrightarrow> key (xs ! ((i - 1) div 2)) \<le> key (xs ! i))"

definition is_heap :: "('a \<Rightarrow> int) \<Rightarrow> 'a list \<Rightarrow> bool" where
  "is_heap key xs \<longleftrightarrow> heap_from key 0 (length xs) xs"

text \<open>A heap with a hole at \<open>h\<close>: in order but for the hole, whose children are above its parent.\<close>

function descends :: "nat \<Rightarrow> nat \<Rightarrow> bool" where
  "descends lo h = (if h = lo then True else if lo < h then descends lo ((h - 1) div 2) else False)"
  by pat_completeness auto
termination by (relation "measure snd") auto

declare descends.simps [simp del]

lemma descends_ge: "descends lo h \<Longrightarrow> lo \<le> h"
  by (subst (asm) descends.simps) (auto split: if_splits)

lemma descends_parent: "descends lo h \<Longrightarrow> h \<noteq> lo \<Longrightarrow> descends lo ((h - 1) div 2) \<and> lo < h"
  by (subst (asm) descends.simps) (auto split: if_splits)

lemma descends_child: "descends lo h \<Longrightarrow> (c - 1) div 2 = h \<Longrightarrow> 0 < c \<Longrightarrow> descends lo c"
  using descends_ge [of lo h] by (subst descends.simps) auto

definition hole_heap :: "('a \<Rightarrow> int) \<Rightarrow> nat \<Rightarrow> nat \<Rightarrow> 'a list \<Rightarrow> nat \<Rightarrow> bool" where
  "hole_heap key lo len xs h \<longleftrightarrow> descends lo h \<and> h < len \<and>
     (\<forall>i. 0 < i \<longrightarrow> i < len \<longrightarrow> lo \<le> (i - 1) div 2 \<longrightarrow> i \<noteq> h \<longrightarrow> (i - 1) div 2 \<noteq> h \<longrightarrow>
        key (xs ! ((i - 1) div 2)) \<le> key (xs ! i)) \<and>
     (h \<noteq> lo \<longrightarrow> (\<forall>i. 0 < i \<longrightarrow> i < len \<longrightarrow> (i - 1) div 2 = h \<longrightarrow> key (xs ! ((h - 1) div 2)) \<le> key (xs ! i)))"

lemma mset_move:
  assumes "h < length xs" and "c < length xs" and "h \<noteq> c"
  shows "mset (xs[h := xs ! c, c := v]) = mset (xs[h := v])"
proof -
  have "mset ((xs[h := v])[h := (xs[h := v]) ! c, c := (xs[h := v]) ! h]) = mset (xs[h := v])"
    using assms by (intro mset_swap) simp_all
  then show ?thesis using assms by simp
qed

locale heap_order =
  fixes cmp :: "'a \<Rightarrow> 'a \<Rightarrow> bool" and key :: "'a \<Rightarrow> int"
  assumes cmp_key: "cmp a b \<longleftrightarrow> key b < key a"
begin

lemma push_up_length [simp]: "length (push_up cmp lo v xs h) = length xs"
proof (induction h arbitrary: xs rule: less_induct)
  case (less h)
  show ?case
  proof (cases "lo < h \<and> cmp (xs ! ((h - 1) div 2)) v")
    case True
    then have "(h - 1) div 2 < h" by auto
    with less show ?thesis unfolding push_up_cases(1) [of lo h cmp xs v, OF True] by simp
  next
    case False
    then show ?thesis unfolding push_up_cases(2) [of lo h cmp xs v, OF False] by simp
  qed
qed

lemma push_up_mset:
  "h < length xs \<Longrightarrow> mset (push_up cmp lo v xs h) = mset (xs[h := v])"
proof (induction h arbitrary: xs rule: less_induct)
  case (less h)
  let ?p = "(h - 1) div 2"
  show ?case
  proof (cases "lo < h \<and> cmp (xs ! ?p) v")
    case False
    then show ?thesis unfolding push_up_cases(2) [of lo h cmp xs v, OF False] by simp
  next
    case True
    then have p: "?p < h" by auto
    have "mset (push_up cmp lo v xs h) = mset (push_up cmp lo v (xs[h := xs ! ?p]) ?p)"
      unfolding push_up_cases(1) [of lo h cmp xs v, OF True] ..
    also have "\<dots> = mset (xs[h := xs ! ?p, ?p := v])" using less p by simp
    also have "\<dots> = mset (xs[h := v])"
      using p less.prems by (intro mset_move) simp_all
    finally show ?thesis .
  qed
qed

lemma push_up_outside: "h < len \<Longrightarrow> len \<le> i \<Longrightarrow> push_up cmp lo v xs h ! i = xs ! i"
proof (induction h arbitrary: xs rule: less_induct)
  case (less h)
  show ?case
  proof (cases "lo < h \<and> cmp (xs ! ((h - 1) div 2)) v")
    case True
    then have "(h - 1) div 2 < h" by auto
    with less show ?thesis unfolding push_up_cases(1) [of lo h cmp xs v, OF True] by simp
  next
    case False
    then show ?thesis unfolding push_up_cases(2) [of lo h cmp xs v, OF False] using less.prems by simp
  qed
qed

text \<open>A hole may be filled with a value between its parent and its children; otherwise the parent moves down and the hole rises.\<close>

lemma hole_filled:
  assumes hole: "hole_heap key lo len xs h" and len: "len \<le> length xs" and up: "h \<noteq> lo \<Longrightarrow> key (xs ! ((h - 1) div 2)) \<le> key v"
    and down: "\<forall>i. 0 < i \<longrightarrow> i < len \<longrightarrow> (i - 1) div 2 = h \<longrightarrow> key v \<le> key (xs ! i)"
  shows "heap_from key lo len (xs[h := v])"
  unfolding heap_from_def
proof (intro allI impI)
  fix i assume i: "0 < i" "i < len" "lo \<le> (i - 1) div 2"
  then have lt: "(i - 1) div 2 < i" by auto
  consider "i = h" | "(i - 1) div 2 = h" "i \<noteq> h" | "i \<noteq> h" "(i - 1) div 2 \<noteq> h" by blast
  then show "key (xs[h := v] ! ((i - 1) div 2)) \<le> key (xs[h := v] ! i)"
  proof cases
    case 1
    then have "h \<noteq> lo" using lt i by auto
    then show ?thesis using 1 up lt i len by simp
  next
    case 2
    then show ?thesis using len down i lt by simp
  next
    case 3
    then show ?thesis using hole i by (simp add: hole_heap_def)
  qed
qed

lemma hole_rises:
  assumes hole: "hole_heap key lo len xs h" and len: "len \<le> length xs" and lo: "lo < h"
  defines "p \<equiv> (h - 1) div 2"
  defines "ys \<equiv> xs[h := xs ! p]"
  shows "hole_heap key lo len ys p" and "0 < i \<Longrightarrow> i < len \<Longrightarrow> (i - 1) div 2 = p \<Longrightarrow> key (xs ! p) \<le> key (ys ! i)"
proof -
  note hole' = hole [unfolded hole_heap_def]
  have p: "p < h" using lo by (auto simp: p_def)
  have d: "descends lo p" using descends_parent [of lo h] hole' lo by (simp add: p_def)
  have h: "h < length xs" "lo \<le> p" using hole' len descends_ge [OF d] by auto
  have ys: "ys ! i = (if i = h then xs ! p else xs ! i)" for i using h by (simp add: ys_def nth_list_update)
  show child: "key (xs ! p) \<le> key (ys ! i)" if "0 < i" "i < len" "(i - 1) div 2 = p" for i
  proof (cases "i = h")
    case False
    have "(i - 1) div 2 \<noteq> h" "lo \<le> (i - 1) div 2" using that h p by simp_all
    with hole' that False have "key (xs ! ((i - 1) div 2)) \<le> key (xs ! i)" by blast
    with that False show ?thesis by (simp add: ys)
  qed (simp add: ys)
  show "hole_heap key lo len ys p"
    unfolding hole_heap_def
  proof (intro conjI allI impI)
    show "descends lo p" "p < len" using d hole' p by auto
  next
    fix i assume i: "0 < i" "i < len" "lo \<le> (i - 1) div 2" "i \<noteq> p" "(i - 1) div 2 \<noteq> p"
    then have "i \<noteq> h" by (auto simp: p_def)
    then show "key (ys ! ((i - 1) div 2)) \<le> key (ys ! i)"
      using hole' i lo h(1) by (cases "(i - 1) div 2 = h") (simp_all add: ys p_def)
  next
    fix i assume i: "p \<noteq> lo" "0 < i" "i < len" "(i - 1) div 2 = p"
    have pp: "lo \<le> (p - 1) div 2" "lo < p" using descends_parent [OF d i(1)] descends_ge by auto
    have ne: "0 < p" "p < len" "p \<noteq> h" "(p - 1) div 2 \<noteq> h" using pp p hole' by linarith+
    then have "key (xs ! ((p - 1) div 2)) \<le> key (xs ! p)" using hole' pp(1) by blast
    with child [OF i(2-4)] ne(4) show "key (ys ! ((p - 1) div 2)) \<le> key (ys ! i)"
      by (simp only: ys if_False)
  qed
qed

lemma push_up_heap:
  assumes "hole_heap key lo len xs h" and "len \<le> length xs"
    and "\<forall>i. 0 < i \<longrightarrow> i < len \<longrightarrow> (i - 1) div 2 = h \<longrightarrow> key v \<le> key (xs ! i)"
  shows "heap_from key lo len (push_up cmp lo v xs h)"
  using assms
proof (induction h arbitrary: xs rule: less_induct)
  case (less h)
  let ?p = "(h - 1) div 2"
  show ?case
  proof (cases "lo < h \<and> cmp (xs ! ?p) v")
    case False
    have "key (xs ! ?p) \<le> key v" if "h \<noteq> lo"
      using False that less.prems(1) descends_ge [of lo h] by (auto simp: cmp_key hole_heap_def)
    then have "heap_from key lo len (xs[h := v])" by (rule hole_filled [OF less.prems(1,2) _ less.prems(3)])
    then show ?thesis unfolding push_up_cases(2) [of lo h cmp xs v, OF False] .
  next
    case True
    then have p: "?p < h" and pv: "key v < key (xs ! ?p)" by (auto simp: cmp_key)
    note rise = hole_rises [OF less.prems(1,2) conjunct1 [OF True]]
    have "\<forall>i. 0 < i \<longrightarrow> i < len \<longrightarrow> (i - 1) div 2 = ?p \<longrightarrow> key v \<le> key (xs[h := xs ! ?p] ! i)"
      using rise(2) pv by (meson less_imp_le order.trans)
    then have "heap_from key lo len (push_up cmp lo v (xs[h := xs ! ?p]) ?p)"
      using less.IH [OF p rise(1)] less.prems(2) by simp
    then show ?thesis unfolding push_up_cases(1) [of lo h cmp xs v, OF True] .
  qed
qed

lemma hole_descends:
  assumes hole: "hole_heap key lo len xs h" and len: "len \<le> length xs"
    and c: "0 < c" "c < len" "(c - 1) div 2 = h"
    and least: "\<forall>i. 0 < i \<longrightarrow> i < len \<longrightarrow> (i - 1) div 2 = h \<longrightarrow> key (xs ! c) \<le> key (xs ! i)"
  shows "hole_heap key lo len (xs[h := xs ! c]) c"
proof -
  note hole' = hole [unfolded hole_heap_def]
  have lt: "h < c" "h < length xs" "lo \<le> h" using c hole' len descends_ge by auto
  show ?thesis
    unfolding hole_heap_def
  proof (intro conjI allI impI)
    show "descends lo c" using hole' c descends_child by blast
    show "c < len" by fact
  next
    fix i assume i: "0 < i" "i < len" "lo \<le> (i - 1) div 2" "i \<noteq> c" "(i - 1) div 2 \<noteq> c"
    have "(i - 1) div 2 < i" using i by auto
    consider "i = h" | "i \<noteq> h" "(i - 1) div 2 = h" | "i \<noteq> h" "(i - 1) div 2 \<noteq> h" by blast
    then show "key (xs[h := xs ! c] ! ((i - 1) div 2)) \<le> key (xs[h := xs ! c] ! i)"
    proof cases
      case 1
      then have "h \<noteq> lo" "(h - 1) div 2 \<noteq> h" using i lt by auto
      with hole' c have "key (xs ! ((h - 1) div 2)) \<le> key (xs ! c)" by blast
      then show ?thesis using 1 lt \<open>(h - 1) div 2 \<noteq> h\<close> by simp
    next
      case 2
      then show ?thesis using least i lt by simp
    next
      case 3
      then show ?thesis using hole' i by simp
    qed
  next
    fix i assume i: "0 < i" "i < len" "(i - 1) div 2 = c"
    then have "i \<noteq> h" "i \<noteq> c" "lo \<le> (i - 1) div 2" "(i - 1) div 2 \<noteq> h" using lt c by auto
    with hole' i have "key (xs ! c) \<le> key (xs ! i)" by blast
    then show "key (xs[h := xs ! c] ! ((c - 1) div 2)) \<le> key (xs[h := xs ! c] ! i)"
      using c(3) lt \<open>i \<noteq> h\<close> by simp
  qed
qed

lemma sink_ok:
  assumes "hole_heap key lo len xs h" and "len \<le> length xs" and "0 < len"
  shows "\<exists>ys b. sink cmp len xs h = (ys, b) \<and> hole_heap key lo len ys b \<and> length ys = length xs \<and>
    (\<forall>i. 0 < i \<longrightarrow> i < len \<longrightarrow> (i - 1) div 2 \<noteq> b) \<and> (\<forall>v. mset (ys[b := v]) = mset (xs[h := v])) \<and>
    (\<forall>i \<ge> len. ys ! i = xs ! i)"
  using assms
proof (induction "len - h" arbitrary: xs h rule: less_induct)
  case less
  have h: "h < len" using less.prems(1) by (simp add: hole_heap_def)
  have step: ?case
    if c: "0 < c" "c < len" "(c - 1) div 2 = h" "h < c"
      "\<forall>i. 0 < i \<longrightarrow> i < len \<longrightarrow> (i - 1) div 2 = h \<longrightarrow> key (xs ! c) \<le> key (xs ! i)"
      and run: "sink cmp len xs h = sink cmp len (xs[h := xs ! c]) c" for c
  proof -
    have "hole_heap key lo len (xs[h := xs ! c]) c"
      by (rule hole_descends [OF less.prems(1,2) c(1-3,5)])
    moreover have "len - c < len - h" using c(2,4) by simp
    ultimately obtain ys b where ys: "sink cmp len (xs[h := xs ! c]) c = (ys, b)" "hole_heap key lo len ys b" "length ys = length xs"
      "\<forall>i. 0 < i \<longrightarrow> i < len \<longrightarrow> (i - 1) div 2 \<noteq> b" "\<forall>v. mset (ys[b := v]) = mset (xs[h := xs ! c, c := v])"
      "\<forall>i \<ge> len. ys ! i = xs[h := xs ! c] ! i"
      using less.hyps [of c "xs[h := xs ! c]"] less.prems(2,3) by auto
    moreover have "mset (xs[h := xs ! c, c := v]) = mset (xs[h := v])" for v
      using c h less.prems(2) by (intro mset_move) auto
    ultimately show ?thesis using run h by (intro exI [of _ ys] exI [of _ b]) simp
  qed
  consider "h < (len - 1) div 2" | "\<not> h < (len - 1) div 2" "even len \<and> h = (len - 2) div 2"
    | "\<not> h < (len - 1) div 2" "\<not> (even len \<and> h = (len - 2) div 2)" by blast
  then show ?case
  proof cases
    case 1
    define c where "c = (if cmp (xs ! (2 * (h + 1))) (xs ! (2 * (h + 1) - 1)) then 2 * (h + 1) - 1 else 2 * (h + 1))"
    have run: "sink cmp len xs h = sink cmp len (xs[h := xs ! c]) c"
      using 1 by (subst sink.simps) (simp add: c_def Let_def)
    have bounds: "0 < c" "c < len" "(c - 1) div 2 = h" "h < c" using 1 by (auto simp: c_def)
    have "key (xs ! c) \<le> key (xs ! i)" if "0 < i" "(i - 1) div 2 = h" for i
    proof -
      have "i = 2 * h + 1 \<or> i = 2 * h + 2" using that by presburger
      then show ?thesis by (auto simp: c_def cmp_key)
    qed
    with step [OF bounds _ run] show ?thesis by blast
  next
    case 2
    let ?c = "2 * (h + 1) - 1"
    have lt: "?c < len" "0 < ?c" "h < ?c" "(?c - 1) div 2 = h" using 2 less.prems(3) by auto
    have stop: "sink cmp len (xs[h := xs ! ?c]) ?c = (xs[h := xs ! ?c], ?c)"
      using 2 lt by (subst sink.simps) auto
    have run: "sink cmp len xs h = sink cmp len (xs[h := xs ! ?c]) ?c"
      unfolding stop using 2 by (subst sink.simps) simp
    have "i = ?c" if "0 < i" "i < len" "(i - 1) div 2 = h" for i
    proof -
      have "i = 2 * h + 1 \<or> i = 2 * h + 2" using that by presburger
      then show ?thesis using that 2 by auto
    qed
    with step [OF lt(2,1,4,3) _ run] show ?thesis by auto
  next
    case 3
    have "(i - 1) div 2 \<noteq> h" if "0 < i" "i < len" for i
      using that 3 by (auto elim!: evenE oddE)
    then show ?thesis using 3 less.prems by (subst sink.simps) auto
  qed
qed

lemma adjust_heap_ok:
  assumes hole: "hole_heap key lo len xs lo" and len: "len \<le> length xs" "0 < len"
  shows "heap_from key lo len (adjust_heap cmp lo len v xs)" and "mset (adjust_heap cmp lo len v xs) = mset (xs[lo := v])"
    and "length (adjust_heap cmp lo len v xs) = length xs"
    and "\<forall>i \<ge> len. adjust_heap cmp lo len v xs ! i = xs ! i"
proof -
  obtain ys b where ys: "sink cmp len xs lo = (ys, b)" "hole_heap key lo len ys b" "length ys = length xs"
    "\<forall>i. 0 < i \<longrightarrow> i < len \<longrightarrow> (i - 1) div 2 \<noteq> b" "\<forall>v. mset (ys[b := v]) = mset (xs[lo := v])"
    "\<forall>i \<ge> len. ys ! i = xs ! i"
    using sink_ok [OF hole len] by blast
  have b: "b < len" using ys(2) by (simp add: hole_heap_def)
  have run: "adjust_heap cmp lo len v xs = push_up cmp lo v ys b" by (simp add: adjust_heap_def ys(1))
  show "heap_from key lo len (adjust_heap cmp lo len v xs)"
    unfolding run using push_up_heap [OF ys(2)] ys(3,4) len by simp
  show "mset (adjust_heap cmp lo len v xs) = mset (xs[lo := v])"
    unfolding run using push_up_mset [of b ys lo v] ys(3,5) b len by simp
  show "length (adjust_heap cmp lo len v xs) = length xs" unfolding run using ys(3) by simp
  show "\<forall>i \<ge> len. adjust_heap cmp lo len v xs ! i = xs ! i"
    unfolding run using push_up_outside [OF b] ys(6) by simp
qed

lemma make_heap_from_ok:
  assumes "heap_from key (Suc parent) (length xs) xs" and "parent < length xs"
  shows "heap_from key 0 (length xs) (make_heap_from cmp parent xs) \<and> mset (make_heap_from cmp parent xs) = mset xs"
  using assms
proof (induction parent arbitrary: xs)
  case 0
  have "hole_heap key 0 (length xs) xs 0"
    using 0 descends.simps [of 0 0] by (auto simp: hole_heap_def heap_from_def)
  from adjust_heap_ok(1,2) [OF this] 0 show ?case by simp
next
  case (Suc n)
  have "hole_heap key (Suc n) (length xs) xs (Suc n)"
    using Suc.prems descends.simps [of "Suc n" "Suc n"] by (auto simp: hole_heap_def heap_from_def)
  from adjust_heap_ok(1-3) [OF this _ _] Suc.prems
  have "heap_from key (Suc n) (length xs) (adjust_heap cmp (Suc n) (length xs) (xs ! Suc n) xs)"
    "mset (adjust_heap cmp (Suc n) (length xs) (xs ! Suc n) xs) = mset xs"
    "length (adjust_heap cmp (Suc n) (length xs) (xs ! Suc n) xs) = length xs" by fastforce+
  with Suc.IH [of "adjust_heap cmp (Suc n) (length xs) (xs ! Suc n) xs"] Suc.prems show ?case by simp
qed

lemma make_heap_ok: "is_heap key (make_heap cmp xs)" "mset (make_heap cmp xs) = mset xs"
proof -
  have "is_heap key (make_heap cmp xs) \<and> mset (make_heap cmp xs) = mset xs"
  proof (cases "length xs < 2")
    case True
    then show ?thesis by (auto simp: make_heap_def is_heap_def heap_from_def)
  next
    case False
    have "heap_from key (Suc ((length xs - 2) div 2)) (length xs) xs"
      unfolding heap_from_def
    proof (intro allI impI)
      fix i assume i: "0 < i" "i < length xs" "Suc ((length xs - 2) div 2) \<le> (i - 1) div 2"
      then have False by presburger
      then show "key (xs ! ((i - 1) div 2)) \<le> key (xs ! i)" ..
    qed
    moreover have "(length xs - 2) div 2 < length xs" using False by simp
    ultimately have "heap_from key 0 (length xs) (make_heap cmp xs) \<and> mset (make_heap cmp xs) = mset xs"
      using make_heap_from_ok False by (simp add: make_heap_def)
    moreover from this have "length (make_heap cmp xs) = length xs" by (metis size_mset)
    ultimately show ?thesis by (simp add: is_heap_def)
  qed
  then show "is_heap key (make_heap cmp xs)" "mset (make_heap cmp xs) = mset xs" by simp_all
qed

lemma pq_emplace_ok:
  assumes "is_heap key xs"
  shows "is_heap key (pq_emplace cmp v xs)" and "mset (pq_emplace cmp v xs) = add_mset v (mset xs)"
proof -
  have d: "descends 0 h" for h
    by (induction h rule: less_induct) (subst descends.simps, auto)
  have "hole_heap key 0 (length (xs @ [v])) (xs @ [v]) (length xs)"
    using assms d by (auto simp: hole_heap_def is_heap_def heap_from_def nth_append)
  moreover have "(i - 1) div 2 \<noteq> length xs" if "0 < i" "i < length (xs @ [v])" for i using that by auto
  ultimately have "heap_from key 0 (length (xs @ [v])) (push_up cmp 0 v (xs @ [v]) (length xs))"
    by (intro push_up_heap) auto
  then show "is_heap key (pq_emplace cmp v xs)"
    by (simp add: pq_emplace_def is_heap_def)
  show "mset (pq_emplace cmp v xs) = add_mset v (mset xs)"
    by (simp add: pq_emplace_def push_up_mset)
qed

lemma heap_top_least:
  assumes "is_heap key xs" and "i < length xs"
  shows "key (xs ! 0) \<le> key (xs ! i)"
  using assms(2)
proof (induction i rule: less_induct)
  case (less i)
  show ?case
  proof (cases "i = 0")
    case False
    then have p: "(i - 1) div 2 < i" by auto
    then have "key (xs ! 0) \<le> key (xs ! ((i - 1) div 2))" using less by simp
    also have "\<dots> \<le> key (xs ! i)" using assms(1) less.prems False by (auto simp: is_heap_def heap_from_def)
    finally show ?thesis .
  qed simp
qed

lemma pq_pop_ok:
  assumes "is_heap key xs" and "xs \<noteq> []"
  shows "is_heap key (pq_pop cmp xs)" and "mset (pq_pop cmp xs) = mset xs - {# hd xs #}"
proof -
  have "is_heap key (pq_pop cmp xs) \<and> mset (pq_pop cmp xs) = mset xs - {# hd xs #}"
  proof (cases "length xs > 1")
    case False
    then obtain x where "xs = [x]" using assms(2) by (cases xs) auto
    then show ?thesis by (simp add: pq_pop_def is_heap_def heap_from_def)
  next
    case True
    let ?n = "length xs - 1" and ?zs = "xs[length xs - 1 := hd xs]"
    let ?a = "adjust_heap cmp 0 ?n (last xs) ?zs"
    have hole: "hole_heap key 0 ?n ?zs 0"
      using assms(1) True descends.simps [of 0 0] by (auto simp: hole_heap_def is_heap_def heap_from_def nth_list_update)
    have len: "?n \<le> length ?zs" "0 < ?n" using True by simp_all
    note a = adjust_heap_ok [OF hole len, of "last xs"]
    have m: "mset ?a = mset xs"
    proof -
      have "last xs = xs ! ?n" "hd xs = xs ! 0" using assms(2) by (simp_all add: last_conv_nth hd_conv_nth)
      then have "?zs[0 := last xs] = xs[?n := xs ! 0, 0 := xs ! ?n]" by simp
      moreover have "mset (xs[?n := xs ! 0, 0 := xs ! ?n]) = mset xs" using True assms(2) by (intro mset_swap) simp_all
      ultimately show ?thesis using a(2) by simp
    qed
    have ne: "?a \<noteq> []" using a(3) assms(2) by (metis length_0_conv length_list_update)
    have "last ?a = ?a ! ?n" using ne a(3) by (simp add: last_conv_nth)
    also have "\<dots> = ?zs ! ?n" using a(4) by simp
    finally have la: "last ?a = hd xs" using assms(2) by simp
    have "mset ?a = add_mset (last ?a) (mset (butlast ?a))"
      using ne by (metis append_butlast_last_id mset.simps(2) mset_append union_mset_add_mset_right mset.simps(1) add.right_neutral)
    moreover have "is_heap key (butlast ?a)"
      using a(1,3) by (auto simp: is_heap_def heap_from_def nth_butlast)
    moreover from calculation(1) have "mset (butlast ?a) = mset xs - {# hd xs #}"
      unfolding m la by (metis add_mset_remove_trivial)
    ultimately show ?thesis using True by (simp add: pq_pop_def)
  qed
  then show "is_heap key (pq_pop cmp xs)" "mset (pq_pop cmp xs) = mset xs - {# hd xs #}" by simp_all
qed

end

subsection \<open>The contract of a priority queue\<close>

locale min_queue =
  fixes make :: "'a list \<Rightarrow> 'q" and emplace :: "'a \<Rightarrow> 'q \<Rightarrow> 'q" and pop :: "'q \<Rightarrow> 'q" and peek :: "'q \<Rightarrow> 'a"
    and content :: "'q \<Rightarrow> 'a multiset" and valid :: "'q \<Rightarrow> bool" and key :: "'a \<Rightarrow> int"
  assumes make_valid: "valid (make xs)" and make_content: "content (make xs) = mset xs"
    and emplace_valid: "valid q \<Longrightarrow> valid (emplace x q)"
    and emplace_content: "valid q \<Longrightarrow> content (emplace x q) = add_mset x (content q)"
    and pop_valid: "valid q \<Longrightarrow> content q \<noteq> {#} \<Longrightarrow> valid (pop q)"
    and pop_content: "valid q \<Longrightarrow> content q \<noteq> {#} \<Longrightarrow> content (pop q) = content q - {# peek q #}"
    and peek_in: "valid q \<Longrightarrow> content q \<noteq> {#} \<Longrightarrow> peek q \<in># content q"
    and peek_least: "valid q \<Longrightarrow> x \<in># content q \<Longrightarrow> key (peek q) \<le> key x"
begin

text \<open>Taking the top repeatedly gives the content in the order of the keys.\<close>

fun take_all :: "nat \<Rightarrow> 'q \<Rightarrow> 'a list" where
  "take_all 0 q = []"
| "take_all (Suc n) q = peek q # take_all n (pop q)"

lemma take_all_sorted:
  "valid q \<Longrightarrow> size (content q) = n \<Longrightarrow>
   mset (take_all n q) = content q \<and> sorted (map key (take_all n q))"
proof (induction n arbitrary: q)
  case (Suc n)
  then have ne: "content q \<noteq> {#}" by auto
  note v = pop_valid [OF Suc.prems(1) ne] and c = pop_content [OF Suc.prems(1) ne]
  note i = peek_in [OF Suc.prems(1) ne]
  have "size (content (pop q)) = n" using c i Suc.prems(2) by (simp add: size_Diff_singleton)
  with Suc.IH [OF v] have ih: "mset (take_all n (pop q)) = content (pop q)" "sorted (map key (take_all n (pop q)))" by simp_all
  have "key (peek q) \<le> key y" if "y \<in> set (take_all n (pop q))" for y
  proof -
    have "y \<in># content (pop q)" using that ih(1) by (metis set_mset_mset)
    then show ?thesis using c peek_least [OF Suc.prems(1)] by (auto dest: in_diffD)
  qed
  then show ?case using ih c i by simp
qed simp

lemma least_after_replace:
  assumes "valid q" and "content q \<noteq> {#}" and "x \<in># add_mset y (content q - {# peek q #})"
  shows "key (peek (emplace y (pop q))) \<le> key x"
  using assms by (intro peek_least) (simp_all add: pop_valid pop_content emplace_valid emplace_content)

end

sublocale heap_order \<subseteq> std_queue: min_queue "make_heap cmp" "pq_emplace cmp" "pq_pop cmp" hd mset "is_heap key" key
proof
  fix xs :: "'a list" and x
  show "is_heap key (make_heap cmp xs)" "mset (make_heap cmp xs) = mset xs" by (rule make_heap_ok)+
  show "is_heap key (pq_emplace cmp x xs)" "mset (pq_emplace cmp x xs) = add_mset x (mset xs)" if "is_heap key xs"
    using that by (rule pq_emplace_ok)+
  show "is_heap key (pq_pop cmp xs)" "mset (pq_pop cmp xs) = mset xs - {# hd xs #}"
    if "is_heap key xs" "mset xs \<noteq> {#}"
    using that by (auto intro: pq_pop_ok)
  show "hd xs \<in># mset xs" if "mset xs \<noteq> {#}" using that by simp
  show "key (hd xs) \<le> key x" if h: "is_heap key xs" and x: "x \<in># mset xs"
  proof -
    obtain i where i: "i < length xs" "x = xs ! i" using x by (auto simp: in_set_conv_nth)
    then have "hd xs = xs ! 0" by (cases xs) auto
    with heap_top_least [OF h i(1)] i(2) show ?thesis by simp
  qed
qed

end
