(* ===== verification/Journal_Reader.thy ===== *)
theory Journal_Reader
  imports Journal_Cursor Min_Heap
begin

section \<open>The journal reader (include/revoq/JournalReader.h)\<close>

text \<open>
  Class \<^verbatim>\<open>JournalReader\<close>: the joined journals, the index of the one whose frame is current
  (\<open>None\<close> for \<^verbatim>\<open>size_t(-1)\<close>), and the heap of (time, index) pairs that orders more than three of
  them.  A \<^verbatim>\<open>Frame*\<close> is the index of the journal that owns the frame object.  The merge compares
  generation times as signed 64-bit numbers.
\<close>

subsection \<open>State\<close>

record JournalReaderOptions =
  ro_prefault :: bool
  ro_background_threads :: bool
  ro_retained_page_limit :: nat

definition JournalComparator :: "u64 \<times> nat \<Rightarrow> u64 \<times> nat \<Rightarrow> bool" where
  "JournalComparator a b \<longleftrightarrow> sint (fst a) > sint (fst b)"

record FrameView =
  fv_frame :: "nat option"
  fv_frame_length :: u32
  fv_msg_type :: int

definition empty_view :: FrameView where
  "empty_view = \<lparr>fv_frame = None, fv_frame_length = 0, fv_msg_type = 0\<rparr>"

record JournalReader =
  rd_prefault :: bool
  rd_background :: bool
  rd_retained :: nat
  rd_current :: "nat option"
  rd_needs_rebuild :: bool
  rd_use_heap :: bool
  rd_journals :: "Journal list"
  rd_single_journal :: "nat option"
  rd_single_frame :: "nat option"
  rd_joined_keys :: "u64 set"
  rd_heap :: "(u64 \<times> nat) list"

type_synonym 'a reader_prog = "(JournalReader \<times> page_key kernel, 'a) prog"

definition JournalReader_new :: "JournalReaderOptions \<Rightarrow> JournalReader" where
  "JournalReader_new options =
     \<lparr>rd_prefault = ro_prefault options, rd_background = ro_background_threads options,
      rd_retained = ro_retained_page_limit options, rd_current = None, rd_needs_rebuild = True,
      rd_use_heap = True, rd_journals = [], rd_single_journal = None, rd_single_frame = None,
      rd_joined_keys = {}, rd_heap = []\<rparr>"

definition makeKey :: "u32 \<Rightarrow> u32 \<Rightarrow> u64" where
  "makeKey location_uid dest_id = push_bit 32 (ucast location_uid) OR ucast dest_id"

subsection \<open>Access to one journal\<close>

definition on_journal :: "nat \<Rightarrow> 'a journal_prog \<Rightarrow> 'a reader_prog" where
  "on_journal i p = (\<lambda>(r, K).
     if i < length (rd_journals r) then
       (case p (rd_journals r ! i, K) of
          (res, (j, K')) \<Rightarrow> (res, (r\<lparr>rd_journals := (rd_journals r)[i := j]\<rparr>, K')))
     else (Inl Segv, (r, K)))"

text \<open>The length, the type and the time in the header of the current frame of journal \<open>i\<close>.\<close>

definition peek_frame :: "nat \<Rightarrow> (u32 \<times> int \<times> u64) reader_prog" where
  "peek_frame i = on_journal i
     (bind_p current_frame (\<lambda>m. bind_p get_fst (\<lambda>j.
      return_p (getFrameLength m (j_frame j), getMsgType m (j_frame j), getGenTime m (j_frame j)))))"

definition frame_hasData :: "nat \<Rightarrow> bool reader_prog" where
  "frame_hasData i = bind_p (peek_frame i) (\<lambda>(len, ty, _). return_p (hasData_with len ty))"

subsection \<open>Joining\<close>

definition refreshSingleJournal :: "JournalReader \<Rightarrow> JournalReader" where
  "refreshSingleJournal r =
     (if length (rd_journals r) = 1
      then r\<lparr>rd_single_journal := Some 0, rd_single_frame := Some 0, rd_current := Some 0\<rparr>
      else r\<lparr>rd_single_journal := None, rd_single_frame := None\<rparr>)"

text \<open>\<^verbatim>\<open>join\<close>.  When the seek throws, the journal object is destroyed and the reader is unchanged.\<close>

definition join_reader ::
    "(page_key \<Rightarrow> os_env) \<Rightarrow> nat \<Rightarrow> Location \<Rightarrow> u32 \<Rightarrow> u64 \<Rightarrow> unit reader_prog" where
  "join_reader os fuel location dest_id from_time = (\<lambda>(r, K).
     let key = makeKey (loc_uid location) dest_id in
     if key \<in> rd_joined_keys r then (Inr (), (r, K))
     else
       let options = \<lparr>jo_is_writing = False, jo_prefault = rd_prefault r,
             jo_background_threads = rd_background r, jo_retained_page_limit = rd_retained r\<rparr>
       in case journal_seekToTime os fuel from_time (Journal_new location dest_id options, K) of
            (Inl e, (j, K')) \<Rightarrow>
              (Inl e, (r, if is_exception e then snd (snd (Journal_destroy os (j, K'))) else K'))
          | (Inr _, (j, K')) \<Rightarrow>
              (Inr (), ((refreshSingleJournal (r\<lparr>rd_journals := rd_journals r @ [j],
                 rd_joined_keys := insert key (rd_joined_keys r)\<rparr>))\<lparr>rd_needs_rebuild := True\<rparr>, K')))"

fun destroy_journals :: "(page_key \<Rightarrow> os_env) \<Rightarrow> Journal list \<Rightarrow> page_key kernel \<Rightarrow> page_key kernel" where
  "destroy_journals os [] K = K"
| "destroy_journals os (j # js) K = destroy_journals os js (snd (snd (Journal_destroy os (j, K))))"

definition disjoin :: "(page_key \<Rightarrow> os_env) \<Rightarrow> u32 \<Rightarrow> unit reader_prog" where
  "disjoin os location_uid = (\<lambda>(r, K).
     let gone = filter (\<lambda>j. loc_uid (j_location j) = location_uid) (rd_journals r);
         kept = filter (\<lambda>j. loc_uid (j_location j) \<noteq> location_uid) (rd_journals r);
         K' = destroy_journals os gone K
     in if length kept \<noteq> length (rd_journals r) then
          (Inr (), ((refreshSingleJournal (r\<lparr>rd_journals := kept,
             rd_joined_keys := set (map (\<lambda>j. makeKey (loc_uid (j_location j)) (j_dest_id j)) kept),
             rd_current := None\<rparr>))\<lparr>rd_needs_rebuild := True\<rparr>, K'))
        else (Inr (), (r, K)))"

definition JournalReader_destroy :: "(page_key \<Rightarrow> os_env) \<Rightarrow> unit reader_prog" where
  "JournalReader_destroy os = (\<lambda>(r, K).
     (Inr (), (r\<lparr>rd_journals := []\<rparr>, destroy_journals os (rd_journals r) K)))"

definition getJournalCount :: "JournalReader \<Rightarrow> nat" where
  "getJournalCount r = length (rd_journals r)"

definition isJoined :: "u32 \<Rightarrow> u32 \<Rightarrow> JournalReader \<Rightarrow> bool" where
  "isJoined location_uid dest_id r \<longleftrightarrow> makeKey location_uid dest_id \<in> rd_joined_keys r"

definition setUseHeap :: "bool \<Rightarrow> JournalReader \<Rightarrow> JournalReader" where
  "setUseHeap use_heap r = r\<lparr>rd_use_heap := use_heap, rd_needs_rebuild := True\<rparr>"

subsection \<open>The current journal\<close>

definition current_index :: "JournalReader \<Rightarrow> nat option" where
  "current_index r = (case rd_current r of
     None \<Rightarrow> None | Some i \<Rightarrow> if i < length (rd_journals r) then Some i else None)"

definition getCurrentJournalPageId :: "int reader_prog" where
  "getCurrentJournalPageId = bind_p get_fst (\<lambda>r. case current_index r of
     None \<Rightarrow> return_p (- 1)
   | Some i \<Rightarrow> on_journal i (bind_p the_current (\<lambda>p. return_p (pg_page_id p))))"

definition getCurrentJournalFrameOffset :: "JournalReader \<Rightarrow> nat" where
  "getCurrentJournalFrameOffset r = (case current_index r of
     None \<Rightarrow> 0
   | Some i \<Rightarrow> (case j_page (rd_journals r ! i) of None \<Rightarrow> 0 | Some _ \<Rightarrow> j_frame (rd_journals r ! i)))"

definition getCurrentJournalPageSize :: "u32 reader_prog" where
  "getCurrentJournalPageSize = bind_p get_fst (\<lambda>r. case current_index r of
     None \<Rightarrow> return_p 0
   | Some i \<Rightarrow> on_journal i (bind_p get_fst (\<lambda>j. case j_page j of
       None \<Rightarrow> return_p 0
     | Some p \<Rightarrow> on_snd (bind_p (page_read p 0 sizeof_PageHeader) (\<lambda>m.
         return_p (ph_page_size (PageHeader_at m)))))))"

subsection \<open>Choosing the journal with the earliest frame\<close>

text \<open>The loop of \<^verbatim>\<open>rebuildHeap\<close>: the (time, index) pairs of the journals with data.\<close>

fun collect_times :: "nat list \<Rightarrow> (u64 \<times> nat) list reader_prog" where
  "collect_times [] = return_p []"
| "collect_times (i # is) =
     bind_p (peek_frame i) (\<lambda>(len, ty, t).
     bind_p (collect_times is) (\<lambda>rest.
     return_p (if hasData_with len ty then (t, i) # rest else rest)))"

definition INT64_MAX :: u64 where
  "INT64_MAX = 0x7FFFFFFFFFFFFFFF"

fun linear_scan :: "nat list \<Rightarrow> u64 \<times> nat option \<Rightarrow> (u64 \<times> nat option) reader_prog" where
  "linear_scan [] best = return_p best"
| "linear_scan (i # is) best =
     bind_p (peek_frame i) (\<lambda>(len, ty, t).
     linear_scan is (if hasData_with len ty \<and> sint t < sint (fst best) then (t, Some i) else best))"

definition findMinimumLinear :: "unit reader_prog" where
  "findMinimumLinear =
     bind_p get_fst (\<lambda>r.
     bind_p (linear_scan [0..<length (rd_journals r)] (INT64_MAX, None)) (\<lambda>best.
     modify_fst (\<lambda>r. r\<lparr>rd_current := snd best\<rparr>)))"

definition heap_mode :: "JournalReader \<Rightarrow> bool" where
  "heap_mode r \<longleftrightarrow> rd_use_heap r \<and> length (rd_journals r) > 3"

text \<open>
  \<^verbatim>\<open>std::make_heap\<close> orders the vector and gives the current index; the constructor of
  \<^verbatim>\<open>std::priority_queue\<close> then makes a heap of it once more.
\<close>

definition install_heap :: "(u64 \<times> nat) list \<Rightarrow> JournalReader \<Rightarrow> JournalReader" where
  "install_heap temp r =
     (if temp = [] then r\<lparr>rd_current := None\<rparr>
      else let h = make_heap JournalComparator temp in
           r\<lparr>rd_current := Some (snd (hd h)), rd_heap := make_heap JournalComparator h\<rparr>)"

definition rebuildHeap :: "unit reader_prog" where
  "rebuildHeap =
     bind_p get_fst (\<lambda>r.
     if rd_journals r = [] then modify_fst (\<lambda>r. r\<lparr>rd_current := None, rd_needs_rebuild := False\<rparr>)
     else
       bind_p (if heap_mode r
               then bind_p (collect_times [0..<length (rd_journals r)]) (\<lambda>temp. modify_fst (install_heap temp))
               else findMinimumLinear) (\<lambda>_.
       modify_fst (\<lambda>r. r\<lparr>rd_needs_rebuild := False\<rparr>)))"

definition updateHeap :: "unit reader_prog" where
  "updateHeap =
     bind_p get_fst (\<lambda>r.
     if rd_heap r = [] then modify_fst (\<lambda>r. r\<lparr>rd_needs_rebuild := True\<rparr>)
     else case rd_current r of
       None \<Rightarrow> throw_p Segv
     | Some i \<Rightarrow>
         bind_p (modify_fst (\<lambda>r. r\<lparr>rd_heap := pq_pop JournalComparator (rd_heap r)\<rparr>)) (\<lambda>_.
         bind_p (peek_frame i) (\<lambda>(len, ty, t).
         bind_p (if hasData_with len ty
                 then modify_fst (\<lambda>r. r\<lparr>rd_heap := pq_emplace JournalComparator (t, i) (rd_heap r)\<rparr>)
                 else return_p ()) (\<lambda>_.
         modify_fst (\<lambda>r. if rd_heap r = [] then r\<lparr>rd_current := None, rd_needs_rebuild := True\<rparr>
                        else r\<lparr>rd_current := Some (snd (hd (rd_heap r)))\<rparr>)))))"

subsection \<open>Reading\<close>

definition isDataAvailable :: "bool reader_prog" where
  "isDataAvailable =
     bind_p get_fst (\<lambda>r. case rd_single_frame r of
       Some f \<Rightarrow> frame_hasData f
     | None \<Rightarrow>
         bind_p (if rd_needs_rebuild r then rebuildHeap else return_p ()) (\<lambda>_.
         bind_p get_fst (\<lambda>r. case current_index r of
           None \<Rightarrow> bind_p (modify_fst (\<lambda>r. if rd_journals r \<noteq> [] then r\<lparr>rd_needs_rebuild := True\<rparr> else r))
                     (\<lambda>_. return_p False)
         | Some i \<Rightarrow> frame_hasData i)))"

definition view_of :: "nat \<Rightarrow> FrameView reader_prog" where
  "view_of i = bind_p (peek_frame i) (\<lambda>(len, ty, _).
     return_p (if hasData_with len ty then \<lparr>fv_frame = Some i, fv_frame_length = len, fv_msg_type = ty\<rparr>
               else empty_view))"

definition tryCurrentFrame :: "FrameView reader_prog" where
  "tryCurrentFrame =
     bind_p get_fst (\<lambda>r. case rd_single_frame r of
       Some f \<Rightarrow> view_of f
     | None \<Rightarrow>
         bind_p isDataAvailable (\<lambda>avail.
         if \<not> avail then return_p empty_view
         else bind_p get_fst (\<lambda>r. case current_index r of None \<Rightarrow> throw_p Segv | Some i \<Rightarrow> view_of i)))"

fun seek_journals :: "(page_key \<Rightarrow> os_env) \<Rightarrow> nat \<Rightarrow> u64 \<Rightarrow> nat list \<Rightarrow> unit reader_prog" where
  "seek_journals os fuel timestamp [] = return_p ()"
| "seek_journals os fuel timestamp (i # is) =
     bind_p (on_journal i (journal_seekToTime os fuel timestamp)) (\<lambda>_. seek_journals os fuel timestamp is)"

definition reader_seekToTime :: "(page_key \<Rightarrow> os_env) \<Rightarrow> nat \<Rightarrow> u64 \<Rightarrow> unit reader_prog" where
  "reader_seekToTime os fuel timestamp =
     bind_p get_fst (\<lambda>r.
     bind_p (seek_journals os fuel timestamp [0..<length (rd_journals r)]) (\<lambda>_.
     modify_fst (\<lambda>r. r\<lparr>rd_needs_rebuild := True\<rparr>)))"

definition reader_next :: "(page_key \<Rightarrow> os_env) \<Rightarrow> unit reader_prog" where
  "reader_next os =
     bind_p get_fst (\<lambda>r. case current_index r of
       None \<Rightarrow> return_p ()
     | Some i \<Rightarrow> (case rd_single_journal r of
         Some s \<Rightarrow> on_journal s (journal_next os)
       | None \<Rightarrow>
           bind_p (on_journal i (journal_next os)) (\<lambda>_.
           if heap_mode r then updateHeap else modify_fst (\<lambda>r. r\<lparr>rd_needs_rebuild := True\<rparr>))))"

definition advance :: "(page_key \<Rightarrow> os_env) \<Rightarrow> FrameView \<Rightarrow> unit reader_prog" where
  "advance os current =
     bind_p get_fst (\<lambda>r. case rd_single_journal r of
       Some s \<Rightarrow> on_journal s (next_with os (fv_frame_length current) (fv_msg_type current))
     | None \<Rightarrow> reader_next os)"

text \<open>\<^verbatim>\<open>FrameSnap::from(*current)\<close>: what a dispatcher or the binding reads through a view.\<close>

definition snap_view :: "FrameView \<Rightarrow> FrameSnap reader_prog" where
  "snap_view current = (case fv_frame current of
     None \<Rightarrow> throw_p Segv
   | Some i \<Rightarrow> on_journal i (bind_p current_frame (\<lambda>m. bind_p get_fst (\<lambda>j.
       return_p (FrameSnap_from m (j_frame j))))))"

text \<open>
  \<^verbatim>\<open>nextStatic\<close> with a dispatcher that takes a snapshot of the frame: the result is the frame it was
  given, \<open>None\<close> when the method returns \<^verbatim>\<open>false\<close>.
\<close>

definition nextStatic :: "(page_key \<Rightarrow> os_env) \<Rightarrow> FrameSnap option reader_prog" where
  "nextStatic os =
     bind_p tryCurrentFrame (\<lambda>current.
     if fv_frame current = None then return_p None
     else bind_p (snap_view current) (\<lambda>s.
          bind_p (advance os current) (\<lambda>_. return_p (Some s))))"

text \<open>The iterator of the Python binding; \<open>None\<close> is \<^verbatim>\<open>StopIteration\<close>.\<close>

definition snap_and_advance :: "(page_key \<Rightarrow> os_env) \<Rightarrow> FrameSnap option reader_prog" where
  "snap_and_advance os =
     bind_p tryCurrentFrame (\<lambda>current.
     if fv_frame current = None then return_p None
     else bind_p (snap_view current) (\<lambda>s.
          bind_p (advance os current) (\<lambda>_. return_p (Some s))))"

definition reader_iter_next :: "(page_key \<Rightarrow> os_env) \<Rightarrow> FrameSnap option reader_prog" where
  "reader_iter_next os =
     bind_p isDataAvailable (\<lambda>avail. if \<not> avail then return_p None else snap_and_advance os)"

subsection \<open>The heap is ordered by time\<close>

definition entry_time :: "u64 \<times> nat \<Rightarrow> int" where
  "entry_time e = sint (fst e)"

interpretation jheap: heap_order JournalComparator entry_time
  by unfold_locales (simp add: JournalComparator_def entry_time_def)

end
