(* ===== verification/Cursor_Position.thy ===== *)
theory Cursor_Position
  imports Journal_Cursor Writer_Invariant
begin

section \<open>Where a cursor stands in a journal\<close>

text \<open>
  The invariant that ties a \<^verbatim>\<open>Journal\<close> object to the content of the journal it reads: it stands on
  frame \<open>i\<close> of page \<open>k\<close>, which is position \<open>length (concat (take k front)) + i\<close> of the log.  The
  theory shows that reading returns the frame at that position, that \<^verbatim>\<open>next\<close> moves by exactly one
  position over page borders too, that seeking ends, and that neither the reader's own threads nor a
  writer that appends disturb the position.
\<close>

subsection \<open>The invariant\<close>

definition reader_maps :: "Journal \<Rightarrow> page_key multiset" where
  "reader_maps j =
     (case j_page j of None \<Rightarrow> {#} | Some p \<Rightarrow> {# pg_key p #}) +
     mset (map pg_key (j_retired j @ j_retire_queue j)) +
     (case j_warmer_addr j of None \<Rightarrow> {#} | Some addr \<Rightarrow> {# addr #})"

definition j_key :: "Journal \<Rightarrow> int \<Rightarrow> page_key" where
  "j_key j i = page_key_of (j_location j) (j_dest_id j) i"

definition warm_slot_ok :: "Journal \<Rightarrow> bool" where
  "warm_slot_ok j \<longleftrightarrow> (case j_warmer_addr j of None \<Rightarrow> True | Some addr \<Rightarrow> addr = j_key j (j_warmer_ready_id j))"

definition page_frames :: "FrameSnap list list \<Rightarrow> FrameSnap list \<Rightarrow> nat \<Rightarrow> FrameSnap list" where
  "page_frames front cur k = (front @ [cur]) ! k"

definition valid_pos :: "FrameSnap list list \<Rightarrow> FrameSnap list \<Rightarrow> nat \<Rightarrow> nat \<Rightarrow> bool" where
  "valid_pos front cur k i \<longleftrightarrow>
     (k < length front \<and> i < length (front ! k)) \<or> (k = length front \<and> i \<le> length cur)"

text \<open>What every reader of the journal keeps, wherever it stands.\<close>

definition reader_base ::
    "Journal \<Rightarrow> page_key kernel \<Rightarrow> int \<Rightarrow> FrameSnap list list \<Rightarrow> FrameSnap list \<Rightarrow> bool" where
  "reader_base j K first front cur \<longleftrightarrow>
     journal_log (j_location j) (j_dest_id j) K first front cur \<and>
     j_page_size j = findPageSize (j_location j) (j_dest_id j) \<and> \<not> j_is_writing j \<and>
     reader_maps j \<subseteq># mset (k_maps K) \<and> warm_slot_ok j"

definition on_page :: "Journal \<Rightarrow> int \<Rightarrow> bool" where
  "on_page j n \<longleftrightarrow> (\<exists>p. j_page j = Some p \<and> pg_key p = j_key j n \<and> pg_page_id p = n \<and>
     pg_size p = j_page_size j)"

definition cursor_inv ::
    "Journal \<Rightarrow> page_key kernel \<Rightarrow> int \<Rightarrow> FrameSnap list list \<Rightarrow> FrameSnap list \<Rightarrow> nat \<Rightarrow> nat \<Rightarrow> bool" where
  "cursor_inv j K first front cur k i \<longleftrightarrow> reader_base j K first front cur \<and>
     on_page j (first + int k) \<and> valid_pos front cur k i \<and>
     j_frame j = 64 + frames_len (take i (page_frames front cur k))"

definition same_reader :: "Journal \<Rightarrow> Journal \<Rightarrow> bool" where
  "same_reader j j' \<longleftrightarrow> j_location j' = j_location j \<and> j_dest_id j' = j_dest_id j \<and>
     j_is_writing j' = j_is_writing j \<and> j_prefault j' = j_prefault j \<and> j_background j' = j_background j \<and>
     j_max_retained j' = j_max_retained j \<and> j_page_size j' = j_page_size j"

text \<open>
  What an operation of a reader does to the kernel: no file and no descriptor changes, and the
  mappings that are not the reader's stay.
\<close>

definition only_maps :: "page_key kernel \<Rightarrow> page_key kernel \<Rightarrow> bool" where
  "only_maps K K' \<longleftrightarrow> (\<exists>ms. K' = K\<lparr>k_maps := ms\<rparr>)"

definition reader_post :: "Journal \<Rightarrow> page_key kernel \<Rightarrow> Journal \<Rightarrow> page_key kernel \<Rightarrow> bool" where
  "reader_post j K j' K' \<longleftrightarrow> same_reader j j' \<and> only_maps K K' \<and>
     mset (k_maps K') - reader_maps j' = mset (k_maps K) - reader_maps j"

lemma only_maps_trans: "only_maps K K' \<Longrightarrow> only_maps K' K'' \<Longrightarrow> only_maps K K''"
  unfolding only_maps_def by (metis kernel.surjective kernel.update_convs(3))

lemma only_maps_refl [simp]: "only_maps K K" and only_maps_update [simp]: "only_maps K (K\<lparr>k_maps := ms\<rparr>)"
  unfolding only_maps_def by (metis kernel.surjective kernel.update_convs(3)) blast

lemma only_mapsD:
  assumes "only_maps K K'"
  shows "lookup_file K' = lookup_file K" and "k_fds K' = k_fds K" and "k_files K' = k_files K"
  using assms by (auto simp: only_maps_def)

lemma reader_post_refl [simp]: "reader_post j K j K"
  by (simp add: reader_post_def same_reader_def)

lemma reader_post_trans: "reader_post j K j' K' \<Longrightarrow> reader_post j' K' j'' K'' \<Longrightarrow> reader_post j K j'' K''"
  unfolding reader_post_def same_reader_def by (auto intro: only_maps_trans)

lemma journal_log_only_maps:
  "only_maps K K' \<Longrightarrow> journal_log loc dest K' first front cur = journal_log loc dest K first front cur"
  by (rule journal_log_cong) (simp add: only_mapsD)

subsection \<open>The pages of the log\<close>

lemma journal_log_page:
  assumes "journal_log loc dest K first front cur" and "k \<le> length front"
  obtains pf where "lookup_file K (page_key_of loc dest (first + int k)) = Some pf"
    and "pf_size pf = unat (findPageSize loc dest)"
    and "page_image (findPageSize loc dest) (page_frames front cur k) (pf_mem pf)"
    and "k = length front \<longrightarrow> open_image (findPageSize loc dest) cur (pf_mem pf)"
proof (cases "k = length front")
  case True
  with assms that show thesis
    by (auto simp: journal_log_def page_holds_def page_frames_def open_image_def split: option.splits)
next
  case False
  with assms have "k < length front" by simp
  with assms(1) have "page_holds K (page_key_of loc dest (first + int k)) (findPageSize loc dest)
      (page_image (findPageSize loc dest) (front ! k))"
    by (simp add: journal_log_def)
  with False \<open>k < length front\<close> that show thesis
    by (auto simp: page_holds_def page_frames_def nth_append split: option.splits)
qed

lemma page_image_file_ok:
  "pf_size pf = unat sz \<Longrightarrow> page_image sz fs (pf_mem pf) \<Longrightarrow> page_file_ok sz pf"
  by (simp add: page_file_ok_def page_image_def)

lemma page_frames_simps [simp]:
  "k < length front \<Longrightarrow> page_frames front cur k = front ! k"
  "page_frames front cur (length front) = cur"
  by (simp_all add: page_frames_def nth_append)

text \<open>Frames of a log: the last of a closed page, and only it, is a \<^verbatim>\<open>PageEnd\<close>.\<close>

lemma closed_frames_nth:
  assumes "closed_frames fs" and "i < length fs"
  shows "is_page_end (fs ! i) \<longleftrightarrow> Suc i = length fs" and "snap_msg_type (fs ! i) > 0"
proof -
  have plain: "plain_frame (fs ! i)" if "Suc i < length fs"
    using assms that unfolding closed_frames_def list_all_length by (simp add: nth_butlast)
  have last: "is_page_end (fs ! i)" if "Suc i = length fs"
  proof -
    have "last fs = fs ! i" using that assms(2) last_conv_nth [of fs] by (metis diff_Suc_1 length_0_conv not_less_zero)
    with assms(1) show ?thesis by (simp add: closed_frames_def)
  qed
  show "is_page_end (fs ! i) \<longleftrightarrow> Suc i = length fs"
    using plain last assms(2) by (cases "Suc i = length fs") (auto simp: plain_frame_def)
  show "snap_msg_type (fs ! i) > 0"
    using plain last assms(2)
    by (cases "Suc i = length fs") (auto simp: plain_frame_def is_page_end_def MsgType_PageEnd_def)
qed

lemma log_frame_kind:
  assumes "journal_log loc dest K first front cur" and "valid_pos front cur k i"
    and "i < length (page_frames front cur k)"
  shows "is_page_end (page_frames front cur k ! i) \<longleftrightarrow> k < length front \<and> Suc i = length (front ! k)"
    and "snap_msg_type (page_frames front cur k ! i) > 0"
proof -
  show "is_page_end (page_frames front cur k ! i) \<longleftrightarrow> k < length front \<and> Suc i = length (front ! k)"
  proof (cases "k < length front")
    case True
    with assms closed_frames_nth(1) [of "front ! k" i] show ?thesis by (simp add: journal_log_def)
  next
    case False
    with assms show ?thesis by (simp add: valid_pos_def journal_log_def list_all_length plain_frame_def)
  qed
  show "snap_msg_type (page_frames front cur k ! i) > 0"
  proof (cases "k < length front")
    case True
    with assms closed_frames_nth(2) [of "front ! k" i] show ?thesis by (simp add: journal_log_def)
  next
    case False
    with assms show ?thesis by (simp add: valid_pos_def journal_log_def list_all_length plain_frame_def)
  qed
qed

subsection \<open>Reading the current frame\<close>

lemma on_page_ready:
  assumes base: "reader_base j K first front cur" and on: "on_page j (first + int k)" and k: "k \<le> length front"
  obtains p pf where "j_page j = Some p" and "pg_key p = j_key j (first + int k)" and "pg_page_id p = first + int k"
    and "pg_size p = findPageSize (j_location j) (j_dest_id j)" and "page_ready K p pf"
    and "page_image (findPageSize (j_location j) (j_dest_id j)) (page_frames front cur k) (pf_mem pf)"
    and "k = length front \<longrightarrow> open_image (findPageSize (j_location j) (j_dest_id j)) cur (pf_mem pf)"
proof -
  let ?sz = "findPageSize (j_location j) (j_dest_id j)"
  obtain p where p: "j_page j = Some p" "pg_key p = j_key j (first + int k)" "pg_page_id p = first + int k"
    "pg_size p = ?sz"
    using on base by (auto simp: on_page_def reader_base_def)
  have log: "journal_log (j_location j) (j_dest_id j) K first front cur" using base by (simp add: reader_base_def)
  obtain pf where pf: "lookup_file K (page_key_of (j_location j) (j_dest_id j) (first + int k)) = Some pf"
    "pf_size pf = unat ?sz" "page_image ?sz (page_frames front cur k) (pf_mem pf)"
    "k = length front \<longrightarrow> open_image ?sz cur (pf_mem pf)"
    by (rule journal_log_page [OF log k])
  have "pg_key p \<in># reader_maps j" using p(1) by (simp add: reader_maps_def)
  then have "pg_key p \<in># mset (k_maps K)" using base by (auto simp: reader_base_def dest: mset_subset_eqD)
  then have "page_ready K p pf" using p pf by (simp add: page_ready_def j_key_def)
  with p pf that show thesis by blast
qed

text \<open>What lies at the cursor: frame \<open>i\<close> of the page, or a header without length and type behind the last.\<close>

definition frame_here :: "FrameSnap list \<Rightarrow> nat \<Rightarrow> memory \<Rightarrow> nat \<Rightarrow> bool" where
  "frame_here fs i m off \<longleftrightarrow>
     (if i < length fs then frame_at m off (fs ! i) else getFrameLength m off = 0 \<and> getMsgType m off = 0)"

lemma page_image_frame:
  "page_image sz fs m \<Longrightarrow> i < length fs \<Longrightarrow> frame_at m (64 + frames_len (take i fs)) (fs ! i)"
  by (simp add: page_image_def frames_at_nth)

lemma page_image_stride:
  assumes "page_image sz fs m" and "i < length fs"
  shows "64 + frames_len (take i fs) + frame_stride (fs ! i) \<le> unat sz"
  using assms frames_len_take_le [of "Suc i" fs] frames_len_take_Suc [of i fs] by (simp add: page_image_def)

lemma current_frame_ok:
  assumes inv: "cursor_inv j K first front cur k i"
  obtains m where "current_frame (j, K) = (Inr m, (j, K))"
    and "frame_here (page_frames front cur k) i m (j_frame j)"
proof -
  let ?sz = "findPageSize (j_location j) (j_dest_id j)" and ?fs = "page_frames front cur k"
  have base: "reader_base j K first front cur" and on: "on_page j (first + int k)"
    and pos: "valid_pos front cur k i" and off: "j_frame j = 64 + frames_len (take i ?fs)"
    using inv by (simp_all add: cursor_inv_def)
  have k: "k \<le> length front" using pos by (auto simp: valid_pos_def)
  obtain p pf where p: "j_page j = Some p" "pg_size p = ?sz" "page_ready K p pf" "page_image ?sz ?fs (pf_mem pf)"
    "k = length front \<longrightarrow> open_image ?sz cur (pf_mem pf)"
    by (rule on_page_ready [OF base on k])
  have run: "current_frame (j, K) = (Inr (pf_mem pf), (j, K))" if "j_frame j + 32 \<le> unat ?sz"
    using that p(1,2) by (simp add: current_frame_def the_current_def prog_simps page_read_ready [OF p(3)])
  show thesis
  proof (cases "i < length ?fs")
    case True
    have "j_frame j + 32 \<le> unat ?sz"
      using page_image_stride [OF p(4) True] frame_stride_bounds(1) [of "?fs ! i"] off by simp
    then show thesis
      using run page_image_frame [OF p(4) True] off True by (intro that [of "pf_mem pf"]) (simp_all add: frame_here_def)
  next
    case False
    then have last: "k = length front" "i = length cur" using pos by (auto simp: valid_pos_def)
    then have img: "open_image ?sz cur (pf_mem pf)" using p(5) by simp
    have room: "128 + frames_len cur \<le> unat ?sz" using base by (simp add: reader_base_def journal_log_def)
    have off': "j_frame j = 64 + frames_len cur" using off last by simp
    have "zero_on (pf_mem pf) (j_frame j) (j_frame j + 8)"
      using img room off' by (auto simp: open_image_def elim!: zero_on_sub)
    then have "zero_on (pf_mem pf) (j_frame j) (j_frame j + 4)" "zero_on (pf_mem pf) (j_frame j + 4) (j_frame j + 4 + 2)"
      by (auto elim!: zero_on_sub)
    then have "getFrameLength (pf_mem pf) (j_frame j) = 0" "getMsgType (pf_mem pf) (j_frame j) = 0"
      by (simp_all add: frame_getters load_int_zero)
    then show thesis
      using run room off' last by (intro that [of "pf_mem pf"]) (simp_all add: frame_here_def)
  qed
qed

lemma frame_here_hasData:
  "frame_here fs i m off \<Longrightarrow> i < length fs \<Longrightarrow> snap_msg_type (fs ! i) > 0 \<Longrightarrow> hasData m off"
  "frame_here fs i m off \<Longrightarrow> \<not> i < length fs \<Longrightarrow> \<not> hasData m off"
  by (simp_all add: frame_here_def frame_at_hasData) (simp add: hasData_def hasData_with_def)

lemma frame_at_fields:
  assumes "frame_at m off f"
  shows "getMsgType m off = snap_msg_type f" and "getGenTime m off = snap_gen_time f"
proof -
  have snap: "FrameSnap_from m off = f" using assms by (simp add: frame_at_def)
  show "getMsgType m off = snap_msg_type f" "getGenTime m off = snap_gen_time f"
    unfolding snap [symmetric] by (simp_all add: FrameSnap_from_def Let_def)
qed

lemma frame_here_fields:
  assumes "frame_here fs i m off" and "i < length fs"
  shows "FrameSnap_from m off = fs ! i" and "getMsgType m off = snap_msg_type (fs ! i)"
    and "getGenTime m off = snap_gen_time (fs ! i)"
  using assms frame_at_fields [of m off "fs ! i"] by (simp_all add: frame_here_def frame_at_def)

subsection \<open>Changing pages\<close>

text \<open>The page a cursor moves to, from the warmer's slot or mapped anew.\<close>

definition acquire_page :: "(page_key \<Rightarrow> os_env) \<Rightarrow> int \<Rightarrow> Page journal_prog" where
  "acquire_page os page_id =
     bind_p get_fst (\<lambda>j.
     bind_p (take_warmed os page_id) (\<lambda>warmed. case warmed of
       Some page \<Rightarrow> return_p page
     | None \<Rightarrow> on_snd (Page_load os (j_location j) (j_dest_id j) page_id (j_is_writing j) (j_prefault j))))"

definition install_page :: "(page_key \<Rightarrow> os_env) \<Rightarrow> Page option \<Rightarrow> int \<Rightarrow> Page \<Rightarrow> unit journal_prog" where
  "install_page os old_page page_id new_page =
     bind_p (modify_fst (\<lambda>j. j\<lparr>j_page := Some new_page\<rparr>)) (\<lambda>_.
     bind_p (on_snd (Page_firstFrame new_page)) (\<lambda>off.
     bind_p (modify_fst (\<lambda>j. j\<lparr>j_frame := off, j_page_frame_nb := 0\<rparr>)) (\<lambda>_.
     bind_p (retire_old_page os old_page) (\<lambda>_.
     modify_fst (signal_warmer page_id)))))"

lemma loadPage_split:
  assumes "case j_page j of None \<Rightarrow> True | Some p \<Rightarrow> pg_page_id p \<noteq> page_id"
  shows "loadPage os page_id (j, K) =
    bind_p (acquire_page os page_id) (install_page os (j_page j) page_id) (j, K)"
  using assms by (simp add: loadPage_def acquire_page_def install_page_def prog_simps
      split: prod.split sum.split option.split)

lemma acquire_page_ok:
  assumes base: "reader_base j K first front cur" and os: "os_works os" and k: "k \<le> length front"
  obtains p wa wr K' where "acquire_page os (first + int k) (j, K) =
      (Inr p, (j\<lparr>j_warmer_addr := wa, j_warmer_ready_id := wr\<rparr>, K'))"
    and "warm_slot_ok (j\<lparr>j_warmer_addr := wa, j_warmer_ready_id := wr\<rparr>)"
    and "pg_key p = j_key j (first + int k)" and "pg_page_id p = first + int k"
    and "pg_size p = j_page_size j" and "only_maps K K'"
    and "\<exists>M. mset (k_maps K') = M + add_mset (pg_key p) (reader_maps (j\<lparr>j_warmer_addr := wa\<rparr>)) \<and>
       mset (k_maps K) = M + reader_maps j"
proof -
  let ?n = "first + int k" and ?sz = "findPageSize (j_location j) (j_dest_id j)"
  let ?key = "page_key_of (j_location j) (j_dest_id j) ?n"
  have log: "journal_log (j_location j) (j_dest_id j) K first front cur" and sz: "j_page_size j = ?sz"
    and slot: "warm_slot_ok j" using base by (simp_all add: reader_base_def)
  obtain M where M: "mset (k_maps K) = M + reader_maps j"
    using base by (auto simp: reader_base_def mset_subset_eq_exists_conv add.commute)
  obtain pf where pf: "lookup_file K ?key = Some pf" "pf_size pf = unat ?sz"
    "page_image ?sz (page_frames front cur k) (pf_mem pf)"
    by (rule journal_log_page [OF log k])
  show thesis
  proof (cases "j_warmer_addr j = Some ?key \<and> \<not> j_prefault j \<and> j_background j \<and> j_warmer_ready_id j = ?n")
    case True
    let ?p = "the_page (j_location j) (j_dest_id j) ?n False False"
    have m: "reader_maps j = add_mset ?key (reader_maps (j\<lparr>j_warmer_addr := None\<rparr>))"
      using True by (simp add: reader_maps_def)
    then have "?key \<in> set (k_maps K)" using M by (metis union_iff set_mset_mset union_single_eq_member)
    then have "page_ready K ?p pf" using pf by (simp add: page_ready_def)
    from page_read_ready [OF this] have rd: "page_read ?p 0 64 K = (Inr (pf_mem pf), K)" by simp
    have "header_ok ?sz (pf_mem pf)" using pf(3) by (simp add: page_image_def)
    then have "loadFromAddress (j_location j) (j_dest_id j) ?n (j_page_size j) False False K = (Inr ?p, K)"
      using rd by (simp add: loadFromAddress_def Let_def sz prog_simps header_ok_iff the_page_def)
    then have "take_warmed os ?n (j, K) = (Inr (Some ?p), (j\<lparr>j_warmer_addr := None, j_warmer_ready_id := - 1\<rparr>, K))"
      using True by (simp add: take_warmed_def prog_simps)
    then have "acquire_page os ?n (j, K) = (Inr ?p, (j\<lparr>j_warmer_addr := None, j_warmer_ready_id := - 1\<rparr>, K))"
      by (simp add: acquire_page_def prog_simps)
    then show thesis
      by (rule that) (use M m sz in \<open>simp_all add: warm_slot_ok_def j_key_def\<close>)
  next
    case False
    have "j_warmer_ready_id j \<noteq> ?n \<or> j_prefault j \<or> \<not> j_background j" if "j_warmer_addr j \<noteq> None"
      using False slot that by (auto simp: warm_slot_ok_def j_key_def split: option.splits)
    then have "take_warmed os ?n (j, K) = (Inr None, (j, K))"
      by (auto simp: take_warmed_def prog_simps split: option.split)
    moreover have "Page_load os (j_location j) (j_dest_id j) ?n (j_is_writing j) (j_prefault j) K =
        (Inr (the_page (j_location j) (j_dest_id j) ?n (j_is_writing j) (j_prefault j)), K\<lparr>k_maps := ?key # k_maps K\<rparr>)"
      by (rule Page_load_existing [OF pf(1) page_image_file_ok [OF pf(2,3)] os])
    ultimately have "acquire_page os ?n (j, K) =
        (Inr (the_page (j_location j) (j_dest_id j) ?n (j_is_writing j) (j_prefault j)),
         (j\<lparr>j_warmer_addr := j_warmer_addr j, j_warmer_ready_id := j_warmer_ready_id j\<rparr>, K\<lparr>k_maps := ?key # k_maps K\<rparr>))"
      by (simp add: acquire_page_def prog_simps)
    then show thesis
      by (rule that) (use slot M sz in \<open>simp_all add: j_key_def\<close>)
  qed
qed

lemma journal_retire_overflow_mset:
  "journal_retire_overflow mx ps q = (ret, q') \<Longrightarrow> mset ret + mset q' = mset ps + mset q"
  by (induction mx ps q rule: journal_retire_overflow.induct) (auto split: if_splits)

lemma journal_retire_overflow_length:
  "journal_retire_overflow mx ps q = (ret, q') \<Longrightarrow> length ret \<le> mx"
  by (induction mx ps q rule: journal_retire_overflow.induct) (auto split: if_splits)

lemma journal_retire_overflow_keys:
  "journal_retire_overflow mx ps q = (ret, q') \<Longrightarrow>
   mset (map pg_key ret) + mset (map pg_key q') = mset (map pg_key ps) + mset (map pg_key q)"
  using arg_cong [OF journal_retire_overflow_mset, of mx ps q ret q' "image_mset pg_key"] by simp

lemma retire_old_page_ok:
  assumes os: "os_works os" and maps: "mset (k_maps K) = M + reader_maps j + (case old of None \<Rightarrow> {#} | Some p \<Rightarrow> {# pg_key p #})"
  obtains ret q K' where "retire_old_page os old (j, K) = (Inr (), (j\<lparr>j_retired := ret, j_retire_queue := q\<rparr>, K'))"
    and "only_maps K K'" and "mset (k_maps K') = M + reader_maps (j\<lparr>j_retired := ret, j_retire_queue := q\<rparr>)"
proof (cases old)
  case None
  then show thesis
    using maps by (intro that [of "j_retire_queue j" "j_retired j" K]) (simp_all add: retire_old_page_def prog_simps)
next
  case (Some p)
  show thesis
  proof (cases "j_background j")
    case True
    obtain ret q where r: "journal_retire_overflow (j_max_retained j) (j_retired j @ [p]) (j_retire_queue j) = (ret, q)"
      by fastforce
    then show thesis
      using True Some maps journal_retire_overflow_keys [OF r]
      by (intro that [of q ret K]) (simp_all add: retire_old_page_def prog_simps reader_maps_def)
  next
    case False
    then show thesis
      using Some maps os
      by (intro that [of "j_retire_queue j" "j_retired j" "K\<lparr>k_maps := remove1 (pg_key p) (k_maps K)\<rparr>"])
        (simp_all add: retire_old_page_def prog_simps Page_destroy_eq)
  qed
qed

lemma signal_warmer_simps [simp]:
  "reader_maps (signal_warmer n j) = reader_maps j" "j_page (signal_warmer n j) = j_page j"
  "j_frame (signal_warmer n j) = j_frame j" "j_location (signal_warmer n j) = j_location j"
  "j_dest_id (signal_warmer n j) = j_dest_id j" "j_page_size (signal_warmer n j) = j_page_size j"
  "same_reader j' (signal_warmer n j) = same_reader j' j" "j_is_writing (signal_warmer n j) = j_is_writing j"
  "warm_slot_ok (signal_warmer n j) = warm_slot_ok j" "j_page_frame_nb (signal_warmer n j) = j_page_frame_nb j"
  by (simp_all add: signal_warmer_def reader_maps_def same_reader_def warm_slot_ok_def j_key_def cong: option.case_cong)

lemma valid_pos_start:
  "journal_log loc dest K first front cur \<Longrightarrow> k \<le> length front \<Longrightarrow> valid_pos front cur k 0"
  by (cases "k < length front") (auto simp: valid_pos_def journal_log_def closed_frames_def)

lemma loadPage_ok:
  assumes base: "reader_base j K first front cur" and os: "os_works os" and k: "k \<le> length front"
    and new: "case j_page j of None \<Rightarrow> True | Some p \<Rightarrow> pg_page_id p \<noteq> first + int k"
  obtains j' K' where "loadPage os (first + int k) (j, K) = (Inr (), (j', K'))"
    and "cursor_inv j' K' first front cur k 0" and "reader_post j K j' K'"
proof -
  let ?n = "first + int k" and ?sz = "findPageSize (j_location j) (j_dest_id j)"
  have log: "journal_log (j_location j) (j_dest_id j) K first front cur" and sz: "j_page_size j = ?sz"
    using base by (simp_all add: reader_base_def)
  obtain p wa wr K1 where a: "acquire_page os ?n (j, K) = (Inr p, (j\<lparr>j_warmer_addr := wa, j_warmer_ready_id := wr\<rparr>, K1))"
    "warm_slot_ok (j\<lparr>j_warmer_addr := wa, j_warmer_ready_id := wr\<rparr>)" "pg_key p = j_key j ?n" "pg_page_id p = ?n"
    "pg_size p = j_page_size j" "only_maps K K1"
    "\<exists>M. mset (k_maps K1) = M + add_mset (pg_key p) (reader_maps (j\<lparr>j_warmer_addr := wa\<rparr>)) \<and>
       mset (k_maps K) = M + reader_maps j"
    by (rule acquire_page_ok [OF base os k])
  obtain M where M: "mset (k_maps K1) = M + add_mset (pg_key p) (reader_maps (j\<lparr>j_warmer_addr := wa\<rparr>))"
    "mset (k_maps K) = M + reader_maps j" using a(7) by blast
  obtain pf where pf: "lookup_file K (page_key_of (j_location j) (j_dest_id j) ?n) = Some pf" "pf_size pf = unat ?sz"
    "page_image ?sz (page_frames front cur k) (pf_mem pf)"
    by (rule journal_log_page [OF log k])
  have "pg_key p \<in> set (k_maps K1)" using M(1) by (metis union_iff set_mset_mset union_single_eq_member)
  then have rdy: "page_ready K1 p pf" using pf a(3,5,6) sz by (simp add: page_ready_def only_mapsD j_key_def)
  have ff: "Page_firstFrame p K1 = (Inr 64, K1)"
    by (rule Page_firstFrame_ready [OF rdy, where sz = ?sz]) (use pf(3) a(5) sz in \<open>simp_all add: page_image_def\<close>)
  let ?j = "j\<lparr>j_warmer_addr := wa, j_warmer_ready_id := wr, j_page := Some p, j_frame := 64, j_page_frame_nb := 0\<rparr>"
  have "mset (k_maps K1) = M + reader_maps ?j + (case j_page j of None \<Rightarrow> {#} | Some p \<Rightarrow> {# pg_key p #})"
    using M(1) by (simp add: reader_maps_def ac_simps)
  then obtain ret q K2 where r: "retire_old_page os (j_page j) (?j, K1) = (Inr (), (?j\<lparr>j_retired := ret, j_retire_queue := q\<rparr>, K2))"
    "only_maps K1 K2" "mset (k_maps K2) = M + reader_maps (?j\<lparr>j_retired := ret, j_retire_queue := q\<rparr>)"
    by (rule retire_old_page_ok [OF os])
  let ?j2 = "signal_warmer ?n (?j\<lparr>j_retired := ret, j_retire_queue := q\<rparr>)"
  have run: "loadPage os ?n (j, K) = (Inr (), (?j2, K2))"
    unfolding loadPage_split [OF new] using a(1) ff r(1) by (simp add: install_page_def prog_simps)
  have om: "only_maps K K2" using a(6) r(2) by (rule only_maps_trans)
  have "reader_base ?j2 K2 first front cur"
    using base om r(3) a(2)
    by (simp add: reader_base_def journal_log_only_maps) (simp add: warm_slot_ok_def j_key_def cong: option.case_cong)
  moreover have "on_page ?j2 ?n" using a(3-5) by (simp add: on_page_def j_key_def)
  ultimately have "cursor_inv ?j2 K2 first front cur k 0"
    using valid_pos_start [OF log k] by (simp add: cursor_inv_def)
  moreover have "reader_post j K ?j2 K2"
    using om r(3) M(2) by (simp add: reader_post_def) (simp add: same_reader_def)
  ultimately show thesis using run that by blast
qed

subsection \<open>Positions in the log\<close>

definition log_pos :: "FrameSnap list list \<Rightarrow> nat \<Rightarrow> nat \<Rightarrow> nat" where
  "log_pos front k i = length (concat (take k front)) + i"

definition cursor_at ::
    "Journal \<Rightarrow> page_key kernel \<Rightarrow> int \<Rightarrow> FrameSnap list list \<Rightarrow> FrameSnap list \<Rightarrow> nat \<Rightarrow> bool" where
  "cursor_at j K first front cur n \<longleftrightarrow>
     (\<exists>k i. cursor_inv j K first front cur k i \<and> n = log_pos front k i)"

lemma concat_split:
  "k < length front \<Longrightarrow> concat front = concat (take k front) @ front ! k @ concat (drop (Suc k) front)"
  by (metis concat.simps(2) concat_append id_take_nth_drop)

lemma log_pos_frame:
  assumes "valid_pos front cur k i"
  shows "i < length (page_frames front cur k) \<longleftrightarrow> log_pos front k i < length (concat front @ cur)"
    and "i < length (page_frames front cur k) \<Longrightarrow>
      (concat front @ cur) ! log_pos front k i = page_frames front cur k ! i"
proof -
  show "i < length (page_frames front cur k) \<longleftrightarrow> log_pos front k i < length (concat front @ cur)"
  proof (cases "k < length front")
    case True
    with assms concat_split [OF True] show ?thesis by (auto simp: valid_pos_def log_pos_def)
  next
    case False
    with assms show ?thesis by (auto simp: valid_pos_def log_pos_def)
  qed
  show "(concat front @ cur) ! log_pos front k i = page_frames front cur k ! i"
    if "i < length (page_frames front cur k)"
  proof (cases "k < length front")
    case True
    with that concat_split [OF True] show ?thesis
      by (simp add: log_pos_def nth_append)
  next
    case False
    with assms that show ?thesis by (auto simp: valid_pos_def log_pos_def nth_append)
  qed
qed

lemma log_pos_next_page: "k < length front \<Longrightarrow> Suc i = length (front ! k) \<Longrightarrow> log_pos front (Suc k) 0 = Suc (log_pos front k i)"
  by (simp add: log_pos_def take_Suc_conv_app_nth)

subsection \<open>Advancing\<close>

lemma frame_here_next:
  assumes "frame_here fs i m (64 + frames_len (take i fs))" and "i < length fs"
    and "page_image sz fs m'" and "unat sz \<le> 134217728"
  shows "moveToNext (64 + frames_len (take i fs)) (getFrameLength m (64 + frames_len (take i fs))) =
    64 + frames_len (take (Suc i) fs)"
proof -
  have "length (snap_payload (fs ! i)) \<le> 4294967200"
    using page_image_stride [OF assms(3,2)] frame_stride_bounds(2) [of "fs ! i"] assms(4) by simp
  with assms(1,2) show ?thesis by (simp add: frame_here_def frame_at_moveToNext frames_len_take_Suc)
qed

lemma next_with_plain:
  assumes inv: "cursor_inv j K first front cur k i" and i: "i < length (page_frames front cur k)"
    and here: "frame_here (page_frames front cur k) i m (j_frame j)"
    and plain: "\<not> is_page_end (page_frames front cur k ! i)"
  obtains j' where "next_with os (getFrameLength m (j_frame j)) (getMsgType m (j_frame j)) (j, K) = (Inr (), (j', K))"
    and "cursor_inv j' K first front cur k (Suc i)" and "reader_post j K j' K"
proof -
  let ?fs = "page_frames front cur k"
  let ?j = "j\<lparr>j_frame := moveToNext (j_frame j) (getFrameLength m (j_frame j)), j_page_frame_nb := j_page_frame_nb j + 1\<rparr>"
  have base: "reader_base j K first front cur" and on: "on_page j (first + int k)"
    and pos: "valid_pos front cur k i" and off: "j_frame j = 64 + frames_len (take i ?fs)"
    using inv by (simp_all add: cursor_inv_def)
  have log: "journal_log (j_location j) (j_dest_id j) K first front cur" using base by (simp add: reader_base_def)
  have k: "k \<le> length front" using pos by (auto simp: valid_pos_def)
  obtain pf :: page_file where img: "page_image (findPageSize (j_location j) (j_dest_id j)) ?fs (pf_mem pf)"
    by (rule journal_log_page [OF log k])
  have "getMsgType m (j_frame j) \<noteq> sint MsgType_PageEnd"
    using plain frame_here_fields(2) [OF here i] by (simp add: is_page_end_def)
  then have run: "next_with os (getFrameLength m (j_frame j)) (getMsgType m (j_frame j)) (j, K) = (Inr (), (?j, K))"
    by (simp add: next_with_def prog_simps)
  have "valid_pos front cur k (Suc i)"
    using pos i plain log_frame_kind(1) [OF log pos i] by (auto simp: valid_pos_def)
  moreover have "j_frame ?j = 64 + frames_len (take (Suc i) ?fs)"
    using frame_here_next [OF _ i img] here off findPageSize_bounds(2) [of "j_location j" "j_dest_id j"] by simp
  moreover have "reader_base ?j K first front cur" "on_page ?j (first + int k)"
    using base on by (simp_all add: reader_base_def reader_maps_def warm_slot_ok_def j_key_def on_page_def cong: option.case_cong)
  ultimately have "cursor_inv ?j K first front cur k (Suc i)" by (simp add: cursor_inv_def)
  moreover have "reader_post j K ?j K" by (simp add: reader_post_def same_reader_def reader_maps_def)
  ultimately show thesis using run that by blast
qed

lemma next_with_page_end:
  assumes inv: "cursor_inv j K first front cur k i" and os: "os_works os"
    and ty: "ty = sint MsgType_PageEnd" and k: "k < length front"
  obtains j' K' where "next_with os n ty (j, K) = (Inr (), (j', K'))"
    and "cursor_inv j' K' first front cur (Suc k) 0" and "reader_post j K j' K'"
proof -
  have base: "reader_base j K first front cur" using inv by (simp add: cursor_inv_def)
  obtain p where p: "j_page j = Some p" "pg_page_id p = first + int k"
    using inv by (auto simp: cursor_inv_def on_page_def)
  obtain j' K' where l: "loadPage os (first + int (Suc k)) (j, K) = (Inr (), (j', K'))"
    "cursor_inv j' K' first front cur (Suc k) 0" "reader_post j K j' K'"
    by (rule loadPage_ok [OF base os, of "Suc k"]) (use p k in simp_all)
  have "next_with os n ty (j, K) = loadPage os (first + int k + 1) (j, K)"
    using p ty by (simp add: next_with_def loadNextPage_def the_current_def prog_simps)
  moreover have "first + int k + 1 = first + int (Suc k)" by simp
  ultimately show thesis using l that by metis
qed

lemma next_with_ok:
  assumes at: "cursor_at j K first front cur n" and os: "os_works os" and n: "n < length (concat front @ cur)"
  obtains m j' K' where "current_frame (j, K) = (Inr m, (j, K))"
    and "FrameSnap_from m (j_frame j) = (concat front @ cur) ! n" and "hasData m (j_frame j)"
    and "next_with os (getFrameLength m (j_frame j)) (getMsgType m (j_frame j)) (j, K) = (Inr (), (j', K'))"
    and "cursor_at j' K' first front cur (Suc n)" and "reader_post j K j' K'"
proof -
  obtain k i where inv: "cursor_inv j K first front cur k i" and nk: "n = log_pos front k i"
    using at by (auto simp: cursor_at_def)
  let ?fs = "page_frames front cur k"
  have pos: "valid_pos front cur k i" and log: "journal_log (j_location j) (j_dest_id j) K first front cur"
    using inv by (simp_all add: cursor_inv_def reader_base_def)
  have i: "i < length ?fs" using log_pos_frame(1) [OF pos] n nk by simp
  obtain m where m: "current_frame (j, K) = (Inr m, (j, K))" "frame_here ?fs i m (j_frame j)"
    by (rule current_frame_ok [OF inv])
  note kind = log_frame_kind [OF log pos i]
  have d: "FrameSnap_from m (j_frame j) = (concat front @ cur) ! n" "hasData m (j_frame j)"
    using frame_here_fields(1) [OF m(2) i] log_pos_frame(2) [OF pos i] nk frame_here_hasData(1) [OF m(2) i kind(2)] by simp_all
  show thesis
  proof (cases "is_page_end (?fs ! i)")
    case True
    then have ke: "k < length front" "Suc i = length (front ! k)" using kind(1) by simp_all
    have "getMsgType m (j_frame j) = sint MsgType_PageEnd"
      using True frame_here_fields(2) [OF m(2) i] by (simp add: is_page_end_def)
    then obtain j' K' where "next_with os (getFrameLength m (j_frame j)) (getMsgType m (j_frame j)) (j, K) = (Inr (), (j', K'))"
      "cursor_inv j' K' first front cur (Suc k) 0" "reader_post j K j' K'"
      by (rule next_with_page_end [OF inv os _ ke(1)])
    moreover from this(2) have "cursor_at j' K' first front cur (Suc n)"
      unfolding cursor_at_def nk log_pos_next_page [OF ke, symmetric] by blast
    ultimately show thesis using m(1) d by (intro that [of m j' K'])
  next
    case False
    obtain j' where "next_with os (getFrameLength m (j_frame j)) (getMsgType m (j_frame j)) (j, K) = (Inr (), (j', K))"
      "cursor_inv j' K first front cur k (Suc i)" "reader_post j K j' K"
      by (rule next_with_plain [OF inv i m(2) False])
    moreover from this(2) have "cursor_at j' K first front cur (Suc n)"
      unfolding cursor_at_def nk log_pos_def add_Suc_right [symmetric] by blast
    ultimately show thesis using m(1) d by (intro that [of m j' K])
  qed
qed

lemma journal_next_ok:
  assumes at: "cursor_at j K first front cur n" and os: "os_works os" and n: "n < length (concat front @ cur)"
  obtains j' K' where "journal_next os (j, K) = (Inr (), (j', K'))"
    and "cursor_at j' K' first front cur (Suc n)" and "reader_post j K j' K'"
proof -
  obtain m j' K' where r: "current_frame (j, K) = (Inr m, (j, K))"
    "next_with os (getFrameLength m (j_frame j)) (getMsgType m (j_frame j)) (j, K) = (Inr (), (j', K'))"
    "cursor_at j' K' first front cur (Suc n)" "reader_post j K j' K'"
    by (rule next_with_ok [OF at os n])
  then show thesis
    by (intro that [of j' K']) (simp_all add: journal_next_def prog_simps)
qed

lemma current_frame_end:
  assumes at: "cursor_at j K first front cur n" and n: "\<not> n < length (concat front @ cur)"
  obtains m where "current_frame (j, K) = (Inr m, (j, K))" and "\<not> hasData m (j_frame j)"
    and "getFrameLength m (j_frame j) = 0" and "getMsgType m (j_frame j) = 0"
proof -
  obtain k i where inv: "cursor_inv j K first front cur k i" and nk: "n = log_pos front k i"
    using at by (auto simp: cursor_at_def)
  have pos: "valid_pos front cur k i" using inv by (simp add: cursor_inv_def)
  have i: "\<not> i < length (page_frames front cur k)" using log_pos_frame(1) [OF pos] n nk by simp
  obtain m where "current_frame (j, K) = (Inr m, (j, K))" "frame_here (page_frames front cur k) i m (j_frame j)"
    by (rule current_frame_ok [OF inv])
  then show thesis using i frame_here_hasData(2) [OF _ i] by (intro that [of m]) (simp_all add: frame_here_def)
qed

lemma cursor_at_bound: "cursor_at j K first front cur n \<Longrightarrow> n \<le> length (concat front @ cur)"
proof -
  assume "cursor_at j K first front cur n"
  then obtain k i where pos: "valid_pos front cur k i" and n: "n = log_pos front k i"
    by (auto simp: cursor_at_def cursor_inv_def)
  show ?thesis
  proof (cases "k < length front")
    case True
    then show ?thesis using log_pos_frame(1) [OF pos] pos n by (simp add: valid_pos_def)
  next
    case False
    then show ?thesis using pos n by (auto simp: valid_pos_def log_pos_def)
  qed
qed

subsection \<open>Seeking\<close>

definition before :: "u64 \<Rightarrow> FrameSnap \<Rightarrow> bool" where
  "before timestamp f \<longleftrightarrow> sint (snap_gen_time f) < sint timestamp"

lemma seek_frames_ok:
  assumes "cursor_at j K first front cur n" and os: "os_works os" and "fuel > length (concat front @ cur) - n"
  obtains j' K' where "seek_frames os ts fuel (j, K) = (Inr (), (j', K'))"
    and "cursor_at j' K' first front cur (n + length (takeWhile (before ts) (drop n (concat front @ cur))))"
    and "reader_post j K j' K'"
  using assms(1,3)
proof (induction fuel arbitrary: j K n thesis)
  case (Suc fuel)
  let ?log = "concat front @ cur"
  show ?case
  proof (cases "n < length ?log")
    case False
    obtain m where m: "current_frame (j, K) = (Inr m, (j, K))" "\<not> hasData m (j_frame j)"
      by (rule current_frame_end [OF Suc.prems(2) False])
    then show ?thesis
      using False Suc.prems(2) by (intro Suc.prems(1) [of j K]) (simp_all add: prog_simps)
  next
    case True
    obtain m j1 K1 where m: "current_frame (j, K) = (Inr m, (j, K))" "FrameSnap_from m (j_frame j) = ?log ! n"
      "hasData m (j_frame j)"
      "next_with os (getFrameLength m (j_frame j)) (getMsgType m (j_frame j)) (j, K) = (Inr (), (j1, K1))"
      "cursor_at j1 K1 first front cur (Suc n)" "reader_post j K j1 K1"
      by (rule next_with_ok [OF Suc.prems(2) os True])
    have t: "getGenTime m (j_frame j) = snap_gen_time (?log ! n)"
      unfolding m(2) [symmetric] by (simp add: FrameSnap_from_def Let_def)
    have dr: "drop n ?log = ?log ! n # drop (Suc n) ?log" using True by (rule Cons_nth_drop_Suc [symmetric])
    show ?thesis
    proof (cases "before ts (?log ! n)")
      case False
      then have "takeWhile (before ts) (drop n ?log) = []" by (simp only: dr takeWhile.simps if_False)
      moreover have "seek_frames os ts (Suc fuel) (j, K) = (Inr (), (j, K))"
        using m(1,3) t False by (simp add: prog_simps before_def)
      ultimately show ?thesis
        using Suc.prems(2) by (intro Suc.prems(1) [of j K]) simp_all
    next
      case b: True
      have run: "seek_frames os ts (Suc fuel) (j, K) = seek_frames os ts fuel (j1, K1)"
        using m(1,3,4) t b by (simp add: prog_simps before_def journal_next_def)
      have fuel: "fuel > length ?log - Suc n" using Suc.prems(3) True by simp
      obtain j' K' where "seek_frames os ts fuel (j1, K1) = (Inr (), (j', K'))"
        "cursor_at j' K' first front cur (Suc n + length (takeWhile (before ts) (drop (Suc n) ?log)))"
        "reader_post j1 K1 j' K'"
        by (rule Suc.IH [OF _ m(5) fuel])
      moreover have "length (takeWhile (before ts) (drop n ?log)) = Suc (length (takeWhile (before ts) (drop (Suc n) ?log)))"
        using b by (simp only: dr takeWhile.simps if_True length_Cons)
      ultimately show ?thesis
        using run reader_post_trans [OF m(6)] by (intro Suc.prems(1) [of j' K']) simp_all
    qed
  qed
qed simp

text \<open>The page tests of \<^verbatim>\<open>seekToTime\<close> on a page of the log.\<close>

lemma page_image_last:
  assumes "page_image sz fs m" and "fs \<noteq> []"
  shows "lastFrameAddress m = 64 + frames_len (butlast fs)" and "frame_at m (lastFrameAddress m) (last fs)"
    and "lastFrameAddress m + frame_stride (last fs) = 64 + frames_len fs"
proof -
  obtain gs f where fs: "fs = gs @ [f]" using assms(2) by (metis append_butlast_last_id)
  show pos: "lastFrameAddress m = 64 + frames_len (butlast fs)"
    using assms(1) by (simp add: page_image_def lastFrameAddress_def)
  show "frame_at m (lastFrameAddress m) (last fs)"
    using assms(1) unfolding pos by (simp add: page_image_def fs)
  show "lastFrameAddress m + frame_stride (last fs) = 64 + frames_len fs" unfolding pos by (simp add: fs)
qed

lemma last_frame_length:
  assumes "page_image sz fs m" and "fs \<noteq> []" and "unat sz \<le> 134217728"
  shows "uint (framePhysicalLength (getFrameLength m (lastFrameAddress m))) = int (frame_stride (last fs))"
proof -
  note l = page_image_last [OF assms(1,2)]
  have "32 + length (snap_payload (last fs)) \<le> 134217728"
    using l(3) assms(1,3) frame_stride_bounds(2) [of "last fs"] by (simp add: page_image_def)
  then have "unat (framePhysicalLength (getFrameLength m (lastFrameAddress m))) = frame_stride (last fs)"
    using l(2) by (simp add: frame_at_def frame_stride_def framePhysicalLength_stride)
  then show ?thesis by (metis uint_nat)
qed

lemma page_tests:
  assumes rdy: "page_ready K p pf" and img: "page_image (pg_size p) fs (pf_mem pf)" and ne: "fs \<noteq> []"
    and sz: "2097152 \<le> unat (pg_size p)" "unat (pg_size p) \<le> 134217728"
  shows "isFull p K = (Inr (unat (pg_size p) < 128 + frames_len fs), K)"
    and "endTime p K = (Inr (snap_gen_time (last fs)), K)"
proof -
  let ?m = "pf_mem pf"
  note l = page_image_last [OF img ne]
  have h: "ph_page_size (PageHeader_at ?m) = pg_size p" using img by (simp add: page_image_def header_ok_iff)
  have fits: "lastFrameAddress ?m + 32 \<le> unat (pg_size p)"
    using l(3) img frame_stride_bounds(1) [of "last fs"] by (simp add: page_image_def)
  have len: "getFrameLength ?m (lastFrameAddress ?m) \<noteq> 0" using l(2) by (auto simp: frame_at_def)
  have t: "getGenTime ?m (lastFrameAddress ?m) = snap_gen_time (last fs)"
    using l(2) by (rule frame_at_fields(2))
  have u: "uint (pg_size p) = int (unat (pg_size p))" by simp
  have border: "uint (pg_size p) - 64 < int (lastFrameAddress ?m) + int (frame_stride (last fs)) \<longleftrightarrow>
      unat (pg_size p) < 128 + frames_len fs"
    using l(3) u by linarith
  then show "isFull p K = (Inr (unat (pg_size p) < 128 + frames_len fs), K)"
    using fits sz(1) last_frame_length [OF img ne sz(2)] h
    by (simp add: isFull_def prog_simps page_read_ready [OF rdy] Let_def addressBorder_def)
  show "endTime p K = (Inr (snap_gen_time (last fs)), K)"
    using fits sz(1) len t by (simp add: endTime_def prog_simps page_read_ready [OF rdy] Let_def)
qed

lemma empty_page_not_full:
  assumes rdy: "page_ready K p pf" and img: "open_image (pg_size p) [] (pf_mem pf)" and sz: "2097152 \<le> unat (pg_size p)"
  shows "isFull p K = (Inr False, K)"
proof -
  let ?m = "pf_mem pf"
  have h: "ph_page_size (PageHeader_at ?m) = pg_size p" and off: "lastFrameAddress ?m = 64"
    using img by (simp_all add: open_image_def page_image_def header_ok_iff lastFrameAddress_def)
  have "zero_on ?m 64 (64 + 4)" using img sz by (auto simp: open_image_def elim!: zero_on_sub)
  then have "getFrameLength ?m 64 = 0" by (simp add: getFrameLength_def load_int_zero)
  moreover have "framePhysicalLength 0 = 0" by (simp add: framePhysicalLength_def alignUp_def)
  moreover have "uint (pg_size p) = int (unat (pg_size p))" by simp
  then have "2097152 \<le> uint (pg_size p)" using sz by linarith
  ultimately show ?thesis
    using sz h off by (simp add: isFull_def prog_simps page_read_ready [OF rdy] Let_def addressBorder_def)
qed

lemma open_page_not_full:
  assumes base: "reader_base j K first front cur" and on: "on_page j (first + int (length front))"
  obtains p where "j_page j = Some p" and "isFull p K = (Inr False, K)"
proof -
  let ?sz = "findPageSize (j_location j) (j_dest_id j)"
  obtain p pf where p: "j_page j = Some p" "pg_size p = ?sz" "page_ready K p pf" "page_image ?sz cur (pf_mem pf)"
    "open_image ?sz cur (pf_mem pf)"
    by (rule on_page_ready [OF base on]) simp_all
  have "128 + frames_len cur \<le> unat ?sz" using base by (simp add: reader_base_def journal_log_def)
  then have "isFull p K = (Inr False, K)"
    using p findPageSize_bounds [of "j_location j" "j_dest_id j"] empty_page_not_full [OF p(3)] page_tests(1) [OF p(3), of cur]
    by (cases "cur = []") simp_all
  with p(1) that show thesis by blast
qed

lemma seek_pages_ok:
  assumes "cursor_inv j K first front cur k 0" and os: "os_works os" and "fuel > length front - k"
  obtains j' K' k' where "seek_pages os ts fuel (j, K) = (Inr (), (j', K'))"
    and "cursor_inv j' K' first front cur k' 0" and "k \<le> k'"
    and "\<forall>q. k \<le> q \<longrightarrow> q < k' \<longrightarrow> before ts (last (front ! q))" and "reader_post j K j' K'"
  using assms(1,3)
proof (induction fuel arbitrary: j K k thesis)
  case (Suc fuel)
  let ?sz = "findPageSize (j_location j) (j_dest_id j)"
  have base: "reader_base j K first front cur" and on: "on_page j (first + int k)" and pos: "valid_pos front cur k 0"
    using Suc.prems(2) by (simp_all add: cursor_inv_def)
  have log: "journal_log (j_location j) (j_dest_id j) K first front cur" using base by (simp add: reader_base_def)
  show ?case
  proof (cases "k < length front")
    case False
    then have "k = length front" using pos by (auto simp: valid_pos_def)
    then obtain p where "j_page j = Some p" "isFull p K = (Inr False, K)"
      using open_page_not_full [OF base] on by blast
    then show ?thesis
      using Suc.prems(2) by (intro Suc.prems(1) [of j K k]) (simp_all add: the_current_def prog_simps)
  next
    case True
    have ne: "front ! k \<noteq> []" using log True by (auto simp: journal_log_def closed_frames_def)
    obtain p pf where p: "j_page j = Some p" "pg_page_id p = first + int k" "pg_size p = ?sz" "page_ready K p pf"
      "page_image ?sz (page_frames front cur k) (pf_mem pf)"
      by (rule on_page_ready [OF base on]) (use True in simp_all)
    have img: "page_image (pg_size p) (front ! k) (pf_mem pf)" using p(3,5) True by simp
    have sz: "2097152 \<le> unat (pg_size p)" "unat (pg_size p) \<le> 134217728"
      using p(3) findPageSize_bounds [of "j_location j" "j_dest_id j"] by simp_all
    note tests = page_tests [OF p(4) img ne sz]
    show ?thesis
    proof (cases "unat (pg_size p) < 128 + frames_len (front ! k) \<and> before ts (last (front ! k))")
      case False
      then have "seek_pages os ts (Suc fuel) (j, K) = (Inr (), (j, K))"
        using p(1) tests by (auto simp: the_current_def prog_simps before_def)
      then show ?thesis using Suc.prems(2) by (intro Suc.prems(1) [of j K k]) simp_all
    next
      case skip: True
      obtain j1 K1 where l: "loadPage os (first + int (Suc k)) (j, K) = (Inr (), (j1, K1))"
        "cursor_inv j1 K1 first front cur (Suc k) 0" "reader_post j K j1 K1"
        by (rule loadPage_ok [OF base os, of "Suc k"]) (use p True in simp_all)
      have id: "first + int k + 1 = first + int (Suc k)" by simp
      have run: "seek_pages os ts (Suc fuel) (j, K) = seek_pages os ts fuel (j1, K1)"
        using p(1,2) tests skip l(1) [folded id] by (simp add: the_current_def prog_simps before_def loadNextPage_def)
      have fuel: "fuel > length front - Suc k" using Suc.prems(3) True by simp
      obtain j' K' k' where r: "seek_pages os ts fuel (j1, K1) = (Inr (), (j', K'))" "cursor_inv j' K' first front cur k' 0"
        "Suc k \<le> k'" "\<forall>q. Suc k \<le> q \<longrightarrow> q < k' \<longrightarrow> before ts (last (front ! q))" "reader_post j1 K1 j' K'"
        by (rule Suc.IH [OF _ l(2) fuel])
      moreover have "\<forall>q. k \<le> q \<longrightarrow> q < k' \<longrightarrow> before ts (last (front ! q))"
        using r(4) skip by (metis le_antisym not_less_eq_eq)
      ultimately show ?thesis
        using run reader_post_trans [OF l(3)] by (intro Suc.prems(1) [of j' K' k']) simp_all
    qed
  qed
qed simp

text \<open>The two loops of \<^verbatim>\<open>seekToTime\<close> after the page is loaded.\<close>

lemma seek_from_page:
  assumes base: "reader_base j K first front cur" and os: "os_works os" and k: "k \<le> length front"
    and new: "case j_page j of None \<Rightarrow> True | Some p \<Rightarrow> pg_page_id p \<noteq> first + int k"
    and fuel: "fuel > length (concat front @ cur)" "fuel > length front"
  obtains j' K' k' where "bind_p (loadPage os (first + int k)) (\<lambda>_. bind_p (seek_pages os ts fuel) (\<lambda>_. seek_frames os ts fuel)) (j, K) =
      (Inr (), (j', K'))"
    and "k \<le> k'" and "k' \<le> length front" and "\<forall>q. k \<le> q \<longrightarrow> q < k' \<longrightarrow> before ts (last (front ! q))"
    and "cursor_at j' K' first front cur (log_pos front k' 0 +
      length (takeWhile (before ts) (drop (log_pos front k' 0) (concat front @ cur))))"
    and "reader_post j K j' K'"
proof -
  obtain j1 K1 where l: "loadPage os (first + int k) (j, K) = (Inr (), (j1, K1))"
    "cursor_inv j1 K1 first front cur k 0" "reader_post j K j1 K1"
    by (rule loadPage_ok [OF base os k new])
  have fuel': "fuel > length front - k" using fuel by simp
  obtain j2 K2 k' where p: "seek_pages os ts fuel (j1, K1) = (Inr (), (j2, K2))" "cursor_inv j2 K2 first front cur k' 0"
    "k \<le> k'" "\<forall>q. k \<le> q \<longrightarrow> q < k' \<longrightarrow> before ts (last (front ! q))" "reader_post j1 K1 j2 K2"
    by (rule seek_pages_ok [OF l(2) os fuel'])
  have k': "k' \<le> length front" using p(2) by (auto simp: cursor_inv_def valid_pos_def)
  have at: "cursor_at j2 K2 first front cur (log_pos front k' 0)" using p(2) by (auto simp: cursor_at_def)
  have fuel'': "fuel > length (concat front @ cur) - log_pos front k' 0" using fuel by simp
  obtain j3 K3 where f: "seek_frames os ts fuel (j2, K2) = (Inr (), (j3, K3))"
    "cursor_at j3 K3 first front cur (log_pos front k' 0 +
      length (takeWhile (before ts) (drop (log_pos front k' 0) (concat front @ cur))))" "reader_post j2 K2 j3 K3"
    by (rule seek_frames_ok [OF at os fuel''])
  have "reader_post j K j3 K3"
    using reader_post_trans [OF l(3) reader_post_trans [OF p(5) f(3)]] .
  then show thesis
    using l(1) p(1,3,4) f(1,2) k' by (intro that [of j3 K3 k']) (simp_all add: prog_simps)
qed

subsection \<open>The reader's threads\<close>

text \<open>A change of the retire queue, the warmer's slot and its request that keeps the accounting of mappings.\<close>

lemma cursor_at_background:
  assumes at: "cursor_at j K first front cur n" and om: "only_maps K K'" and same: "same_reader j j'"
    and page: "j_page j' = j_page j" "j_frame j' = j_frame j" and slot: "warm_slot_ok j'"
    and maps: "mset (k_maps K) = M + reader_maps j" "mset (k_maps K') = M + reader_maps j'"
  shows "cursor_at j' K' first front cur n" and "reader_post j K j' K'"
proof -
  obtain k i where inv: "cursor_inv j K first front cur k i" and nk: "n = log_pos front k i"
    using at by (auto simp: cursor_at_def)
  have "reader_base j' K' first front cur"
    using inv om same slot maps(2) by (simp add: cursor_inv_def reader_base_def same_reader_def journal_log_only_maps)
  moreover have "on_page j' (first + int k)"
    using inv same page by (simp add: cursor_inv_def on_page_def j_key_def same_reader_def)
  ultimately have "cursor_inv j' K' first front cur k i" using inv page by (simp add: cursor_inv_def)
  with nk show "cursor_at j' K' first front cur n" by (auto simp: cursor_at_def)
  show "reader_post j K j' K'" using om same maps by (simp add: reader_post_def)
qed

lemma cursor_at_maps:
  assumes "cursor_at j K first front cur n"
  obtains M where "mset (k_maps K) = M + reader_maps j"
proof -
  have "reader_maps j \<subseteq># mset (k_maps K)" using assms by (auto simp: cursor_at_def cursor_inv_def reader_base_def)
  then show thesis using that by (auto simp: mset_subset_eq_exists_conv add.commute)
qed

lemma cursor_at_slot: "cursor_at j K first front cur n \<Longrightarrow> warm_slot_ok j"
  by (auto simp: cursor_at_def cursor_inv_def reader_base_def)

lemma journal_retire_step_ok:
  assumes at: "cursor_at j K first front cur n" and os: "os_works os"
  obtains j' K' where "journal_retire_step os (j, K) = (Inr (), (j', K'))"
    and "cursor_at j' K' first front cur n" and "reader_post j K j' K'"
proof (cases "j_retire_queue j")
  case Nil
  then show thesis using at by (intro that [of j K]) (simp_all add: journal_retire_step_def prog_simps)
next
  case (Cons p ps)
  let ?j = "j\<lparr>j_retire_queue := ps\<rparr>" and ?K = "K\<lparr>k_maps := remove1 (pg_key p) (k_maps K)\<rparr>"
  have run: "journal_retire_step os (j, K) = (Inr (), (?j, ?K))"
    using Cons os by (simp add: journal_retire_step_def prog_simps Page_destroy_eq)
  obtain M where M: "mset (k_maps K) = M + reader_maps j" by (rule cursor_at_maps [OF at])
  have slot: "warm_slot_ok ?j"
    using cursor_at_slot [OF at] by (simp add: warm_slot_ok_def j_key_def cong: option.case_cong)
  have "reader_maps j = add_mset (pg_key p) (reader_maps ?j)" using Cons by (simp add: reader_maps_def)
  with M have "mset (k_maps ?K) = M + reader_maps ?j" by simp
  from cursor_at_background [OF at _ _ _ _ slot M this] run show thesis
    by (intro that [of ?j ?K]) (simp_all add: same_reader_def)
qed

lemma release_warmed_eq:
  "os_works os \<Longrightarrow> release_warmed os addr (j, K) = (Inr (), (j, K\<lparr>k_maps := remove1 addr (k_maps K)\<rparr>))"
  by (simp add: release_warmed_def releaseMmapBuffer_def sys_munmap_def prog_simps)

definition warm_page_of :: "Journal \<Rightarrow> int \<Rightarrow> Page" where
  "warm_page_of j i = \<lparr>pg_location = j_location j, pg_dest_id = j_dest_id j, pg_page_id = i, pg_size = j_page_size j,
     pg_prefault = False, pg_writable = False\<rparr>"

text \<open>The last part of the warmer's round: \<open>addr\<close> has just been mapped and is nobody's yet.\<close>

lemma warmer_install_cases:
  assumes os: "os_works os" and rdy: "page_ready K (warm_page_of j i) pf" and sz: "64 \<le> unat (j_page_size j)"
  shows "warmer_install os intr i addr (j, K) = (Inr (), (j, K\<lparr>k_maps := remove1 addr (k_maps K)\<rparr>)) \<or>
    warmer_install os intr i addr (j, K) = (Inr (),
      (j\<lparr>j_warmer_addr := Some addr, j_warmer_ready_id := i\<rparr>,
       case j_warmer_addr j of None \<Rightarrow> K | Some old \<Rightarrow> K\<lparr>k_maps := remove1 old (k_maps K)\<rparr>))"
proof -
  have "page_read (warm_page_of j i) 0 64 K = (Inr (pf_mem pf), K)"
    using page_read_ready [OF rdy] sz by (simp add: warm_page_of_def)
  then show ?thesis
    using os by (auto simp: warmer_install_def warm_page_of_def Let_def prog_simps release_warmed_eq split: option.split)
qed

lemma warm_key [simp]: "pg_key (warm_page_of j i) = j_key j i"
  by (simp add: warm_page_of_def pg_key_def j_key_def)

text \<open>A round either leaves everything as it was or puts page \<open>i\<close> into the slot.\<close>

lemma reader_warm_cases:
  assumes os: "os_works os" and sz: "64 \<le> unat (j_page_size j)"
  shows "\<exists>j0 K'. (j0 = j \<or> j0 = j\<lparr>j_warmer_pending := False\<rparr>) \<and>
    (reader_warm os intr (j, K) = (Inr (), (j0, K)) \<or>
     reader_warm os intr (j, K) = (Inr (),
      (j0\<lparr>j_warmer_addr := Some (j_key j (j_warmer_next_page j)), j_warmer_ready_id := j_warmer_next_page j\<rparr>, K')) \<and>
     only_maps K K' \<and> mset (k_maps K') = add_mset (j_key j (j_warmer_next_page j)) (mset (k_maps K)) -
       (case j_warmer_addr j of None \<Rightarrow> {#} | Some old \<Rightarrow> {# old #}))"
proof -
  let ?i = "j_warmer_next_page j" and ?j = "j\<lparr>j_warmer_pending := False\<rparr>"
  let ?key = "j_key j ?i" and ?K = "K\<lparr>k_maps := j_key j (j_warmer_next_page j) # k_maps K\<rparr>"
  show ?thesis
  proof (cases "\<exists>pf. lookup_file K ?key = Some pf \<and> pf_size pf = unat (j_page_size j)")
    case False
    then show ?thesis
      by (auto simp: reader_warm_def prog_simps Let_def j_key_def split: option.split)
  next
    case True
    then obtain pf where pf: "lookup_file K ?key = Some pf" "pf_size pf = unat (j_page_size j)" by blast
    have map: "loadExistingReadOnlyMmapBuffer (os ?key) ?key (unat (j_page_size j))
        \<lparr>populate_read = False, advise_hugepage = False\<rparr> K = (Inr (), ?K)"
      using pf os by (simp add: mmap_defs prog_simps)
    have rdy: "page_ready ?K (warm_page_of ?j ?i) pf"
      using pf by (simp add: page_ready_def) (simp add: j_key_def warm_page_of_def)
    have rw: "reader_warm os intr (j, K) = (Inr (), (j, K)) \<or> reader_warm os intr (j, K) = (Inr (), (?j, K)) \<or>
        reader_warm os intr (j, K) = warmer_install os intr ?i ?key (?j, ?K)"
      using pf map unfolding j_key_def by (simp add: reader_warm_def prog_simps Let_def)
    have wi: "warmer_install os intr ?i ?key (?j, ?K) = (Inr (), (?j, K)) \<or>
      warmer_install os intr ?i ?key (?j, ?K) = (Inr (),
        (?j\<lparr>j_warmer_addr := Some ?key, j_warmer_ready_id := ?i\<rparr>,
         case j_warmer_addr j of None \<Rightarrow> ?K | Some old \<Rightarrow> ?K\<lparr>k_maps := remove1 old (k_maps ?K)\<rparr>))"
      using warmer_install_cases [OF os rdy, of intr ?key] sz by simp
    let ?K' = "case j_warmer_addr j of None \<Rightarrow> ?K | Some old \<Rightarrow> ?K\<lparr>k_maps := remove1 old (k_maps ?K)\<rparr>"
    have K': "only_maps K ?K'" "mset (k_maps ?K') = add_mset ?key (mset (k_maps K)) -
       (case j_warmer_addr j of None \<Rightarrow> {#} | Some old \<Rightarrow> {# old #})"
      by (auto split: option.split)
    show ?thesis using rw wi K' by (metis (no_types, lifting))
  qed
qed

lemma reader_warm_ok:
  assumes at: "cursor_at j K first front cur n" and os: "os_works os"
  obtains j' K' where "reader_warm os intr (j, K) = (Inr (), (j', K'))"
    and "cursor_at j' K' first front cur n" and "reader_post j K j' K'"
proof -
  let ?i = "j_warmer_next_page j"
  have sz: "64 \<le> unat (j_page_size j)"
    using at by (auto simp: cursor_at_def cursor_inv_def reader_base_def)
  obtain M where M: "mset (k_maps K) = M + reader_maps j" by (rule cursor_at_maps [OF at])
  note slot = cursor_at_slot [OF at]
  obtain j0 K' where j0: "j0 = j \<or> j0 = j\<lparr>j_warmer_pending := False\<rparr>"
    and c: "reader_warm os intr (j, K) = (Inr (), (j0, K)) \<or>
     reader_warm os intr (j, K) = (Inr (), (j0\<lparr>j_warmer_addr := Some (j_key j ?i), j_warmer_ready_id := ?i\<rparr>, K')) \<and>
     only_maps K K' \<and> mset (k_maps K') = add_mset (j_key j ?i) (mset (k_maps K)) -
       (case j_warmer_addr j of None \<Rightarrow> {#} | Some old \<Rightarrow> {# old #})"
    using reader_warm_cases [OF os sz, of intr K] by blast
  let ?j1 = "j0\<lparr>j_warmer_addr := Some (j_key j ?i), j_warmer_ready_id := ?i\<rparr>"
  have same: "same_reader j j0" "j_page j0 = j_page j" "j_frame j0 = j_frame j" "reader_maps j0 = reader_maps j"
    and slot0: "warm_slot_ok j0"
    using j0 slot by (auto simp: same_reader_def reader_maps_def warm_slot_ok_def j_key_def cong: option.case_cong)
  have slot1: "warm_slot_ok ?j1" using j0 by (auto simp: warm_slot_ok_def j_key_def)
  from c show thesis
  proof
    assume r: "reader_warm os intr (j, K) = (Inr (), (j0, K))"
    from cursor_at_background [OF at _ same(1-3) slot0 M] M same(4) r that show thesis by simp
  next
    assume r: "reader_warm os intr (j, K) = (Inr (), (?j1, K')) \<and> only_maps K K' \<and>
      mset (k_maps K') = add_mset (j_key j ?i) (mset (k_maps K)) - (case j_warmer_addr j of None \<Rightarrow> {#} | Some old \<Rightarrow> {# old #})"
    have "reader_maps ?j1 = add_mset (j_key j ?i) (reader_maps j) - (case j_warmer_addr j of None \<Rightarrow> {#} | Some old \<Rightarrow> {# old #})"
      using j0 by (auto simp: reader_maps_def split: option.split)
    moreover have "(case j_warmer_addr j of None \<Rightarrow> {#} | Some old \<Rightarrow> {# old #}) \<subseteq># reader_maps j"
      by (auto simp: reader_maps_def split: option.split)
    ultimately have "mset (k_maps K') = M + reader_maps ?j1"
      using r M by (auto split: option.splits)
    from cursor_at_background [OF at _ _ _ _ slot1 M this] r same that show thesis
      by (simp add: same_reader_def)
  qed
qed

subsection \<open>A writer that appends\<close>

definition log_extends ::
    "FrameSnap list list \<Rightarrow> FrameSnap list \<Rightarrow> FrameSnap list list \<Rightarrow> FrameSnap list \<Rightarrow> bool" where
  "log_extends front cur front' cur' \<longleftrightarrow>
     (\<exists>x. front' = front \<and> cur' = cur @ x) \<or> (\<exists>x rest. x \<noteq> [] \<and> front' = front @ (cur @ x) # rest)"

lemma log_extends_refl [simp]: "log_extends front cur front cur"
  by (simp add: log_extends_def)

lemma log_extends_pos:
  assumes ext: "log_extends front cur front' cur'" and pos: "valid_pos front cur k i"
  shows "valid_pos front' cur' k i" and "log_pos front' k i = log_pos front k i"
    and "take i (page_frames front' cur' k) = take i (page_frames front cur k)"
proof -
  have k: "k < length front \<and> i < length (front ! k) \<or> k = length front \<and> i \<le> length cur"
    using pos by (simp add: valid_pos_def)
  consider x where "front' = front" "cur' = cur @ x"
    | x rest where "x \<noteq> []" "front' = front @ (cur @ x) # rest"
    using ext by (auto simp: log_extends_def)
  then have "valid_pos front' cur' k i \<and> log_pos front' k i = log_pos front k i \<and>
    take i (page_frames front' cur' k) = take i (page_frames front cur k)"
  proof cases
    case 1
    then show ?thesis using k by (auto simp: valid_pos_def)
  next
    case 2
    then obtain y ys where "x = y # ys" by (cases x) auto
    with 2 k show ?thesis by (auto simp: valid_pos_def log_pos_def page_frames_def nth_append)
  qed
  then show "valid_pos front' cur' k i" "log_pos front' k i = log_pos front k i"
    "take i (page_frames front' cur' k) = take i (page_frames front cur k)" by simp_all
qed

lemma cursor_at_extends:
  assumes at: "cursor_at j K first front cur n" and ext: "log_extends front cur front' cur'"
    and log: "journal_log (j_location j) (j_dest_id j) K' first front' cur'"
    and maps: "reader_maps j \<subseteq># mset (k_maps K')"
  shows "cursor_at j K' first front' cur' n"
proof -
  obtain k i where inv: "cursor_inv j K first front cur k i" and nk: "n = log_pos front k i"
    using at by (auto simp: cursor_at_def)
  have pos: "valid_pos front cur k i" using inv by (simp add: cursor_inv_def)
  note e = log_extends_pos [OF ext pos]
  have "cursor_inv j K' first front' cur' k i"
    using inv log maps e by (simp add: cursor_inv_def reader_base_def)
  then show ?thesis unfolding cursor_at_def nk e(2) [symmetric] by blast
qed

end
