(* ===== verification/Cursor_Seek.thy ===== *)
theory Cursor_Seek
  imports Cursor_Position
begin

section \<open>Seeking a journal to a time\<close>

text \<open>
  \<^verbatim>\<open>Journal::seekToTime\<close> as a whole: the binary search over the pages, the loop over full pages and
  the loop over frames.  The journal is one a single writer has written: its page files are those of
  the log and perhaps blank pages made in advance.
\<close>

definition whole_journal ::
    "Location \<Rightarrow> u32 \<Rightarrow> page_key kernel \<Rightarrow> int \<Rightarrow> FrameSnap list list \<Rightarrow> FrameSnap list \<Rightarrow> bool" where
  "whole_journal loc dest K first front cur \<longleftrightarrow>
     journal_log loc dest K first front cur \<and> page_ids_ok K \<and>
     (\<forall>i. lookup_file K (page_key_of loc dest i) \<noteq> None \<longrightarrow> first \<le> i \<and>
        (first + int (length front) < i \<longrightarrow>
           lookup_file K (page_key_of loc dest i) = Some (blank_file (findPageSize loc dest))))"

lemma whole_journalD:
  assumes "whole_journal loc dest K first front cur"
  shows "journal_log loc dest K first front cur" and "page_ids_ok K"
    and "i \<in> set (journal_pages loc dest K) \<Longrightarrow> first \<le> i"
    and "i \<in> set (journal_pages loc dest K) \<Longrightarrow> first + int (length front) < i \<Longrightarrow>
      lookup_file K (page_key_of loc dest i) = Some (blank_file (findPageSize loc dest))"
  using assms unfolding whole_journal_def set_journal_pages by blast+

lemma whole_journal_first:
  assumes "whole_journal loc dest K first front cur"
  shows "first \<in> set (journal_pages loc dest K)" and "hd (journal_pages loc dest K) = first"
proof -
  obtain pf where "lookup_file K (page_key_of loc dest (first + int 0)) = Some pf"
    by (rule journal_log_page [OF whole_journalD(1) [OF assms], of 0]) simp_all
  then show mem: "first \<in> set (journal_pages loc dest K)" by (simp add: set_journal_pages)
  have "sorted (journal_pages loc dest K)" by (simp add: journal_pages_def)
  from sorted_hd_min [OF this mem] have "hd (journal_pages loc dest K) \<le> first" .
  moreover have "hd (journal_pages loc dest K) \<in> set (journal_pages loc dest K)"
    using mem by (metis hd_in_set list.set(1) empty_iff)
  ultimately show "hd (journal_pages loc dest K) = first" using whole_journalD(3) [OF assms] by force
qed

lemma findPageId_zero:
  assumes "whole_journal loc dest K first front cur"
  shows "findPageId os loc dest 0 K = (Inr first, K)"
  using whole_journal_first [OF assms] whole_journalD(2) [OF assms]
  by (auto simp: findPageId_def prog_simps list_pages_eq)

subsection \<open>Begin times\<close>

definition begin_of :: "FrameSnap list \<Rightarrow> u64" where
  "begin_of fs = (if fs = [] then 0 else snap_gen_time (hd fs))"

lemma page_begin_nonempty:
  assumes "page_image sz fs m" and "fs \<noteq> []"
  shows "page_begin m = begin_of fs"
proof -
  have "frame_at m 64 (hd fs)" using assms page_image_frame [of sz fs m 0] by (simp add: hd_conv_nth)
  then show ?thesis
    using frame_at_fields(2) [of m 64 "hd fs"] assms(2) by (auto simp: page_begin_def begin_of_def frame_at_def)
qed

lemma page_begin_empty:
  assumes "open_image sz [] m" and "68 \<le> unat sz"
  shows "page_begin m = 0"
proof -
  have "zero_on m 64 (64 + 4)" using assms by (auto simp: open_image_def elim!: zero_on_sub)
  then show ?thesis by (simp add: page_begin_def getFrameLength_def load_int_zero)
qed

lemma log_page_begin:
  assumes "journal_log loc dest K first front cur" and "k \<le> length front"
  shows "page_begin (page_mem K (page_key_of loc dest (first + int k))) = begin_of (page_frames front cur k)"
proof -
  obtain pf where pf: "lookup_file K (page_key_of loc dest (first + int k)) = Some pf"
    "page_image (findPageSize loc dest) (page_frames front cur k) (pf_mem pf)"
    "k = length front \<longrightarrow> open_image (findPageSize loc dest) cur (pf_mem pf)"
    by (rule journal_log_page [OF assms])
  show ?thesis
  proof (cases "page_frames front cur k = []")
    case False
    with pf show ?thesis by (simp add: page_mem_def page_begin_nonempty)
  next
    case True
    then have "k = length front" using assms by (auto simp: journal_log_def closed_frames_def le_less)
    with True pf show ?thesis by (simp add: page_mem_def page_begin_empty begin_of_def)
  qed
qed

lemma blank_begin: "page_begin (blank_page (findPageSize loc dest)) = 0"
  by (rule page_begin_empty [OF blank_page_open]) simp_all

text \<open>Every page file of the journal is a page of the log or blank.\<close>

lemma whole_journal_page:
  assumes whole: "whole_journal loc dest K first front cur" and i: "i \<in> set (journal_pages loc dest K)"
  shows "(\<exists>k \<le> length front. i = first + int k \<and>
        page_begin (page_mem K (page_key_of loc dest i)) = begin_of (page_frames front cur k)) \<or>
     (first + int (length front) < i \<and> page_begin (page_mem K (page_key_of loc dest i)) = 0)"
proof (cases "first + int (length front) < i")
  case True
  with whole_journalD(4) [OF whole i] show ?thesis by (simp add: page_mem_def blank_file_def blank_begin)
next
  case False
  with whole_journalD(3) [OF whole i] have "nat (i - first) \<le> length front" "i = first + int (nat (i - first))" by auto
  with log_page_begin [OF whole_journalD(1) [OF whole]] show ?thesis by metis
qed

lemma whole_journal_ok:
  assumes whole: "whole_journal loc dest K first front cur"
  shows "journal_ok loc dest K"
proof -
  have "\<exists>pf. lookup_file K (page_key_of loc dest i) = Some pf \<and> page_file_ok (findPageSize loc dest) pf"
    if i: "i \<in> set (journal_pages loc dest K)" for i
  proof (cases "first + int (length front) < i")
    case True
    with whole_journalD(4) [OF whole i] show ?thesis
      using blank_page_ok [of "findPageSize loc dest"] by (simp add: blank_file_def)
  next
    case False
    with whole_journalD(3) [OF whole i] have k: "nat (i - first) \<le> length front" "first + int (nat (i - first)) = i" by auto
    obtain pf where "lookup_file K (page_key_of loc dest i) = Some pf" "pf_size pf = unat (findPageSize loc dest)"
      "page_image (findPageSize loc dest) (page_frames front cur (nat (i - first))) (pf_mem pf)"
      by (rule journal_log_page [OF whole_journalD(1) [OF whole] k(1), unfolded k(2)])
    then show ?thesis using page_image_file_ok by blast
  qed
  then show ?thesis
    using whole_journalD(2) [OF whole] by (fastforce simp: journal_ok_def list_all_iff)
qed

subsection \<open>Logs in time order\<close>

definition timely :: "FrameSnap list \<Rightarrow> bool" where
  "timely fs \<longleftrightarrow> sorted (map (\<lambda>f. sint (snap_gen_time f)) fs) \<and> list_all (\<lambda>f. 0 < sint (snap_gen_time f)) fs"

lemma sorted_concat_order:
  assumes "sorted (map g (concat xss))" and "k < k'" and "k' < length xss"
    and "x \<in> set (xss ! k)" and "y \<in> set (xss ! k')"
  shows "g x \<le> g y"
proof -
  have "concat xss = concat (take k' xss) @ concat (drop k' xss)" by (metis append_take_drop_id concat_append)
  moreover have "xss ! k \<in> set (take k' xss)" using assms(2,3) by (auto simp: in_set_conv_nth)
  moreover have "xss ! k' \<in> set (drop k' xss)" using assms(3) by (auto simp: in_set_conv_nth intro!: exI [of _ 0])
  ultimately show ?thesis using assms(1,4,5) by (auto simp: sorted_append)
qed

lemma timely_page_order:
  assumes "timely (concat front @ cur)" and "k < k'" and "k' \<le> length front"
    and "x \<in> set (page_frames front cur k)" and "y \<in> set (page_frames front cur k')"
  shows "sint (snap_gen_time x) \<le> sint (snap_gen_time y)"
  using assms sorted_concat_order [of "\<lambda>f. sint (snap_gen_time f)" "front @ [cur]" k k' x y]
  by (simp add: timely_def page_frames_def)

lemma timely_positive:
  assumes "timely (concat front @ cur)" and "k \<le> length front" and "x \<in> set (page_frames front cur k)"
  shows "snap_gen_time x \<noteq> 0" and "0 < sint (snap_gen_time x)"
proof -
  have "page_frames front cur k \<in> set (front @ [cur])"
    unfolding page_frames_def using assms(2) by (intro nth_mem) simp
  with assms(3) have "x \<in> set (concat front @ cur)" by auto
  then show "0 < sint (snap_gen_time x)" using assms(1) by (auto simp: timely_def list_all_iff)
  then show "snap_gen_time x \<noteq> 0" by auto
qed

lemma times_ordered_map:
  assumes "sorted ids"
    and "\<And>i i'. i \<in> set ids \<Longrightarrow> i' \<in> set ids \<Longrightarrow> i \<le> i' \<Longrightarrow> b i = 0 \<Longrightarrow> b i' = 0"
    and "\<And>i i'. i \<in> set ids \<Longrightarrow> i' \<in> set ids \<Longrightarrow> i \<le> i' \<Longrightarrow> b i \<noteq> 0 \<Longrightarrow> b i' \<noteq> 0 \<Longrightarrow> sint (b i) \<le> sint (b i')"
  shows "times_ordered (map b ids)"
  using assms
proof (induction ids)
  case Nil
  show ?case by (simp add: times_ordered_def)
next
  case (Cons i ids)
  have "times_ordered (map b ids)"
    by (rule Cons.IH) (use Cons.prems in \<open>auto simp: sorted_simps\<close>)
  moreover have "list_all (\<lambda>t. t = 0) (map b ids)" if "b i = 0"
    using Cons.prems(1,2) that by (fastforce simp: list_all_iff)
  moreover have "\<forall>u \<in> set (map b ids). u \<noteq> 0 \<longrightarrow> sint (b i) \<le> sint u" if "b i \<noteq> 0"
    using Cons.prems(1,3) that by fastforce
  ultimately show ?case by (simp add: times_ordered_Cons)
qed

lemma whole_journal_times:
  assumes whole: "whole_journal loc dest K first front cur" and timely: "timely (concat front @ cur)"
  shows "times_ordered (begin_times loc dest K)"
proof -
  let ?b = "\<lambda>i. page_begin (page_mem K (page_key_of loc dest i))" and ?ids = "journal_pages loc dest K"
  note log = whole_journalD(1) [OF whole]
  have empty: "k = length front" if "k \<le> length front" "begin_of (page_frames front cur k) = 0" for k
  proof (rule ccontr)
    assume "k \<noteq> length front"
    with that(1) have "k < length front" by simp
    with log have ne: "page_frames front cur k \<noteq> []" by (auto simp: journal_log_def closed_frames_def)
    with timely_positive(1) [OF timely that(1), of "hd (page_frames front cur k)"] that(2) show False
      by (simp add: begin_of_def)
  qed
  have "times_ordered (map ?b ?ids)"
  proof (rule times_ordered_map)
    show "sorted ?ids" by (simp add: journal_pages_def)
  next
    fix i i' assume i: "i \<in> set ?ids" "i' \<in> set ?ids" "i \<le> i'" and z: "?b i = 0"
    have "i \<ge> first + int (length front)"
      using whole_journal_page [OF whole i(1)] z empty by fastforce
    then have "i' = i \<or> i' > first + int (length front)" using i(3) by linarith
    then show "?b i' = 0" using z whole_journal_page [OF whole i(2)] by auto
  next
    fix i i' assume i: "i \<in> set ?ids" "i' \<in> set ?ids" "i \<le> i'" and nz: "?b i \<noteq> 0" "?b i' \<noteq> 0"
    obtain k where k: "k \<le> length front" "i = first + int k" "?b i = begin_of (page_frames front cur k)"
      using whole_journal_page [OF whole i(1)] nz by auto
    obtain k' where k': "k' \<le> length front" "i' = first + int k'" "?b i' = begin_of (page_frames front cur k')"
      using whole_journal_page [OF whole i(2)] nz by auto
    have ne: "page_frames front cur k \<noteq> []" "page_frames front cur k' \<noteq> []"
      using k(3) k'(3) nz by (auto simp: begin_of_def)
    show "sint (?b i) \<le> sint (?b i')"
    proof (cases "k = k'")
      case False
      then have "k < k'" using k(2) k'(2) i(3) by simp
      then show ?thesis
        using timely_page_order [OF timely _ k'(1)] ne unfolding k(3) k'(3) by (simp add: begin_of_def)
    qed (use k(2) k'(2) in simp)
  qed
  then show ?thesis by (simp add: begin_times_def)
qed

subsection \<open>The result of a seek\<close>

lemma journal_seek_unfold:
  assumes "findPageId os (j_location j) (j_dest_id j) ts K = (Inr i, K)"
  shows "journal_seekToTime os fuel ts (j, K) =
    bind_p (loadPage os i) (\<lambda>_. bind_p (seek_pages os ts fuel) (\<lambda>_. seek_frames os ts fuel)) (j, K)"
  using assms by (simp add: journal_seekToTime_def prog_simps)

text \<open>From time 0 a cursor that has no page yet starts at the first frame.\<close>

lemma seek_start:
  assumes base: "reader_base j K first front cur" and whole: "whole_journal (j_location j) (j_dest_id j) K first front cur"
    and os: "os_works os" and new: "j_page j = None"
    and fuel: "fuel > length (concat front @ cur)" "fuel > length front"
    and times: "list_all (\<lambda>f. 0 \<le> sint (snap_gen_time f)) (concat front @ cur)"
  obtains j' K' where "journal_seekToTime os fuel 0 (j, K) = (Inr (), (j', K'))"
    and "cursor_at j' K' first front cur 0" and "reader_post j K j' K'"
proof -
  have nb: "\<not> before 0 f" if "f \<in> set (concat front @ cur)" for f
    using times that unfolding list_all_iff before_def by force
  obtain j' K' k' where s: "bind_p (loadPage os (first + int 0)) (\<lambda>_. bind_p (seek_pages os 0 fuel) (\<lambda>_. seek_frames os 0 fuel)) (j, K) =
      (Inr (), (j', K'))" "0 \<le> k'" "k' \<le> length front" "\<forall>q. 0 \<le> q \<longrightarrow> q < k' \<longrightarrow> before 0 (last (front ! q))"
    "cursor_at j' K' first front cur (log_pos front k' 0 +
      length (takeWhile (before 0) (drop (log_pos front k' 0) (concat front @ cur))))" "reader_post j K j' K'"
    by (rule seek_from_page [OF base os _ _ fuel, of 0]) (use new in simp_all)
  have "k' = 0"
  proof (rule ccontr)
    assume "k' \<noteq> 0"
    then have b: "before 0 (last (front ! 0))" and ne: "0 < length front" using s(3,4) by auto
    have "front ! 0 \<noteq> []" using ne base by (auto simp: reader_base_def journal_log_def closed_frames_def)
    then have "last (front ! 0) \<in> set (concat front @ cur)" using ne by (auto intro!: bexI [of _ "front ! 0"])
    with nb b show False by blast
  qed
  moreover have "takeWhile (before 0) (concat front @ cur) = []"
    using nb unfolding takeWhile_eq_Nil_iff by (metis hd_in_set)
  ultimately show thesis
    using s journal_seek_unfold [OF findPageId_zero [OF whole]] by (intro that [of j' K']) (simp_all add: log_pos_def)
qed

definition not_after :: "u64 \<Rightarrow> FrameSnap \<Rightarrow> bool" where
  "not_after ts f \<longleftrightarrow> sint (snap_gen_time f) \<le> sint ts"

lemma findPageId_log:
  assumes whole: "whole_journal loc dest K first front cur" and os: "os_works os" and timely: "timely (concat front @ cur)"
    and ts: "ts \<noteq> 0"
  obtains k where "k \<le> length front" and "findPageId os loc dest ts K = (Inr (first + int k), K)"
    and "list_all (not_after ts) (concat (take k front))"
proof -
  let ?ids = "journal_pages loc dest K"
  let ?P = "\<lambda>i. starts_by ts (page_begin (page_mem K (page_key_of loc dest i)))"
  note hd = whole_journal_first [OF whole]
  then have "?ids \<noteq> []" by auto
  from findPageId_correct [OF whole_journal_ok [OF whole] os this whole_journal_times [OF whole timely] ts]
  have run: "findPageId os loc dest ts K = (Inr (last (first # filter ?P ?ids)), K)" using hd(2) by simp
  show thesis
  proof (cases "filter ?P ?ids = []")
    case True
    with run show thesis by (intro that [of 0]) simp_all
  next
    case False
    let ?i = "last (filter ?P ?ids)"
    have i: "?i \<in> set ?ids" "?P ?i" using last_in_set [OF False] by auto
    then obtain k where k: "k \<le> length front" "?i = first + int k"
      "page_begin (page_mem K (page_key_of loc dest ?i)) = begin_of (page_frames front cur k)"
      using whole_journal_page [OF whole i(1)] by (auto simp: starts_by_def)
    have ne: "page_frames front cur k \<noteq> []" and le: "sint (snap_gen_time (hd (page_frames front cur k))) \<le> sint ts"
      using i(2) unfolding k(3) by (auto simp: starts_by_def begin_of_def split: if_splits)
    have "not_after ts f" if q: "q < k" "f \<in> set (front ! q)" for q f
      using timely_page_order [OF timely q(1) k(1), of f "hd (page_frames front cur k)"] q k(1) ne le
      by (simp add: not_after_def)
    then have "list_all (not_after ts) (concat (take k front))"
      by (auto simp: list_all_iff in_set_conv_nth [of _ "take k front"])
    with run False k that show thesis by simp
  qed
qed

lemma sorted_concat_nth: "sorted (map g (concat xss)) \<Longrightarrow> k < length xss \<Longrightarrow> sorted (map g (xss ! k))"
  by (simp add: concat_split [of k xss] sorted_append)

lemma sorted_from_hd:
  "sorted (map g xs) \<Longrightarrow> xs = [] \<or> b \<le> g (hd xs) \<Longrightarrow> list_all (\<lambda>x. b \<le> g x) xs"
  by (cases xs) (auto simp: list_all_iff)

lemma page_before:
  assumes "timely (concat front @ cur)" and "q < length front" and "before ts (last (front ! q))" and "f \<in> set (front ! q)"
  shows "before ts f"
proof -
  have "sorted (map (\<lambda>f. sint (snap_gen_time f)) (front ! q))"
    using assms(1,2) sorted_concat_nth [of "\<lambda>f. sint (snap_gen_time f)" front q] by (simp add: timely_def sorted_append)
  then have "sint (snap_gen_time f) \<le> last (map (\<lambda>f. sint (snap_gen_time f)) (front ! q))"
    using assms(4) by (intro sorted_last_max) auto
  moreover have "front ! q \<noteq> []" using assms(4) by auto
  ultimately show ?thesis using assms(3) by (simp add: before_def last_map)
qed

lemma take_log_pos: "k \<le> length front \<Longrightarrow> take (log_pos front k 0) (concat front @ cur) = concat (take k front)"
  and drop_log_pos: "k \<le> length front \<Longrightarrow> drop (log_pos front k 0) (concat front @ cur) = concat (drop k front) @ cur"
proof -
  have "concat front = concat (take k front) @ concat (drop k front)" by (metis append_take_drop_id concat_append)
  then have e: "concat front @ cur = concat (take k front) @ concat (drop k front) @ cur" by simp
  show "take (log_pos front k 0) (concat front @ cur) = concat (take k front)"
    "drop (log_pos front k 0) (concat front @ cur) = concat (drop k front) @ cur"
    unfolding e by (simp_all add: log_pos_def)
qed

text \<open>In a log in time order, a seek passes no frame after the time and stops at none before it.\<close>

lemma seek_time:
  assumes base: "reader_base j K first front cur" and whole: "whole_journal (j_location j) (j_dest_id j) K first front cur"
    and os: "os_works os" and new: "j_page j = None"
    and fuel: "fuel > length (concat front @ cur)" "fuel > length front"
    and timely: "timely (concat front @ cur)" and ts: "ts \<noteq> 0"
  obtains j' K' n where "journal_seekToTime os fuel ts (j, K) = (Inr (), (j', K'))"
    and "cursor_at j' K' first front cur n" and "list_all (not_after ts) (take n (concat front @ cur))"
    and "list_all (\<lambda>f. \<not> before ts f) (drop n (concat front @ cur))" and "reader_post j K j' K'"
proof -
  let ?log = "concat front @ cur"
  obtain k where k: "k \<le> length front" "findPageId os (j_location j) (j_dest_id j) ts K = (Inr (first + int k), K)"
    "list_all (not_after ts) (concat (take k front))"
    by (rule findPageId_log [OF whole os timely ts])
  obtain j' K' k' where s: "bind_p (loadPage os (first + int k)) (\<lambda>_. bind_p (seek_pages os ts fuel) (\<lambda>_. seek_frames os ts fuel)) (j, K) =
      (Inr (), (j', K'))" "k \<le> k'" "k' \<le> length front" "\<forall>q. k \<le> q \<longrightarrow> q < k' \<longrightarrow> before ts (last (front ! q))"
    "cursor_at j' K' first front cur (log_pos front k' 0 + length (takeWhile (before ts) (drop (log_pos front k' 0) ?log)))"
    "reader_post j K j' K'"
    by (rule seek_from_page [OF base os k(1) _ fuel]) (use new in simp)
  let ?tw = "takeWhile (before ts) (drop (log_pos front k' 0) ?log)"
  let ?n = "log_pos front k' 0 + length ?tw"
  have tk: "take ?n ?log = concat (take k' front) @ ?tw"
    by (simp only: take_add take_log_pos [OF s(3)]) (metis takeWhile_eq_take length_takeWhile_le take_all)
  have dr: "drop ?n ?log = dropWhile (before ts) (drop (log_pos front k' 0) ?log)"
    by (simp only: drop_drop [symmetric] add.commute [of "log_pos front k' 0"] dropWhile_eq_drop)
  have "not_after ts f" if q: "q < k'" "f \<in> set (front ! q)" for q f
  proof (cases "q < k")
    case True
    then have "front ! q \<in> set (take k front)" using k(1) by (auto simp: in_set_conv_nth)
    with k(3) q(2) show ?thesis by (auto simp: list_all_iff)
  next
    case False
    with s(3,4) q page_before [OF timely, of q ts f] show ?thesis by (simp add: not_after_def before_def)
  qed
  then have "list_all (not_after ts) (take ?n ?log)"
    unfolding tk by (auto simp: list_all_iff in_set_conv_nth [of _ "take k' front"] not_after_def before_def dest!: set_takeWhileD)
  moreover have "list_all (\<lambda>f. \<not> before ts f) (drop ?n ?log)"
  proof -
    have "sorted (map (\<lambda>f. sint (snap_gen_time f)) (drop ?n ?log))"
      using timely by (simp add: timely_def drop_map [symmetric] del: drop_append map_append)
    moreover have "drop ?n ?log = [] \<or> \<not> before ts (hd (drop ?n ?log))" unfolding dr by (metis hd_dropWhile)
    ultimately show ?thesis using sorted_from_hd by (simp only: before_def not_less) blast
  qed
  ultimately show thesis
    using s journal_seek_unfold [OF k(2)] by (intro that [of j' K' ?n]) simp_all
qed

end
