(* ===== verification/Reader_Merge.thy ===== *)
theory Reader_Merge
  imports Journal_Reader Cursor_Seek
begin

section \<open>What a reader delivers\<close>

text \<open>
  A reader over several journals, each with the log its writer has made and the position the reader
  has reached in it.  The theory shows that every step of a reader delivers the frame with the
  earliest time among the frames the journals stand on, moves that journal by one frame and leaves
  the others where they are; and what this means for a whole run: the frames of each journal arrive
  in their order, and in the order of time when the logs are in the order of time.
\<close>

subsection \<open>The invariant\<close>

record jview =
  v_location :: Location
  v_dest_id :: u32
  v_first :: int
  v_front :: "FrameSnap list list"
  v_cur :: "FrameSnap list"

definition view_log :: "jview \<Rightarrow> FrameSnap list" where
  "view_log V = concat (v_front V) @ v_cur V"

definition stands_at :: "Journal \<Rightarrow> page_key kernel \<Rightarrow> jview \<Rightarrow> nat \<Rightarrow> bool" where
  "stands_at j K V n \<longleftrightarrow> j_location j = v_location V \<and> j_dest_id j = v_dest_id V \<and>
     cursor_at j K (v_first V) (v_front V) (v_cur V) n"

definition all_maps :: "Journal list \<Rightarrow> page_key multiset" where
  "all_maps js = sum_list (map reader_maps js)"

definition reader_inv ::
    "JournalReader \<Rightarrow> page_key kernel \<Rightarrow> page_key multiset \<Rightarrow> jview list \<Rightarrow> nat list \<Rightarrow> bool" where
  "reader_inv r K M Vs ns \<longleftrightarrow>
     length Vs = length (rd_journals r) \<and> length ns = length (rd_journals r) \<and>
     (\<forall>i < length (rd_journals r). stands_at (rd_journals r ! i) K (Vs ! i) (ns ! i)) \<and>
     mset (k_maps K) = M + all_maps (rd_journals r) \<and>
     rd_single_journal r = (if length (rd_journals r) = 1 then Some 0 else None) \<and>
     rd_single_frame r = rd_single_journal r \<and>
     (length (rd_journals r) = 1 \<longrightarrow> rd_current r = Some 0)"

lemma all_maps_update:
  "i < length js \<Longrightarrow> all_maps (js[i := j]) + reader_maps (js ! i) = all_maps js + reader_maps j"
  unfolding all_maps_def
proof (induction js arbitrary: i)
  case (Cons a js)
  then show ?case by (cases i) (simp_all add: ac_simps)
qed simp

lemma all_maps_nth: "i < length js \<Longrightarrow> reader_maps (js ! i) \<subseteq># all_maps js"
  unfolding all_maps_def
proof (induction js arbitrary: i)
  case (Cons a js)
  then show ?case by (cases i) (simp_all add: subset_mset.add_increasing)
qed simp

lemma stands_at_only_maps:
  assumes "stands_at j K V n" and "only_maps K K'" and "reader_maps j \<subseteq># mset (k_maps K')"
  shows "stands_at j K' V n"
proof -
  let ?first = "v_first V" and ?front = "v_front V" and ?cur = "v_cur V"
  have at: "cursor_at j K ?first ?front ?cur n" using assms(1) by (simp add: stands_at_def)
  then have "journal_log (j_location j) (j_dest_id j) K' ?first ?front ?cur"
    unfolding journal_log_only_maps [OF assms(2)] by (auto simp: cursor_at_def cursor_inv_def reader_base_def)
  from cursor_at_extends [OF at log_extends_refl this assms(3)] assms(1) show ?thesis
    by (simp add: stands_at_def)
qed

text \<open>One operation on journal \<open>i\<close> that moves it from \<open>n\<close> to \<open>n'\<close>.\<close>

lemma on_journal_ok:
  assumes inv: "reader_inv r K M Vs ns" and i: "i < length (rd_journals r)"
    and run: "p (rd_journals r ! i, K) = (Inr x, (j', K'))"
    and at: "stands_at j' K' (Vs ! i) n'" and post: "reader_post (rd_journals r ! i) K j' K'"
  shows "on_journal i p (r, K) = (Inr x, (r\<lparr>rd_journals := (rd_journals r)[i := j']\<rparr>, K'))"
    and "reader_inv (r\<lparr>rd_journals := (rd_journals r)[i := j']\<rparr>) K' M Vs (ns[i := n'])"
proof -
  let ?js = "rd_journals r" and ?js' = "(rd_journals r)[i := j']"
  show "on_journal i p (r, K) = (Inr x, (r\<lparr>rd_journals := (rd_journals r)[i := j']\<rparr>, K'))"
    using i run by (simp add: on_journal_def)
  have om: "only_maps K K'" and eq: "mset (k_maps K') - reader_maps j' = mset (k_maps K) - reader_maps (?js ! i)"
    using post by (simp_all add: reader_post_def)
  have maps: "mset (k_maps K) = M + all_maps ?js" using inv by (simp add: reader_inv_def)
  obtain S where S: "all_maps ?js = S + reader_maps (?js ! i)"
    using all_maps_nth [OF i] by (auto simp: mset_subset_eq_exists_conv add.commute)
  have "reader_maps j' \<subseteq># mset (k_maps K')"
    using at by (auto simp: stands_at_def cursor_at_def cursor_inv_def reader_base_def)
  then have "mset (k_maps K') = (mset (k_maps K') - reader_maps j') + reader_maps j'" by simp
  also have "\<dots> = M + S + reader_maps j'" unfolding eq maps S by (simp add: add.assoc)
  also have "\<dots> = M + all_maps ?js'"
    using all_maps_update [OF i, of j'] S by (simp add: ac_simps)
  finally have maps': "mset (k_maps K') = M + all_maps ?js'" .
  have "stands_at (?js' ! k) K' (Vs ! k) (ns[i := n'] ! k)" if k: "k < length ?js" for k
  proof (cases "k = i")
    case True
    with at i inv show ?thesis by (simp add: reader_inv_def)
  next
    case False
    have "reader_maps (?js ! k) \<subseteq># all_maps ?js'"
      using all_maps_nth [of k ?js'] k False by simp
    then have "reader_maps (?js ! k) \<subseteq># mset (k_maps K')"
      unfolding maps' by (simp add: subset_mset.add_increasing)
    with inv k False om show ?thesis by (auto simp: reader_inv_def intro: stands_at_only_maps)
  qed
  with inv maps' show "reader_inv (r\<lparr>rd_journals := ?js'\<rparr>) K' M Vs (ns[i := n'])"
    by (simp add: reader_inv_def)
qed

subsection \<open>Looking at the heads\<close>

definition view_head :: "jview list \<Rightarrow> nat list \<Rightarrow> nat \<Rightarrow> FrameSnap option" where
  "view_head Vs ns i = (if ns ! i < length (view_log (Vs ! i)) then Some (view_log (Vs ! i) ! (ns ! i)) else None)"

lemma on_journal_read:
  "i < length (rd_journals r) \<Longrightarrow> p (rd_journals r ! i, K) = (Inr x, (rd_journals r ! i, K)) \<Longrightarrow>
   on_journal i p (r, K) = (Inr x, (r, K))"
  by (simp add: on_journal_def)

text \<open>What a reader finds at the cursor of journal \<open>i\<close>.\<close>

lemma head_frame:
  assumes inv: "reader_inv r K M Vs ns" and i: "i < length (rd_journals r)"
  obtains m where "current_frame (rd_journals r ! i, K) = (Inr m, (rd_journals r ! i, K))"
    and "hasData m (j_frame (rd_journals r ! i)) \<longleftrightarrow> view_head Vs ns i \<noteq> None"
    and "\<forall>f. view_head Vs ns i = Some f \<longrightarrow> FrameSnap_from m (j_frame (rd_journals r ! i)) = f"
proof -
  let ?j = "rd_journals r ! i"
  obtain first front cur where V: "v_first (Vs ! i) = first" "v_front (Vs ! i) = front" "v_cur (Vs ! i) = cur" by blast
  have at: "cursor_at ?j K first front cur (ns ! i)" using inv i V by (auto simp: reader_inv_def stands_at_def)
  show thesis
  proof (cases "ns ! i < length (concat front @ cur)")
    case True
    obtain k n where c: "cursor_inv ?j K first front cur k n" "ns ! i = log_pos front k n"
      using at by (auto simp: cursor_at_def)
    have pos: "valid_pos front cur k n" and log: "journal_log (j_location ?j) (j_dest_id ?j) K first front cur"
      using c(1) by (simp_all add: cursor_inv_def reader_base_def)
    have n: "n < length (page_frames front cur k)" using log_pos_frame(1) [OF pos] True c(2) by simp
    obtain m where m: "current_frame (?j, K) = (Inr m, (?j, K))" "frame_here (page_frames front cur k) n m (j_frame ?j)"
      by (rule current_frame_ok [OF c(1)])
    show thesis
      by (rule that [OF m(1)])
        (use True V frame_here_hasData(1) [OF m(2) n log_frame_kind(2) [OF log pos n]] frame_here_fields(1) [OF m(2) n]
          log_pos_frame(2) [OF pos n] c(2) in \<open>simp_all add: view_head_def view_log_def\<close>)
  next
    case False
    obtain m where "current_frame (?j, K) = (Inr m, (?j, K))" "\<not> hasData m (j_frame ?j)"
      by (rule current_frame_end [OF at False])
    then show thesis using False V by (intro that [of m]) (simp_all add: view_head_def view_log_def)
  qed
qed

lemma peek_frame_ok:
  assumes inv: "reader_inv r K M Vs ns" and i: "i < length (rd_journals r)"
  obtains len ty t where "peek_frame i (r, K) = (Inr (len, ty, t), (r, K))"
    and "hasData_with len ty \<longleftrightarrow> view_head Vs ns i \<noteq> None"
    and "\<forall>f. view_head Vs ns i = Some f \<longrightarrow> t = snap_gen_time f"
proof -
  let ?j = "rd_journals r ! i"
  obtain m where m: "current_frame (?j, K) = (Inr m, (?j, K))" "hasData m (j_frame ?j) \<longleftrightarrow> view_head Vs ns i \<noteq> None"
    "\<forall>f. view_head Vs ns i = Some f \<longrightarrow> FrameSnap_from m (j_frame ?j) = f"
    by (rule head_frame [OF inv i])
  have "peek_frame i (r, K) = (Inr (getFrameLength m (j_frame ?j), getMsgType m (j_frame ?j), getGenTime m (j_frame ?j)), (r, K))"
    unfolding peek_frame_def by (rule on_journal_read [OF i]) (simp add: prog_simps m(1))
  moreover have "\<forall>f. view_head Vs ns i = Some f \<longrightarrow> getGenTime m (j_frame ?j) = snap_gen_time f"
    using m(3) by (auto simp: FrameSnap_from_def Let_def)
  ultimately show thesis using m(2) by (intro that) (simp_all add: hasData_def)
qed

lemma frame_hasData_ok:
  assumes "reader_inv r K M Vs ns" and "i < length (rd_journals r)"
  shows "frame_hasData i (r, K) = (Inr (view_head Vs ns i \<noteq> None), (r, K))"
proof -
  obtain len ty t where "peek_frame i (r, K) = (Inr (len, ty, t), (r, K))"
    "hasData_with len ty \<longleftrightarrow> view_head Vs ns i \<noteq> None"
    by (rule peek_frame_ok [OF assms])
  then show ?thesis by (simp add: frame_hasData_def prog_simps)
qed

text \<open>The (time, index) pairs of the journals that have data.\<close>

definition heads :: "jview list \<Rightarrow> nat list \<Rightarrow> nat list \<Rightarrow> (u64 \<times> nat) list" where
  "heads Vs ns is = concat (map (\<lambda>i. case view_head Vs ns i of None \<Rightarrow> [] | Some f \<Rightarrow> [(snap_gen_time f, i)]) is)"

lemma heads_simps [simp]:
  "heads Vs ns [] = []"
  "heads Vs ns (i # is) = (case view_head Vs ns i of None \<Rightarrow> [] | Some f \<Rightarrow> [(snap_gen_time f, i)]) @ heads Vs ns is"
  by (simp_all add: heads_def)

lemma in_heads: "(t, i) \<in> set (heads Vs ns is) \<longleftrightarrow> i \<in> set is \<and> (\<exists>f. view_head Vs ns i = Some f \<and> t = snap_gen_time f)"
proof (induction "is")
  case (Cons k "is")
  then show ?case by (cases "view_head Vs ns k") auto
qed simp

lemma collect_times_ok:
  assumes inv: "reader_inv r K M Vs ns" and "set is \<subseteq> {..<length (rd_journals r)}"
  shows "collect_times is (r, K) = (Inr (heads Vs ns is), (r, K))"
  using assms(2)
proof (induction "is")
  case (Cons i "is")
  then have i: "i < length (rd_journals r)" by simp
  obtain len ty t where p: "peek_frame i (r, K) = (Inr (len, ty, t), (r, K))"
    "hasData_with len ty \<longleftrightarrow> view_head Vs ns i \<noteq> None" "\<forall>f. view_head Vs ns i = Some f \<longrightarrow> t = snap_gen_time f"
    by (rule peek_frame_ok [OF inv i])
  then show ?case using Cons by (auto simp: prog_simps split: option.split)
qed (simp add: prog_simps)

definition scan_best :: "(u64 \<times> nat) list \<Rightarrow> u64 \<times> nat option \<Rightarrow> u64 \<times> nat option" where
  "scan_best = fold (\<lambda>(t, i) best. if sint t < sint (fst best) then (t, Some i) else best)"

lemma linear_scan_ok:
  assumes inv: "reader_inv r K M Vs ns" and "set is \<subseteq> {..<length (rd_journals r)}"
  shows "linear_scan is best (r, K) = (Inr (scan_best (heads Vs ns is) best), (r, K))"
  using assms(2)
proof (induction "is" arbitrary: best)
  case (Cons i "is")
  then have i: "i < length (rd_journals r)" by simp
  obtain len ty t where p: "peek_frame i (r, K) = (Inr (len, ty, t), (r, K))"
    "hasData_with len ty \<longleftrightarrow> view_head Vs ns i \<noteq> None" "\<forall>f. view_head Vs ns i = Some f \<longrightarrow> t = snap_gen_time f"
    by (rule peek_frame_ok [OF inv i])
  then show ?case using Cons by (auto simp: prog_simps scan_best_def split: option.split)
qed (simp add: prog_simps scan_best_def)

text \<open>The scan finds the earliest time, and among equal times the lowest index.\<close>

lemma scan_best_least:
  "case scan_best hs (tb, b) of (t, b') \<Rightarrow>
     sint t \<le> sint tb \<and> (\<forall>(u, i) \<in> set hs. sint t \<le> sint u) \<and>
     ((t, b') = (tb, b) \<or> (\<exists>i. b' = Some i \<and> (t, i) \<in> set hs \<and> sint t < sint tb))"
proof (induction hs arbitrary: tb b)
  case (Cons h hs)
  obtain u i where h: "h = (u, i)" by (cases h)
  show ?case
    using Cons.IH [of u "Some i"] Cons.IH [of tb b]
    by (auto simp: h scan_best_def split: prod.splits)
qed (simp add: scan_best_def)

subsection \<open>Choosing a journal\<close>

definition all_heads :: "jview list \<Rightarrow> nat list \<Rightarrow> (u64 \<times> nat) list" where
  "all_heads Vs ns = heads Vs ns [0..<length Vs]"

definition least_head :: "jview list \<Rightarrow> nat list \<Rightarrow> nat \<Rightarrow> FrameSnap \<Rightarrow> bool" where
  "least_head Vs ns i f \<longleftrightarrow> i < length Vs \<and> view_head Vs ns i = Some f \<and>
     (\<forall>e \<in> set (all_heads Vs ns). sint (snap_gen_time f) \<le> entry_time e)"

lemma least_headI:
  assumes "(t, i) \<in> set (all_heads Vs ns)" and "\<forall>e \<in> set (all_heads Vs ns). sint t \<le> entry_time e"
  obtains f where "least_head Vs ns i f" and "t = snap_gen_time f"
  using assms by (auto simp: least_head_def all_heads_def in_heads)

text \<open>
  What keeps the merge from going wrong: no frame carries the greatest time, which the linear scan
  takes for "none", and in heap mode no two journals have a frame with the same time.
\<close>

definition times_fit :: "JournalReader \<Rightarrow> jview list \<Rightarrow> bool" where
  "times_fit r Vs \<longleftrightarrow>
     (\<forall>i < length Vs. \<forall>f \<in> set (view_log (Vs ! i)). sint (snap_gen_time f) < sint INT64_MAX) \<and>
     (heap_mode r \<longrightarrow> (\<forall>i < length Vs. \<forall>k < length Vs. i \<noteq> k \<longrightarrow>
        (\<forall>f \<in> set (view_log (Vs ! i)). \<forall>g \<in> set (view_log (Vs ! k)). snap_gen_time f \<noteq> snap_gen_time g)))"

definition heap_tracks :: "JournalReader \<Rightarrow> jview list \<Rightarrow> nat list \<Rightarrow> bool" where
  "heap_tracks r Vs ns \<longleftrightarrow> is_heap entry_time (rd_heap r) \<and> mset (rd_heap r) = mset (all_heads Vs ns) \<and>
     rd_heap r \<noteq> [] \<and> rd_current r = Some (snd (hd (rd_heap r)))"

definition chosen :: "JournalReader \<Rightarrow> jview list \<Rightarrow> nat list \<Rightarrow> bool" where
  "chosen r Vs ns \<longleftrightarrow> rd_needs_rebuild r \<or> (rd_journals r = [] \<and> rd_current r = None) \<or>
     (if heap_mode r then heap_tracks r Vs ns else (\<exists>i f. rd_current r = Some i \<and> least_head Vs ns i f))"

lemma view_head_in_log: "view_head Vs ns i = Some f \<Longrightarrow> f \<in> set (view_log (Vs ! i))"
  by (auto simp: view_head_def split: if_splits)

lemma heap_top_least_head:
  assumes "is_heap entry_time h" and "mset h = mset (all_heads Vs ns)" and "h \<noteq> []"
  obtains f where "least_head Vs ns (snd (hd h)) f" and "hd h = (snap_gen_time f, snd (hd h))"
proof -
  have set: "set h = set (all_heads Vs ns)" using assms(2) by (metis set_mset_mset)
  have mem: "(fst (hd h), snd (hd h)) \<in> set (all_heads Vs ns)" using hd_in_set [OF assms(3)] set by simp
  have "\<forall>e \<in> set (all_heads Vs ns). sint (fst (hd h)) \<le> entry_time e"
    using jheap.std_queue.peek_least [OF assms(1)] set by (auto simp: entry_time_def)
  from least_headI [OF mem this] obtain f where "least_head Vs ns (snd (hd h)) f" "fst (hd h) = snap_gen_time f" .
  then show thesis by (metis that prod.collapse)
qed

lemma heap_tracks_least:
  assumes "heap_tracks r Vs ns"
  obtains i f where "rd_current r = Some i" and "least_head Vs ns i f" and "hd (rd_heap r) = (snap_gen_time f, i)"
proof -
  have h: "is_heap entry_time (rd_heap r)" "mset (rd_heap r) = mset (all_heads Vs ns)" "rd_heap r \<noteq> []"
    "rd_current r = Some (snd (hd (rd_heap r)))"
    using assms by (simp_all add: heap_tracks_def)
  obtain f where "least_head Vs ns (snd (hd (rd_heap r))) f" "hd (rd_heap r) = (snap_gen_time f, snd (hd (rd_heap r)))"
    by (rule heap_top_least_head [OF h(1-3)])
  with h(4) that show thesis by blast
qed

lemma equal_times_same_index:
  assumes "times_fit r Vs" and "heap_mode r" and "(t, i) \<in> set (all_heads Vs ns)" and "(u, k) \<in> set (all_heads Vs ns)"
    and "sint t = sint u"
  shows "i = k"
proof (rule ccontr)
  assume "i \<noteq> k"
  have "t = u" using assms(5) by (simp add: signed_word_eqI)
  obtain f where f: "i < length Vs" "view_head Vs ns i = Some f" "t = snap_gen_time f"
    using assms(3) by (auto simp: all_heads_def in_heads)
  obtain g where g: "k < length Vs" "view_head Vs ns k = Some g" "u = snap_gen_time g"
    using assms(4) by (auto simp: all_heads_def in_heads)
  from assms(1,2) f(1) g(1) \<open>i \<noteq> k\<close> have "snap_gen_time f \<noteq> snap_gen_time g"
    using view_head_in_log [OF f(2)] view_head_in_log [OF g(2)] unfolding times_fit_def by blast
  with \<open>t = u\<close> f(3) g(3) show False by simp
qed

lemma install_heap_tracks:
  assumes fit: "times_fit r Vs" "heap_mode r" and ne: "all_heads Vs ns \<noteq> []"
  shows "heap_tracks (install_heap (all_heads Vs ns) r) Vs ns"
proof -
  let ?h = "make_heap JournalComparator (all_heads Vs ns)"
  let ?q = "make_heap JournalComparator ?h"
  have h: "is_heap entry_time ?h" "mset ?h = mset (all_heads Vs ns)"
    and q: "is_heap entry_time ?q" "mset ?q = mset (all_heads Vs ns)"
    using jheap.make_heap_ok [of "all_heads Vs ns"] jheap.make_heap_ok [of ?h] by simp_all
  have ne': "?h \<noteq> []" "?q \<noteq> []" using h(2) q(2) ne by (metis mset_zero_iff)+
  have sets: "set ?h = set (all_heads Vs ns)" "set ?q = set (all_heads Vs ns)" using h(2) q(2) by (metis set_mset_mset)+
  have mem: "hd ?h \<in> set (all_heads Vs ns)" "hd ?q \<in> set (all_heads Vs ns)" using ne' sets by (metis hd_in_set)+
  have "entry_time (hd ?h) = entry_time (hd ?q)"
    using jheap.std_queue.peek_least [OF h(1), of "hd ?q"] jheap.std_queue.peek_least [OF q(1), of "hd ?h"] mem sets
    by (simp add: order_antisym)
  then have "snd (hd ?h) = snd (hd ?q)"
    using equal_times_same_index [OF fit, of "fst (hd ?h)" "snd (hd ?h)" ns "fst (hd ?q)" "snd (hd ?q)"] mem
    by (simp add: entry_time_def)
  then show ?thesis using ne ne' q by (simp add: heap_tracks_def install_heap_def Let_def)
qed

lemma scan_finds_least:
  assumes fit: "times_fit r Vs" and ne: "all_heads Vs ns \<noteq> []"
  obtains i f where "snd (scan_best (all_heads Vs ns) (INT64_MAX, None)) = Some i" and "least_head Vs ns i f"
proof -
  obtain t b where s: "scan_best (all_heads Vs ns) (INT64_MAX, None) = (t, b)" by fastforce
  note l = scan_best_least [where hs = "all_heads Vs ns" and tb = INT64_MAX and b = None, unfolded s, simplified]
  obtain u k where uk: "(u, k) \<in> set (all_heads Vs ns)" using ne by (metis hd_in_set prod.collapse)
  then obtain g where "k < length Vs" "view_head Vs ns k = Some g" "u = snap_gen_time g"
    by (auto simp: all_heads_def in_heads)
  with fit view_head_in_log have "sint u < sint INT64_MAX" by (auto simp: times_fit_def)
  with l uk have "(t, b) \<noteq> (INT64_MAX, None)" by fastforce
  with l obtain i where i: "b = Some i" "(t, i) \<in> set (all_heads Vs ns)" by auto
  moreover have "\<forall>e \<in> set (all_heads Vs ns). sint t \<le> entry_time e" using l by (auto simp: entry_time_def)
  ultimately obtain f where "least_head Vs ns i f" using least_headI by metis
  then show thesis using that s i(1) by simp
qed

lemma scan_empty: "scan_best [] best = best"
  by (simp add: scan_best_def)

text \<open>A reader with another choice of the current journal.\<close>

lemma reader_inv_flags:
  "reader_inv r K M Vs ns \<Longrightarrow> rd_journals r' = rd_journals r \<Longrightarrow> rd_single_journal r' = rd_single_journal r \<Longrightarrow>
   rd_single_frame r' = rd_single_frame r \<Longrightarrow> (length (rd_journals r) = 1 \<longrightarrow> rd_current r' = rd_current r) \<Longrightarrow>
   reader_inv r' K M Vs ns"
  by (simp add: reader_inv_def)

definition same_mode :: "JournalReader \<Rightarrow> JournalReader \<Rightarrow> bool" where
  "same_mode r r' \<longleftrightarrow> rd_use_heap r' = rd_use_heap r \<and> length (rd_journals r') = length (rd_journals r) \<and>
     rd_joined_keys r' = rd_joined_keys r"

lemma same_mode_heap: "same_mode r r' \<Longrightarrow> heap_mode r' = heap_mode r"
  by (simp add: same_mode_def heap_mode_def)

lemma times_fit_mode: "same_mode r r' \<Longrightarrow> times_fit r' Vs = times_fit r Vs"
  by (simp add: times_fit_def same_mode_heap)

text \<open>After \<^verbatim>\<open>rebuildHeap\<close> the current journal is one with the earliest frame, if there is a frame at all.\<close>

lemma rebuildHeap_ok:
  assumes inv: "reader_inv r K M Vs ns" and fit: "times_fit r Vs" and many: "length (rd_journals r) \<noteq> 1"
  obtains c h where "rebuildHeap (r, K) = (Inr (), (r\<lparr>rd_current := c, rd_heap := h, rd_needs_rebuild := False\<rparr>, K))"
    and "all_heads Vs ns = [] \<longrightarrow> c = None"
    and "all_heads Vs ns \<noteq> [] \<longrightarrow> chosen (r\<lparr>rd_current := c, rd_heap := h, rd_needs_rebuild := False\<rparr>) Vs ns"
proof -
  have len: "length Vs = length (rd_journals r)" using inv by (simp add: reader_inv_def)
  have sub: "set [0..<length (rd_journals r)] \<subseteq> {..<length (rd_journals r)}" by auto
  note scans = collect_times_ok [OF inv sub] linear_scan_ok [OF inv sub]
  have heads: "heads Vs ns [0..<length (rd_journals r)] = all_heads Vs ns" by (simp add: all_heads_def len)
  show thesis
  proof (cases "rd_journals r = []")
    case True
    then have "all_heads Vs ns = []" using heads by simp
    with True show thesis by (intro that [of "rd_heap r" None]) (simp_all add: rebuildHeap_def prog_simps)
  next
    case ne: False
    show thesis
    proof (cases "heap_mode r")
      case True
      let ?r = "install_heap (all_heads Vs ns) r"
      have r: "?r = r\<lparr>rd_current := rd_current ?r, rd_heap := rd_heap ?r\<rparr>"
        by (simp add: install_heap_def Let_def)
      have "rebuildHeap (r, K) = (Inr (), (?r\<lparr>rd_needs_rebuild := False\<rparr>, K))"
        using ne True scans heads by (simp add: rebuildHeap_def prog_simps)
      then have run: "rebuildHeap (r, K) = (Inr (), (r\<lparr>rd_current := rd_current ?r, rd_heap := rd_heap ?r, rd_needs_rebuild := False\<rparr>, K))"
        by (metis r)
      have "heap_tracks ?r Vs ns" if "all_heads Vs ns \<noteq> []" using install_heap_tracks [OF fit True that] .
      then show thesis
        using True by (intro that [OF run]) (simp_all add: chosen_def heap_mode_def heap_tracks_def install_heap_def)
    next
      case False
      let ?c = "snd (scan_best (all_heads Vs ns) (INT64_MAX, None))"
      have run: "rebuildHeap (r, K) = (Inr (), (r\<lparr>rd_current := ?c, rd_heap := rd_heap r, rd_needs_rebuild := False\<rparr>, K))"
        using ne False scans heads by (simp add: rebuildHeap_def findMinimumLinear_def prog_simps)
      have "\<exists>i f. ?c = Some i \<and> least_head Vs ns i f" if "all_heads Vs ns \<noteq> []"
        using scan_finds_least [OF fit that] by metis
      then show thesis
        using False by (intro that [OF run]) (auto simp: scan_empty chosen_def heap_mode_def)
    qed
  qed
qed

lemma chosen_least:
  assumes "chosen r Vs ns" and "\<not> rd_needs_rebuild r" and "rd_journals r \<noteq> []"
  obtains i f where "rd_current r = Some i" and "least_head Vs ns i f"
proof (cases "heap_mode r")
  case True
  then have "heap_tracks r Vs ns" using assms by (simp add: chosen_def)
  then show thesis by (rule heap_tracks_least) (rule that)
next
  case False
  then show thesis using assms that by (auto simp: chosen_def)
qed

lemma least_head_index:
  assumes "reader_inv r K M Vs ns" and "least_head Vs ns i f"
  shows "i < length (rd_journals r)" and "all_heads Vs ns \<noteq> []"
proof -
  show "i < length (rd_journals r)" using assms by (simp add: least_head_def reader_inv_def)
  have "(snap_gen_time f, i) \<in> set (all_heads Vs ns)" using assms(2) by (auto simp: least_head_def all_heads_def in_heads)
  then show "all_heads Vs ns \<noteq> []" by auto
qed

lemma no_journals_no_heads: "reader_inv r K M Vs ns \<Longrightarrow> rd_journals r = [] \<Longrightarrow> all_heads Vs ns = []"
  by (simp add: reader_inv_def all_heads_def)

text \<open>\<^verbatim>\<open>isDataAvailable\<close> on a reader of no or several journals.\<close>

lemma isDataAvailable_ok:
  assumes inv: "reader_inv r K M Vs ns" and fit: "times_fit r Vs" and ch: "chosen r Vs ns" and many: "length (rd_journals r) \<noteq> 1"
  obtains r' where "isDataAvailable (r, K) = (Inr (all_heads Vs ns \<noteq> []), (r', K))"
    and "reader_inv r' K M Vs ns" and "same_mode r r'" and "chosen r' Vs ns"
    and "all_heads Vs ns \<noteq> [] \<longrightarrow> \<not> rd_needs_rebuild r'"
proof -
  have single: "rd_single_frame r = None" using inv many by (simp add: reader_inv_def)
  obtain r1 where r1: "(if rd_needs_rebuild r then rebuildHeap else return_p ()) (r, K) = (Inr (), (r1, K))"
    "reader_inv r1 K M Vs ns" "same_mode r r1" "all_heads Vs ns = [] \<longrightarrow> rd_current r1 = None"
    "all_heads Vs ns \<noteq> [] \<longrightarrow> chosen r1 Vs ns \<and> \<not> rd_needs_rebuild r1"
  proof (cases "rd_needs_rebuild r")
    case True
    obtain c h where "rebuildHeap (r, K) = (Inr (), (r\<lparr>rd_current := c, rd_heap := h, rd_needs_rebuild := False\<rparr>, K))"
      "all_heads Vs ns = [] \<longrightarrow> c = None"
      "all_heads Vs ns \<noteq> [] \<longrightarrow> chosen (r\<lparr>rd_current := c, rd_heap := h, rd_needs_rebuild := False\<rparr>) Vs ns"
      by (rule rebuildHeap_ok [OF inv fit many])
    then show thesis
      using True inv many
      by (intro that [of "r\<lparr>rd_current := c, rd_heap := h, rd_needs_rebuild := False\<rparr>"])
        (simp_all add: same_mode_def reader_inv_def)
  next
    case nr: False
    show thesis
    proof (cases "rd_journals r = []")
      case True
      then have "rd_current r = None" using ch nr inv by (auto simp: chosen_def heap_tracks_def heap_mode_def least_head_def reader_inv_def)
      then show thesis
        using True nr ch inv no_journals_no_heads [OF inv] by (intro that [of r]) (simp_all add: prog_simps same_mode_def)
    next
      case False
      then obtain i f where "rd_current r = Some i" "least_head Vs ns i f" using chosen_least [OF ch nr] by blast
      then show thesis
        using nr ch inv least_head_index(2) [OF inv] by (intro that [of r]) (simp_all add: prog_simps same_mode_def)
    qed
  qed
  show thesis
  proof (cases "all_heads Vs ns = []")
    case True
    let ?r = "if rd_journals r1 \<noteq> [] then r1\<lparr>rd_needs_rebuild := True\<rparr> else r1"
    have "isDataAvailable (r, K) = (Inr False, (?r, K))"
      using r1(1,4) True single by (simp add: isDataAvailable_def prog_simps current_index_def)
    moreover have "reader_inv ?r K M Vs ns" using r1(2) by (auto intro: reader_inv_flags)
    moreover have "chosen ?r Vs ns" using r1(4) True by (simp add: chosen_def)
    ultimately show thesis using True r1(3) by (intro that [of ?r]) (auto simp: same_mode_def)
  next
    case False
    then obtain i f where i: "rd_current r1 = Some i" "least_head Vs ns i f"
      using chosen_least r1(2,5) no_journals_no_heads by metis
    have lt: "i < length (rd_journals r1)" by (rule least_head_index(1) [OF r1(2) i(2)])
    have "frame_hasData i (r1, K) = (Inr True, (r1, K))"
      using frame_hasData_ok [OF r1(2) lt] i(2) by (simp add: least_head_def)
    then have "isDataAvailable (r, K) = (Inr True, (r1, K))"
      using r1(1) i(1) lt single by (simp add: isDataAvailable_def prog_simps current_index_def)
    then show thesis using False r1 by (intro that [of r1]) simp_all
  qed
qed

subsection \<open>Delivering one frame\<close>

lemma journal_step:
  assumes inv: "reader_inv r K M Vs ns" and i: "i < length (rd_journals r)" and f: "view_head Vs ns i = Some f"
    and os: "os_works os"
  obtains v j' K' where "view_of i (r, K) = (Inr v, (r, K))" and "fv_frame v = Some i"
    and "snap_view v (r, K) = (Inr f, (r, K))"
    and "on_journal i (next_with os (fv_frame_length v) (fv_msg_type v)) (r, K) =
       (Inr (), (r\<lparr>rd_journals := (rd_journals r)[i := j']\<rparr>, K'))"
    and "on_journal i (journal_next os) (r, K) = (Inr (), (r\<lparr>rd_journals := (rd_journals r)[i := j']\<rparr>, K'))"
    and "reader_inv (r\<lparr>rd_journals := (rd_journals r)[i := j']\<rparr>) K' M Vs (ns[i := Suc (ns ! i)])"
    and "only_maps K K'"
proof -
  let ?j = "rd_journals r ! i"
  obtain first front cur where V: "v_first (Vs ! i) = first" "v_front (Vs ! i) = front" "v_cur (Vs ! i) = cur" by blast
  have at: "cursor_at ?j K first front cur (ns ! i)" using inv i V by (auto simp: reader_inv_def stands_at_def)
  have n: "ns ! i < length (concat front @ cur)" and fn: "f = (concat front @ cur) ! (ns ! i)"
    using f V by (auto simp: view_head_def view_log_def split: if_splits)
  obtain m j' K' where m: "current_frame (?j, K) = (Inr m, (?j, K))"
    "FrameSnap_from m (j_frame ?j) = (concat front @ cur) ! (ns ! i)" "hasData m (j_frame ?j)"
    "next_with os (getFrameLength m (j_frame ?j)) (getMsgType m (j_frame ?j)) (?j, K) = (Inr (), (j', K'))"
    "cursor_at j' K' first front cur (Suc (ns ! i))" "reader_post ?j K j' K'"
    by (rule next_with_ok [OF at os n])
  let ?v = "\<lparr>fv_frame = Some i, fv_frame_length = getFrameLength m (j_frame ?j), fv_msg_type = getMsgType m (j_frame ?j)\<rparr>"
  have peek: "peek_frame i (r, K) = (Inr (getFrameLength m (j_frame ?j), getMsgType m (j_frame ?j), getGenTime m (j_frame ?j)), (r, K))"
    unfolding peek_frame_def by (rule on_journal_read [OF i]) (simp add: prog_simps m(1))
  then have view: "view_of i (r, K) = (Inr ?v, (r, K))" using m(3) by (simp add: view_of_def prog_simps hasData_def)
  have snap: "snap_view ?v (r, K) = (Inr f, (r, K))"
    unfolding snap_view_def using m(1,2) fn by (simp add: on_journal_read [OF i] prog_simps)
  have at': "stands_at j' K' (Vs ! i) (Suc (ns ! i))"
    using m(5,6) V inv i by (auto simp: stands_at_def reader_post_def same_reader_def reader_inv_def)
  have om: "only_maps K K'" using m(6) by (simp add: reader_post_def)
  have nx: "journal_next os (?j, K) = (Inr (), (j', K'))" using m(1,4) by (simp add: journal_next_def prog_simps)
  note w = on_journal_ok [where p = "next_with os (getFrameLength m (j_frame ?j)) (getMsgType m (j_frame ?j))",
      OF inv i m(4) at' m(6)]
    and x = on_journal_ok(1) [where p = "journal_next os", OF inv i nx at' m(6)]
  show thesis by (rule that [OF view _ snap _ x w(2) om]) (simp_all add: w(1))
qed

text \<open>The heads after journal \<open>i\<close> has moved.\<close>

definition head_at :: "jview list \<Rightarrow> nat list \<Rightarrow> nat \<Rightarrow> (u64 \<times> nat) list" where
  "head_at Vs ns i = (case view_head Vs ns i of None \<Rightarrow> [] | Some f \<Rightarrow> [(snap_gen_time f, i)])"

lemma view_head_other [simp]: "k \<noteq> i \<Longrightarrow> view_head Vs (ns[i := n]) k = view_head Vs ns k"
  by (simp add: view_head_def)

lemma heads_other: "i \<notin> set is \<Longrightarrow> heads Vs (ns[i := n]) is = heads Vs ns is"
  by (induction "is") auto

lemma heads_move:
  "distinct is \<Longrightarrow> i \<in> set is \<Longrightarrow>
   mset (heads Vs (ns[i := n]) is) + mset (head_at Vs ns i) = mset (heads Vs ns is) + mset (head_at Vs (ns[i := n]) i)"
proof (induction "is")
  case (Cons k "is")
  show ?case
  proof (cases "k = i")
    case True
    with Cons.prems heads_other [of i "is"] show ?thesis by (simp add: head_at_def ac_simps)
  next
    case False
    with Cons show ?thesis by (simp add: ac_simps)
  qed
qed simp

lemma all_heads_move:
  assumes "least_head Vs ns i f"
  shows "mset (all_heads Vs (ns[i := n])) = mset (all_heads Vs ns) - {# (snap_gen_time f, i) #} + mset (head_at Vs (ns[i := n]) i)"
proof -
  have i: "i < length Vs" "head_at Vs ns i = [(snap_gen_time f, i)]" using assms by (simp_all add: least_head_def head_at_def)
  then have mem: "(snap_gen_time f, i) \<in># mset (all_heads Vs ns)"
    using assms by (auto simp: all_heads_def in_heads least_head_def)
  have "mset (all_heads Vs (ns[i := n])) + {# (snap_gen_time f, i) #} = mset (all_heads Vs ns) + mset (head_at Vs (ns[i := n]) i)"
    using heads_move [of "[0..<length Vs]" i Vs ns n] i by (simp add: all_heads_def)
  moreover obtain N where "mset (all_heads Vs ns) = add_mset (snap_gen_time f, i) N" using mem by (metis insert_DiffM)
  ultimately show ?thesis by simp
qed

lemma updateHeap_ok:
  assumes inv: "reader_inv r K M Vs ns'" and ns': "ns' = ns[i := n]" and heap: "heap_tracks r Vs ns" "heap_mode r"
    and least: "rd_current r = Some i" "least_head Vs ns i f" "hd (rd_heap r) = (snap_gen_time f, i)"
  obtains r' where "updateHeap (r, K) = (Inr (), (r', K))" and "reader_inv r' K M Vs ns'" and "same_mode r r'"
    and "chosen r' Vs ns'"
proof -
  note h = heap(1) [unfolded heap_tracks_def]
  have i: "i < length (rd_journals r)" using least(2) inv by (simp add: least_head_def reader_inv_def)
  have many: "length (rd_journals r) \<noteq> 1" using heap(2) by (simp add: heap_mode_def)
  let ?pop = "pq_pop JournalComparator (rd_heap r)"
  have inv1: "reader_inv (r\<lparr>rd_heap := ?pop\<rparr>) K M Vs ns'" using inv by (simp add: reader_inv_def)
  have i1: "i < length (rd_journals (r\<lparr>rd_heap := ?pop\<rparr>))" using i by simp
  obtain len ty t where p: "peek_frame i (r\<lparr>rd_heap := ?pop\<rparr>, K) = (Inr (len, ty, t), (r\<lparr>rd_heap := ?pop\<rparr>, K))"
    "hasData_with len ty \<longleftrightarrow> view_head Vs ns' i \<noteq> None" "\<forall>f. view_head Vs ns' i = Some f \<longrightarrow> t = snap_gen_time f"
    by (rule peek_frame_ok [OF inv1 i1])
  let ?q = "if hasData_with len ty then pq_emplace JournalComparator (t, i) ?pop else ?pop"
  let ?r = "if ?q = [] then r\<lparr>rd_heap := ?q, rd_current := None, rd_needs_rebuild := True\<rparr>
     else r\<lparr>rd_heap := ?q, rd_current := Some (snd (hd ?q))\<rparr>"
  have pp: "is_heap entry_time ?pop" "mset ?pop = mset (all_heads Vs ns) - {# (snap_gen_time f, i) #}"
    using jheap.pq_pop_ok [of "rd_heap r"] h least(3) by simp_all
  have hd': "mset (head_at Vs ns' i) = (if hasData_with len ty then {# (t, i) #} else {#})"
    using p(2,3) by (auto simp: head_at_def split: option.split)
  have q: "is_heap entry_time ?q" "mset ?q = mset (all_heads Vs ns')"
    using pp jheap.pq_emplace_ok [OF pp(1), of "(t, i)"] hd' all_heads_move [OF least(2), of n] by (simp_all add: ns')
  have run: "updateHeap (r, K) = (Inr (), (?r, K))"
    using h least(1) p(1) by (simp add: updateHeap_def prog_simps)
  have "reader_inv ?r K M Vs ns'" using inv many by (auto simp: reader_inv_def)
  moreover have "chosen ?r Vs ns'"
    using q heap(2) by (simp add: chosen_def heap_tracks_def heap_mode_def)
  ultimately show thesis using run by (intro that [of ?r]) (auto simp: same_mode_def)
qed

text \<open>The state a reader is in between two calls.\<close>

definition merge_inv ::
    "JournalReader \<Rightarrow> page_key kernel \<Rightarrow> page_key multiset \<Rightarrow> jview list \<Rightarrow> nat list \<Rightarrow> bool" where
  "merge_inv r K M Vs ns \<longleftrightarrow> reader_inv r K M Vs ns \<and>
     (length (rd_journals r) \<noteq> 1 \<longrightarrow> times_fit r Vs \<and> chosen r Vs ns)"

lemma merge_inv_single:
  assumes inv: "merge_inv r K M Vs ns" and one: "length (rd_journals r) = 1" and os: "os_works os"
  shows "all_heads Vs ns = [] \<Longrightarrow> nextStatic os (r, K) = (Inr None, (r, K))"
    and "least_head Vs ns i f \<Longrightarrow> \<exists>r' K'. nextStatic os (r, K) = (Inr (Some f), (r', K')) \<and>
       merge_inv r' K' M Vs (ns[i := Suc (ns ! i)]) \<and> same_mode r r' \<and> only_maps K K'"
proof -
  have rinv: "reader_inv r K M Vs ns" using inv by (simp add: merge_inv_def)
  have s: "rd_single_frame r = Some 0" "rd_single_journal r = Some 0" "length Vs = 1"
    using rinv one by (simp_all add: reader_inv_def)
  show "nextStatic os (r, K) = (Inr None, (r, K))" if none: "all_heads Vs ns = []"
  proof -
    have "view_head Vs ns 0 = None" using none s(3) by (simp add: all_heads_def split: option.splits)
    moreover obtain len ty t where "peek_frame 0 (r, K) = (Inr (len, ty, t), (r, K))"
      "hasData_with len ty \<longleftrightarrow> view_head Vs ns 0 \<noteq> None"
      by (rule peek_frame_ok [OF rinv, of 0]) (use one in simp_all)
    ultimately show ?thesis using s by (simp add: nextStatic_def tryCurrentFrame_def view_of_def prog_simps empty_view_def)
  qed
  show "\<exists>r' K'. nextStatic os (r, K) = (Inr (Some f), (r', K')) \<and>
       merge_inv r' K' M Vs (ns[i := Suc (ns ! i)]) \<and> same_mode r r' \<and> only_maps K K'" if least: "least_head Vs ns i f"
  proof -
    have i: "i = 0" "i < length (rd_journals r)" "view_head Vs ns i = Some f" using least s(3) one by (auto simp: least_head_def)
    obtain v j' K' where v: "view_of i (r, K) = (Inr v, (r, K))" "fv_frame v = Some i" "snap_view v (r, K) = (Inr f, (r, K))"
      "on_journal i (next_with os (fv_frame_length v) (fv_msg_type v)) (r, K) =
         (Inr (), (r\<lparr>rd_journals := (rd_journals r)[i := j']\<rparr>, K'))"
      "reader_inv (r\<lparr>rd_journals := (rd_journals r)[i := j']\<rparr>) K' M Vs (ns[i := Suc (ns ! i)])" "only_maps K K'"
      by (rule journal_step [OF rinv i(2,3) os])
    let ?r = "r\<lparr>rd_journals := (rd_journals r)[i := j']\<rparr>"
    have "nextStatic os (r, K) = (Inr (Some f), (?r, K'))"
      using v(1-4) s i(1) by (simp add: nextStatic_def tryCurrentFrame_def advance_def prog_simps)
    moreover have "same_mode r ?r" by (simp add: same_mode_def)
    ultimately show ?thesis
      using v(5,6) inv one by (auto simp: merge_inv_def)
  qed
qed

lemma reader_next_many:
  assumes inv: "reader_inv r K M Vs ns" and fit: "times_fit r Vs" and ch: "chosen r Vs ns" "\<not> rd_needs_rebuild r"
    and many: "length (rd_journals r) \<noteq> 1" "rd_journals r \<noteq> []" and os: "os_works os"
  obtains i f v r' K' where "least_head Vs ns i f" and "current_index r = Some i" and "view_of i (r, K) = (Inr v, (r, K))"
    and "fv_frame v = Some i" and "snap_view v (r, K) = (Inr f, (r, K))"
    and "reader_next os (r, K) = (Inr (), (r', K'))" and "merge_inv r' K' M Vs (ns[i := Suc (ns ! i)])" and "same_mode r r'"
    and "only_maps K K'"
proof -
  obtain i f where i: "rd_current r = Some i" "least_head Vs ns i f" "heap_mode r \<longrightarrow> hd (rd_heap r) = (snap_gen_time f, i)"
  proof (cases "heap_mode r")
    case True
    then have "heap_tracks r Vs ns" using ch many by (simp add: chosen_def)
    then show thesis by (rule heap_tracks_least) (use that in blast)
  next
    case False
    then show thesis using chosen_least [OF ch many(2)] that by blast
  qed
  have lt: "i < length (rd_journals r)" and vh: "view_head Vs ns i = Some f"
    using least_head_index(1) [OF inv i(2)] i(2) by (simp_all add: least_head_def)
  obtain v j' K' where v: "view_of i (r, K) = (Inr v, (r, K))" "fv_frame v = Some i" "snap_view v (r, K) = (Inr f, (r, K))"
    "on_journal i (journal_next os) (r, K) = (Inr (), (r\<lparr>rd_journals := (rd_journals r)[i := j']\<rparr>, K'))"
    "reader_inv (r\<lparr>rd_journals := (rd_journals r)[i := j']\<rparr>) K' M Vs (ns[i := Suc (ns ! i)])" "only_maps K K'"
    by (rule journal_step [OF inv lt vh os])
  let ?r = "r\<lparr>rd_journals := (rd_journals r)[i := j']\<rparr>" and ?ns = "ns[i := Suc (ns ! i)]"
  have cur: "current_index r = Some i" using i(1) lt by (simp add: current_index_def)
  have single: "rd_single_journal r = None" using inv many by (simp add: reader_inv_def)
  have mode: "same_mode r ?r" by (simp add: same_mode_def)
  show thesis
  proof (cases "heap_mode r")
    case True
    have tr: "heap_tracks ?r Vs ns" using True ch many by (simp add: chosen_def heap_tracks_def)
    have hm: "heap_mode ?r" using True by (simp add: heap_mode_def)
    have cu: "rd_current ?r = Some i" and hh: "hd (rd_heap ?r) = (snap_gen_time f, i)" using i True by simp_all
    obtain r' where u: "updateHeap (?r, K') = (Inr (), (r', K'))" "reader_inv r' K' M Vs ?ns" "same_mode ?r r'" "chosen r' Vs ?ns"
      by (rule updateHeap_ok [OF v(5) refl tr hm cu i(2) hh])
    have m: "same_mode r r'" using u(3) by (simp add: same_mode_def)
    have "reader_next os (r, K) = (Inr (), (r', K'))"
      using cur single True v(4) u(1) by (simp add: reader_next_def prog_simps)
    then show thesis
      using i(2) cur v(1-3,6) u(2,4) fit m times_fit_mode [OF m] by (intro that) (auto simp: merge_inv_def)
  next
    case False
    let ?r' = "?r\<lparr>rd_needs_rebuild := True\<rparr>"
    have m: "same_mode r ?r'" by (simp add: same_mode_def)
    have "reader_next os (r, K) = (Inr (), (?r', K'))"
      using cur single False v(4) by (simp add: reader_next_def prog_simps)
    moreover have "reader_inv ?r' K' M Vs ?ns" using v(5) by (simp add: reader_inv_def)
    ultimately show thesis
      using i(2) cur v(1-3,6) fit m times_fit_mode [OF m] by (intro that) (auto simp: merge_inv_def chosen_def)
  qed
qed

text \<open>One call of \<^verbatim>\<open>nextStatic\<close>: the earliest frame, or nothing when no journal has one.\<close>

lemma nextStatic_ok:
  assumes inv: "merge_inv r K M Vs ns" and os: "os_works os"
  shows "\<exists>r' K'. same_mode r r' \<and> only_maps K K' \<and>
    (if all_heads Vs ns = [] then nextStatic os (r, K) = (Inr None, (r', K')) \<and> merge_inv r' K' M Vs ns
     else \<exists>i f. least_head Vs ns i f \<and> nextStatic os (r, K) = (Inr (Some f), (r', K')) \<and>
       merge_inv r' K' M Vs (ns[i := Suc (ns ! i)]))"
proof (cases "length (rd_journals r) = 1")
  case one: True
  show ?thesis
  proof (cases "all_heads Vs ns = []")
    case True
    with merge_inv_single(1) [OF inv one os] inv show ?thesis by (auto simp: same_mode_def)
  next
    case False
    have "length Vs = 1" using inv one by (simp add: merge_inv_def reader_inv_def)
    with False obtain f where "view_head Vs ns 0 = Some f" "all_heads Vs ns = [(snap_gen_time f, 0)]"
      by (auto simp: all_heads_def split: option.splits)
    then have "least_head Vs ns 0 f" using \<open>length Vs = 1\<close> by (simp add: least_head_def entry_time_def)
    with merge_inv_single(2) [OF inv one os this] False show ?thesis by auto
  qed
next
  case many: False
  have rinv: "reader_inv r K M Vs ns" and fit: "times_fit r Vs" and ch: "chosen r Vs ns"
    using inv many by (simp_all add: merge_inv_def)
  obtain r1 where r1: "isDataAvailable (r, K) = (Inr (all_heads Vs ns \<noteq> []), (r1, K))" "reader_inv r1 K M Vs ns"
    "same_mode r r1" "chosen r1 Vs ns" "all_heads Vs ns \<noteq> [] \<longrightarrow> \<not> rd_needs_rebuild r1"
    by (rule isDataAvailable_ok [OF rinv fit ch many])
  have single: "rd_single_frame r = None" using rinv many by (simp add: reader_inv_def)
  have fit1: "times_fit r1 Vs" and len1: "length (rd_journals r1) \<noteq> 1"
    using fit times_fit_mode [OF r1(3)] r1(3) many by (simp_all add: same_mode_def)
  show ?thesis
  proof (cases "all_heads Vs ns = []")
    case True
    then have "nextStatic os (r, K) = (Inr None, (r1, K))"
      using r1(1) single by (simp add: nextStatic_def tryCurrentFrame_def prog_simps empty_view_def)
    then show ?thesis using True r1(2-4) fit1 len1 by (auto simp: merge_inv_def)
  next
    case False
    then have nr: "\<not> rd_needs_rebuild r1" and ne: "rd_journals r1 \<noteq> []"
      using r1(2,5) no_journals_no_heads by auto
    obtain i f v r' K' where n: "least_head Vs ns i f" "current_index r1 = Some i" "view_of i (r1, K) = (Inr v, (r1, K))"
      "fv_frame v = Some i" "snap_view v (r1, K) = (Inr f, (r1, K))" "reader_next os (r1, K) = (Inr (), (r', K'))"
      "merge_inv r' K' M Vs (ns[i := Suc (ns ! i)])" "same_mode r1 r'" "only_maps K K'"
      by (rule reader_next_many [OF r1(2) fit1 r1(4) nr len1 ne os])
    have "rd_single_journal r1 = None" using r1(2) len1 by (simp add: reader_inv_def)
    then have "nextStatic os (r, K) = (Inr (Some f), (r', K'))"
      using r1(1) single False n(2-6) by (simp add: nextStatic_def tryCurrentFrame_def advance_def prog_simps)
    then show ?thesis using False n(1,7-9) r1(3) by (auto simp: same_mode_def)
  qed
qed

subsection \<open>A whole run\<close>

text \<open>A client that calls \<^verbatim>\<open>nextStatic\<close> until it returns \<^verbatim>\<open>false\<close>, and what it is given.\<close>

fun drain :: "(page_key \<Rightarrow> os_env) \<Rightarrow> nat \<Rightarrow> FrameSnap list reader_prog" where
  "drain os 0 = throw_p Out_of_fuel"
| "drain os (Suc fuel) =
     bind_p (nextStatic os) (\<lambda>s. case s of
       None \<Rightarrow> return_p []
     | Some f \<Rightarrow> bind_p (drain os fuel) (\<lambda>fs. return_p (f # fs)))"

definition picks :: "nat \<Rightarrow> FrameSnap list \<Rightarrow> nat list \<Rightarrow> FrameSnap list" where
  "picks i fs is = map fst (filter (\<lambda>(f, k). k = i) (zip fs is))"

definition remaining :: "jview list \<Rightarrow> nat list \<Rightarrow> nat \<Rightarrow> FrameSnap list" where
  "remaining Vs ns i = drop (ns ! i) (view_log (Vs ! i))"

definition left_over :: "jview list \<Rightarrow> nat list \<Rightarrow> nat" where
  "left_over Vs ns = (\<Sum>i < length Vs. length (remaining Vs ns i))"

text \<open>\<open>fs\<close> takes from each journal what remains of it, in its order; \<open>is\<close> says which frame is whose.\<close>

definition interleaves :: "jview list \<Rightarrow> nat list \<Rightarrow> FrameSnap list \<Rightarrow> nat list \<Rightarrow> bool" where
  "interleaves Vs ns fs is \<longleftrightarrow> length is = length fs \<and> set is \<subseteq> {..<length Vs} \<and>
     (\<forall>i < length Vs. picks i fs is = remaining Vs ns i)"

definition in_time_order :: "FrameSnap list \<Rightarrow> bool" where
  "in_time_order fs \<longleftrightarrow> sorted (map (\<lambda>f. sint (snap_gen_time f)) fs)"

lemma picks_Cons: "picks i (f # fs) (k # is) = (if k = i then f # picks i fs is else picks i fs is)"
  by (simp add: picks_def)

lemma remaining_head:
  assumes "least_head Vs ns i f" and "length ns = length Vs"
  shows "remaining Vs ns i = f # remaining Vs (ns[i := Suc (ns ! i)]) i"
    and "k \<noteq> i \<Longrightarrow> remaining Vs (ns[i := Suc (ns ! i)]) k = remaining Vs ns k"
proof -
  have "ns ! i < length (view_log (Vs ! i))" "view_log (Vs ! i) ! (ns ! i) = f" "i < length ns"
    using assms by (auto simp: least_head_def view_head_def split: if_splits)
  then show "remaining Vs ns i = f # remaining Vs (ns[i := Suc (ns ! i)]) i"
    using Cons_nth_drop_Suc [of "ns ! i" "view_log (Vs ! i)"] by (simp add: remaining_def)
qed (simp add: remaining_def)

lemma remaining_none:
  assumes "all_heads Vs ns = []" and "i < length Vs"
  shows "remaining Vs ns i = []"
proof -
  have "view_head Vs ns i = None"
  proof (rule ccontr)
    assume "view_head Vs ns i \<noteq> None"
    then obtain f where "view_head Vs ns i = Some f" by auto
    then have "(snap_gen_time f, i) \<in> set (all_heads Vs ns)" using assms(2) by (auto simp: all_heads_def in_heads)
    with assms(1) show False by simp
  qed
  then show ?thesis by (simp add: remaining_def view_head_def split: if_splits)
qed

lemma left_over_step:
  assumes "least_head Vs ns i f" and "length ns = length Vs"
  shows "left_over Vs ns = Suc (left_over Vs (ns[i := Suc (ns ! i)]))"
proof -
  let ?ns = "ns[i := Suc (ns ! i)]"
  have i: "i \<in> {..<length Vs}" using assms(1) by (simp add: least_head_def)
  have "left_over Vs ns = length (remaining Vs ns i) + (\<Sum>k \<in> {..<length Vs} - {i}. length (remaining Vs ns k))"
    unfolding left_over_def using i by (simp add: sum.remove)
  also have "(\<Sum>k \<in> {..<length Vs} - {i}. length (remaining Vs ns k)) = (\<Sum>k \<in> {..<length Vs} - {i}. length (remaining Vs ?ns k))"
    using remaining_head(2) [OF assms] by (intro sum.cong) auto
  also have "length (remaining Vs ns i) = Suc (length (remaining Vs ?ns i))"
    using remaining_head(1) [OF assms] by simp
  finally show ?thesis unfolding left_over_def using i by (simp add: sum.remove)
qed

lemma interleaves_mem:
  assumes "interleaves Vs ns fs is" and "g \<in> set fs"
  obtains k where "k < length Vs" and "g \<in> set (remaining Vs ns k)"
proof -
  obtain n where n: "n < length fs" "g = fs ! n" using assms(2) by (auto simp: in_set_conv_nth)
  have len: "length is = length fs" "set is \<subseteq> {..<length Vs}" using assms(1) by (simp_all add: interleaves_def)
  then have k: "is ! n < length Vs" using n by (metis lessThan_iff nth_mem subsetD)
  have "(g, is ! n) \<in> set (zip fs is)" using n len by (auto simp: in_set_zip)
  then have "g \<in> set (picks (is ! n) fs is)" by (force simp: picks_def)
  then show thesis using that k assms(1) by (auto simp: interleaves_def)
qed

lemma interleaves_Cons:
  assumes "least_head Vs ns i f" and "length ns = length Vs" and "interleaves Vs (ns[i := Suc (ns ! i)]) fs is"
  shows "interleaves Vs ns (f # fs) (i # is)"
  using assms(3) remaining_head [OF assms(1,2)] assms(1)
  by (auto simp: interleaves_def picks_Cons least_head_def)

lemma in_time_order_Cons:
  assumes least: "least_head Vs ns i f" and len: "length ns = length Vs"
    and inter: "interleaves Vs (ns[i := Suc (ns ! i)]) fs is"
    and sorted: "\<forall>k < length Vs. in_time_order (remaining Vs ns k)" and order: "in_time_order fs"
  shows "in_time_order (f # fs)"
proof -
  have "sint (snap_gen_time f) \<le> sint (snap_gen_time g)" if gfs: "g \<in> set fs" for g
  proof -
    obtain k where k: "k < length Vs" "g \<in> set (remaining Vs (ns[i := Suc (ns ! i)]) k)"
      by (rule interleaves_mem [OF inter gfs])
    then have g: "g \<in> set (remaining Vs ns k)" using remaining_head [OF least len] by (cases "k = i") auto
    then have "remaining Vs ns k \<noteq> []" by auto
    then obtain h where h: "view_head Vs ns k = Some h" "hd (remaining Vs ns k) = h"
      by (auto simp: remaining_def view_head_def hd_drop_conv_nth)
    then have "(snap_gen_time h, k) \<in> set (all_heads Vs ns)" using k(1) by (auto simp: all_heads_def in_heads)
    then have "sint (snap_gen_time f) \<le> sint (snap_gen_time h)" using least by (auto simp: least_head_def entry_time_def)
    also have "\<dots> \<le> sint (snap_gen_time g)"
      using sorted k(1) g h(2) by (cases "remaining Vs ns k") (auto simp: in_time_order_def)
    finally show ?thesis .
  qed
  then show ?thesis using order by (simp add: in_time_order_def)
qed

lemma drain_ok:
  assumes "merge_inv r K M Vs ns" and os: "os_works os" and "fuel > left_over Vs ns"
  shows "\<exists>fs is r' K'. drain os fuel (r, K) = (Inr fs, (r', K')) \<and> only_maps K K' \<and> interleaves Vs ns fs is \<and>
    ((\<forall>k < length Vs. in_time_order (remaining Vs ns k)) \<longrightarrow> in_time_order fs) \<and>
    (\<exists>ns'. merge_inv r' K' M Vs ns' \<and> all_heads Vs ns' = [])"
  using assms(1,3)
proof (induction fuel arbitrary: r K ns)
  case (Suc fuel)
  have len: "length ns = length Vs" using Suc.prems(1) by (simp add: merge_inv_def reader_inv_def)
  obtain r1 K1 where s: "same_mode r r1" "only_maps K K1" "if all_heads Vs ns = [] then nextStatic os (r, K) = (Inr None, (r1, K1)) \<and> merge_inv r1 K1 M Vs ns
     else \<exists>i f. least_head Vs ns i f \<and> nextStatic os (r, K) = (Inr (Some f), (r1, K1)) \<and>
       merge_inv r1 K1 M Vs (ns[i := Suc (ns ! i)])"
    using nextStatic_ok [OF Suc.prems(1) os] by blast
  show ?case
  proof (cases "all_heads Vs ns = []")
    case True
    then have "interleaves Vs ns [] []" using remaining_none [OF True] by (simp add: interleaves_def picks_def)
    with True s show ?thesis
      by (intro exI [of _ "[]"] exI [of _ r1] exI [of _ K1]) (auto simp: prog_simps in_time_order_def)
  next
    case False
    then obtain i f where f: "least_head Vs ns i f" "nextStatic os (r, K) = (Inr (Some f), (r1, K1))"
      "merge_inv r1 K1 M Vs (ns[i := Suc (ns ! i)])" using s(3) by auto
    have "fuel > left_over Vs (ns[i := Suc (ns ! i)])" using Suc.prems(2) left_over_step [OF f(1) len] by simp
    from Suc.IH [OF f(3) this] obtain fs "is" r' K' where d: "drain os fuel (r1, K1) = (Inr fs, (r', K'))" "only_maps K1 K'"
      "interleaves Vs (ns[i := Suc (ns ! i)]) fs is"
      "(\<forall>k < length Vs. in_time_order (remaining Vs (ns[i := Suc (ns ! i)]) k)) \<longrightarrow> in_time_order fs"
      "\<exists>ns'. merge_inv r' K' M Vs ns' \<and> all_heads Vs ns' = []" by blast
    have run: "drain os (Suc fuel) (r, K) = (Inr (f # fs), (r', K'))" using f(2) d(1) by (simp add: prog_simps)
    have order: "in_time_order (f # fs)" if all: "\<forall>k < length Vs. in_time_order (remaining Vs ns k)"
    proof -
      have "in_time_order (remaining Vs (ns[i := Suc (ns ! i)]) k)" if "k < length Vs" for k
        using all that remaining_head [OF f(1) len] by (cases "k = i") (auto simp: in_time_order_def)
      then show ?thesis using in_time_order_Cons [OF f(1) len d(3) all] d(4) by blast
    qed
    show ?thesis using run interleaves_Cons [OF f(1) len d(3)] order d(5) only_maps_trans [OF s(2) d(2)] by blast
  qed
qed simp

subsection \<open>Joining a journal\<close>

definition view_whole :: "jview \<Rightarrow> page_key kernel \<Rightarrow> bool" where
  "view_whole V K \<longleftrightarrow> whole_journal (v_location V) (v_dest_id V) K (v_first V) (v_front V) (v_cur V)"

definition reader_journal :: "JournalReader \<Rightarrow> Location \<Rightarrow> u32 \<Rightarrow> Journal" where
  "reader_journal r loc dest = Journal_new loc dest \<lparr>jo_is_writing = False, jo_prefault = rd_prefault r,
     jo_background_threads = rd_background r, jo_retained_page_limit = rd_retained r\<rparr>"

lemma reader_journal_base:
  assumes "view_whole V K"
  shows "reader_base (reader_journal r (v_location V) (v_dest_id V)) K (v_first V) (v_front V) (v_cur V)"
    and "j_page (reader_journal r loc dest) = None" and "reader_maps (reader_journal r loc dest) = {#}"
    and "j_location (reader_journal r loc dest) = loc" and "j_dest_id (reader_journal r loc dest) = dest"
  using assms whole_journalD(1)
  by (simp_all add: view_whole_def reader_base_def reader_journal_def Journal_new_def reader_maps_def warm_slot_ok_def)

lemma join_reader_ok:
  assumes inv: "reader_inv r K M Vs ns" and whole: "view_whole V K"
    and fresh: "makeKey (loc_uid (v_location V)) (v_dest_id V) \<notin> rd_joined_keys r"
    and seek: "journal_seekToTime os fuel ts (reader_journal r (v_location V) (v_dest_id V), K) = (Inr (), (j', K'))"
      "cursor_at j' K' (v_first V) (v_front V) (v_cur V) n" "reader_post (reader_journal r (v_location V) (v_dest_id V)) K j' K'"
  shows "\<exists>r'. join_reader os fuel (v_location V) (v_dest_id V) ts (r, K) = (Inr (), (r', K')) \<and>
    reader_inv r' K' M (Vs @ [V]) (ns @ [n]) \<and> rd_needs_rebuild r' \<and> rd_journals r' = rd_journals r @ [j'] \<and>
    rd_use_heap r' = rd_use_heap r \<and>
    rd_joined_keys r' = insert (makeKey (loc_uid (v_location V)) (v_dest_id V)) (rd_joined_keys r)"
proof -
  let ?key = "makeKey (loc_uid (v_location V)) (v_dest_id V)"
  let ?r = "(refreshSingleJournal (r\<lparr>rd_journals := rd_journals r @ [j'], rd_joined_keys := insert ?key (rd_joined_keys r)\<rparr>))\<lparr>rd_needs_rebuild := True\<rparr>"
  have run: "join_reader os fuel (v_location V) (v_dest_id V) ts (r, K) = (Inr (), (?r, K'))"
    using seek(1) fresh by (simp add: join_reader_def reader_journal_def Let_def)
  have om: "only_maps K K'" and eq: "mset (k_maps K') - reader_maps j' = mset (k_maps K)"
    and same: "j_location j' = v_location V" "j_dest_id j' = v_dest_id V"
    using seek(3) by (simp_all add: reader_post_def same_reader_def reader_journal_base [OF whole])
  have "reader_maps j' \<subseteq># mset (k_maps K')"
    using seek(2) by (auto simp: cursor_at_def cursor_inv_def reader_base_def)
  then have maps: "mset (k_maps K') = mset (k_maps K) + reader_maps j'" using eq by (metis subset_mset.diff_add)
  then have maps': "mset (k_maps K') = M + all_maps (rd_journals r @ [j'])"
    using inv by (simp add: reader_inv_def all_maps_def ac_simps)
  have all: "stands_at ((rd_journals r @ [j']) ! i) K' ((Vs @ [V]) ! i) ((ns @ [n]) ! i)" if i: "i < Suc (length (rd_journals r))" for i
  proof (cases "i < length (rd_journals r)")
    case True
    have st: "stands_at (rd_journals r ! i) K (Vs ! i) (ns ! i)" using inv True by (simp add: reader_inv_def)
    have "reader_maps (rd_journals r ! i) \<subseteq># mset (k_maps K')"
      unfolding maps' using all_maps_nth [of i "rd_journals r @ [j']"] True
      by (simp add: nth_append subset_mset.add_increasing)
    from stands_at_only_maps [OF st om this] show ?thesis using True inv by (simp add: nth_append reader_inv_def)
  next
    case False
    then have "i = length (rd_journals r)" using i by simp
    moreover have "length Vs = length (rd_journals r)" "length ns = length (rd_journals r)"
      using inv by (simp_all add: reader_inv_def)
    ultimately show ?thesis using seek(2) same by (simp add: stands_at_def nth_append)
  qed
  then have "reader_inv ?r K' M (Vs @ [V]) (ns @ [n])"
    using all [of 0] inv maps' by (cases "rd_journals r = []") (simp_all add: reader_inv_def refreshSingleJournal_def)
  with run show ?thesis by (auto simp: refreshSingleJournal_def)
qed

text \<open>Joining from time 0 starts at the first frame.\<close>

lemma join_from_start:
  assumes inv: "reader_inv r K M Vs ns" and whole: "view_whole V K" and os: "os_works os"
    and fresh: "makeKey (loc_uid (v_location V)) (v_dest_id V) \<notin> rd_joined_keys r"
    and fuel: "fuel > length (view_log V)" "fuel > length (v_front V)"
    and times: "list_all (\<lambda>f. 0 \<le> sint (snap_gen_time f)) (view_log V)"
  obtains r' K' where "join_reader os fuel (v_location V) (v_dest_id V) 0 (r, K) = (Inr (), (r', K'))"
    and "reader_inv r' K' M (Vs @ [V]) (ns @ [0])" and "rd_needs_rebuild r'" and "only_maps K K'"
    and "rd_use_heap r' = rd_use_heap r"
    and "rd_joined_keys r' = insert (makeKey (loc_uid (v_location V)) (v_dest_id V)) (rd_joined_keys r)"
proof -
  note base = reader_journal_base [OF whole]
  have w: "whole_journal (j_location (reader_journal r (v_location V) (v_dest_id V)))
      (j_dest_id (reader_journal r (v_location V) (v_dest_id V))) K (v_first V) (v_front V) (v_cur V)"
    using whole by (simp add: base view_whole_def)
  have fuel': "fuel > length (concat (v_front V) @ v_cur V)" and times': "list_all (\<lambda>f. 0 \<le> sint (snap_gen_time f)) (concat (v_front V) @ v_cur V)"
    using fuel(1) times by (simp_all add: view_log_def)
  obtain j' K' where s: "journal_seekToTime os fuel 0 (reader_journal r (v_location V) (v_dest_id V), K) = (Inr (), (j', K'))"
    "cursor_at j' K' (v_first V) (v_front V) (v_cur V) 0" "reader_post (reader_journal r (v_location V) (v_dest_id V)) K j' K'"
    by (rule seek_start [OF base(1) w os base(2) fuel' fuel(2) times'])
  then have "only_maps K K'" by (simp add: reader_post_def)
  with join_reader_ok [OF inv whole fresh s] that show thesis by blast
qed

lemma reader_inv_new: "reader_inv (JournalReader_new opts) K (mset (k_maps K)) [] []"
  by (simp add: reader_inv_def JournalReader_new_def all_maps_def)

subsection \<open>The threads of the joined journals\<close>

datatype reader_thread = Journal_retire nat | Journal_warm nat "nat \<Rightarrow> bool"

fun run_thread :: "(page_key \<Rightarrow> os_env) \<Rightarrow> reader_thread \<Rightarrow> unit reader_prog" where
  "run_thread os (Journal_retire i) = on_journal i (journal_retire_step os)"
| "run_thread os (Journal_warm i intr) = on_journal i (reader_warm os intr)"

fun thread_of :: "reader_thread \<Rightarrow> nat" where
  "thread_of (Journal_retire i) = i"
| "thread_of (Journal_warm i intr) = i"

lemma run_thread_ok:
  assumes inv: "merge_inv r K M Vs ns" and os: "os_works os" and i: "thread_of th < length (rd_journals r)"
  obtains r' K' where "run_thread os th (r, K) = (Inr (), (r', K'))" and "merge_inv r' K' M Vs ns" and "only_maps K K'"
    and "same_mode r r'"
proof -
  let ?i = "thread_of th" and ?j = "rd_journals r ! thread_of th"
  have rinv: "reader_inv r K M Vs ns" using inv by (simp add: merge_inv_def)
  let ?V = "Vs ! ?i"
  have st: "stands_at ?j K ?V (ns ! ?i)" using rinv i by (simp add: reader_inv_def)
  then have at: "cursor_at ?j K (v_first ?V) (v_front ?V) (v_cur ?V) (ns ! ?i)" by (simp add: stands_at_def)
  obtain p j' K' where p: "run_thread os th = on_journal ?i p" "p (?j, K) = (Inr (), (j', K'))"
    "cursor_at j' K' (v_first ?V) (v_front ?V) (v_cur ?V) (ns ! ?i)" "reader_post ?j K j' K'"
  proof (cases th)
    case (Journal_retire i)
    show thesis
      by (rule journal_retire_step_ok [OF at os])
        (use Journal_retire in \<open>intro that [of "journal_retire_step os"], simp_all\<close>)
  next
    case (Journal_warm i intr)
    show thesis
      by (rule reader_warm_ok [OF at os, of intr])
        (use Journal_warm in \<open>intro that [of "reader_warm os intr"], simp_all\<close>)
  qed
  have st': "stands_at j' K' ?V (ns ! ?i)"
    using p(3,4) st by (simp add: stands_at_def reader_post_def same_reader_def)
  let ?r = "r\<lparr>rd_journals := (rd_journals r)[?i := j']\<rparr>"
  note o = on_journal_ok [where p = p, OF rinv i p(2) st' p(4)]
  have m: "same_mode r ?r" by (simp add: same_mode_def)
  have rinv': "reader_inv ?r K' M Vs ns" using o(2) by simp
  have "chosen ?r Vs ns" if "chosen r Vs ns"
    using that i by (auto simp: chosen_def heap_tracks_def heap_mode_def)
  then have "merge_inv ?r K' M Vs ns" using rinv' inv times_fit_mode [OF m] by (simp add: merge_inv_def)
  moreover have "only_maps K K'" using p(4) by (simp add: reader_post_def)
  ultimately show thesis using o(1) p(1) m by (intro that [of ?r K']) simp_all
qed

end
