(* ===== verification/Journal_System.thy ===== *)
theory Journal_System
  imports Writer_Log Reader_Merge
begin

section \<open>A writer and a reader on one journal\<close>

text \<open>
  The two sides together: a \<^verbatim>\<open>JournalWriter\<close> and a \<^verbatim>\<open>JournalReader\<close> that share the page files.
  Every operation of either side is one step; the steps may come in any order.  The theory shows that
  the reader is given the frames of the log from the first on, each once and in order, whatever the
  writer and the background threads of both sides do in between.
\<close>

subsection \<open>Neither side disturbs the other\<close>

lemma writer_inv_only_maps:
  assumes inv: "writer_inv w K first front cur" and om: "only_maps K K'" and maps: "writer_maps w \<subseteq># mset (k_maps K')"
  shows "writer_inv w K' first front cur"
proof -
  have "warmer_ok w K' = warmer_ok w K" unfolding warmer_ok_def only_mapsD(1) [OF om] ..
  then show ?thesis
    using inv maps unfolding writer_inv_def journal_log_only_maps [OF om] only_mapsD(1) [OF om] by (elim conjE) (intro conjI; simp)
qed

lemma log_rel_only_maps:
  assumes rel: "log_rel loc dest first E (w, K) a" and om: "only_maps K K'" and maps: "mset (k_maps K') = writer_maps w + N"
  shows "log_rel loc dest first (E\<lparr>s_maps := N\<rparr>) (w, K') a"
proof -
  obtain seq front cur where a: "a = (seq, front, cur)" by (cases a)
  have inv: "writer_inv w K first front cur" using rel by (simp add: log_rel_def a)
  have "writer_inv w K' first front cur" by (rule writer_inv_only_maps [OF inv om]) (simp add: maps)
  then show ?thesis
    using rel maps by (simp add: log_rel_def a surrounded_def only_mapsD [OF om] del: split_paired_All)
qed

lemma spec_op_extends:
  "log_extends front cur (fst (snd (spec_op sz op (seq, front, cur)))) (snd (snd (spec_op sz op (seq, front, cur))))"
proof -
  have "log_extends front cur (fst (snd (log_append sz now t ty fl data (seq, front, cur))))
      (snd (snd (log_append sz now t ty fl data (seq, front, cur))))" for now t ty fl data
    by (simp add: log_append_def log_put_def log_rotate_def log_extends_def)
  then show ?thesis by (cases op) simp_all
qed

lemma log_extends_prefix: "log_extends front cur front' cur' \<Longrightarrow> \<exists>x. concat front' @ cur' = (concat front @ cur) @ x"
  by (auto simp: log_extends_def)

lemma spec_op_prefix: "\<exists>x. log_frames (spec_op sz op a) = log_frames a @ x"
proof -
  obtain seq front cur where a: "a = (seq, front, cur)" by (cases a)
  obtain seq' front' cur' where b: "spec_op sz op (seq, front, cur) = (seq', front', cur')" by (cases "spec_op sz op (seq, front, cur)")
  from log_extends_prefix [OF spec_op_extends [of front cur sz op seq]] show ?thesis
    by (simp add: a b log_frames_def)
qed

subsection \<open>The composed system\<close>

datatype sys_op = Sys_write writer_op | Sys_read | Sys_thread reader_thread

type_synonym sys_state = "JournalWriter \<times> JournalReader \<times> page_key kernel"

fun run_sys :: "(page_key \<Rightarrow> os_env) \<Rightarrow> sys_op \<Rightarrow> sys_state \<Rightarrow> (error + FrameSnap list) \<times> sys_state" where
  "run_sys os (Sys_write op) (w, r, K) =
     (case run_op os op (w, K) of
        (Inl e, (w', K')) \<Rightarrow> (Inl e, (w', r, K')) | (Inr _, (w', K')) \<Rightarrow> (Inr [], (w', r, K')))"
| "run_sys os Sys_read (w, r, K) =
     (case nextStatic os (r, K) of
        (Inl e, (r', K')) \<Rightarrow> (Inl e, (w, r', K'))
      | (Inr s, (r', K')) \<Rightarrow> (Inr (case s of None \<Rightarrow> [] | Some f \<Rightarrow> [f]), (w, r', K')))"
| "run_sys os (Sys_thread th) (w, r, K) =
     (case run_thread os th (r, K) of
        (Inl e, (r', K')) \<Rightarrow> (Inl e, (w, r', K')) | (Inr _, (r', K')) \<Rightarrow> (Inr [], (w, r', K')))"

text \<open>A sequence of steps and the frames the reader is given in them.\<close>

fun run_system :: "(page_key \<Rightarrow> os_env) \<Rightarrow> sys_op list \<Rightarrow> sys_state \<Rightarrow> (error + FrameSnap list) \<times> sys_state" where
  "run_system os [] s = (Inr [], s)"
| "run_system os (op # ops) s =
     (case run_sys os op s of
        (Inl e, s') \<Rightarrow> (Inl e, s')
      | (Inr fs, s') \<Rightarrow> (case run_system os ops s' of
           (Inl e, s'') \<Rightarrow> (Inl e, s'') | (Inr gs, s'') \<Rightarrow> (Inr (fs @ gs), s'')))"

fun sys_ok :: "u32 \<Rightarrow> sys_op \<Rightarrow> bool" where
  "sys_ok sz (Sys_write op) = op_ok sz op"
| "sys_ok sz Sys_read = True"
| "sys_ok sz (Sys_thread th) = (thread_of th = 0)"

fun writes_of :: "sys_op \<Rightarrow> writer_op list" where
  "writes_of (Sys_write op) = [op]"
| "writes_of _ = []"

definition log_view :: "Location \<Rightarrow> u32 \<Rightarrow> int \<Rightarrow> log_state \<Rightarrow> jview" where
  "log_view loc dest first a = \<lparr>v_location = loc, v_dest_id = dest, v_first = first, v_front = fst (snd a), v_cur = snd (snd a)\<rparr>"

lemma view_log_log_view [simp]: "view_log (log_view loc dest first a) = log_frames a"
  by (cases a) (simp add: view_log_def log_view_def log_frames_def)

definition sys_inv :: "Location \<Rightarrow> u32 \<Rightarrow> int \<Rightarrow> surroundings \<Rightarrow> sys_state \<Rightarrow> log_state \<Rightarrow> nat \<Rightarrow> bool" where
  "sys_inv loc dest first E = (\<lambda>(w, r, K) a n.
     log_rel loc dest first (E\<lparr>s_maps := s_maps E + all_maps (rd_journals r)\<rparr>) (w, K) a \<and>
     merge_inv r K (writer_maps w + s_maps E) [log_view loc dest first a] [n])"

lemma sys_inv_one: "sys_inv loc dest first E (w, r, K) a n \<Longrightarrow> length (rd_journals r) = 1"
  by (auto simp: sys_inv_def merge_inv_def reader_inv_def)

text \<open>A step of the reader's side keeps the writer's side.\<close>

lemma sys_inv_reader:
  assumes inv: "sys_inv loc dest first E (w, r, K) a n"
    and r': "merge_inv r' K' (writer_maps w + s_maps E) [log_view loc dest first a] [n']" and om: "only_maps K K'"
  shows "sys_inv loc dest first E (w, r', K') a n'"
proof -
  have "mset (k_maps K') = writer_maps w + (s_maps E + all_maps (rd_journals r'))"
    using r' by (simp add: merge_inv_def reader_inv_def add.assoc)
  with log_rel_only_maps [OF _ om this, of loc dest first "E\<lparr>s_maps := s_maps E + all_maps (rd_journals r)\<rparr>" a] inv r'
  show ?thesis by (simp add: sys_inv_def)
qed

text \<open>A step of the writer keeps the reader's side.\<close>

lemma sys_inv_writer:
  assumes inv: "sys_inv loc dest first E (w, r, K) a n"
    and w': "log_rel loc dest first (E\<lparr>s_maps := s_maps E + all_maps (rd_journals r)\<rparr>) (w', K') (spec_op sz op a)"
  shows "sys_inv loc dest first E (w', r, K') (spec_op sz op a) n"
proof -
  obtain seq front cur where a: "a = (seq, front, cur)" by (cases a)
  obtain seq' front' cur' where b: "spec_op sz op a = (seq', front', cur')" by (cases "spec_op sz op a")
  have ext: "log_extends front cur front' cur'" using spec_op_extends [of front cur sz op seq] b a by simp
  have winv: "writer_inv w' K' first front' cur'" "jw_location w' = loc" "jw_dest_id w' = dest"
    and sub: "mset (k_maps K') - writer_maps w' = s_maps E + all_maps (rd_journals r)"
    using w' by (simp_all add: log_rel_def b surrounded_def)
  have maps: "mset (k_maps K') = writer_maps w' + s_maps E + all_maps (rd_journals r)"
    using sub writer_invD(7) [OF winv(1)] by (metis add.assoc subset_mset.add_diff_inverse)
  obtain j where j: "rd_journals r = [j]" using sys_inv_one [OF inv] by (auto simp: length_Suc_conv)
  have st: "stands_at j K (log_view loc dest first a) n" using inv j by (simp add: sys_inv_def merge_inv_def reader_inv_def)
  then have at: "cursor_at j K first front cur n" "j_location j = loc" "j_dest_id j = dest" by (simp_all add: stands_at_def log_view_def a)
  have log: "journal_log (j_location j) (j_dest_id j) K' first front' cur'" using writer_invD(1) [OF winv(1)] winv(2,3) at by simp
  have "reader_maps j \<subseteq># mset (k_maps K')" by (simp add: maps j all_maps_def)
  from cursor_at_extends [OF at(1) ext log this] have "stands_at j K' (log_view loc dest first (spec_op sz op a)) n"
    using at by (simp add: stands_at_def log_view_def b)
  then have "merge_inv r K' (writer_maps w' + s_maps E) [log_view loc dest first (spec_op sz op a)] [n]"
    using inv maps j by (simp add: sys_inv_def merge_inv_def reader_inv_def)
  with w' show ?thesis by (simp add: sys_inv_def)
qed

subsection \<open>Runs of the system\<close>

text \<open>
  The contract of a component whose steps also deliver something: an allowed step succeeds, delivers
  what the specification says and reaches a related state.
\<close>

locale observed_ops =
  fixes run :: "'op \<Rightarrow> 's \<Rightarrow> (error + 'o list) \<times> 's"
    and rel :: "'s \<Rightarrow> 'a \<Rightarrow> bool"
    and spec :: "'op \<Rightarrow> 'a \<Rightarrow> 'o list \<times> 'a"
    and allowed :: "'op \<Rightarrow> bool"
  assumes step: "rel s a \<Longrightarrow> allowed op \<Longrightarrow> \<exists>s'. run op s = (Inr (fst (spec op a)), s') \<and> rel s' (snd (spec op a))"
begin

fun run_all :: "'op list \<Rightarrow> 's \<Rightarrow> (error + 'o list) \<times> 's" where
  "run_all [] s = (Inr [], s)"
| "run_all (op # ops) s =
     (case run op s of
        (Inl e, s') \<Rightarrow> (Inl e, s')
      | (Inr fs, s') \<Rightarrow> (case run_all ops s' of
           (Inl e, s'') \<Rightarrow> (Inl e, s'') | (Inr gs, s'') \<Rightarrow> (Inr (fs @ gs), s'')))"

fun spec_all :: "'op list \<Rightarrow> 'a \<Rightarrow> 'o list \<times> 'a" where
  "spec_all [] a = ([], a)"
| "spec_all (op # ops) a = (case spec op a of (fs, a') \<Rightarrow> (case spec_all ops a' of (gs, a'') \<Rightarrow> (fs @ gs, a'')))"

lemma spec_all_append:
  "spec_all (xs @ ys) a = (case spec_all xs a of (fs, a') \<Rightarrow> (case spec_all ys a' of (gs, a'') \<Rightarrow> (fs @ gs, a'')))"
  by (induction xs arbitrary: a) (simp_all split: prod.split)

lemma run_all_observed:
  "rel s a \<Longrightarrow> list_all allowed ops \<Longrightarrow>
   \<exists>s'. run_all ops s = (Inr (fst (spec_all ops a)), s') \<and> rel s' (snd (spec_all ops a))"
proof (induction ops arbitrary: s a)
  case (Cons op ops)
  then obtain s1 where "run op s = (Inr (fst (spec op a)), s1)" "rel s1 (snd (spec op a))" using step [of s a op] by auto
  with Cons.IH [of s1 "snd (spec op a)"] Cons.prems show ?case by (auto split: prod.split)
qed simp

end

text \<open>The specification: a log and the number of frames the reader has been given.\<close>

fun spec_sys :: "nat \<Rightarrow> sys_op \<Rightarrow> log_state \<times> nat \<Rightarrow> FrameSnap list \<times> log_state \<times> nat" where
  "spec_sys sz (Sys_write op) (a, n) = ([], (spec_op sz op a, n))"
| "spec_sys sz Sys_read (a, n) =
     (if n < length (log_frames a) then ([log_frames a ! n], (a, Suc n)) else ([], (a, n)))"
| "spec_sys sz (Sys_thread th) (a, n) = ([], (a, n))"

definition sys_rel :: "Location \<Rightarrow> u32 \<Rightarrow> int \<Rightarrow> surroundings \<Rightarrow> sys_state \<Rightarrow> log_state \<times> nat \<Rightarrow> bool" where
  "sys_rel loc dest first E s = (\<lambda>(a, n). sys_inv loc dest first E s a n)"

lemma sys_write_step:
  assumes inv: "sys_inv loc dest first E (w, r, K) a n" and ok: "op_ok (findPageSize loc dest) op"
  obtains w' K' where "run_op os_ok op (w, K) = (Inr (), (w', K'))"
    and "sys_inv loc dest first E (w', r, K') (spec_op (unat (findPageSize loc dest)) op a) n"
proof -
  have rel: "log_rel loc dest first (E\<lparr>s_maps := s_maps E + all_maps (rd_journals r)\<rparr>) (w, K) a"
    using inv by (simp add: sys_inv_def)
  obtain w' K' where "run_op os_ok op (w, K) = (Inr (), (w', K'))"
    "log_rel loc dest first (E\<lparr>s_maps := s_maps E + all_maps (rd_journals r)\<rparr>) (w', K') (spec_op (unat (findPageSize loc dest)) op a)"
    using wlog.step [OF rel ok] by auto
  then show thesis using sys_inv_writer [OF inv] that by blast
qed

lemma all_heads_one: "all_heads [log_view loc dest first a] [n] = [] \<longleftrightarrow> \<not> n < length (log_frames a)"
  by (simp add: all_heads_def view_head_def)

lemma least_head_one:
  "least_head [log_view loc dest first a] [n] i f \<Longrightarrow> i = 0 \<and> n < length (log_frames a) \<and> f = log_frames a ! n"
  by (auto simp: least_head_def view_head_def split: if_splits)

lemma sys_read_step:
  assumes inv: "sys_inv loc dest first E (w, r, K) a n"
  obtains r' K' where "nextStatic os_ok (r, K) = (Inr (if n < length (log_frames a) then Some (log_frames a ! n) else None), (r', K'))"
    and "sys_inv loc dest first E (w, r', K') a (if n < length (log_frames a) then Suc n else n)"
proof -
  have m: "merge_inv r K (writer_maps w + s_maps E) [log_view loc dest first a] [n]" using inv by (simp add: sys_inv_def)
  obtain r' K' where r: "only_maps K K'" "if all_heads [log_view loc dest first a] [n] = []
     then nextStatic os_ok (r, K) = (Inr None, (r', K')) \<and> merge_inv r' K' (writer_maps w + s_maps E) [log_view loc dest first a] [n]
     else \<exists>i f. least_head [log_view loc dest first a] [n] i f \<and> nextStatic os_ok (r, K) = (Inr (Some f), (r', K')) \<and>
       merge_inv r' K' (writer_maps w + s_maps E) [log_view loc dest first a] ([n][i := Suc ([n] ! i)])"
    using nextStatic_ok [OF m os_works_ok] by blast
  show thesis
  proof (cases "n < length (log_frames a)")
    case True
    with r(2) least_head_one have "nextStatic os_ok (r, K) = (Inr (Some (log_frames a ! n)), (r', K'))"
      "merge_inv r' K' (writer_maps w + s_maps E) [log_view loc dest first a] [Suc n]"
      by (fastforce simp: all_heads_one)+
    then show thesis using True sys_inv_reader [OF inv _ r(1)] by (intro that [of r' K']) simp_all
  next
    case False
    with r sys_inv_reader [OF inv _ r(1)] show thesis by (intro that [of r' K']) (simp_all add: all_heads_one)
  qed
qed

lemma sys_thread_step:
  assumes inv: "sys_inv loc dest first E (w, r, K) a n" and th: "thread_of th = 0"
  obtains r' K' where "run_thread os_ok th (r, K) = (Inr (), (r', K'))" and "sys_inv loc dest first E (w, r', K') a n"
proof -
  have m: "merge_inv r K (writer_maps w + s_maps E) [log_view loc dest first a] [n]" using inv by (simp add: sys_inv_def)
  have i: "thread_of th < length (rd_journals r)" using th sys_inv_one [OF inv] by simp
  obtain r' K' where "run_thread os_ok th (r, K) = (Inr (), (r', K'))" "merge_inv r' K' (writer_maps w + s_maps E) [log_view loc dest first a] [n]"
    "only_maps K K'"
    by (rule run_thread_ok [OF m os_works_ok i])
  then show thesis using sys_inv_reader [OF inv] that by blast
qed

interpretation jsys: observed_ops "run_sys os_ok" "sys_rel loc dest first E"
  "spec_sys (unat (findPageSize loc dest))" "sys_ok (findPageSize loc dest)"
  for loc dest first E
proof
  fix s b op
  assume rel: "sys_rel loc dest first E s b" and ok: "sys_ok (findPageSize loc dest) op"
  obtain w r K where s: "s = (w, r, K)" by (cases s)
  obtain a n where b: "b = (a, n)" by (cases b)
  have inv: "sys_inv loc dest first E (w, r, K) a n" using rel by (simp add: sys_rel_def s b)
  show "\<exists>s'. run_sys os_ok op s = (Inr (fst (spec_sys (unat (findPageSize loc dest)) op b)), s') \<and>
      sys_rel loc dest first E s' (snd (spec_sys (unat (findPageSize loc dest)) op b))"
  proof (cases op)
    case (Sys_write wop)
    obtain w' K' where "run_op os_ok wop (w, K) = (Inr (), (w', K'))"
      "sys_inv loc dest first E (w', r, K') (spec_op (unat (findPageSize loc dest)) wop a) n"
      by (rule sys_write_step [OF inv]) (use ok Sys_write in auto)
    then show ?thesis by (simp add: Sys_write s b sys_rel_def)
  next
    case Sys_read
    obtain r' K' where "nextStatic os_ok (r, K) = (Inr (if n < length (log_frames a) then Some (log_frames a ! n) else None), (r', K'))"
      "sys_inv loc dest first E (w, r', K') a (if n < length (log_frames a) then Suc n else n)"
      by (rule sys_read_step [OF inv])
    then show ?thesis by (simp add: Sys_read s b sys_rel_def split: if_splits)
  next
    case (Sys_thread th)
    obtain r' K' where "run_thread os_ok th (r, K) = (Inr (), (r', K'))" "sys_inv loc dest first E (w, r', K') a n"
      by (rule sys_thread_step [OF inv]) (use ok Sys_thread in auto)
    then show ?thesis by (simp add: Sys_thread s b sys_rel_def)
  qed
qed

lemma run_system_eq: "run_system os_ok ops s = jsys.run_all ops s"
  by (induction ops arbitrary: s) (simp_all split: prod.split sum.split)

text \<open>What a run delivers: the next frames of the log that the writer has made by the end of the run.\<close>

lemma spec_ops_prefix: "\<exists>x. log_frames (fold (spec_op sz) ops a) = log_frames a @ x"
proof (induction ops arbitrary: a)
  case (Cons op ops)
  obtain x where "log_frames (spec_op sz op a) = log_frames a @ x" using spec_op_prefix by blast
  with Cons.IH [of "spec_op sz op a"] show ?case by auto
qed simp

lemma spec_run:
  assumes "jsys.spec_all loc dest ops (a, n) = (fs, (a', n'))" and "n \<le> length (log_frames a)"
  shows "a' = fold (spec_op (unat (findPageSize loc dest))) (concat (map writes_of ops)) a"
    and "n' = n + length fs" and "n' \<le> length (log_frames a')" and "fs = take (length fs) (drop n (log_frames a'))"
proof -
  let ?sp = "spec_op (unat (findPageSize loc dest))"
  have "a' = fold ?sp (concat (map writes_of ops)) a \<and> n' = n + length fs \<and> n' \<le> length (log_frames a') \<and>
      fs = take (length fs) (drop n (log_frames a'))"
    using assms
  proof (induction ops arbitrary: a n fs)
    case (Cons op ops)
    obtain gs a1 n1 where s: "spec_sys (unat (findPageSize loc dest)) op (a, n) = (gs, (a1, n1))" by (metis prod.exhaust)
    obtain hs where h: "jsys.spec_all loc dest ops (a1, n1) = (hs, (a', n'))" "fs = gs @ hs"
      using Cons.prems(1) s by (auto split: prod.splits)
    obtain x where x: "log_frames a1 = log_frames a @ x" "n1 = n + length gs" "n1 \<le> length (log_frames a1)"
      "gs = take (length gs) (drop n (log_frames a))" "a1 = fold ?sp (writes_of op) a"
    proof (cases op)
      case (Sys_write wop)
      obtain y where "log_frames (?sp wop a) = log_frames a @ y" using spec_op_prefix by blast
      with Sys_write s Cons.prems(2) show thesis by (intro that [of y]) auto
    next
      case Sys_read
      with s Cons.prems(2) show thesis
        by (intro that [of "[]"]) (auto simp: take_Suc_conv_app_nth Cons_nth_drop_Suc [symmetric] split: if_splits)
    next
      case (Sys_thread th)
      with s Cons.prems(2) show thesis by (intro that [of "[]"]) auto
    qed
    note ih = Cons.IH [OF h(1) x(3)]
    obtain y where y: "log_frames a' = log_frames a1 @ y"
      using spec_ops_prefix [where ops = "concat (map writes_of ops)" and a = a1] ih by blast
    have "take (length gs) (drop n (log_frames a')) = gs"
    proof -
      have "length gs \<le> length (drop n (log_frames a))" using x(4) by (metis length_take min.cobounded1)
      then have "take (length gs) (drop n (log_frames a')) = take (length gs) (drop n (log_frames a))"
        unfolding y x(1) by (simp add: Cons.prems(2))
      with x(4) show ?thesis by simp
    qed
    moreover have "take (length hs) (drop (length gs) (drop n (log_frames a'))) = hs"
      using ih x(2) by (metis drop_drop add.commute)
    ultimately have "take (length fs) (drop n (log_frames a')) = fs"
      unfolding h(2) by (simp add: take_add)
    moreover have "a' = fold ?sp (concat (map writes_of (op # ops))) a" using ih x(5) by simp
    moreover have "n' = n + length fs" using ih x(2) h(2) by simp
    moreover have "n' \<le> length (log_frames a')" using ih by blast
    ultimately show ?case by metis
  qed simp
  then show "a' = fold ?sp (concat (map writes_of ops)) a"
    and "n' = n + length fs" and "n' \<le> length (log_frames a')" and "fs = take (length fs) (drop n (log_frames a'))"
    by blast+
qed

lemma spec_reads:
  "n \<le> length (log_frames a) \<Longrightarrow> length (log_frames a) \<le> n + m \<Longrightarrow>
   jsys.spec_all loc dest (replicate m Sys_read) (a, n) = (drop n (log_frames a), (a, length (log_frames a)))"
proof (induction m arbitrary: n)
  case (Suc m)
  show ?case
  proof (cases "n < length (log_frames a)")
    case True
    with Suc.IH [of "Suc n"] Suc.prems show ?thesis by (simp add: Cons_nth_drop_Suc)
  next
    case False
    with Suc.IH [of n] Suc.prems show ?thesis by simp
  qed
qed simp

subsection \<open>A reader joins\<close>

lemma page_ids_ok_lookup: "page_ids_ok K \<longleftrightarrow> (\<forall>d e i. lookup_file K (d, e, i) \<noteq> None \<longrightarrow> int32_range i)"
  unfolding page_ids_ok_def lookup_file_def list_all_iff by (force simp: map_of_eq_None_iff)

text \<open>Nothing of the journal is in the way, and the other files have names that can be read back.\<close>

definition clear_for :: "Location \<Rightarrow> u32 \<Rightarrow> surroundings \<Rightarrow> bool" where
  "clear_for loc dest E \<longleftrightarrow> (\<forall>i. s_files E (page_key_of loc dest i) = None) \<and>
     (\<forall>d e i. s_files E (d, e, i) \<noteq> None \<longrightarrow> int32_range i)"

lemma clear_for_fresh: "fresh_journal loc dest K \<Longrightarrow> clear_for loc dest (around K)"
  using fresh_journal_lookup [of loc dest K]
  by (simp add: clear_for_def around_def fresh_journal_def page_ids_ok_lookup del: not_None_eq)

lemma log_rel_whole:
  assumes rel: "log_rel loc dest first E (w, K) (seq, front, cur)" and clear: "clear_for loc dest E"
    and bound: "first + int (length front) + 16 < 2 ^ 31"
  shows "whole_journal loc dest K first front cur"
proof -
  have inv: "writer_inv w K first front cur" and w: "jw_location w = loc" "jw_dest_id w = dest"
    and sur: "surrounded loc dest first E (writer_maps w) K"
    using rel by (simp_all add: log_rel_def)
  note invD = writer_invD [OF inv]
  have out: "lookup_file K key = s_files E key" if "\<forall>i \<ge> first. key \<noteq> page_key_of loc dest i" for key
    using sur that unfolding surrounded_def by blast
  have ahead: "lookup_file K (page_key_of loc dest i) = Some (blank_file (findPageSize loc dest)) \<and> i \<le> first + int (length front) + 16"
    if "first + int (length front) < i" "lookup_file K (page_key_of loc dest i) \<noteq> None" for i
    using invD(6) [of i] that invD(3,4) w by (auto simp: w_key_def future_file_def)
  have "first \<le> i" if "lookup_file K (page_key_of loc dest i) \<noteq> None" for i
    using that out [of "page_key_of loc dest i"] clear by (force simp: clear_for_def)
  moreover have "int32_range i" if l: "lookup_file K (d, e, i) \<noteq> None" for d e i
  proof (cases "\<forall>k \<ge> first. (d, e, i) \<noteq> page_key_of loc dest k")
    case True
    with l out [OF True] clear show ?thesis by (auto simp: clear_for_def)
  next
    case False
    then have k: "(d, e, i) = page_key_of loc dest i" "first \<le> i" by (auto simp: page_key_of_def)
    then have "i \<le> first + int (length front) + 16" using ahead [of i] l by (cases "first + int (length front) < i") auto
    with k(2) invD(2) bound show ?thesis by (simp add: int32_range_def)
  qed
  ultimately show ?thesis
    using invD(1) w ahead unfolding whole_journal_def page_ids_ok_lookup by blast
qed

lemma join_system:
  assumes rel: "log_rel loc dest first E (w, K) a" and clear: "clear_for loc dest E"
    and bound: "first + int (length (fst (snd a))) + 16 < 2 ^ 31"
    and fuel: "fuel > length (log_frames a)" "fuel > length (fst (snd a))"
    and times: "list_all (\<lambda>f. 0 \<le> sint (snap_gen_time f)) (log_frames a)"
  obtains r' K' where "join_reader os_ok fuel loc dest 0 (JournalReader_new opts, K) = (Inr (), (r', K'))"
    and "sys_inv loc dest first E (w, r', K') a 0"
proof -
  let ?V = "log_view loc dest first a" and ?r = "JournalReader_new opts"
  obtain seq front cur where a: "a = (seq, front, cur)" by (cases a)
  have whole: "view_whole ?V K"
    using log_rel_whole [OF rel [unfolded a] clear] bound by (simp add: view_whole_def log_view_def a)
  have sub: "writer_maps w \<subseteq># mset (k_maps K)" "mset (k_maps K) - writer_maps w = s_maps E"
    using rel writer_invD(7) by (auto simp: log_rel_def a surrounded_def)
  then have M: "mset (k_maps K) = writer_maps w + s_maps E" by (metis subset_mset.add_diff_inverse)
  have new: "makeKey (loc_uid (v_location ?V)) (v_dest_id ?V) \<notin> rd_joined_keys ?r"
    by (simp add: JournalReader_new_def)
  have fuel': "fuel > length (view_log ?V)" "fuel > length (v_front ?V)"
    and times': "list_all (\<lambda>f. 0 \<le> sint (snap_gen_time f)) (view_log ?V)"
    using fuel times by (simp_all add: log_view_def [of loc dest first a] del: view_log_log_view) (simp_all add: view_log_def log_frames_def a)
  obtain r' K' where j: "join_reader os_ok fuel (v_location ?V) (v_dest_id ?V) 0 (?r, K) = (Inr (), (r', K'))"
    "reader_inv r' K' (mset (k_maps K)) ([] @ [?V]) ([] @ [0])" "only_maps K K'"
    by (rule join_from_start [OF reader_inv_new whole os_works_ok new fuel' times'])
  have one: "length (rd_journals r') = 1" using j(2) by (simp add: reader_inv_def)
  have m: "merge_inv r' K' (writer_maps w + s_maps E) [?V] [0]"
    using j(2) one by (simp add: merge_inv_def M)
  have "mset (k_maps K') = writer_maps w + (s_maps E + all_maps (rd_journals r'))"
    using j(2) M by (simp add: reader_inv_def add.assoc)
  from log_rel_only_maps [OF rel j(3) this] m have "sys_inv loc dest first E (w, r', K') a 0"
    by (simp add: sys_inv_def)
  with j(1) that show thesis by (simp add: log_view_def)
qed

text \<open>Sizes and times of the log after a number of operations.\<close>

lemma fold_sizes:
  "length (log_frames (fold (spec_op sz) ops a)) \<le> length (log_frames a) + 2 * length ops \<and>
   length (fst (snd (fold (spec_op sz) ops a))) \<le> length (fst (snd a)) + length ops"
proof (induction ops arbitrary: a)
  case (Cons op ops)
  have app: "length (log_frames (log_append sz now t ty fl data a)) \<le> length (log_frames a) + 2"
    "length (fst (snd (log_append sz now t ty fl data a))) \<le> length (fst (snd a)) + 1" for now t ty fl data
    by (cases a; simp add: log_append_def log_put_def log_rotate_def log_frames_def)+
  have "length (log_frames (spec_op sz op a)) \<le> length (log_frames a) + 2"
    "length (fst (snd (spec_op sz op a))) \<le> length (fst (snd a)) + 1"
    using app by (cases op; simp)+
  with Cons.IH [of "spec_op sz op a"] show ?case by simp
qed simp

fun op_times_ok :: "writer_op \<Rightarrow> bool" where
  "op_times_ok (Write_bytes now t ty data) = (0 \<le> sint now \<and> 0 \<le> sint t)"
| "op_times_ok (Mark now t ty) = (0 \<le> sint now \<and> 0 \<le> sint t)"
| "op_times_ok (Write_data now t ty fl data) = (0 \<le> sint now \<and> 0 \<le> sint t)"
| "op_times_ok _ = True"

lemma fold_times:
  "list_all op_times_ok ops \<Longrightarrow> list_all (\<lambda>f. 0 \<le> sint (snap_gen_time f)) (log_frames a) \<Longrightarrow>
   list_all (\<lambda>f. 0 \<le> sint (snap_gen_time f)) (log_frames (fold (spec_op sz) ops a))"
proof (induction ops arbitrary: a)
  case (Cons op ops)
  have app: "list_all (\<lambda>f. 0 \<le> sint (snap_gen_time f)) (log_frames (log_append sz now t ty fl data a))"
    if "0 \<le> sint now" "0 \<le> sint t" for now t ty fl data
    using that Cons.prems(2)
    by (cases a) (simp add: log_append_def log_put_def log_rotate_def log_frames_def snap_of_def list_all_iff)
  have "list_all (\<lambda>f. 0 \<le> sint (snap_gen_time f)) (log_frames (spec_op sz op a))"
    using Cons.prems app by (cases op) simp_all
  with Cons show ?case by simp
qed simp

subsection \<open>Whole sessions\<close>

text \<open>Write a journal, then read it from the start with a reader of its own until nothing is left.\<close>

definition read_session ::
    "(page_key \<Rightarrow> os_env) \<Rightarrow> nat \<Rightarrow> Location \<Rightarrow> u32 \<Rightarrow> FrameSnap list reader_prog" where
  "read_session os fuel loc dest = bind_p (join_reader os fuel loc dest 0) (\<lambda>_. drain os fuel)"

text \<open>A writer writes \<open>early\<close>, then a reader joins, then both sides run.\<close>

definition system_session ::
    "(page_key \<Rightarrow> os_env) \<Rightarrow> nat \<Rightarrow> Location \<Rightarrow> u32 \<Rightarrow> JournalWriterOptions \<Rightarrow> bool \<Rightarrow> JournalReaderOptions \<Rightarrow>
     writer_op list \<Rightarrow> sys_op list \<Rightarrow> page_key kernel \<Rightarrow> (error + FrameSnap list) \<times> sys_state option" where
  "system_session os fuel loc dest wopts serialize ropts early ops K =
     (case write_session os loc dest wopts serialize early K of
        (Inl e, _) \<Rightarrow> (Inl e, None)
      | (Inr w, K1) \<Rightarrow> (case join_reader os fuel loc dest 0 (JournalReader_new ropts, K1) of
           (Inl e, _) \<Rightarrow> (Inl e, None)
         | (Inr _, (r, K2)) \<Rightarrow> (case run_system os ops (w, r, K2) of (x, s) \<Rightarrow> (x, Some s))))"

text \<open>What a whole session needs: a fresh journal, operations that fit, times after 1970.\<close>

definition session_ok :: "Location \<Rightarrow> u32 \<Rightarrow> JournalWriterOptions \<Rightarrow> writer_op list \<Rightarrow> nat \<Rightarrow> page_key kernel \<Rightarrow> bool" where
  "session_ok loc dest wopts ops fuel K \<longleftrightarrow> fresh_journal loc dest K \<and> wo_warmup_pages wopts \<le> 16 \<and>
     list_all (op_ok (findPageSize loc dest)) ops \<and> list_all op_times_ok ops \<and>
     2 * length ops < fuel \<and> length ops < 2000000000"

definition journal_of :: "Location \<Rightarrow> u32 \<Rightarrow> writer_op list \<Rightarrow> FrameSnap list" where
  "journal_of loc dest ops = log_frames (fold (spec_op (unat (findPageSize loc dest))) ops (0, [], []))"

lemma session_joined:
  assumes ok: "session_ok loc dest wopts ops fuel K"
  obtains w K1 r K2 where "write_session os_ok loc dest wopts serialize ops K = (Inr w, K1)"
    and "join_reader os_ok fuel loc dest 0 (JournalReader_new ropts, K1) = (Inr (), (r, K2))"
    and "sys_inv loc dest 1 (around K) (w, r, K2) (fold (spec_op (unat (findPageSize loc dest))) ops (0, [], [])) 0"
proof -
  let ?a = "fold (spec_op (unat (findPageSize loc dest))) ops (0, [], [])"
  note ok' = ok [unfolded session_ok_def]
  obtain w K1 where w: "write_session os_ok loc dest wopts serialize ops K = (Inr w, K1)"
    "log_rel loc dest 1 (around K) (w, K1) ?a"
    using write_session_refines [of loc dest K wopts ops serialize] ok' by blast
  have sizes: "length (log_frames ?a) \<le> 2 * length ops" "length (fst (snd ?a)) \<le> length ops"
    using fold_sizes [of "unat (findPageSize loc dest)" ops "(0, [], [])"] by (simp_all add: log_frames_def)
  have clear: "clear_for loc dest (around K)" using ok' by (intro clear_for_fresh) simp
  have times: "list_all (\<lambda>f. 0 \<le> sint (snap_gen_time f)) (log_frames ?a)"
    using ok' by (intro fold_times) (simp_all add: log_frames_def)
  obtain r K2 where "join_reader os_ok fuel loc dest 0 (JournalReader_new ropts, K1) = (Inr (), (r, K2))"
    "sys_inv loc dest 1 (around K) (w, r, K2) ?a 0"
    by (rule join_system [OF w(2) clear _ _ _ times, of fuel ropts]) (use sizes ok' in simp_all)
  with w(1) that show thesis by blast
qed

lemma system_session_run:
  assumes ok: "session_ok loc dest wopts early fuel K" and ops: "list_all (sys_ok (findPageSize loc dest)) ops"
  obtains s where "system_session os_ok fuel loc dest wopts serialize ropts early ops K =
      (Inr (fst (jsys.spec_all loc dest ops (fold (spec_op (unat (findPageSize loc dest))) early (0, [], []), 0))), Some s)"
proof -
  let ?a = "fold (spec_op (unat (findPageSize loc dest))) early (0, [], [])"
  obtain w K1 r K2 where s: "write_session os_ok loc dest wopts serialize early K = (Inr w, K1)"
    "join_reader os_ok fuel loc dest 0 (JournalReader_new ropts, K1) = (Inr (), (r, K2))"
    "sys_inv loc dest 1 (around K) (w, r, K2) ?a 0"
    by (rule session_joined [OF ok, of serialize ropts])
  have "sys_rel loc dest 1 (around K) (w, r, K2) (?a, 0)" using s(3) by (simp add: sys_rel_def)
  from jsys.run_all_observed [OF this ops] s(1,2) that show thesis
    by (auto simp: system_session_def run_system_eq)
qed

lemma interleaves_one:
  assumes "interleaves [V] [n] fs is"
  shows "fs = drop n (view_log V)"
proof -
  have len: "length is = length fs" and zero: "set is \<subseteq> {0}" and p: "picks 0 fs is = drop n (view_log V)"
    using assms by (auto simp: interleaves_def remaining_def)
  have "\<forall>x \<in> set (zip fs is). snd x = 0" using zero by (metis set_zip_rightD prod.collapse singletonD subsetD)
  then have "filter (\<lambda>(f, k). k = 0) (zip fs is) = zip fs is" by (intro filter_True) auto
  with p len show ?thesis by (simp add: picks_def)
qed

lemma drain_system:
  assumes inv: "sys_inv loc dest first E (w, r, K) a n" and fuel: "fuel > length (log_frames a)"
  obtains s where "drain os_ok fuel (r, K) = (Inr (drop n (log_frames a)), s)"
proof -
  let ?V = "log_view loc dest first a"
  have m: "merge_inv r K (writer_maps w + s_maps E) [?V] [n]" using inv by (simp add: sys_inv_def)
  have "left_over [?V] [n] < fuel" using fuel by (simp add: left_over_def remaining_def)
  from drain_ok [OF m os_works_ok this] obtain fs "is" s where "drain os_ok fuel (r, K) = (Inr fs, s)" "interleaves [?V] [n] fs is"
    by blast
  with interleaves_one that show thesis by fastforce
qed

subsection \<open>Properties of whole sessions\<close>

text \<open>An example.\<close>

definition ex_reader_options :: JournalReaderOptions where
  "ex_reader_options = \<lparr>ro_prefault = False, ro_background_threads = True, ro_retained_page_limit = 10\<rparr>"

lemma ex_session_ok: "session_ok ex_location 0 ex_writer_options ex_ops 9 ex_disk"
  using ex_fresh ex_ops_ok by (simp add: session_ok_def ex_ops_def)

lemma journal_of_contents:
  assumes "list_all (op_ok (findPageSize loc dest)) ops"
  shows "map message_of (filter (\<lambda>f. \<not> is_page_end f) (journal_of loc dest ops)) = concat (map op_messages ops)"
    and "map snap_sequence (journal_of loc dest ops) = map of_nat [0..<length (journal_of loc dest ops)]"
proof -
  let ?sz = "unat (findPageSize loc dest)"
  show "map message_of (filter (\<lambda>f. \<not> is_page_end f) (journal_of loc dest ops)) = concat (map op_messages ops)"
    using fold_messages [OF assms, of ?sz "(0, [], [])"] by (simp add: journal_of_def log_frames_def)
  have "counted 0 (0, [], [])" by (simp add: counted_def log_frames_def)
  from counted_fold [OF this, of ?sz ops] show "map snap_sequence (journal_of loc dest ops) = map of_nat [0..<length (journal_of loc dest ops)]"
    by (simp add: counted_def journal_of_def)
qed

text \<open>C1: round trip.  What a writer writes to a fresh journal with any sequence of \<^verbatim>\<open>writeBytes\<close>, \<^verbatim>\<open>mark\<close>
  and \<^verbatim>\<open>openData\<close>/\<^verbatim>\<open>closeData\<close> calls, mixed with steps of its retire and warmer threads, a reader that
  joins from time 0 reads back: no operation fails, reading stops, the frames other than \<^verbatim>\<open>PageEnd\<close>
  carry exactly the messages written, in order, with their times, types, flags and payloads, and the
  sequence numbers of all frames count up from 0 without a gap.\<close>

theorem journal_round_trip:
  assumes "session_ok loc dest wopts ops fuel K"
  shows "\<exists>w K1 fs s. write_session os_ok loc dest wopts serialize ops K = (Inr w, K1) \<and>
    read_session os_ok fuel loc dest (JournalReader_new ropts, K1) = (Inr fs, s) \<and>
    map message_of (filter (\<lambda>f. \<not> is_page_end f) fs) = concat (map op_messages ops) \<and>
    map snap_sequence fs = map of_nat [0..<length fs]"
proof -
  let ?a = "fold (spec_op (unat (findPageSize loc dest))) ops (0, [], [])"
  obtain w K1 r K2 where s: "write_session os_ok loc dest wopts serialize ops K = (Inr w, K1)"
    "join_reader os_ok fuel loc dest 0 (JournalReader_new ropts, K1) = (Inr (), (r, K2))"
    "sys_inv loc dest 1 (around K) (w, r, K2) ?a 0"
    by (rule session_joined [OF assms])
  have fuel: "fuel > length (log_frames ?a)"
    using fold_sizes [of "unat (findPageSize loc dest)" ops "(0, [], [])"] assms by (simp add: session_ok_def log_frames_def)
  obtain t where "drain os_ok fuel (r, K2) = (Inr (journal_of loc dest ops), t)"
    using drain_system [OF s(3) fuel] by (auto simp: journal_of_def)
  then have "read_session os_ok fuel loc dest (JournalReader_new ropts, K1) = (Inr (journal_of loc dest ops), t)"
    using s(2) by (simp add: read_session_def prog_simps)
  with s(1) journal_of_contents [of loc dest ops] assms show ?thesis unfolding session_ok_def by blast
qed

theorem journal_round_trip_witness:
  "\<exists>w K1 fs s. write_session os_ok ex_location 0 ex_writer_options True ex_ops ex_disk = (Inr w, K1) \<and>
    read_session os_ok 9 ex_location 0 (JournalReader_new ex_reader_options, K1) = (Inr fs, s) \<and>
    map message_of (filter (\<lambda>f. \<not> is_page_end f) fs) = [(11, 100, FRAME_NORMAL, [1, 2, 3]), (21, 7, 5, [4]), (22, 7, FRAME_NORMAL, [])] \<and>
    map snap_sequence fs = map of_nat [0..<length fs]"
  using journal_round_trip [OF ex_session_ok, where serialize = True and ropts = ex_reader_options]
  by (simp add: ex_ops_def)

text \<open>C2: a reader is never wrong while the writer runs.  A writer has written \<open>early\<close> when a reader
  joins; then writes, reads, and steps of the background threads of both sides follow in any order.
  No step fails, and the frames the reader has been given at the end are the first frames of what the
  writer has written by then: none lost, none twice, none torn, none out of order.\<close>

theorem reads_are_prefix_of_writes:
  assumes "session_ok loc dest wopts early fuel K" and "list_all (sys_ok (findPageSize loc dest)) ops"
  shows "\<exists>fs s rest. system_session os_ok fuel loc dest wopts serialize ropts early ops K = (Inr fs, Some s) \<and>
    journal_of loc dest (early @ concat (map writes_of ops)) = fs @ rest"
proof -
  let ?a = "fold (spec_op (unat (findPageSize loc dest))) early (0, [], [])"
  obtain fs a' n' where r: "jsys.spec_all loc dest ops (?a, 0) = (fs, (a', n'))" by (metis prod.exhaust)
  obtain s where s: "system_session os_ok fuel loc dest wopts serialize ropts early ops K = (Inr fs, Some s)"
    using system_session_run [OF assms, of serialize ropts] r by auto
  have "journal_of loc dest (early @ concat (map writes_of ops)) = log_frames a'"
    using spec_run(1) [OF r] by (simp add: journal_of_def)
  moreover have "log_frames a' = fs @ drop (length fs) (log_frames a')"
    using spec_run(4) [OF r] by (metis append_take_drop_id drop0 le0)
  ultimately show ?thesis using s by metis
qed

theorem reads_are_prefix_of_writes_witness:
  "\<exists>fs s rest. system_session os_ok 9 ex_location 0 ex_writer_options True ex_reader_options ex_ops
      [Sys_read, Sys_write (Mark 30 31 7), Sys_thread (Journal_retire 0), Sys_read] ex_disk = (Inr fs, Some s) \<and>
    journal_of ex_location 0 (ex_ops @ [Mark 30 31 7]) = fs @ rest"
  using reads_are_prefix_of_writes [OF ex_session_ok, where serialize = True and ropts = ex_reader_options
      and ops = "[Sys_read, Sys_write (Mark 30 31 7), Sys_thread (Journal_retire 0), Sys_read]"]
  by (simp add: valid_type_def MsgType_PageEnd_def)

text \<open>C6: everything written is read.  After any such run, enough further calls of the reader deliver
  all that has been written: in the whole run the reader is given exactly the journal.\<close>

theorem everything_written_is_read:
  assumes "session_ok loc dest wopts early fuel K" and "list_all (sys_ok (findPageSize loc dest)) ops"
    and "2 * (length early + length ops) \<le> m"
  shows "\<exists>s. system_session os_ok fuel loc dest wopts serialize ropts early (ops @ replicate m Sys_read) K =
    (Inr (journal_of loc dest (early @ concat (map writes_of ops))), Some s)"
proof -
  let ?sp = "spec_op (unat (findPageSize loc dest))" and ?ops = "ops @ replicate m Sys_read"
  let ?a = "fold ?sp early (0, [], [])"
  have ok: "list_all (sys_ok (findPageSize loc dest)) ?ops" using assms(2) by (auto simp: list_all_iff)
  obtain fs a' n' where r: "jsys.spec_all loc dest ops (?a, 0) = (fs, (a', n'))" by (metis prod.exhaust)
  note run = spec_run [OF r, simplified]
  have "length (concat (map writes_of ops)) \<le> length ops"
  proof (induction ops)
    case (Cons op ops)
    have "length (writes_of op) \<le> 1" by (cases op) simp_all
    with Cons show ?case by simp
  qed simp
  then have "length (log_frames a') \<le> m"
    using assms(3) run(1) fold_sizes [of "unat (findPageSize loc dest)" "early @ concat (map writes_of ops)" "(0, [], [])"]
    by (simp add: log_frames_def)
  then have "jsys.spec_all loc dest (replicate m Sys_read) (a', n') = (drop n' (log_frames a'), (a', length (log_frames a')))"
    using run(3) by (intro spec_reads) simp_all
  then have "jsys.spec_all loc dest ?ops (?a, 0) = (fs @ drop n' (log_frames a'), (a', length (log_frames a')))"
    using r jsys.spec_all_append by simp
  moreover have "fs @ drop n' (log_frames a') = journal_of loc dest (early @ concat (map writes_of ops))"
    using run by (metis append_take_drop_id journal_of_def fold_append comp_apply)
  moreover obtain s where "system_session os_ok fuel loc dest wopts serialize ropts early ?ops K =
      (Inr (fst (jsys.spec_all loc dest ?ops (?a, 0))), Some s)"
    by (rule system_session_run [OF assms(1) ok])
  ultimately show ?thesis by (metis fst_conv)
qed

theorem everything_written_is_read_witness:
  "\<exists>s. system_session os_ok 9 ex_location 0 ex_writer_options False ex_reader_options ex_ops
      ([Sys_read, Sys_write (Mark 30 31 7)] @ replicate 12 Sys_read) ex_disk =
    (Inr (journal_of ex_location 0 (ex_ops @ [Mark 30 31 7])), Some s)"
  using everything_written_is_read [OF ex_session_ok, where serialize = False and ropts = ex_reader_options
      and ops = "[Sys_read, Sys_write (Mark 30 31 7)]" and m = 12]
  by (simp add: valid_type_def MsgType_PageEnd_def ex_ops_def)

end
