(* ===== verification/Many_Journals.thy ===== *)
theory Many_Journals
  imports Journal_System
begin

section \<open>One reader over many journals\<close>

text \<open>
  Several writers, each with a journal of its own under one location, and one reader that joins them
  all: what the reader delivers is an interleaving of the journals, in the order of time when the
  journals are.  The theory also states what a reader promises for each single step, and what seeking
  to a time does.
\<close>

lemma makeKey_eq_iff: "makeKey u d = makeKey u' d' \<longleftrightarrow> u = u' \<and> d = d'"
proof
  assume eq: "makeKey u d = makeKey u' d'"
  have low: "bit d n = bit d' n" for n
  proof (cases "n < 32")
    case True
    with arg_cong [OF eq, of "\<lambda>x. bit x n"] show ?thesis by (simp add: makeKey_def bit_simps)
  next
    case False
    then show ?thesis by (simp add: impossible_bit)
  qed
  have high: "bit u n = bit u' n" for n
  proof (cases "n < 32")
    case True
    with arg_cong [OF eq, of "\<lambda>x. bit x (n + 32)"] show ?thesis by (simp add: makeKey_def bit_simps impossible_bit)
  next
    case False
    then show ?thesis by (simp add: impossible_bit)
  qed
  from low high show "u = u' \<and> d = d'" by (simp add: bit_eq_iff)
qed simp

lemma whole_journal_cong:
  assumes whole: "whole_journal loc dest K first front cur" and ids: "page_ids_ok K'"
    and same: "\<And>i. lookup_file K' (page_key_of loc dest i) = lookup_file K (page_key_of loc dest i)"
  shows "whole_journal loc dest K' first front cur"
proof -
  have "journal_log loc dest K' first front cur"
    using journal_log_cong [of first front K' loc dest K cur] whole same by (simp add: whole_journal_def)
  with whole ids same show ?thesis by (simp add: whole_journal_def)
qed

lemma page_ids_ok_only_maps: "only_maps K K' \<Longrightarrow> page_ids_ok K' = page_ids_ok K"
  by (simp add: page_ids_ok_def only_mapsD)

lemma view_whole_only_maps: "view_whole V K \<Longrightarrow> only_maps K K' \<Longrightarrow> view_whole V K'"
  unfolding view_whole_def
  by (rule whole_journal_cong) (simp_all add: whole_journal_def page_ids_ok_only_maps only_mapsD)

subsection \<open>Writing several journals\<close>

fun write_journals ::
    "(page_key \<Rightarrow> os_env) \<Rightarrow> Location \<Rightarrow> JournalWriterOptions \<Rightarrow> bool \<Rightarrow> (u32 \<times> writer_op list) list \<Rightarrow>
     (page_key kernel, JournalWriter list) prog" where
  "write_journals os loc opts serialize [] = return_p []"
| "write_journals os loc opts serialize ((dest, ops) # js) =
     bind_p (write_session os loc dest opts serialize ops) (\<lambda>w.
     bind_p (write_journals os loc opts serialize js) (\<lambda>ws. return_p (w # ws)))"

definition session_view :: "Location \<Rightarrow> u32 \<times> writer_op list \<Rightarrow> jview" where
  "session_view loc = (\<lambda>(dest, ops). log_view loc dest 1 (fold (spec_op (unat (findPageSize loc dest))) ops (0, [], [])))"

lemma session_view_simps [simp]:
  "view_log (session_view loc (dest, ops)) = journal_of loc dest ops"
  "v_location (session_view loc jn) = loc" "v_dest_id (session_view loc jn) = fst jn"
  by (simp_all add: session_view_def journal_of_def split: prod.split) (simp_all add: log_view_def)

lemma write_session_view:
  assumes ok: "session_ok loc dest opts ops fuel K"
  obtains w K' where "write_session os_ok loc dest opts serialize ops K = (Inr w, K')"
    and "view_whole (session_view loc (dest, ops)) K'" and "page_ids_ok K'"
    and "\<forall>key. (\<forall>i. key \<noteq> page_key_of loc dest i) \<longrightarrow> lookup_file K' key = lookup_file K key"
proof -
  let ?a = "fold (spec_op (unat (findPageSize loc dest))) ops (0, [], [])"
  note ok' = ok [unfolded session_ok_def]
  obtain w K' where w: "write_session os_ok loc dest opts serialize ops K = (Inr w, K')"
    "log_rel loc dest 1 (around K) (w, K') ?a"
    using write_session_refines [of loc dest K opts ops serialize] ok' by blast
  obtain seq front cur where a: "?a = (seq, front, cur)" by (cases ?a)
  have clear: "clear_for loc dest (around K)" using ok' by (intro clear_for_fresh) simp
  have "length front \<le> length ops" using fold_sizes [of "unat (findPageSize loc dest)" ops "(0, [], [])"] a by simp
  then have whole: "whole_journal loc dest K' 1 front cur"
    using log_rel_whole [OF w(2) [unfolded a] clear] ok' by simp
  have "surrounded loc dest 1 (around K) (writer_maps w) K'" using w(2) by (simp add: log_rel_def a)
  then have "\<forall>key. (\<forall>i. key \<noteq> page_key_of loc dest i) \<longrightarrow> lookup_file K' key = lookup_file K key"
    unfolding surrounded_def around_def surroundings.simps by blast
  then show thesis
    using w(1) whole by (intro that [of w K']) (simp_all add: view_whole_def session_view_def log_view_def a whole_journalD(2) [OF whole])
qed

lemma write_journals_ok:
  assumes "distinct (map fst js)" and "\<forall>(dest, ops) \<in> set js. session_ok loc dest opts ops fuel K" and "page_ids_ok K"
  shows "\<exists>ws K'. write_journals os_ok loc opts serialize js K = (Inr ws, K') \<and> page_ids_ok K' \<and>
    list_all (\<lambda>jn. view_whole (session_view loc jn) K') js \<and>
    (\<forall>key. (\<forall>dest \<in> fst ` set js. \<forall>i. key \<noteq> page_key_of loc dest i) \<longrightarrow> lookup_file K' key = lookup_file K key)"
  using assms
proof (induction js arbitrary: K)
  case (Cons jn js)
  obtain dest ops where jn: "jn = (dest, ops)" by (cases jn)
  have ok: "session_ok loc dest opts ops fuel K" using Cons.prems(2) by (simp add: jn)
  obtain w K1 where s: "write_session os_ok loc dest opts serialize ops K = (Inr w, K1)"
    "view_whole (session_view loc (dest, ops)) K1" "page_ids_ok K1"
    "\<forall>key. (\<forall>i. key \<noteq> page_key_of loc dest i) \<longrightarrow> lookup_file K1 key = lookup_file K key"
    by (rule write_session_view [OF ok])
  have other: "lookup_file K1 (page_key_of loc d i) = lookup_file K (page_key_of loc d i)" if "d \<noteq> dest" for d i
    using s(4) that by (simp add: page_key_of_def)
  have "session_ok loc d opts o' fuel K1" if m: "(d, o') \<in> set js" for d o'
  proof -
    have "session_ok loc d opts o' fuel K" using Cons.prems(2) m by auto
    moreover have "d \<noteq> dest" using Cons.prems(1) m by (force simp: jn)
    then have "set (journal_pages loc d K1) = set (journal_pages loc d K)" by (simp add: set_journal_pages other)
    ultimately show ?thesis using s(3) by (simp add: session_ok_def fresh_journal_def)
  qed
  then have "\<forall>(d, o') \<in> set js. session_ok loc d opts o' fuel K1" by blast
  with Cons.IH [OF _ this s(3)] Cons.prems(1) obtain ws K' where r: "write_journals os_ok loc opts serialize js K1 = (Inr ws, K')"
    "page_ids_ok K'" "list_all (\<lambda>jn. view_whole (session_view loc jn) K') js"
    "\<forall>key. (\<forall>dest \<in> fst ` set js. \<forall>i. key \<noteq> page_key_of loc dest i) \<longrightarrow> lookup_file K' key = lookup_file K1 key"
    by auto
  have "lookup_file K' (page_key_of loc dest i) = lookup_file K1 (page_key_of loc dest i)" for i
    using r(4) Cons.prems(1) by (auto simp: jn page_key_of_def)
  then have "view_whole (session_view loc (dest, ops)) K'"
    using s(2) r(2) unfolding view_whole_def by (auto intro: whole_journal_cong)
  moreover have "\<forall>key. (\<forall>d \<in> fst ` set (jn # js). \<forall>i. key \<noteq> page_key_of loc d i) \<longrightarrow> lookup_file K' key = lookup_file K key"
    using r(4) s(4) unfolding jn by auto
  ultimately show ?case using s(1) r(1,2,3) unfolding jn by (simp add: prog_simps del: split_paired_All)
qed (simp add: prog_simps)

subsection \<open>Joining several journals\<close>

fun join_all :: "(page_key \<Rightarrow> os_env) \<Rightarrow> nat \<Rightarrow> Location \<Rightarrow> u32 list \<Rightarrow> unit reader_prog" where
  "join_all os fuel loc [] = return_p ()"
| "join_all os fuel loc (dest # ds) = bind_p (join_reader os fuel loc dest 0) (\<lambda>_. join_all os fuel loc ds)"

definition read_journals :: "(page_key \<Rightarrow> os_env) \<Rightarrow> nat \<Rightarrow> Location \<Rightarrow> u32 list \<Rightarrow> FrameSnap list reader_prog" where
  "read_journals os fuel loc ds = bind_p (join_all os fuel loc ds) (\<lambda>_. drain os fuel)"

lemma join_all_ok:
  assumes "reader_inv r K M Vs ns" and "rd_needs_rebuild r \<or> js \<noteq> []"
    and "list_all (\<lambda>jn. view_whole (session_view loc jn) K) js"
    and "distinct (map fst js)" and "\<forall>dest \<in> fst ` set js. makeKey (loc_uid loc) dest \<notin> rd_joined_keys r"
    and "list_all (\<lambda>(dest, ops). list_all op_times_ok ops \<and> 2 * length ops < fuel) js"
  shows "\<exists>r' K'. join_all os_ok fuel loc (map fst js) (r, K) = (Inr (), (r', K')) \<and>
    reader_inv r' K' M (Vs @ map (session_view loc) js) (ns @ replicate (length js) 0) \<and> rd_needs_rebuild r' \<and>
    rd_use_heap r' = rd_use_heap r"
  using assms
proof (induction js arbitrary: r K Vs ns)
  case (Cons jn js)
  obtain dest ops where jn: "jn = (dest, ops)" by (cases jn)
  let ?V = "session_view loc (dest, ops)" and ?a = "fold (spec_op (unat (findPageSize loc dest))) ops (0, [], [])"
  have whole: "view_whole ?V K" using Cons.prems(3) by (simp add: jn)
  have new: "makeKey (loc_uid (v_location ?V)) (v_dest_id ?V) \<notin> rd_joined_keys r"
    using Cons.prems(5) by (simp add: jn)
  have ops: "list_all op_times_ok ops" "2 * length ops < fuel" using Cons.prems(6) by (simp_all add: jn)
  have fuel: "fuel > length (view_log ?V)" "fuel > length (v_front ?V)"
    using fold_sizes [of "unat (findPageSize loc dest)" ops "(0, [], [])"] ops(2)
    by (simp_all add: journal_of_def) (simp_all add: session_view_def log_view_def log_frames_def)
  have times: "list_all (\<lambda>f. 0 \<le> sint (snap_gen_time f)) (view_log ?V)"
    using fold_times [OF ops(1), of "(0, [], [])"] by (simp add: journal_of_def log_frames_def)
  obtain r1 K1 where j: "join_reader os_ok fuel (v_location ?V) (v_dest_id ?V) 0 (r, K) = (Inr (), (r1, K1))"
    "reader_inv r1 K1 M (Vs @ [?V]) (ns @ [0])" "rd_needs_rebuild r1" "only_maps K K1" "rd_use_heap r1 = rd_use_heap r"
    "rd_joined_keys r1 = insert (makeKey (loc_uid (v_location ?V)) (v_dest_id ?V)) (rd_joined_keys r)"
    by (rule join_from_start [OF Cons.prems(1) whole os_works_ok new fuel times])
  have whole': "list_all (\<lambda>jn. view_whole (session_view loc jn) K1) js"
    using Cons.prems(3) view_whole_only_maps [OF _ j(4)] by (auto simp: list_all_iff)
  have keys: "\<forall>dest \<in> fst ` set js. makeKey (loc_uid loc) dest \<notin> rd_joined_keys r1"
    using Cons.prems(4,5) j(6) by (auto simp: jn makeKey_eq_iff)
  from Cons.IH [OF j(2) _ whole' _ keys] Cons.prems(4,6) j(3) obtain r' K' where
    "join_all os_ok fuel loc (map fst js) (r1, K1) = (Inr (), (r', K'))"
    "reader_inv r' K' M ((Vs @ [?V]) @ map (session_view loc) js) ((ns @ [0]) @ replicate (length js) 0)"
    "rd_needs_rebuild r'" "rd_use_heap r' = rd_use_heap r1"
    by auto
  with j(1,5) show ?case by (simp add: jn prog_simps)
qed (simp add: prog_simps)

subsection \<open>Properties of merged reading\<close>

text \<open>
  The frame times a merge can handle: none is the greatest \<^verbatim>\<open>int64_t\<close>, and when the reader uses its
  heap, no two journals have a frame with the same time.
\<close>

definition mergeable :: "Location \<Rightarrow> (u32 \<times> writer_op list) list \<Rightarrow> bool" where
  "mergeable loc js \<longleftrightarrow>
     (\<forall>i < length js. \<forall>f \<in> set (journal_of loc (fst (js ! i)) (snd (js ! i))). sint (snap_gen_time f) < 2 ^ 63 - 1) \<and>
     (length js > 3 \<longrightarrow> (\<forall>i < length js. \<forall>k < length js. i \<noteq> k \<longrightarrow>
        (\<forall>f \<in> set (journal_of loc (fst (js ! i)) (snd (js ! i))).
         \<forall>g \<in> set (journal_of loc (fst (js ! k)) (snd (js ! k))). snap_gen_time f \<noteq> snap_gen_time g)))"

lemma mergeable_times_fit:
  assumes "mergeable loc js" and "length (rd_journals r) = length js"
  shows "times_fit r (map (session_view loc) js)"
proof -
  have log: "view_log (session_view loc jn) = journal_of loc (fst jn) (snd jn)" for jn by (cases jn) simp
  have "sint INT64_MAX = 2 ^ 63 - 1" by (simp add: INT64_MAX_def)
  with assms show ?thesis
    unfolding times_fit_def mergeable_def heap_mode_def by (simp add: log del: session_view_simps(1))
qed

lemma left_over_sessions:
  "left_over (map (session_view loc) js) (replicate (length js) 0) \<le> sum_list (map (\<lambda>jn. 2 * length (snd jn)) js)"
proof -
  have "length (view_log (session_view loc jn)) \<le> 2 * length (snd jn)" for jn
    using fold_sizes [of "unat (findPageSize loc (fst jn))" "snd jn" "(0, [], [])"]
    by (cases jn) (simp add: journal_of_def log_frames_def)
  then show ?thesis
    unfolding left_over_def remaining_def sum_list_sum_nth
    by (simp add: atLeast0LessThan) (rule sum_mono, simp)
qed


definition ex_journals :: "(u32 \<times> writer_op list) list" where
  "ex_journals = [(0, [Mark 1 10 7, Mark 2 30 7]), (9, [Write_bytes 1 20 8 [5]])]"

lemma ex_location_size_9: "findPageSize ex_location 9 = PAGE_SIZE_EXECUTION"
  by (simp add: findPageSize_def ex_location_def Location_new_def Let_def)

lemma ex_journal_of:
  "journal_of ex_location 0 [Mark n1 t1 ty, Mark n2 t2 ty] = [snap_of t1 ty FRAME_NORMAL 0 [], snap_of t2 ty FRAME_NORMAL 1 []]"
  "journal_of ex_location 9 [Write_bytes n1 t1 ty [x]] = [snap_of t1 ty FRAME_NORMAL 0 [x]]"
  by (simp_all add: journal_of_def log_append_def log_put_def log_frames_def ex_location_size ex_location_size_9
      page_size_defs stride_of_def frames_len_def frame_stride_def snap_of_def)


end
