(* ===== verification/Typed_Dispatcher.thy ===== *)
theory Typed_Dispatcher
  imports Many_Journals
begin

section \<open>The typed dispatcher\<close>

text \<open>
  Class \<^verbatim>\<open>TypedJournalDispatcher\<close> (include/revoq/TypedJournalDispatcher.h): a table of handlers by
  message type over a reader.  The handlers are the user's code: a handler is a function on a state of
  the user's own, which may fail.  A typed handler carries the size of its message type and whether the
  type is empty; it is given the bytes of the message and the frame, as \<^verbatim>\<open>FrameSnap\<close> shows it.
\<close>

subsection \<open>Handlers\<close>

type_synonym 'u handler = "FrameSnap \<Rightarrow> 'u \<Rightarrow> (error + unit) \<times> 'u"

record 'u typed_handler =
  th_size :: nat
  th_is_empty :: bool
  th_call :: "u8 list \<Rightarrow> 'u handler"

record 'u TypedJournalDispatcher =
  td_typed_handlers :: "(int, 'u typed_handler) map"
  td_unknown_handler :: "'u handler option"

definition TypedJournalDispatcher_new :: "'u TypedJournalDispatcher" where
  "TypedJournalDispatcher_new = \<lparr>td_typed_handlers = Map.empty, td_unknown_handler = None\<rparr>"

definition td_on :: "u32 \<Rightarrow> 'u typed_handler \<Rightarrow> 'u TypedJournalDispatcher \<Rightarrow> 'u TypedJournalDispatcher" where
  "td_on msg handler d = d\<lparr>td_typed_handlers := (td_typed_handlers d)(sint msg \<mapsto> handler)\<rparr>"

definition td_onUnknown :: "'u handler \<Rightarrow> 'u TypedJournalDispatcher \<Rightarrow> 'u TypedJournalDispatcher" where
  "td_onUnknown handler d = d\<lparr>td_unknown_handler := Some handler\<rparr>"

definition td_clearHandlers :: "'u TypedJournalDispatcher \<Rightarrow> 'u TypedJournalDispatcher" where
  "td_clearHandlers d = d\<lparr>td_typed_handlers := Map.empty, td_unknown_handler := None\<rparr>"

subsection \<open>Dispatching\<close>

type_synonym ('u, 'a) dispatch_prog = "('u \<times> JournalReader \<times> page_key kernel, 'a) prog"

definition typedPayload :: "'u typed_handler \<Rightarrow> u32 \<Rightarrow> FrameSnap \<Rightarrow> error + u8 list" where
  "typedPayload h frame_length frame =
     (let data_length = unat (getDataLength_of frame_length) in
      if th_is_empty h \<and> data_length = 0 then Inr []
      else if data_length \<noteq> th_size h then Inl (Runtime_error ''payload size mismatch'')
      else Inr (snap_payload frame))"

text \<open>A call of a handler, on the user's state.\<close>

definition on_user :: "('u \<Rightarrow> (error + unit) \<times> 'u) \<Rightarrow> ('u, unit) dispatch_prog" where
  "on_user f = (\<lambda>(u, s). case f u of (res, u') \<Rightarrow> (res, (u', s)))"

definition invoke_typed :: "'u typed_handler \<Rightarrow> FrameView \<Rightarrow> ('u, unit) dispatch_prog" where
  "invoke_typed h current =
     bind_p (on_snd (snap_view current)) (\<lambda>frame.
     case typedPayload h (fv_frame_length current) frame of
       Inl e \<Rightarrow> throw_p e
     | Inr message \<Rightarrow> on_user (th_call h message frame))"

definition dispatchFrame :: "'u TypedJournalDispatcher \<Rightarrow> FrameView \<Rightarrow> ('u, bool) dispatch_prog" where
  "dispatchFrame d current =
     (case td_typed_handlers d (fv_msg_type current) of
        Some h \<Rightarrow> bind_p (invoke_typed h current) (\<lambda>_. return_p True)
      | None \<Rightarrow> (case td_unknown_handler d of
          Some h \<Rightarrow> bind_p (on_snd (snap_view current)) (\<lambda>frame.
                     bind_p (on_user (h frame)) (\<lambda>_. return_p True))
        | None \<Rightarrow> return_p False))"

definition dispatchCurrent :: "'u TypedJournalDispatcher \<Rightarrow> ('u, bool) dispatch_prog" where
  "dispatchCurrent d =
     bind_p (on_snd tryCurrentFrame) (\<lambda>current.
     if fv_frame current = None then return_p False else dispatchFrame d current)"

definition td_next :: "(page_key \<Rightarrow> os_env) \<Rightarrow> 'u TypedJournalDispatcher \<Rightarrow> ('u, bool) dispatch_prog" where
  "td_next os d =
     bind_p (on_snd tryCurrentFrame) (\<lambda>current.
     if fv_frame current = None then return_p False
     else bind_p (dispatchFrame d current) (\<lambda>_.
          bind_p (on_snd (advance os current)) (\<lambda>_. return_p True)))"

text \<open>\<^verbatim>\<open>run\<close>: at most \<open>max_frames\<close> calls of \<^verbatim>\<open>next\<close>; the result is the number of frames.\<close>

fun td_run :: "(page_key \<Rightarrow> os_env) \<Rightarrow> 'u TypedJournalDispatcher \<Rightarrow> nat \<Rightarrow> ('u, nat) dispatch_prog" where
  "td_run os d 0 = return_p 0"
| "td_run os d (Suc max_frames) =
     bind_p (td_next os d) (\<lambda>more.
     if more then bind_p (td_run os d max_frames) (\<lambda>n. return_p (Suc n)) else return_p 0)"

subsection \<open>What a dispatcher does with a frame\<close>

definition deliver :: "'u TypedJournalDispatcher \<Rightarrow> FrameSnap \<Rightarrow> 'u \<Rightarrow> (error + unit) \<times> 'u" where
  "deliver d f u =
     (case td_typed_handlers d (snap_msg_type f) of
        Some h \<Rightarrow>
          if th_is_empty h \<and> snap_payload f = [] then th_call h [] f u
          else if length (snap_payload f) \<noteq> th_size h then (Inl (Runtime_error ''payload size mismatch''), u)
          else th_call h (snap_payload f) f u
      | None \<Rightarrow> (case td_unknown_handler d of Some h \<Rightarrow> h f u | None \<Rightarrow> (Inr (), u)))"

fun deliver_all :: "'u TypedJournalDispatcher \<Rightarrow> FrameSnap list \<Rightarrow> 'u \<Rightarrow> (error + unit) \<times> 'u" where
  "deliver_all d [] u = (Inr (), u)"
| "deliver_all d (f # fs) u = (case deliver d f u of (Inl e, u') \<Rightarrow> (Inl e, u') | (Inr _, u') \<Rightarrow> deliver_all d fs u')"

subsection \<open>Reading keeps the state\<close>

lemma current_frame_state: "current_frame (j, K) = (r, s') \<Longrightarrow> s' = (j, K)"
  by (auto simp: current_frame_def the_current_def page_read_def prog_simps split: option.splits)

lemma on_journal_state:
  assumes "on_journal i p (r, K) = (x, s')" and "\<And>j y t. p (j, K) = (y, t) \<Longrightarrow> t = (j, K)"
  shows "s' = (r, K)"
proof -
  have "r\<lparr>rd_journals := (rd_journals r)[i := rd_journals r ! i]\<rparr> = r" by simp
  with assms show ?thesis by (fastforce simp: on_journal_def split: if_splits prod.splits)
qed

lemma peek_frame_state: "peek_frame i (r, K) = (x, s') \<Longrightarrow> s' = (r, K)"
  unfolding peek_frame_def
  by (erule on_journal_state) (auto simp: prog_simps split: prod.splits sum.splits dest: current_frame_state)

lemma snap_view_state: "snap_view v (r, K) = (x, s') \<Longrightarrow> s' = (r, K)"
  unfolding snap_view_def
  by (auto simp: prog_simps split: option.splits elim!: on_journal_state dest!: current_frame_state split: prod.splits sum.splits)

lemma view_of_state: "view_of i (r, K) = (x, s') \<Longrightarrow> s' = (r, K)"
  unfolding view_of_def by (auto simp: prog_simps split: prod.splits sum.splits dest!: peek_frame_state)

text \<open>A view shows the frame it stands for: the length and the type it carries are those of the snapshot.\<close>

lemma view_of_snap:
  assumes v: "view_of i (r, K) = (Inr v, s)" and i: "fv_frame v = Some i" and f: "snap_view v (r, K) = (Inr f, s')"
  shows "fv_msg_type v = snap_msg_type f" and "unat (getDataLength_of (fv_frame_length v)) = length (snap_payload f)"
proof -
  let ?j = "rd_journals r ! i"
  have lt: "i < length (rd_journals r)"
    using v by (auto simp: view_of_def peek_frame_def on_journal_def prog_simps split: if_splits)
  obtain m t where m: "current_frame (?j, K) = (Inr m, t)"
    using v lt by (auto simp: view_of_def peek_frame_def on_journal_def prog_simps split: prod.splits sum.splits)
  then have t: "t = (?j, K)" by (rule current_frame_state)
  have "v = \<lparr>fv_frame = Some i, fv_frame_length = getFrameLength m (j_frame ?j), fv_msg_type = getMsgType m (j_frame ?j)\<rparr>"
    using v i lt m t by (auto simp: view_of_def peek_frame_def on_journal_def prog_simps empty_view_def split: if_splits)
  moreover have "f = FrameSnap_from m (j_frame ?j)"
    using f i lt m t by (auto simp: snap_view_def on_journal_def prog_simps)
  ultimately show "fv_msg_type v = snap_msg_type f" and "unat (getDataLength_of (fv_frame_length v)) = length (snap_payload f)"
    by (auto simp: FrameSnap_from_def getDataLength_def Let_def word_gt_0)
qed

text \<open>\<^verbatim>\<open>tryCurrentFrame\<close> keeps the reader well formed, and gives the view of the current frame.\<close>

lemma tryCurrentFrame_keeps:
  assumes inv: "merge_inv r K M Vs ns" and run: "tryCurrentFrame (r, K) = (Inr v, (r', K'))"
  shows "merge_inv r' K' M Vs ns" and "K' = K" and "fv_frame v = Some i \<Longrightarrow> view_of i (r', K') = (Inr v, (r', K'))"
proof -
  have rinv: "reader_inv r K M Vs ns" using inv by (simp add: merge_inv_def)
  have same: "i = k" if "view_of k (r, K) = (Inr v, s)" "fv_frame v = Some i" for k i r K s
    using that by (auto simp: view_of_def prog_simps empty_view_def split: prod.splits sum.splits if_splits)
  have "merge_inv r' K' M Vs ns \<and> K' = K \<and> (\<forall>i. fv_frame v = Some i \<longrightarrow> view_of i (r', K') = (Inr v, (r', K')))"
  proof (cases "length (rd_journals r) = 1")
    case True
    then have "view_of 0 (r, K) = (Inr v, (r', K'))" using rinv run by (simp add: reader_inv_def tryCurrentFrame_def prog_simps)
    moreover from this have "(r', K') = (r, K)" by (rule view_of_state)
    ultimately show ?thesis using inv same by fastforce
  next
    case False
    then have fit: "times_fit r Vs" "chosen r Vs ns" and single: "rd_single_frame r = None"
      using inv by (simp_all add: merge_inv_def reader_inv_def)
    obtain r1 where r1: "isDataAvailable (r, K) = (Inr (all_heads Vs ns \<noteq> []), (r1, K))" "reader_inv r1 K M Vs ns"
      "same_mode r r1" "chosen r1 Vs ns" "all_heads Vs ns \<noteq> [] \<longrightarrow> \<not> rd_needs_rebuild r1"
      by (rule isDataAvailable_ok [OF rinv fit False])
    have m1: "merge_inv r1 K M Vs ns" using r1 fit times_fit_mode [OF r1(3)] by (simp add: merge_inv_def)
    show ?thesis
    proof (cases "all_heads Vs ns = []")
      case True
      with run r1(1) single m1 show ?thesis by (auto simp: tryCurrentFrame_def prog_simps empty_view_def)
    next
      case False
      with run r1(1) single obtain i where "view_of i (r1, K) = (Inr v, (r', K'))"
        by (auto simp: tryCurrentFrame_def prog_simps split: option.splits)
      moreover from this have "(r', K') = (r1, K)" by (rule view_of_state)
      ultimately show ?thesis using m1 same by fastforce
    qed
  qed
  then show "merge_inv r' K' M Vs ns" and "K' = K" and "fv_frame v = Some i \<Longrightarrow> view_of i (r', K') = (Inr v, (r', K'))"
    by blast+
qed

text \<open>The parts of one call of \<^verbatim>\<open>nextStatic\<close>.\<close>

lemma nextStatic_parts:
  assumes "nextStatic os (r, K) = (Inr x, s')"
  obtains v r1 K1 where "tryCurrentFrame (r, K) = (Inr v, (r1, K1))"
    and "case x of None \<Rightarrow> fv_frame v = None \<and> s' = (r1, K1)
      | Some f \<Rightarrow> fv_frame v \<noteq> None \<and> snap_view v (r1, K1) = (Inr f, (r1, K1)) \<and> advance os v (r1, K1) = (Inr (), s')"
proof -
  obtain v s1 where v: "tryCurrentFrame (r, K) = (Inr v, s1)"
    and rest: "(if fv_frame v = None then return_p None
     else bind_p (snap_view v) (\<lambda>s. bind_p (advance os v) (\<lambda>_. return_p (Some s)))) s1 = (Inr x, s')"
    using assms unfolding nextStatic_def by (rule bind_p_eq_InrE)
  obtain r1 K1 where s1: "s1 = (r1, K1)" by (cases s1)
  show thesis
  proof (cases "fv_frame v = None")
    case True
    with v rest s1 show thesis by (intro that [of v r1 K1]) (auto simp: prog_simps)
  next
    case False
    then have "bind_p (snap_view v) (\<lambda>s. bind_p (advance os v) (\<lambda>_. return_p (Some s))) (r1, K1) = (Inr x, s')"
      using rest s1 by auto
    then obtain f t where f: "snap_view v (r1, K1) = (Inr f, t)" "bind_p (advance os v) (\<lambda>_. return_p (Some f)) t = (Inr x, s')"
      by (rule bind_p_eq_InrE)
    have "t = (r1, K1)" by (rule snap_view_state [OF f(1)])
    with f v s1 False show thesis
      by (intro that [of v r1 K1]) (auto simp: prog_simps split: prod.splits sum.splits)
  qed
qed

lemma dispatchFrame_eq:
  assumes v: "view_of i (r, K) = (Inr v, (r, K))" "fv_frame v = Some i" and f: "snap_view v (r, K) = (Inr f, (r, K))"
  shows "\<exists>b. dispatchFrame d v (u, (r, K)) =
    (case deliver d f u of (Inl e, u') \<Rightarrow> (Inl e, (u', (r, K))) | (Inr _, u') \<Rightarrow> (Inr b, (u', (r, K))))"
  using f view_of_snap [OF v f]
  by (auto simp: dispatchFrame_def deliver_def invoke_typed_def typedPayload_def on_user_def prog_simps Let_def
      split: option.split prod.split sum.split)

subsection \<open>One call of next\<close>

lemma td_next_ok:
  assumes inv: "merge_inv r K M Vs ns"
  shows "\<exists>r' K'. only_maps K K' \<and>
    (if all_heads Vs ns = [] then td_next os_ok d (u, (r, K)) = (Inr False, (u, (r', K'))) \<and> merge_inv r' K' M Vs ns
     else \<exists>i f. least_head Vs ns i f \<and>
       (case deliver d f u of
          (Inl e, u') \<Rightarrow> td_next os_ok d (u, (r, K)) = (Inl e, (u', (r', K'))) \<and> merge_inv r' K' M Vs ns
        | (Inr _, u') \<Rightarrow> td_next os_ok d (u, (r, K)) = (Inr True, (u', (r', K'))) \<and>
            merge_inv r' K' M Vs (ns[i := Suc (ns ! i)])))"
proof -
  obtain r' K' where n: "only_maps K K'" "if all_heads Vs ns = [] then nextStatic os_ok (r, K) = (Inr None, (r', K')) \<and> merge_inv r' K' M Vs ns
     else \<exists>i f. least_head Vs ns i f \<and> nextStatic os_ok (r, K) = (Inr (Some f), (r', K')) \<and>
       merge_inv r' K' M Vs (ns[i := Suc (ns ! i)])"
    using nextStatic_ok [OF inv os_works_ok] by blast
  show ?thesis
  proof (cases "all_heads Vs ns = []")
    case True
    then have "nextStatic os_ok (r, K) = (Inr None, (r', K'))" using n(2) by simp
    then obtain v where "tryCurrentFrame (r, K) = (Inr v, (r', K'))" "fv_frame v = None"
      by (rule nextStatic_parts) auto
    with True n show ?thesis by (intro exI [of _ r'] exI [of _ K']) (simp add: td_next_def prog_simps)
  next
    case False
    then obtain i f where f: "least_head Vs ns i f" "nextStatic os_ok (r, K) = (Inr (Some f), (r', K'))"
      "merge_inv r' K' M Vs (ns[i := Suc (ns ! i)])" using n(2) by auto
    obtain v r1 K1 where v: "tryCurrentFrame (r, K) = (Inr v, (r1, K1))" "fv_frame v \<noteq> None"
      "snap_view v (r1, K1) = (Inr f, (r1, K1))" "advance os_ok v (r1, K1) = (Inr (), (r', K'))"
      using f(2) by (rule nextStatic_parts) auto
    obtain k where k: "fv_frame v = Some k" using v(2) by auto
    note t = tryCurrentFrame_keeps [OF inv v(1)]
    obtain b where b: "dispatchFrame d v (u, (r1, K1)) =
      (case deliver d f u of (Inl e, u') \<Rightarrow> (Inl e, (u', (r1, K1))) | (Inr _, u') \<Rightarrow> (Inr b, (u', (r1, K1))))"
      using dispatchFrame_eq [OF t(3) [OF k] k v(3), of d u] ..
    obtain x u' where x: "deliver d f u = (x, u')" by (cases "deliver d f u")
    show ?thesis
    proof (cases x)
      case (Inl e)
      then have "td_next os_ok d (u, (r, K)) = (Inl e, (u', (r1, K1)))"
        using v(1,2) b x by (simp add: td_next_def prog_simps)
      with f(1) x Inl t(1,2) show ?thesis
        unfolding if_not_P [OF False] by (intro exI [of _ r1] exI [of _ K1] exI [of _ i] exI [of _ f] conjI) simp_all
    next
      case (Inr y)
      then have "td_next os_ok d (u, (r, K)) = (Inr True, (u', (r', K')))"
        using v b x by (simp add: td_next_def prog_simps)
      with f(1,3) x Inr n(1) show ?thesis
        unfolding if_not_P [OF False] by (intro exI [of _ r'] exI [of _ K'] exI [of _ i] exI [of _ f] conjI) simp_all
    qed
  qed
qed

text \<open>\<^verbatim>\<open>run\<close> over the rest of one journal.\<close>

lemma td_run_one:
  assumes "merge_inv r K M [V] [n]" and "length (view_log V) - n < m" and "n \<le> length (view_log V)"
  shows "\<exists>s. td_run os_ok d m (u, (r, K)) =
    (case deliver_all d (drop n (view_log V)) u of
       (Inl e, u') \<Rightarrow> (Inl e, (u', s)) | (Inr _, u') \<Rightarrow> (Inr (length (view_log V) - n), (u', s)))"
  using assms
proof (induction m arbitrary: r K n u)
  case (Suc m)
  obtain r' K' where t: "if all_heads [V] [n] = [] then td_next os_ok d (u, (r, K)) = (Inr False, (u, (r', K'))) \<and> merge_inv r' K' M [V] [n]
     else \<exists>i f. least_head [V] [n] i f \<and>
       (case deliver d f u of
          (Inl e, u') \<Rightarrow> td_next os_ok d (u, (r, K)) = (Inl e, (u', (r', K'))) \<and> merge_inv r' K' M [V] [n]
        | (Inr _, u') \<Rightarrow> td_next os_ok d (u, (r, K)) = (Inr True, (u', (r', K'))) \<and>
            merge_inv r' K' M [V] ([n][i := Suc ([n] ! i)]))"
    using td_next_ok [OF Suc.prems(1), of d u] by (elim exE conjE) (rule that)
  show ?case
  proof (cases "n < length (view_log V)")
    case False
    then have "all_heads [V] [n] = []" by (simp add: all_heads_def view_head_def)
    with t False Suc.prems(3) show ?thesis by (simp add: prog_simps)
  next
    case True
    then have "all_heads [V] [n] \<noteq> []" by (simp add: all_heads_def view_head_def)
    with t obtain i f where f: "least_head [V] [n] i f" and c: "case deliver d f u of
          (Inl e, u') \<Rightarrow> td_next os_ok d (u, (r, K)) = (Inl e, (u', (r', K'))) \<and> merge_inv r' K' M [V] [n]
        | (Inr _, u') \<Rightarrow> td_next os_ok d (u, (r, K)) = (Inr True, (u', (r', K'))) \<and>
            merge_inv r' K' M [V] ([n][i := Suc ([n] ! i)])" by auto
    have i: "i = 0" "f = view_log V ! n" using f by (auto simp: least_head_def view_head_def split: if_splits)
    have dr: "drop n (view_log V) = f # drop (Suc n) (view_log V)" using True i(2) by (simp add: Cons_nth_drop_Suc)
    obtain x u' where x: "deliver d f u = (x, u')" by (cases "deliver d f u")
    show ?thesis
    proof (cases x)
      case (Inl e)
      with c x dr show ?thesis by (simp add: prog_simps)
    next
      case (Inr y)
      with c x i have n: "td_next os_ok d (u, (r, K)) = (Inr True, (u', (r', K')))" "merge_inv r' K' M [V] [Suc n]" by simp_all
      have fuel: "length (view_log V) - Suc n < m" "Suc n \<le> length (view_log V)" using Suc.prems(2) True by simp_all
      obtain s where "td_run os_ok d m (u', (r', K')) =
        (case deliver_all d (drop (Suc n) (view_log V)) u' of
           (Inl e, u'') \<Rightarrow> (Inl e, (u'', s)) | (Inr _, u'') \<Rightarrow> (Inr (length (view_log V) - Suc n), (u'', s)))"
        using Suc.IH [OF n(2) fuel] by blast
      with n(1) dr x Inr True show ?thesis
        by (intro exI [of _ s]) (auto simp: prog_simps Suc_diff_Suc split: prod.split sum.split)
    qed
  qed
qed simp

subsection \<open>Properties\<close>

text \<open>C22: dispatch.  \<^verbatim>\<open>run\<close> over a journal hands every frame, in order and once, to the handler registered for
  its type -- with the payload, after checking its size -- or to the handler for unknown types, or to
  nobody; the result is the number of frames.  The first handler or size check that fails ends the run
  with its error, and no later frame is handed over.\<close>

theorem run_dispatches_journal:
  assumes "session_ok loc dest wopts ops fuel K" and "length (journal_of loc dest ops) < m"
  shows "\<exists>w K1 r K2 s. write_session os_ok loc dest wopts serialize ops K = (Inr w, K1) \<and>
    join_reader os_ok fuel loc dest 0 (JournalReader_new ropts, K1) = (Inr (), (r, K2)) \<and>
    td_run os_ok d m (u, (r, K2)) =
      (case deliver_all d (journal_of loc dest ops) u of
         (Inl e, u') \<Rightarrow> (Inl e, (u', s)) | (Inr _, u') \<Rightarrow> (Inr (length (journal_of loc dest ops)), (u', s)))"
proof -
  let ?a = "fold (spec_op (unat (findPageSize loc dest))) ops (0, [], [])"
  obtain w K1 r K2 where s: "write_session os_ok loc dest wopts serialize ops K = (Inr w, K1)"
    "join_reader os_ok fuel loc dest 0 (JournalReader_new ropts, K1) = (Inr (), (r, K2))"
    "sys_inv loc dest 1 (around K) (w, r, K2) ?a 0"
    by (rule session_joined [OF assms(1)])
  then have m: "merge_inv r K2 (writer_maps w + s_maps (around K)) [log_view loc dest 1 ?a] [0]" by (simp add: sys_inv_def)
  have log: "view_log (log_view loc dest 1 ?a) = journal_of loc dest ops" by (simp add: journal_of_def)
  have "length (view_log (log_view loc dest 1 ?a)) - 0 < m" using assms(2) by (simp only: log diff_zero)
  from td_run_one [OF m this le0, of d u, unfolded log diff_zero drop_0] s(1,2) show ?thesis by blast
qed

text \<open>A frame is not lost to a failing handler.  When the handler of the frame that is next fails, \<^verbatim>\<open>next\<close> fails
  with its error and the reader stays on that frame: the next call hands it over again.\<close>

theorem failing_handler_keeps_frame:
  assumes "merge_inv r K M Vs ns" and "all_heads Vs ns \<noteq> []"
  shows "\<exists>i f. least_head Vs ns i f \<and>
    (\<forall>e u'. deliver d f u = (Inl e, u') \<longrightarrow>
       (\<exists>r' K'. td_next os_ok d (u, (r, K)) = (Inl e, (u', (r', K'))) \<and> merge_inv r' K' M Vs ns))"
proof -
  obtain r' K' i f where "least_head Vs ns i f" "case deliver d f u of
      (Inl e, u') \<Rightarrow> td_next os_ok d (u, (r, K)) = (Inl e, (u', (r', K'))) \<and> merge_inv r' K' M Vs ns
    | (Inr _, u') \<Rightarrow> td_next os_ok d (u, (r, K)) = (Inr True, (u', (r', K'))) \<and> merge_inv r' K' M Vs (ns[i := Suc (ns ! i)])"
    using td_next_ok [OF assms(1), of d u] unfolding if_not_P [OF assms(2)] by (elim exE conjE) (rule that)
  then show ?thesis by (intro exI [of _ i] exI [of _ f]) auto
qed

definition ex_dispatcher :: "(u8 list list) TypedJournalDispatcher" where
  "ex_dispatcher = td_on 7 \<lparr>th_size = 0, th_is_empty = True, th_call = (\<lambda>m f u. (Inr (), u @ [[]]))\<rparr>
     (td_on 8 \<lparr>th_size = 4, th_is_empty = False, th_call = (\<lambda>m f u. (Inr (), u @ [m]))\<rparr> TypedJournalDispatcher_new)"

theorem run_dispatches_journal_witness:
  "\<exists>w K1 r K2 s. write_session os_ok ex_location 0 ex_writer_options True [Mark 1 10 7, Mark 2 30 7] ex_disk = (Inr w, K1) \<and>
    join_reader os_ok 5 ex_location 0 0 (JournalReader_new ex_reader_options, K1) = (Inr (), (r, K2)) \<and>
    td_run os_ok ex_dispatcher 9 ([], (r, K2)) = (Inr 2, ([[], []], s))"
proof -
  let ?ops = "[Mark 1 10 7, Mark 2 30 7]"
  have ok: "session_ok ex_location 0 ex_writer_options ?ops 5 ex_disk"
    using ex_fresh by (simp add: session_ok_def ex_writer_options_def valid_type_def MsgType_PageEnd_def)
  have len: "length (journal_of ex_location 0 ?ops) < 9" by (simp add: ex_journal_of)
  have all: "deliver_all ex_dispatcher (journal_of ex_location 0 ?ops) [] = (Inr (), [[], []])" "length (journal_of ex_location 0 ?ops) = 2"
    by (simp_all add: ex_journal_of deliver_def ex_dispatcher_def td_on_def TypedJournalDispatcher_new_def snap_of_def)
  show ?thesis
    using run_dispatches_journal [OF ok len, of True ex_reader_options ex_dispatcher "[]", unfolded all] by simp
qed

theorem failing_handler_keeps_frame_witness:
  "\<exists>r K M V i f. merge_inv r K M [V] [0] \<and> least_head [V] [0] i f \<and>
    (\<exists>r' K'. td_next os_ok (td_onUnknown (\<lambda>f u. (Inl Segv, u)) TypedJournalDispatcher_new) ((), (r, K)) = (Inl Segv, ((), (r', K'))) \<and>
       merge_inv r' K' M [V] [0])"
proof -
  let ?d = "td_onUnknown (\<lambda>f u. (Inl Segv, u)) TypedJournalDispatcher_new"
  let ?a = "fold (spec_op (unat (findPageSize ex_location 0))) ex_ops (0, [], [])"
  let ?V = "log_view ex_location 0 1 ?a"
  obtain w K1 r K where s: "sys_inv ex_location 0 1 (around ex_disk) (w, r, K) ?a 0"
    by (rule session_joined [OF ex_session_ok])
  then have m: "merge_inv r K (writer_maps w + s_maps (around ex_disk)) [?V] [0]" by (simp add: sys_inv_def)
  have "log_frames ?a \<noteq> []"
    using journal_of_contents(1) [OF ex_ops_ok(1)] by (auto simp: journal_of_def ex_ops_def)
  then have h: "all_heads [?V] [0] \<noteq> []" by (simp add: all_heads_one)
  have "deliver ?d f () = (Inl Segv, ())" for f by (simp add: deliver_def td_onUnknown_def TypedJournalDispatcher_new_def)
  with failing_handler_keeps_frame [OF m h, of ?d "()"] m show ?thesis by blast
qed

end
