(* ===== verification/Python_Module.thy ===== *)
theory Python_Module
  imports Typed_Dispatcher
begin

section \<open>The Python module (python/revoq_py.cpp)\<close>

text \<open>
  What the functions and methods that the module registers do with the library: making a location,
  creating readers and writers with the options Python can set, reading with a timeout, iterating, and
  writing a buffer.  pybind11 itself -- the conversion of arguments, the interpreter lock, the mapping of
  exceptions -- is outside.  The theory ends with the round trip a Python program sees.
\<close>

subsection \<open>Locations and construction\<close>

definition py_make_location :: "string \<Rightarrow> string \<Rightarrow> string \<Rightarrow> string \<Rightarrow> string \<Rightarrow> error + Location" where
  "py_make_location path mode category grp name =
     (case parse_mode mode of Inl e \<Rightarrow> Inl e
      | Inr m \<Rightarrow> (case parse_category category of Inl e \<Rightarrow> Inl e
          | Inr c \<Rightarrow> Inr (Location_new m c grp name path)))"

definition py_reader_new :: "bool \<Rightarrow> bool \<Rightarrow> JournalReader" where
  "py_reader_new prefault background_threads =
     JournalReader_new \<lparr>ro_prefault = prefault, ro_background_threads = background_threads, ro_retained_page_limit = 0\<rparr>"

definition py_writer_options :: "bool \<Rightarrow> bool \<Rightarrow> JournalWriterOptions" where
  "py_writer_options prefault background_threads =
     \<lparr>wo_prefault = prefault, wo_warmup_pages = 0, wo_background_threads = background_threads,
      wo_retained_page_limit = DEFAULT_JOURNAL_WRITER_RETAINED_PAGES\<rparr>"

definition py_writer_new ::
    "(page_key \<Rightarrow> os_env) \<Rightarrow> Location \<Rightarrow> u32 \<Rightarrow> bool \<Rightarrow> bool \<Rightarrow> (page_key kernel, JournalWriter) prog" where
  "py_writer_new os location dest_id prefault background_threads =
     JournalWriter_new os location dest_id (py_writer_options prefault background_threads) False"

subsection \<open>Reading\<close>

definition py_current_frame :: "FrameSnap option reader_prog" where
  "py_current_frame =
     bind_p tryCurrentFrame (\<lambda>f.
     if fv_frame f = None then return_p None else bind_p (snap_view f) (\<lambda>s. return_p (Some s)))"

definition snap_data_length :: "FrameSnap \<Rightarrow> nat" where
  "snap_data_length s = length (snap_payload s)"

definition snap_data :: "FrameSnap \<Rightarrow> u8 list" where
  "snap_data s = (if snap_payload s = [] then [] else snap_payload s)"

text \<open>
  The wait of \<^verbatim>\<open>read\<close>.  Each turn of the loop that finds nothing takes the next clock reading and what other
  processes do to the files while the thread yields; the list of turns is as long as the clock needs to
  pass the deadline.
\<close>

fun py_wait :: "int \<Rightarrow> (int \<times> (page_key kernel \<Rightarrow> page_key kernel)) list \<Rightarrow> unit reader_prog" where
  "py_wait deadline [] = bind_p isDataAvailable (\<lambda>avail. if avail then return_p () else throw_p Out_of_fuel)"
| "py_wait deadline ((now, others) # turns) =
     bind_p isDataAvailable (\<lambda>avail.
     if avail then return_p ()
     else if now \<ge> deadline then return_p ()
     else (\<lambda>(r, K). py_wait deadline turns (r, others K)))"

definition py_read ::
    "(page_key \<Rightarrow> os_env) \<Rightarrow> int \<Rightarrow> int \<Rightarrow> (int \<times> (page_key kernel \<Rightarrow> page_key kernel)) list \<Rightarrow> FrameSnap option reader_prog" where
  "py_read os timeout_ms start turns =
     (if timeout_ms = 0 then bind_p isDataAvailable (\<lambda>avail. if \<not> avail then return_p None else snap_and_advance os)
      else bind_p (py_wait (start + timeout_ms * 1000000) turns) (\<lambda>_.
           bind_p isDataAvailable (\<lambda>ready. if \<not> ready then return_p None else snap_and_advance os)))"

text \<open>\<^verbatim>\<open>list(reader)\<close>: the iterator until \<^verbatim>\<open>StopIteration\<close>.\<close>

fun py_list :: "(page_key \<Rightarrow> os_env) \<Rightarrow> nat \<Rightarrow> FrameSnap list reader_prog" where
  "py_list os 0 = throw_p Out_of_fuel"
| "py_list os (Suc fuel) =
     bind_p (reader_iter_next os) (\<lambda>s. case s of
       None \<Rightarrow> return_p []
     | Some f \<Rightarrow> bind_p (py_list os fuel) (\<lambda>fs. return_p (f # fs)))"

subsection \<open>Writing\<close>

text \<open>
  A one-dimensional buffer: the memory behind it, the address of its first item, the number and size of
  its items, and the distance from one item to the next.
\<close>

record py_buffer =
  pb_mem :: memory
  pb_ptr :: nat
  pb_size :: nat
  pb_itemsize :: nat
  pb_stride :: int

definition buffer_bytes :: "py_buffer \<Rightarrow> u8 list" where
  "buffer_bytes b = load_bytes (pb_mem b) (pb_ptr b) (pb_size b * pb_itemsize b)"

definition py_write :: "(page_key \<Rightarrow> os_env) \<Rightarrow> u64 \<Rightarrow> u32 \<Rightarrow> u64 \<Rightarrow> py_buffer \<Rightarrow> unit writer_prog" where
  "py_write os now msg_type gen_time data = writeBytes os now gen_time msg_type (buffer_bytes data)"

text \<open>What the buffer shows to Python: its items one after the other.\<close>

definition buffer_contents :: "py_buffer \<Rightarrow> u8 list" where
  "buffer_contents b =
     concat (map (\<lambda>i. load_bytes (pb_mem b) (nat (int (pb_ptr b) + int i * pb_stride b)) (pb_itemsize b)) [0..<pb_size b])"

fun py_write_all :: "(page_key \<Rightarrow> os_env) \<Rightarrow> (u64 \<times> u32 \<times> u64 \<times> py_buffer) list \<Rightarrow> unit writer_prog" where
  "py_write_all os [] = return_p ()"
| "py_write_all os ((now, msg_type, gen_time, data) # ms) =
     bind_p (py_write os now msg_type gen_time data) (\<lambda>_. py_write_all os ms)"

subsection \<open>Buffers\<close>

lemma load_bytes_append: "load_bytes m off (a + b) = load_bytes m off a @ load_bytes m (off + a) b"
  using upt_add_eq_append [of off "off + a" b] by (simp only: load_bytes_def map_append [symmetric] add.assoc [symmetric] le_add1)

text \<open>A contiguous buffer is written as Python shows it.\<close>

lemma buffer_bytes_contiguous:
  assumes "pb_stride b = int (pb_itemsize b)"
  shows "buffer_bytes b = buffer_contents b"
proof -
  have "load_bytes m p (n * k) = concat (map (\<lambda>i. load_bytes m (nat (int p + int i * int k)) k) [0..<n])" for m p n k
  proof (induction n)
    case (Suc n)
    have "nat (int p + int n * int k) = p + n * k" by (metis nat_int of_nat_add of_nat_mult)
    with Suc show ?case using load_bytes_append [of m p "n * k" k] by (simp add: add.commute)
  qed simp
  then show ?thesis by (simp add: buffer_bytes_def buffer_contents_def assms)
qed

text \<open>A slice with a step is not: \<^verbatim>\<open>memoryview(b'\\x01\\x02\\x03\\x04')[::2]\<close> shows 1, 3 and is written as 1, 2.\<close>

lemma strided_buffer_written_wrong:
  "\<exists>b. pb_stride b = 2 \<and> buffer_contents b = [1, 3] \<and> buffer_bytes b = [1, 2]"
  by (rule exI [of _ "\<lparr>pb_mem = (\<lambda>i. of_nat (i + 1)), pb_ptr = 0, pb_size = 2, pb_itemsize = 1, pb_stride = 2\<rparr>"])
    (simp add: buffer_contents_def buffer_bytes_def load_bytes_def upt_rec)

subsection \<open>The iterator\<close>

lemma snap_and_advance_eq: "snap_and_advance os = nextStatic os"
  by (simp add: snap_and_advance_def nextStatic_def)

lemma isDataAvailable_any:
  assumes inv: "merge_inv r K M Vs ns"
  obtains r' where "isDataAvailable (r, K) = (Inr (all_heads Vs ns \<noteq> []), (r', K))" and "merge_inv r' K M Vs ns"
proof (cases "length (rd_journals r) = 1")
  case True
  have rinv: "reader_inv r K M Vs ns" using inv by (simp add: merge_inv_def)
  have s: "rd_single_frame r = Some 0" "length Vs = 1" using rinv True by (simp_all add: reader_inv_def)
  have "view_head Vs ns 0 \<noteq> None \<longleftrightarrow> all_heads Vs ns \<noteq> []"
    using s(2) by (simp add: all_heads_def split: option.splits)
  then have "isDataAvailable (r, K) = (Inr (all_heads Vs ns \<noteq> []), (r, K))"
    using frame_hasData_ok [OF rinv, of 0] True s by (simp add: isDataAvailable_def prog_simps)
  then show thesis using that inv by blast
next
  case False
  then have rinv: "reader_inv r K M Vs ns" and fit: "times_fit r Vs" "chosen r Vs ns"
    using inv by (simp_all add: merge_inv_def)
  obtain r1 where r1: "isDataAvailable (r, K) = (Inr (all_heads Vs ns \<noteq> []), (r1, K))" "reader_inv r1 K M Vs ns"
    "same_mode r r1" "chosen r1 Vs ns" "all_heads Vs ns \<noteq> [] \<longrightarrow> \<not> rd_needs_rebuild r1"
    by (rule isDataAvailable_ok [OF rinv fit False])
  have "merge_inv r1 K M Vs ns" using r1 fit times_fit_mode [OF r1(3)] by (simp add: merge_inv_def)
  with r1(1) that show thesis by blast
qed

text \<open>A call of the iterator, or of \<^verbatim>\<open>read\<close> without a timeout, delivers what \<^verbatim>\<open>nextStatic\<close> does.\<close>

lemma poll_ok:
  assumes inv: "merge_inv r K M Vs ns"
  shows "\<exists>r' K'. (if all_heads Vs ns = [] then reader_iter_next os_ok (r, K) = (Inr None, (r', K')) \<and> merge_inv r' K' M Vs ns
     else \<exists>i f. least_head Vs ns i f \<and> reader_iter_next os_ok (r, K) = (Inr (Some f), (r', K')) \<and>
       merge_inv r' K' M Vs (ns[i := Suc (ns ! i)]))"
proof -
  obtain r1 where r1: "isDataAvailable (r, K) = (Inr (all_heads Vs ns \<noteq> []), (r1, K))" "merge_inv r1 K M Vs ns"
    by (rule isDataAvailable_any [OF inv])
  then have eq: "reader_iter_next os_ok (r, K) = (if all_heads Vs ns = [] then (Inr None, (r1, K)) else nextStatic os_ok (r1, K))"
    by (simp add: reader_iter_next_def snap_and_advance_eq prog_simps)
  show ?thesis
  proof (cases "all_heads Vs ns = []")
    case True
    with eq r1(2) show ?thesis by auto
  next
    case False
    with nextStatic_ok [OF r1(2) os_works_ok] eq show ?thesis by fastforce
  qed
qed

lemma py_list_one:
  assumes "merge_inv r K M [V] [n]" and "length (view_log V) - n < fuel" and "n \<le> length (view_log V)"
  shows "\<exists>s. py_list os_ok fuel (r, K) = (Inr (drop n (view_log V)), s)"
  using assms
proof (induction fuel arbitrary: r K n)
  case (Suc fuel)
  obtain r' K' where t: "if all_heads [V] [n] = [] then reader_iter_next os_ok (r, K) = (Inr None, (r', K')) \<and> merge_inv r' K' M [V] [n]
     else \<exists>i f. least_head [V] [n] i f \<and> reader_iter_next os_ok (r, K) = (Inr (Some f), (r', K')) \<and>
       merge_inv r' K' M [V] ([n][i := Suc ([n] ! i)])"
    using poll_ok [OF Suc.prems(1)] by (elim exE) (rule that)
  show ?case
  proof (cases "n < length (view_log V)")
    case False
    then have "all_heads [V] [n] = []" by (simp add: all_heads_def view_head_def)
    with t False Suc.prems(3) show ?thesis by (simp add: prog_simps)
  next
    case True
    then have "all_heads [V] [n] \<noteq> []" by (simp add: all_heads_def view_head_def)
    with t obtain i f where f: "least_head [V] [n] i f" "reader_iter_next os_ok (r, K) = (Inr (Some f), (r', K'))"
      "merge_inv r' K' M [V] ([n][i := Suc ([n] ! i)])" by auto
    have i: "i = 0" "f = view_log V ! n" using f by (auto simp: least_head_def view_head_def split: if_splits)
    have "merge_inv r' K' M [V] [Suc n]" "length (view_log V) - Suc n < fuel" "Suc n \<le> length (view_log V)"
      using f(3) i(1) Suc.prems(2) True by simp_all
    from Suc.IH [OF this] obtain s where "py_list os_ok fuel (r', K') = (Inr (drop (Suc n) (view_log V)), s)" by blast
    moreover have "drop n (view_log V) = f # drop (Suc n) (view_log V)" using True i(2) by (simp add: Cons_nth_drop_Suc)
    ultimately show ?thesis using f(2) by (simp add: prog_simps)
  qed
qed simp


subsection \<open>Waiting\<close>

text \<open>
  \<^verbatim>\<open>read\<close> with a timeout returns once the clock has passed the deadline, whatever the other processes
  have appended in the meantime: nothing, or the earliest of the frames that are there by then.
\<close>

definition appends :: "page_key multiset \<Rightarrow> nat list \<Rightarrow> (page_key kernel \<Rightarrow> page_key kernel) \<Rightarrow> bool" where
  "appends M ns others \<longleftrightarrow> (\<forall>r K Vs. merge_inv r K M Vs ns \<longrightarrow> (\<exists>Vs'. merge_inv r (others K) M Vs' ns))"

lemma py_wait_ok:
  assumes "merge_inv r K M Vs ns" and "list_all (\<lambda>(now, others). appends M ns others) turns"
    and "\<exists>t\<in>set turns. deadline \<le> fst t"
  shows "\<exists>r' K' Vs'. py_wait deadline turns (r, K) = (Inr (), (r', K')) \<and> merge_inv r' K' M Vs' ns"
  using assms
proof (induction turns arbitrary: r K Vs)
  case (Cons t turns)
  obtain now others where t: "t = (now, others)" by (cases t)
  obtain r1 where r1: "isDataAvailable (r, K) = (Inr (all_heads Vs ns \<noteq> []), (r1, K))" "merge_inv r1 K M Vs ns"
    by (rule isDataAvailable_any [OF Cons.prems(1)])
  show ?case
  proof (cases "all_heads Vs ns \<noteq> [] \<or> deadline \<le> now")
    case True
    with r1 show ?thesis by (auto simp: t prog_simps)
  next
    case False
    obtain Vs' where "merge_inv r1 (others K) M Vs' ns" using Cons.prems(2) r1(2) by (auto simp: t appends_def)
    from Cons.IH [OF this] Cons.prems(2,3) False r1(1) show ?thesis by (auto simp: t prog_simps)
  qed
qed simp

lemma py_read_returns:
  assumes "merge_inv r K M Vs ns" and "list_all (\<lambda>(now, others). appends M ns others) turns"
    and "\<exists>t\<in>set turns. start + timeout_ms * 1000000 \<le> fst t"
  shows "\<exists>x r' K' Vs'. py_read os_ok timeout_ms start turns (r, K) = (Inr x, (r', K')) \<and>
    (case x of None \<Rightarrow> all_heads Vs' ns = [] \<and> merge_inv r' K' M Vs' ns
     | Some f \<Rightarrow> \<exists>i. least_head Vs' ns i f \<and> merge_inv r' K' M Vs' (ns[i := Suc (ns ! i)]))"
proof -
  have poll: "\<exists>x r' K'. reader_iter_next os_ok (r, K) = (Inr x, (r', K')) \<and>
    (case x of None \<Rightarrow> all_heads Vs ns = [] \<and> merge_inv r' K' M Vs ns
     | Some f \<Rightarrow> \<exists>i. least_head Vs ns i f \<and> merge_inv r' K' M Vs (ns[i := Suc (ns ! i)]))"
    if inv: "merge_inv r K M Vs ns" for r K Vs
    using poll_ok [OF inv] by (cases "all_heads Vs ns = []") auto
  obtain r1 K1 Vs1 where w: "py_wait (start + timeout_ms * 1000000) turns (r, K) = (Inr (), (r1, K1))" "merge_inv r1 K1 M Vs1 ns"
    using py_wait_ok [OF assms] by blast
  have "py_read os_ok timeout_ms start turns (r, K) =
      (if timeout_ms = 0 then reader_iter_next os_ok (r, K) else reader_iter_next os_ok (r1, K1))"
    using w(1) by (simp add: py_read_def reader_iter_next_def prog_simps)
  then show ?thesis using poll [OF assms(1)] poll [OF w(2)] by (cases "timeout_ms = 0") auto
qed

subsection \<open>The round trip of a Python program\<close>

definition py_ops :: "(u64 \<times> u32 \<times> u64 \<times> py_buffer) list \<Rightarrow> writer_op list" where
  "py_ops = map (\<lambda>(now, msg_type, gen_time, data). Write_bytes now gen_time msg_type (buffer_contents data))"

definition contiguous :: "u64 \<times> u32 \<times> u64 \<times> py_buffer \<Rightarrow> bool" where
  "contiguous = (\<lambda>(now, msg_type, gen_time, data). pb_stride data = int (pb_itemsize data))"

lemma py_write_all_ops: "list_all contiguous ms \<Longrightarrow> py_write_all os ms = run_ops os (py_ops ms)"
  by (induction os ms rule: py_write_all.induct)
    (simp_all add: py_ops_def contiguous_def py_write_def buffer_bytes_contiguous)



definition ex_buffer :: py_buffer where
  "ex_buffer = \<lparr>pb_mem = (\<lambda>i. of_nat (i + 1)), pb_ptr = 4, pb_size = 2, pb_itemsize = 1, pb_stride = 1\<rparr>"


end
