(* ===== verification/Publication.thy ===== *)
theory Publication
  imports Frame_Log
begin

section \<open>Publication of frames between threads\<close>

text \<open>
  A writer and its readers share the bytes of a page without a lock.  \<^verbatim>\<open>openFrame\<close> and \<^verbatim>\<open>closeFrame\<close>
  (include/revoq/JournalWriter.h) write a frame with plain stores and publish it with one release
  store of its length; \<^verbatim>\<open>Frame::getFrameLength\<close> (include/revoq/JournalFrame.h) reads the length with an
  acquire load.  Here the stores of the writer are listed in program order, a plain store byte by byte, and a step
  relation says in which order they may become visible: a plain store may overtake any earlier store to
  other bytes, also an earlier release store; a release store becomes visible after all stores before
  it.  The result is that a reader that sees a length other than 0 sees the whole frame and all frames
  before it on the page.
\<close>

subsection \<open>Stores and their visibility\<close>

datatype store = Store (st_off: nat) (st_bytes: "u8 list") (st_release: bool)

definition apply_store :: "store \<Rightarrow> memory \<Rightarrow> memory" where
  "apply_store s m = store_bytes m (st_off s) (st_bytes s)"

definition covers :: "store \<Rightarrow> nat \<Rightarrow> bool" where
  "covers s a \<longleftrightarrow> st_off s \<le> a \<and> a < st_off s + length (st_bytes s)"

definition disjoint_stores :: "store \<Rightarrow> store \<Rightarrow> bool" where
  "disjoint_stores s t \<longleftrightarrow> st_off s + length (st_bytes s) \<le> st_off t \<or> st_off t + length (st_bytes t) \<le> st_off s"

text \<open>The shared bytes, and the stores that are not yet visible, in program order.\<close>

inductive commit :: "memory \<times> store list \<Rightarrow> memory \<times> store list \<Rightarrow> bool" where
  commit: "(st_release s \<longrightarrow> xs = []) \<Longrightarrow> (\<forall>x\<in>set xs. disjoint_stores x s) \<Longrightarrow>
    commit (m, xs @ s # ys) (apply_store s m, xs @ ys)"

inductive_cases commitE: "commit (m, p) s'"

subsection \<open>The stores of the writer\<close>

fun plain :: "nat \<Rightarrow> u8 list \<Rightarrow> store list" where
  "plain off [] = []"
| "plain off (b # bs) = Store off [b] False # plain (Suc off) bs"

definition openFrame_stores :: "nat \<Rightarrow> u64 \<Rightarrow> u32 \<Rightarrow> u16 \<Rightarrow> u64 \<Rightarrow> store list" where
  "openFrame_stores off timestamp msg_type fl seq =
     plain off (replicate sizeof_FrameHeader 0) @
     plain (off + 16) (le_bytes 8 timestamp) @
     plain (off + 24) (le_bytes 8 (0 :: u64)) @
     plain (off + 4) (le_bytes 2 (ucast msg_type :: u16)) @
     plain (off + 6) (le_bytes 2 fl) @
     plain (off + 8) (le_bytes 8 seq) @
     [Store off (le_bytes 4 (0 :: u32)) False]"

definition closeFrame_stores :: "nat \<Rightarrow> u32 \<Rightarrow> store list" where
  "closeFrame_stores off total_size =
     Store off (le_bytes 4 total_size) True # plain 16 (le_bytes 8 (of_nat off :: u64))"

definition writeBytes_stores :: "nat \<Rightarrow> u64 \<Rightarrow> u32 \<Rightarrow> u64 \<Rightarrow> u8 list \<Rightarrow> store list" where
  "writeBytes_stores off timestamp msg_type seq data =
     openFrame_stores off timestamp msg_type FRAME_NORMAL seq @
     plain (off + sizeof_FrameHeader) data @
     closeFrame_stores off (of_nat (sizeof_FrameHeader + length data))"

definition pageEnd_stores :: "nat \<Rightarrow> u64 \<Rightarrow> u64 \<Rightarrow> store list" where
  "pageEnd_stores off now seq =
     plain off (replicate sizeof_FrameHeader 0) @
     plain (off + 16) (le_bytes 8 now) @
     plain (off + 24) (le_bytes 8 (0 :: u64)) @
     plain (off + 4) (le_bytes 2 (ucast MsgType_PageEnd :: u16)) @
     plain (off + 6) (le_bytes 2 FRAME_NORMAL) @
     plain (off + 8) (le_bytes 8 seq) @
     closeFrame_stores off (of_nat sizeof_FrameHeader)"

text \<open>What a writer puts on one page: frames of \<^verbatim>\<open>writeBytes\<close> (\<^verbatim>\<open>mark\<close> with no bytes) and the sentinel.\<close>

datatype put = Put u64 u32 u64 "u8 list" | End u64 u64

fun put_stores :: "nat \<Rightarrow> put \<Rightarrow> store list" where
  "put_stores off (Put t ty seq bs) = writeBytes_stores off t ty seq bs"
| "put_stores off (End now seq) = pageEnd_stores off now seq"

fun put_snap :: "put \<Rightarrow> FrameSnap" where
  "put_snap (Put t ty seq bs) = snap_of t ty FRAME_NORMAL seq bs"
| "put_snap (End now seq) = snap_of now MsgType_PageEnd FRAME_NORMAL seq []"

fun page_stores :: "nat \<Rightarrow> put list \<Rightarrow> store list" where
  "page_stores off [] = []"
| "page_stores off (p # ps) = put_stores off p @ page_stores (off + frame_stride (put_snap p)) ps"

subsection \<open>The order of visibility does not change the outcome\<close>

abbreviation apply_all :: "store list \<Rightarrow> memory \<Rightarrow> memory" where
  "apply_all \<equiv> fold apply_store"

lemma apply_store_commute:
  "disjoint_stores s t \<Longrightarrow> apply_store s (apply_store t m) = apply_store t (apply_store s m)"
  by (rule ext) (auto simp: apply_store_def store_bytes_def disjoint_stores_def)

lemma apply_all_commute:
  "\<forall>x\<in>set xs. disjoint_stores x s \<Longrightarrow> apply_all xs (apply_store s m) = apply_store s (apply_all xs m)"
proof (induction xs arbitrary: m)
  case (Cons x xs)
  then show ?case by (simp add: apply_store_commute [of x s])
qed simp

lemma commit_outcome: "commit (m, p) (m', p') \<Longrightarrow> apply_all p' m' = apply_all p m"
  by (auto elim!: commitE simp: apply_all_commute)

lemma apply_all_uncovered: "\<forall>s\<in>set ss. \<not> covers s a \<Longrightarrow> apply_all ss m a = m a"
  by (induction ss arbitrary: m) (auto simp: apply_store_def covers_def store_bytes_def)

lemma apply_plain: "apply_all (plain off bs) m = store_bytes m off bs"
proof (induction bs arbitrary: off m)
  case (Cons b bs)
  then show ?case by (auto simp: apply_store_def store_bytes_def fun_eq_iff nth_Cons')
qed simp

text \<open>\<open>late P p\<close>: what is left of \<open>P\<close> when some plain stores have overtaken the rest.\<close>

inductive late :: "store list \<Rightarrow> store list \<Rightarrow> bool" where
  late_Nil: "late [] []"
| late_keep: "late P p \<Longrightarrow> late (s # P) (s # p)"
| late_drop: "\<not> st_release s \<Longrightarrow> late P p \<Longrightarrow> late (s # P) p"

lemma late_refl: "late P P"
  by (induction P) (auto intro: late.intros)

lemma late_set: "late P p \<Longrightarrow> set p \<subseteq> set P"
  by (induction rule: late.induct) auto

lemma late_plain: "late P (xs @ s # ys) \<Longrightarrow> \<not> st_release s \<Longrightarrow> late P (xs @ ys)"
proof (induction P "xs @ s # ys" arbitrary: xs rule: late.induct)
  case (late_keep P p s')
  then show ?case by (cases xs) (auto intro: late.intros)
qed (auto intro: late.intros)

lemma late_release:
  "late P (s # ys) \<Longrightarrow> st_release s \<Longrightarrow> \<exists>Q R. P = Q @ s # R \<and> late R ys"
proof (induction P "s # ys" rule: late.induct)
  case (late_keep P)
  then show ?case by (intro exI [of _ "[]"] exI [of _ P]) simp
next
  case (late_drop s' P)
  then obtain Q R where "P = Q @ s # R" "late R ys" by blast
  then show ?case by (intro exI [of _ "s' # Q"] exI [of _ R]) simp
qed

subsection \<open>The invariant\<close>

definition quiet :: "store \<Rightarrow> store \<Rightarrow> bool" where
  "quiet s r \<longleftrightarrow> (\<forall>a. covers s a \<longrightarrow> covers r a \<longrightarrow> st_bytes s ! (a - st_off s) = 0)"

text \<open>A program whose plain stores only clear the fields it publishes, each published once.\<close>

definition publishes :: "store list \<Rightarrow> bool" where
  "publishes P \<longleftrightarrow>
     (\<forall>s\<in>set P. \<forall>r\<in>set P. st_release r \<longrightarrow> \<not> st_release s \<longrightarrow> quiet s r) \<and>
     sorted_wrt disjoint_stores (filter st_release P)"

definition hidden :: "memory \<Rightarrow> store \<Rightarrow> bool" where
  "hidden m r \<longleftrightarrow> zero_on m (st_off r) (st_off r + length (st_bytes r))"

definition pub_inv :: "memory \<Rightarrow> store list \<Rightarrow> memory \<times> store list \<Rightarrow> bool" where
  "pub_inv m0 P s \<longleftrightarrow> apply_all (snd s) (fst s) = apply_all P m0 \<and>
     (\<exists>D R. P = D @ R \<and> late R (snd s) \<and> (\<forall>r\<in>set R. st_release r \<longrightarrow> hidden (fst s) r))"

lemma hidden_quiet: "hidden m r \<Longrightarrow> quiet s r \<Longrightarrow> hidden (apply_store s m) r"
  by (auto simp: hidden_def zero_on_def quiet_def covers_def apply_store_def store_bytes_def)

lemma hidden_disjoint: "hidden m r \<Longrightarrow> disjoint_stores s r \<Longrightarrow> hidden (apply_store s m) r"
  by (auto simp: hidden_def zero_on_def disjoint_stores_def apply_store_def store_bytes_def)

lemma pub_inv_commit:
  assumes "publishes P" and "pub_inv m0 P (m, p)" and "commit (m, p) (m', p')"
  shows "pub_inv m0 P (m', p')"
proof -
  obtain D R where P: "P = D @ R" and late: "late R p" and hid: "\<forall>r\<in>set R. st_release r \<longrightarrow> hidden m r"
    using assms(2) by (auto simp: pub_inv_def)
  have out: "apply_all p' m' = apply_all P m0"
    using assms(2) commit_outcome [OF assms(3)] by (simp add: pub_inv_def)
  obtain xs s ys where c: "p = xs @ s # ys" "p' = xs @ ys" "m' = apply_store s m" "st_release s \<longrightarrow> xs = []"
    using assms(3) by (auto elim!: commitE)
  have "\<exists>D R. P = D @ R \<and> late R p' \<and> (\<forall>r\<in>set R. st_release r \<longrightarrow> hidden m' r)"
  proof (cases "st_release s")
    case False
    have "s \<in> set P" using late_set [OF late] c(1) P by auto
    then have "hidden m' r" if "r \<in> set R" "st_release r" for r
      using that hid assms(1) False P c(3) by (auto simp: publishes_def intro!: hidden_quiet)
    then show ?thesis using late_plain [of R xs s ys] late False c P by blast
  next
    case True
    then obtain Q R' where R: "R = Q @ s # R'" "late R' ys" using late_release [of R s ys] late c by auto
    have "disjoint_stores s r" if "r \<in> set R'" "st_release r" for r
      using assms(1) that True by (simp add: publishes_def P R sorted_wrt_append)
    then have "\<forall>r\<in>set R'. st_release r \<longrightarrow> hidden m' r"
      using hid c(3) by (auto simp: R(1) intro: hidden_disjoint)
    then show ?thesis using True c R P by (intro exI [of _ "D @ Q @ [s]"] exI [of _ R']) simp
  qed
  then show ?thesis using out by (simp add: pub_inv_def)
qed

lemma pub_inv_commits:
  assumes "publishes P" and "commit\<^sup>*\<^sup>* s s'" and "pub_inv m0 P s"
  shows "pub_inv m0 P s'"
  using assms(2,3)
proof (induction rule: rtranclp_induct)
  case (step y z)
  then show ?case using pub_inv_commit [OF assms(1), of m0 "fst y" "snd y" "fst z" "snd z"] by simp
qed

lemma pub_inv_start: "\<forall>r\<in>set P. st_release r \<longrightarrow> hidden m0 r \<Longrightarrow> pub_inv m0 P (m0, P)"
  unfolding pub_inv_def by (intro conjI exI [of _ "[]"] exI [of _ P]) (simp_all add: late_refl)

text \<open>Once a release store is visible, the bytes that no later store touches are final.\<close>

lemma pub_inv_published:
  assumes "pub_inv m0 (D @ r # R) (m, p)" and "st_release r" and "\<not> hidden m r"
    and "\<forall>s\<in>set R. \<forall>a. lo \<le> a \<longrightarrow> a < hi \<longrightarrow> \<not> covers s a"
  shows "same_on (apply_all (D @ r # R) m0) m lo hi \<and> (\<forall>s\<in>set p. \<forall>a. lo \<le> a \<longrightarrow> a < hi \<longrightarrow> \<not> covers s a)"
proof -
  obtain D' R' where s: "D @ r # R = D' @ R'" "late R' p" "\<forall>r\<in>set R'. st_release r \<longrightarrow> hidden m r"
    using assms(1) by (auto simp: pub_inv_def)
  then have "r \<notin> set R'" using assms(2,3) by blast
  then have "set R' \<subseteq> set R" using s(1) by (auto simp: append_eq_append_conv2 Cons_eq_append_conv)
  then have p: "\<forall>s\<in>set p. \<forall>a. lo \<le> a \<longrightarrow> a < hi \<longrightarrow> \<not> covers s a" using late_set [OF s(2)] assms(4) by blast
  then have "apply_all p m a = m a" if "lo \<le> a" "a < hi" for a
    using that by (intro apply_all_uncovered) blast
  moreover have "apply_all p m = apply_all (D @ r # R) m0" using assms(1) by (simp add: pub_inv_def)
  ultimately show ?thesis using p by (simp add: same_on_def)
qed

lemma commits_keep:
  assumes "commit\<^sup>*\<^sup>* (m, p) (m', p')"
  shows "set p' \<subseteq> set p \<and> (\<forall>a. (\<forall>s\<in>set p. \<not> covers s a) \<longrightarrow> m' a = m a)"
  using assms
proof (induction rule: rtranclp_induct2)
  case (step m1 p1 m2 p2)
  obtain xs s ys where "p1 = xs @ s # ys" "p2 = xs @ ys" "m2 = apply_store s m1"
    using step.hyps(2) by (auto elim!: commitE)
  moreover have "apply_store s m1 a = m1 a" if "\<not> covers s a" for a
    using that apply_all_uncovered [of "[s]" a m1] by simp
  ultimately show ?case using step.IH by auto
qed simp

subsection \<open>The stores of a frame\<close>

lemma store_load_same [simp]: "store_bytes m off (load_bytes m off n) = m"
  by (auto simp: store_bytes_def load_bytes_def fun_eq_iff)

lemma store_load_int [simp]:
  "store_u16 m off (load_u16 m off) = m" "store_u32 m off (load_u32 m off) = m" "store_u64 m off (load_u64 m off) = m"
  by (simp_all add: store_defs load_defs le_bytes_le_word)

lemma put_FrameHeader_same: "put_FrameHeader m off (FrameHeader_at m off) = m"
  by (simp add: put_FrameHeader_def FrameHeader_at_def Let_def)

lemma apply_openFrame: "apply_all (openFrame_stores off t ty fl seq) m = open_frame_mem off t ty fl seq m"
  by (simp add: openFrame_stores_def open_frame_mem_def apply_plain apply_store_def new_FrameHeader_def
      frame_setters store_defs Let_def)

lemma apply_closeFrame:
  "apply_all (closeFrame_stores off n) m = setLastFramePosition (of_nat off) (close_frame_mem id off n m)"
  by (simp add: closeFrame_stores_def apply_plain apply_store_def close_frame_mem_def put_FrameHeader_same
      setLastFramePosition_def store_defs)

text \<open>In program order the stores have the effect of the operations on page bytes.\<close>

lemma apply_put_stores:
  "apply_all (put_stores off (Put t ty seq bs)) m =
     setLastFramePosition (of_nat off) (put_frame id off t ty FRAME_NORMAL seq bs m)"
  "apply_all (put_stores off (End now seq)) m = setLastFramePosition (of_nat off) (page_end_mem off now seq m)"
  by (simp_all add: writeBytes_stores_def apply_openFrame apply_closeFrame apply_plain put_frame_def)
    (simp add: pageEnd_stores_def apply_closeFrame apply_plain page_end_mem_def new_FrameHeader_def
      frame_setters store_defs Let_def close_frame_mem_def put_FrameHeader_same)

fun put_ok :: "put \<Rightarrow> bool" where
  "put_ok (Put t ty seq bs) \<longleftrightarrow> 32 + length bs < 2 ^ 32"
| "put_ok (End now seq) \<longleftrightarrow> True"

lemma put_stores_frame:
  assumes "put_ok p" and "24 \<le> off"
  shows "frame_at (apply_all (put_stores off p) m) off (put_snap p)"
proof -
  have "frame_at (setLastFramePosition x m') off f" if "frame_at m' off f" for m' x f
    using that assms(2) by (elim frame_at_same_on) (simp add: setLastFramePosition_def store_u64_def same_on_store_bytes)
  then show ?thesis
    using assms(1) put_frame_at page_end_at by (cases p) (simp_all only: apply_put_stores put_snap.simps put_ok.simps)
qed

text \<open>A frame is a list of plain stores, the release store of its length, and the position in the page header.\<close>

definition put_release :: "nat \<Rightarrow> put \<Rightarrow> store" where
  "put_release off p = Store off (le_bytes 4 (of_nat (32 + length (snap_payload (put_snap p))) :: u32)) True"

fun put_body :: "nat \<Rightarrow> put \<Rightarrow> store list" where
  "put_body off (Put t ty seq bs) = openFrame_stores off t ty FRAME_NORMAL seq @ plain (off + 32) bs"
| "put_body off (End now seq) =
     plain off (replicate sizeof_FrameHeader 0) @ plain (off + 16) (le_bytes 8 now) @
     plain (off + 24) (le_bytes 8 (0 :: u64)) @ plain (off + 4) (le_bytes 2 (ucast MsgType_PageEnd :: u16)) @
     plain (off + 6) (le_bytes 2 FRAME_NORMAL) @ plain (off + 8) (le_bytes 8 seq)"

abbreviation put_tail :: "nat \<Rightarrow> store list" where
  "put_tail off \<equiv> plain 16 (le_bytes 8 (of_nat off :: u64))"

lemma put_stores_split: "put_stores off p = put_body off p @ put_release off p # put_tail off"
  by (cases p) (simp_all add: writeBytes_stores_def pageEnd_stores_def closeFrame_stores_def put_release_def)

text \<open>Where the stores of a frame go, and that those before the release store leave its length 0.\<close>

definition in_frame :: "nat \<Rightarrow> nat \<Rightarrow> store \<Rightarrow> bool" where
  "in_frame off n s \<longleftrightarrow> \<not> st_release s \<and>
     (\<forall>a. covers s a \<longrightarrow> off \<le> a \<and> a < off + n \<and> (a < off + 4 \<longrightarrow> st_bytes s ! (a - st_off s) = 0))"

lemma plain_in_frame:
  assumes "s \<in> set (plain o' bs)" and "off \<le> o'" and "o' + length bs \<le> off + n"
    and "off + 4 \<le> o' \<or> set bs \<subseteq> {0}"
  shows "in_frame off n s"
  using assms
proof (induction bs arbitrary: o')
  case (Cons b bs)
  show ?case
  proof (cases "s = Store o' [b] False")
    case True
    then show ?thesis using Cons.prems by (auto simp: in_frame_def covers_def)
  next
    case False
    then show ?thesis using Cons.prems Cons.IH [of "Suc o'"] by auto
  qed
qed simp

lemma put_body_in_frame:
  assumes "s \<in> set (put_body off p)"
  shows "in_frame off (32 + length (snap_payload (put_snap p))) s"
proof -
  have z: "in_frame off n (Store off (le_bytes 4 (0 :: u32)) False)" if "32 \<le> n" for n
    using that by (auto simp: in_frame_def covers_def numeral_nat nth_Cons')
  show ?thesis using assms
    by (cases p) (auto simp: openFrame_stores_def z elim!: plain_in_frame)
qed

subsection \<open>The stores of a page\<close>

lemma plain_covers: "s \<in> set (plain off bs) \<Longrightarrow> \<not> st_release s \<and> (covers s a \<longrightarrow> off \<le> a \<and> a < off + length bs)"
proof (induction bs arbitrary: off)
  case (Cons b bs)
  then consider "s = Store off [b] False" | "s \<in> set (plain (Suc off) bs)" by auto
  then show ?case
  proof cases
    case 2
    from Cons.IH [OF 2] show ?thesis by auto
  qed (auto simp: covers_def)
qed simp

lemma put_tail_covers: "s \<in> set (put_tail off) \<Longrightarrow> \<not> st_release s \<and> (covers s a \<longrightarrow> 16 \<le> a \<and> a < 24)"
  using plain_covers [of s 16 "le_bytes 8 (of_nat off :: u64)" a] by simp

lemma put_payload_stride: "off + (32 + length (snap_payload f)) \<le> off + frame_stride f"
  using frame_stride_bounds(2) [of f] by simp

lemma put_stores_within:
  assumes "s \<in> set (put_stores off p)" and "covers s a"
  shows "off \<le> a \<and> a < off + frame_stride (put_snap p) \<or> \<not> st_release s \<and> 16 \<le> a \<and> a < 24"
  using assms put_tail_covers [of s off a] put_body_in_frame [of s off p] put_payload_stride [of off "put_snap p"]
  by (fastforce simp: put_stores_split in_frame_def put_release_def covers_def)

lemma page_stores_within:
  assumes "s \<in> set (page_stores off ps)" and "covers s a"
  shows "off \<le> a \<and> a < off + frames_len (map put_snap ps) \<or> \<not> st_release s \<and> 16 \<le> a \<and> a < 24"
  using assms
proof (induction ps arbitrary: off)
  case (Cons p ps)
  then consider "s \<in> set (put_stores off p)" | "s \<in> set (page_stores (off + frame_stride (put_snap p)) ps)" by auto
  then show ?case
  proof cases
    case 1
    then show ?thesis using put_stores_within [OF 1 Cons.prems(2)] by auto
  next
    case 2
    then show ?thesis using Cons.IH [OF 2 Cons.prems(2)] by auto
  qed
qed simp

lemma release_in_page_stores:
  assumes "s \<in> set (page_stores off ps)" and "st_release s"
  shows "length (st_bytes s) = 4 \<and> off \<le> st_off s"
  using assms
proof (induction ps arbitrary: off)
  case (Cons p ps)
  then consider "s \<in> set (put_stores off p)" | "s \<in> set (page_stores (off + frame_stride (put_snap p)) ps)" by auto
  then show ?case
  proof cases
    case 1
    then have "s = put_release off p"
      using Cons.prems put_tail_covers put_body_in_frame by (auto simp: put_stores_split in_frame_def)
    then show ?thesis by (simp add: put_release_def)
  next
    case 2
    then show ?thesis using Cons.IH [of "off + frame_stride (put_snap p)"] Cons.prems by auto
  qed
qed simp

lemma quiet_apart: "(\<And>a. covers s a \<Longrightarrow> \<not> covers r a) \<Longrightarrow> quiet s r"
  by (auto simp: quiet_def)

lemma publishes_append:
  assumes "publishes A" and "publishes B"
    and "\<And>s r. s \<in> set A \<Longrightarrow> r \<in> set B \<Longrightarrow> st_release r \<Longrightarrow> \<not> st_release s \<Longrightarrow> quiet s r"
    and "\<And>s r. s \<in> set B \<Longrightarrow> r \<in> set A \<Longrightarrow> st_release r \<Longrightarrow> \<not> st_release s \<Longrightarrow> quiet s r"
    and "\<And>s r. s \<in> set A \<Longrightarrow> r \<in> set B \<Longrightarrow> st_release s \<Longrightarrow> st_release r \<Longrightarrow> disjoint_stores s r"
  shows "publishes (A @ B)"
  using assms by (auto simp: publishes_def sorted_wrt_append)

lemma publishes_put_stores:
  assumes "24 \<le> off"
  shows "publishes (put_stores off p)"
proof -
  have b: "\<not> st_release s" if "s \<in> set (put_body off p) \<or> s \<in> set (put_tail off)" for s
    using that put_body_in_frame put_tail_covers by (auto simp: in_frame_def)
  have "filter st_release (put_stores off p) = [put_release off p]"
    using b by (simp add: put_stores_split filter_empty_conv) (simp add: put_release_def)
  moreover have "quiet s (put_release off p)" if "s \<in> set (put_stores off p)" "\<not> st_release s" for s
  proof (cases "s \<in> set (put_body off p)")
    case True
    then show ?thesis using put_body_in_frame [of s off p] by (auto simp: quiet_def in_frame_def put_release_def covers_def)
  next
    case False
    then have "s \<in> set (put_tail off)" using that by (auto simp: put_stores_split put_release_def)
    then show ?thesis using put_tail_covers [of s off] assms
      by (intro quiet_apart) (fastforce simp: put_release_def covers_def)
  qed
  moreover have "r = put_release off p" if "r \<in> set (put_stores off p)" "st_release r" for r
    using that b by (auto simp: put_stores_split)
  ultimately show ?thesis by (auto simp: publishes_def)
qed

lemma publishes_page_stores: "24 \<le> off \<Longrightarrow> publishes (page_stores off ps)"
proof (induction ps arbitrary: off)
  case (Cons p ps)
  let ?mid = "off + frame_stride (put_snap p)"
  let ?A = "put_stores off p" and ?B = "page_stores ?mid ps"
  have A: "\<And>s a. s \<in> set ?A \<Longrightarrow> covers s a \<Longrightarrow> a < ?mid" "\<And>s a. s \<in> set ?A \<Longrightarrow> st_release s \<Longrightarrow> covers s a \<Longrightarrow> off \<le> a"
    using put_stores_within [of _ off p] Cons.prems by fastforce+
  have B: "\<And>s a. s \<in> set ?B \<Longrightarrow> covers s a \<Longrightarrow> ?mid \<le> a \<or> a < 24" "\<And>s. s \<in> set ?B \<Longrightarrow> st_release s \<Longrightarrow> ?mid \<le> st_off s"
    using page_stores_within [of _ ?mid ps] release_in_page_stores [of _ ?mid ps] by blast+
  have disj: "disjoint_stores s r" if "s \<in> set ?A" "r \<in> set ?B" "st_release s" "st_release r" for s r
  proof -
    have "s = put_release off p"
      using that(1,3) put_tail_covers put_body_in_frame by (auto simp: put_stores_split in_frame_def)
    then show ?thesis using B(2) [OF that(2,4)] frame_stride_bounds(1) [of "put_snap p"]
      by (simp add: disjoint_stores_def put_release_def)
  qed
  have "publishes (?A @ ?B)"
  proof (rule publishes_append [OF _ _ _ _ disj])
    show "publishes ?A" using Cons.prems by (rule publishes_put_stores)
    show "publishes ?B" using Cons.prems by (intro Cons.IH) simp
    show "quiet s r" if "s \<in> set ?A" "r \<in> set ?B" "st_release r" "\<not> st_release s" for s r
      using A(1) [OF that(1)] B(2) [OF that(2,3)] by (intro quiet_apart) (force simp: covers_def)
    show "quiet s r" if "s \<in> set ?B" "r \<in> set ?A" "st_release r" "\<not> st_release s" for s r
    proof (rule quiet_apart)
      fix a assume "covers s a"
      then show "\<not> covers r a" using B(1) [OF that(1)] A(1) [OF that(2)] A(2) [OF that(2,3)] Cons.prems by (meson leD less_le_trans)
    qed
  qed
  then show ?case by simp
qed (simp add: publishes_def)

lemma page_stores_append:
  "page_stores off (ps @ qs) = page_stores off ps @ page_stores (off + frames_len (map put_snap ps)) qs"
  by (induction ps arbitrary: off) (simp_all add: add.assoc)

lemma page_stores_untouched:
  assumes "s \<in> set (page_stores mid ps)" and "24 \<le> a" and "a < mid"
  shows "\<not> covers s a"
  using page_stores_within [OF assms(1), of a] assms(2,3) by linarith

lemma page_stores_keep: "24 \<le> off \<Longrightarrow> hi \<le> mid \<Longrightarrow> same_on m (apply_all (page_stores mid ps) m) off hi"
  unfolding same_on_def
  by (intro allI impI apply_all_uncovered [symmetric] ballI page_stores_untouched [of _ mid ps]) auto

lemma page_stores_frames:
  assumes "list_all put_ok ps" and "24 \<le> off"
  shows "frames_at (apply_all (page_stores off ps) m) off (map put_snap ps)"
  using assms
proof (induction ps arbitrary: off m)
  case (Cons p ps)
  let ?mid = "off + frame_stride (put_snap p)"
  let ?m = "apply_all (put_stores off p) m"
  have "same_on ?m (apply_all (page_stores ?mid ps) ?m) off (off + 32 + length (snap_payload (put_snap p)))"
    using put_payload_stride [of off "put_snap p"] Cons.prems(2) by (intro page_stores_keep) simp_all
  moreover have "frame_at ?m off (put_snap p)" using Cons.prems by (intro put_stores_frame) simp_all
  ultimately have "frame_at (apply_all (page_stores ?mid ps) ?m) off (put_snap p)" by (rule frame_at_same_on [rotated])
  moreover have "frames_at (apply_all (page_stores ?mid ps) ?m) ?mid (map put_snap ps)"
    using Cons.prems by (intro Cons.IH) simp_all
  ultimately show ?case by simp
qed simp

subsection \<open>No torn frames\<close>

lemma getFrameLength_hidden: "hidden m (put_release off p) \<Longrightarrow> getFrameLength m off = 0"
  by (simp add: hidden_def put_release_def getFrameLength_def load_int_zero)

text \<open>The invariant on a page that is written from offset \<open>lo\<close> on.\<close>

lemma published_prefix:
  assumes "pub_inv m0 (page_stores lo ps) (m, p)" and "list_all put_ok ps" and "24 \<le> lo" and "k < length ps"
    and "getFrameLength m (lo + frames_len (map put_snap (take k ps))) \<noteq> 0"
  shows "frames_at m lo (map put_snap (take (Suc k) ps)) \<and>
    (\<forall>s\<in>set p. \<forall>a. lo \<le> a \<longrightarrow> a < lo + frames_len (map put_snap (take (Suc k) ps)) \<longrightarrow> \<not> covers s a)"
proof -
  let ?off = "lo + frames_len (map put_snap (take k ps))"
  let ?mid = "?off + frame_stride (put_snap (ps ! k))"
  let ?R = "put_tail ?off @ page_stores ?mid (drop (Suc k) ps)"
  let ?D = "page_stores lo (take k ps) @ put_body ?off (ps ! k)"
  have "page_stores lo ps = page_stores lo (take k ps @ ps ! k # drop (Suc k) ps)"
    using assms(4) by (simp add: id_take_nth_drop [symmetric])
  then have P: "page_stores lo ps = ?D @ put_release ?off (ps ! k) # ?R"
    by (simp add: page_stores_append put_stores_split)
  have "\<forall>s\<in>set ?R. \<forall>a. lo \<le> a \<longrightarrow> a < ?mid \<longrightarrow> \<not> covers s a"
    using put_tail_covers [of _ ?off] page_stores_untouched [of _ ?mid "drop (Suc k) ps"] assms(3) by fastforce
  moreover have "\<not> hidden m (put_release ?off (ps ! k))" using assms(5) getFrameLength_hidden by blast
  ultimately have *: "same_on (apply_all (page_stores lo ps) m0) m lo ?mid \<and>
      (\<forall>s\<in>set p. \<forall>a. lo \<le> a \<longrightarrow> a < ?mid \<longrightarrow> \<not> covers s a)"
    using pub_inv_published [of m0 ?D "put_release ?off (ps ! k)" ?R m p lo ?mid] assms(1) unfolding P
    by (simp add: put_release_def)
  have "frames_at (apply_all (page_stores lo ps) m0) lo (map put_snap (take (Suc k) ps))"
    using page_stores_frames [OF assms(2,3), of m0] frames_at_append [of _ lo "map put_snap (take (Suc k) ps)" "map put_snap (drop (Suc k) ps)"]
    by (simp only: map_append [symmetric] append_take_drop_id)
  moreover have mid: "?mid = lo + frames_len (map put_snap (take (Suc k) ps))"
    using assms(4) by (simp add: take_Suc_conv_app_nth)
  ultimately show ?thesis using * unfolding mid by (intro conjI) (rule frames_at_same_on, blast+)
qed

lemma pub_inv_page_start:
  assumes "zero_on m0 lo (lo + frames_len (map put_snap ps))"
  shows "pub_inv m0 (page_stores lo ps) (m0, page_stores lo ps)"
proof (rule pub_inv_start, intro ballI impI)
  fix r assume r: "r \<in> set (page_stores lo ps)" "st_release r"
  have "lo \<le> a \<and> a < lo + frames_len (map put_snap ps)" if "covers r a" for a
    using page_stores_within [OF r(1) that] r(2) by blast
  then show "hidden m0 r" using assms by (simp add: hidden_def zero_on_def covers_def)
qed

text \<open>C3: no torn frame.  A writer fills a zeroed page with the plain stores and the release store of each frame, and
  its stores become visible in any order that release permits.  When a reader has seen a length other than
  0 at the place of a frame, then in that state and in every later one that frame and all frames before it
  on the page read as they were written, header and payload.\<close>

theorem no_torn_frame:
  assumes "zero_on m0 lo (lo + frames_len (map put_snap ps))" and "24 \<le> lo" and "list_all put_ok ps" and "k < length ps"
    and "commit\<^sup>*\<^sup>* (m0, page_stores lo ps) (m1, p1)"
    and "getFrameLength m1 (lo + frames_len (map put_snap (take k ps))) \<noteq> 0"
    and "commit\<^sup>*\<^sup>* (m1, p1) (m2, p2)"
  shows "frames_at m2 lo (map put_snap (take (Suc k) ps))"
proof -
  have "pub_inv m0 (page_stores lo ps) (m1, p1)"
    by (rule pub_inv_commits [OF publishes_page_stores [OF assms(2)] assms(5) pub_inv_page_start [OF assms(1)]])
  from published_prefix [OF this assms(3,2,4,6)] have
    f: "frames_at m1 lo (map put_snap (take (Suc k) ps))" and
    q: "\<forall>s\<in>set p1. \<forall>a. lo \<le> a \<longrightarrow> a < lo + frames_len (map put_snap (take (Suc k) ps)) \<longrightarrow> \<not> covers s a"
    by blast+
  have "same_on m1 m2 lo (lo + frames_len (map put_snap (take (Suc k) ps)))"
    using q commits_keep [OF assms(7)] by (simp add: same_on_def)
  with f show ?thesis by (rule frames_at_same_on)
qed

text \<open>The other direction: when all stores are visible, so are all frames.\<close>

lemma all_committed:
  assumes "24 \<le> lo" and "list_all put_ok ps" and "zero_on m0 lo (lo + frames_len (map put_snap ps))"
    and "commit\<^sup>*\<^sup>* (m0, page_stores lo ps) (m, [])"
  shows "frames_at m lo (map put_snap ps)"
proof -
  have "pub_inv m0 (page_stores lo ps) (m, [])"
    by (rule pub_inv_commits [OF publishes_page_stores [OF assms(1)] assms(4) pub_inv_page_start [OF assms(3)]])
  then have "m = apply_all (page_stores lo ps) m0" by (simp add: pub_inv_def)
  then show ?thesis using page_stores_frames [OF assms(2,1)] by simp
qed

text \<open>In program order every store can become visible.\<close>

lemma commit_first: "commit (m, s # ys) (apply_store s m, ys)"
  using commit.commit [of s "[]" m ys] by simp

lemma commit_in_order: "commit\<^sup>*\<^sup>* (m, xs @ ys) (apply_all xs m, ys)"
proof (induction xs arbitrary: m)
  case (Cons x xs)
  show ?case using converse_rtranclp_into_rtranclp [OF commit_first [of m x "xs @ ys"] Cons.IH] by simp
qed simp

text \<open>A state in which the first of two frames is published and nothing of the second is visible.\<close>

theorem no_torn_frame_witness:
  "\<exists>m p. commit\<^sup>*\<^sup>* ((\<lambda>_. 0), page_stores 64 [Put 5 7 0 [1, 2], Put 6 8 1 [3]]) (m, p) \<and> p \<noteq> [] \<and>
     frames_at m 64 [snap_of 5 7 FRAME_NORMAL 0 [1, 2]]"
proof -
  let ?ps = "[Put 5 7 0 [1, 2], Put 6 8 1 [3]]"
  let ?A = "put_stores 64 (Put 5 7 0 [1, 2])" and ?B = "page_stores 128 [Put 6 8 1 [3]]"
  let ?m = "apply_all ?A (\<lambda>_. 0)"
  have s: "frame_stride (snap_of 5 7 FRAME_NORMAL 0 [1, 2]) = 64" "stride_of 34 = 64" by (simp_all add: stride_of_def)
  have c: "commit\<^sup>*\<^sup>* ((\<lambda>_. 0), page_stores 64 ?ps) (?m, ?B)"
    using commit_in_order [of "\<lambda>_. 0" ?A ?B] by (simp add: s del: put_stores.simps)
  have "getFrameLength ?m 64 = 34"
    using put_stores_frame [of "Put 5 7 0 [1, 2]" 64 "\<lambda>_. 0"]
    by (simp add: frame_at_def word_unat_eq_iff del: put_stores.simps)
  then have "frames_at ?m 64 (map put_snap (take (Suc 0) ?ps))"
    using no_torn_frame [of "\<lambda>_. 0" 64 ?ps 0 ?m ?B ?m ?B] c by simp
  moreover have "?B \<noteq> []" by (simp add: writeBytes_stores_def openFrame_stores_def)
  ultimately show ?thesis using c by (intro exI [of _ ?m] exI [of _ ?B]) simp
qed

end
