(* ===== verification/Binary64.thy ===== *)
theory Binary64
  imports Complex_Main "HOL-Library.Log_Nat"
begin

section \<open>Arithmetic in double precision\<close>

text \<open>
  The \<^verbatim>\<open>double\<close> of the sources is IEEE 754 binary64 with rounding to nearest, ties to even.  A finite
  value is the rational number it stands for; the two zeros are one value, which no operation of the
  sources tells apart.  \<open>fl\<close> rounds an exact result; every operation computes exactly and rounds once.
  The lemmas say when nothing is lost, that rounding is monotone, and how the sign is kept.
\<close>

subsection \<open>Rounding\<close>

datatype double = Fin rat | Infinite bool | NaN

text \<open>The binary exponent of a positive number: \<open>2 powi binexp x \<le> x < 2 powi (binexp x + 1)\<close>.\<close>

definition binexp :: "rat \<Rightarrow> int" where
  "binexp x = (case quotient_of x of (n, d) \<Rightarrow>
     let e = bitlen n - bitlen d in if 2 powi e \<le> x then e else e - 1)"

definition rne :: "rat \<Rightarrow> int" where
  "rne x = (let f = \<lfloor>x\<rfloor>; r = x - of_int f in
     if r < 1 / 2 then f else if r > 1 / 2 then f + 1 else if even f then f else f + 1)"

definition quantum :: "rat \<Rightarrow> rat" where
  "quantum x = 2 powi (max (binexp \<bar>x\<bar> - 52) (- 1074))"

definition round64 :: "rat \<Rightarrow> rat" where
  "round64 x = (if x = 0 then 0 else of_int (rne (x / quantum x)) * quantum x)"

definition fl :: "rat \<Rightarrow> double" where
  "fl x = (if \<bar>round64 x\<bar> \<ge> 2 powi 1024 then Infinite (x < 0) else Fin (round64 x))"

subsection \<open>Operations\<close>

fun d_neg :: "double \<Rightarrow> double" where
  "d_neg (Fin a) = Fin (- a)"
| "d_neg (Infinite s) = Infinite (\<not> s)"
| "d_neg NaN = NaN"

fun d_add :: "double \<Rightarrow> double \<Rightarrow> double" where
  "d_add (Fin a) (Fin b) = fl (a + b)"
| "d_add (Fin a) (Infinite t) = Infinite t"
| "d_add (Infinite s) (Fin b) = Infinite s"
| "d_add (Infinite s) (Infinite t) = (if s = t then Infinite s else NaN)"
| "d_add _ _ = NaN"

definition d_sub :: "double \<Rightarrow> double \<Rightarrow> double" where
  "d_sub a b = d_add a (d_neg b)"

fun d_mul :: "double \<Rightarrow> double \<Rightarrow> double" where
  "d_mul (Fin a) (Fin b) = fl (a * b)"
| "d_mul (Fin a) (Infinite t) = (if a = 0 then NaN else Infinite (t \<noteq> (a < 0)))"
| "d_mul (Infinite s) (Fin b) = (if b = 0 then NaN else Infinite (s \<noteq> (b < 0)))"
| "d_mul (Infinite s) (Infinite t) = Infinite (s \<noteq> t)"
| "d_mul _ _ = NaN"

fun d_div :: "double \<Rightarrow> double \<Rightarrow> double" where
  "d_div (Fin a) (Fin b) = (if b = 0 then (if a = 0 then NaN else Infinite (a < 0)) else fl (a / b))"
| "d_div (Fin a) (Infinite t) = Fin 0"
| "d_div (Infinite s) (Fin b) = Infinite (s \<noteq> (b < 0))"
| "d_div _ _ = NaN"

fun d_abs :: "double \<Rightarrow> double" where
  "d_abs (Fin a) = Fin \<bar>a\<bar>"
| "d_abs (Infinite s) = Infinite False"
| "d_abs NaN = NaN"

fun d_less :: "double \<Rightarrow> double \<Rightarrow> bool" where
  "d_less (Fin a) (Fin b) \<longleftrightarrow> a < b"
| "d_less (Fin a) (Infinite t) \<longleftrightarrow> \<not> t"
| "d_less (Infinite s) (Fin b) \<longleftrightarrow> s"
| "d_less (Infinite s) (Infinite t) \<longleftrightarrow> s \<and> \<not> t"
| "d_less _ _ \<longleftrightarrow> False"

fun d_eq :: "double \<Rightarrow> double \<Rightarrow> bool" where
  "d_eq (Fin a) (Fin b) \<longleftrightarrow> a = b"
| "d_eq (Infinite s) (Infinite t) \<longleftrightarrow> s = t"
| "d_eq _ _ \<longleftrightarrow> False"

definition d_le :: "double \<Rightarrow> double \<Rightarrow> bool" where
  "d_le a b \<longleftrightarrow> d_less a b \<or> d_eq a b"

text \<open>Conversions: an integer is rounded; a double is truncated, and \<open>None\<close> stands for the undefined
  conversion of a value out of range.\<close>

definition d_of_int :: "int \<Rightarrow> double" where
  "d_of_int i = fl (of_int i)"

fun d_trunc :: "int \<Rightarrow> int \<Rightarrow> double \<Rightarrow> int option" where
  "d_trunc lo hi (Fin a) = (let i = (if a < 0 then \<lceil>a\<rceil> else \<lfloor>a\<rfloor>) in if lo \<le> i \<and> i < hi then Some i else None)"
| "d_trunc lo hi _ = None"

subsection \<open>The exponent\<close>

lemma binexp_bounds:
  assumes "0 < x"
  shows "2 powi binexp x \<le> x" and "x < 2 powi (binexp x + 1)"
proof -
  obtain n d where q: "quotient_of x = (n, d)" by (cases "quotient_of x")
  have d: "0 < d" and x: "x = of_int n / of_int d" using quotient_of_denom_pos [OF q] quotient_of_div [OF q] by auto
  have n: "0 < n" using assms d x by (simp add: zero_less_divide_iff)
  have b: "2 ^ nat (bitlen k - 1) \<le> k" "k < 2 ^ nat (bitlen k)" "1 \<le> bitlen k" if "0 < k" for k
  proof -
    show "2 ^ nat (bitlen k - 1) \<le> k" "k < 2 ^ nat (bitlen k)" using bitlen_bounds [OF that] by auto
    show "1 \<le> bitlen k" using that bitlen_nonneg [of k] bitlen_eq_zero_iff [of k] by linarith
  qed
  have p: "(2 :: rat) powi (bitlen k - 1) \<le> of_int k" "of_int k < (2 :: rat) powi bitlen k" if "0 < k" for k
  proof -
    have "(of_int (2 ^ nat (bitlen k - 1)) :: rat) \<le> of_int k" "(of_int k :: rat) < of_int (2 ^ nat (bitlen k))"
      using b [OF that] by (simp_all only: of_int_le_iff of_int_less_iff)
    then show "(2 :: rat) powi (bitlen k - 1) \<le> of_int k" "of_int k < (2 :: rat) powi bitlen k"
      using b(3) [OF that] by (simp_all add: power_int_def)
  qed
  let ?e = "bitlen n - bitlen d"
  have "x < 2 powi bitlen n / 2 powi (bitlen d - 1)"
    unfolding x using p [OF n] p [OF d] n d by (intro frac_less) (auto intro: less_imp_le)
  then have hi: "x < 2 powi (?e + 1)" by (simp add: power_int_diff [symmetric] algebra_simps)
  have "2 powi (bitlen n - 1) / 2 powi bitlen d < x"
    unfolding x using p [OF n] p [OF d] n d by (intro frac_less2) (auto intro: less_imp_le)
  then have lo: "2 powi (?e - 1) < x" by (simp add: power_int_diff [symmetric] algebra_simps)
  show "2 powi binexp x \<le> x" and "x < 2 powi (binexp x + 1)"
    using lo hi by (auto simp: binexp_def q Let_def)
qed


lemma powi_less_iff: "(2 :: rat) powi a < 2 powi b \<longleftrightarrow> a < b"
proof
  show "(2 :: rat) powi a < 2 powi b" if "a < b" using that by (intro power_int_strict_increasing) simp_all
  show "a < b" if "(2 :: rat) powi a < 2 powi b"
    using that power_int_increasing [of b a "2 :: rat"] by (meson leD not_le one_le_numeral)
qed

lemma powi_le_iff: "(2 :: rat) powi a \<le> 2 powi b \<longleftrightarrow> a \<le> b"
  by (meson not_le powi_less_iff)

lemma binexp_less: "0 < x \<Longrightarrow> x < 2 powi e \<Longrightarrow> binexp x < e"
  using binexp_bounds(1) [of x] by (meson le_less_trans powi_less_iff)

lemma binexp_ge: "0 < x \<Longrightarrow> 2 powi e \<le> x \<Longrightarrow> e \<le> binexp x"
proof -
  assume "0 < x" "2 powi e \<le> x"
  then have "(2 :: rat) powi e < 2 powi (binexp x + 1)" using binexp_bounds(2) [of x] by linarith
  then show ?thesis by (simp only: powi_less_iff)
qed

lemma binexp_mono: "0 < x \<Longrightarrow> x \<le> y \<Longrightarrow> binexp x \<le> binexp y"
  using binexp_bounds(1) [of x] by (intro binexp_ge) auto

subsection \<open>Rounding to an integer\<close>

lemma rne_of_int [simp]: "rne (of_int i) = i"
  by (simp add: rne_def)

lemma rne_floor: "\<lfloor>x\<rfloor> \<le> rne x" "rne x \<le> \<lfloor>x\<rfloor> + 1"
  by (simp_all add: rne_def Let_def)

lemma rne_mono: "x \<le> y \<Longrightarrow> rne x \<le> rne y"
proof -
  assume le: "x \<le> y"
  show ?thesis
  proof (cases "\<lfloor>x\<rfloor> = \<lfloor>y\<rfloor>")
    case True
    with le show ?thesis by (auto simp: rne_def Let_def)
  next
    case False
    then have "\<lfloor>x\<rfloor> + 1 \<le> \<lfloor>y\<rfloor>" using floor_mono [OF le] by simp
    then show ?thesis using rne_floor(2) [of x] rne_floor(1) [of y] by linarith
  qed
qed

lemma rne_minus: "rne (- x) = - rne x"
proof (cases "x = of_int \<lfloor>x\<rfloor>")
  case True
  then show ?thesis by (metis of_int_minus rne_of_int)
next
  case False
  then have "\<lfloor>- x\<rfloor> = - \<lfloor>x\<rfloor> - 1" by (metis ceiling_altdef ceiling_def diff_minus_eq_add minus_add_distrib minus_equation_iff uminus_add_conv_diff)
  then show ?thesis by (auto simp: rne_def Let_def)
qed

lemma rne_error: "\<bar>of_int (rne x) - x\<bar> \<le> 1 / 2"
proof -
  obtain r where r: "r = x - of_int \<lfloor>x\<rfloor>" "0 \<le> r" "r < 1" by (simp add: le_floor_iff) linarith
  have "of_int (rne x) - x = (if r < 1 / 2 then - r else if r > 1 / 2 then 1 - r else if even \<lfloor>x\<rfloor> then - r else 1 - r)"
    by (simp add: rne_def Let_def r(1))
  then show ?thesis using r(2,3) by (simp split: if_splits)
qed

subsection \<open>Rounding\<close>

lemma quantum_pos [simp]: "0 < quantum x"
  by (simp add: quantum_def)

lemma quantum_nonneg [simp]: "0 \<le> quantum x" and quantum_nonzero [simp]: "quantum x \<noteq> 0"
  using quantum_pos [of x] by (auto simp del: quantum_pos)

lemma quantum_minus [simp]: "quantum (- x) = quantum x"
  by (simp add: quantum_def)

lemma round64_0 [simp]: "round64 0 = 0"
  by (simp add: round64_def)

lemma round64_minus: "round64 (- x) = - round64 x"
  by (simp add: round64_def rne_minus)

lemma round64_error: "\<bar>round64 x - x\<bar> \<le> quantum x / 2"
proof (cases "x = 0")
  case False
  have "round64 x - x = (of_int (rne (x / quantum x)) - x / quantum x) * quantum x"
    using False quantum_pos [of x] by (simp add: round64_def left_diff_distrib)
  then have "\<bar>round64 x - x\<bar> = \<bar>of_int (rne (x / quantum x)) - x / quantum x\<bar> * quantum x"
    using quantum_pos [of x] by (simp only: abs_mult abs_of_pos)
  also have "\<dots> \<le> 1 / 2 * quantum x" by (intro mult_right_mono rne_error) (rule quantum_nonneg)
  finally show ?thesis by simp
qed (simp add: quantum_def)

text \<open>A multiple of the quantum is kept.\<close>

lemma round64_multiple: "x = of_int i * quantum x \<Longrightarrow> round64 x = x"
proof -
  assume x: "x = of_int i * quantum x"
  then have "x / quantum x = of_int i" by (metis quantum_pos less_irrefl nonzero_mult_div_cancel_right)
  then show ?thesis using x by (auto simp: round64_def)
qed

lemma powi_int_multiple: "a \<le> b \<Longrightarrow> \<exists>k. (2 :: rat) powi b = of_int k * 2 powi a"
proof -
  assume "a \<le> b"
  then have "(2 :: rat) powi b = of_int (2 ^ nat (b - a)) * 2 powi a"
    using power_int_add [of "2 :: rat" "b - a" a] by (simp add: power_int_def [of _ "b - a"])
  then show ?thesis by blast
qed

lemma round64_exact:
  assumes x: "x = of_int m * 2 powi e" and m: "\<bar>m\<bar> \<le> 2 ^ 53" and e: "- 1074 \<le> e"
  shows "round64 x = x"
proof (cases "m = 0")
  case False
  then have pos: "0 < \<bar>x\<bar>" using x by simp
  have "\<exists>m' e'. x = of_int m' * 2 powi e' \<and> \<bar>m'\<bar> < 2 ^ 53 \<and> - 1074 \<le> e'"
  proof (cases "\<bar>m\<bar> = 2 ^ 53")
    case True
    then have "m = sgn m * 2 ^ 53" by (metis mult.commute mult_sgn_abs)
    then have "x = of_int (sgn m) * 2 powi (53 + e)" using x power_int_add [of "2 :: rat" 53 e]
      by (metis (no_types, lifting) mult.assoc of_int_mult of_int_numeral of_int_power power_int_numeral zero_neq_numeral)
    then show ?thesis using e by (intro exI [of _ "sgn m"] exI [of _ "53 + e"]) (simp add: sgn_if)
  next
    case False
    with m have "\<bar>m\<bar> < 2 ^ 53" by linarith
    with x e show ?thesis by blast
  qed
  then obtain m' e' where x': "x = of_int m' * 2 powi e'" "\<bar>m'\<bar> < 2 ^ 53" "- 1074 \<le> e'" by blast
  have "\<bar>x\<bar> = of_int \<bar>m'\<bar> * 2 powi e'" by (simp add: x'(1) abs_mult)
  also have "\<dots> < 2 ^ 53 * 2 powi e'"
  proof (rule mult_strict_right_mono)
    have "(of_int \<bar>m'\<bar> :: rat) < of_int (2 ^ 53)" using x'(2) by (simp only: of_int_less_iff)
    then show "(of_int \<bar>m'\<bar> :: rat) < 2 ^ 53" by simp
  qed simp
  also have "\<dots> = 2 powi (53 + e')" by (simp add: power_int_add)
  finally have "binexp \<bar>x\<bar> < 53 + e'" using pos by (intro binexp_less)
  then have "max (binexp \<bar>x\<bar> - 52) (- 1074) \<le> e'" using x'(3) by simp
  then obtain k where "(2 :: rat) powi e' = of_int k * quantum x" using powi_int_multiple unfolding quantum_def by blast
  then have "x = of_int (m' * k) * quantum x" using x'(1) by simp
  then show ?thesis by (rule round64_multiple)
qed (simp add: x)

lemma round64_le_multiple:
  assumes "0 < x" and "x \<le> of_int i * quantum x"
  shows "round64 x \<le> of_int i * quantum x"
proof -
  have "x / quantum x \<le> of_int i" using assms(2) quantum_pos [of x] by (simp add: pos_divide_le_eq)
  then have "rne (x / quantum x) \<le> i" using rne_mono [of "x / quantum x" "of_int i"] by simp
  then show ?thesis using assms(1) by (simp add: round64_def mult_right_mono)
qed

lemma round64_ge_multiple:
  assumes "0 < x" and "of_int i * quantum x \<le> x"
  shows "of_int i * quantum x \<le> round64 x"
proof -
  have "of_int i \<le> x / quantum x" using assms(2) quantum_pos [of x] by (simp add: pos_le_divide_eq)
  then have "i \<le> rne (x / quantum x)" using rne_mono [of "of_int i" "x / quantum x"] by simp
  then show ?thesis using assms(1) by (simp add: round64_def mult_right_mono)
qed

lemma round64_nonneg: "0 \<le> x \<Longrightarrow> 0 \<le> round64 x"
  using round64_ge_multiple [of x 0] by (cases "x = 0") auto

lemma round64_mono_pos:
  assumes "0 < x" and "x \<le> y"
  shows "round64 x \<le> round64 y"
proof (cases "quantum x = quantum y")
  case True
  have "x / quantum y \<le> y / quantum y" using assms(2) by (intro divide_right_mono) (auto intro: less_imp_le)
  then have "rne (x / quantum y) \<le> rne (y / quantum y)" by (rule rne_mono)
  then show ?thesis using assms True by (simp add: round64_def mult_right_mono)
next
  case False
  have b: "binexp x \<le> binexp y" using assms by (intro binexp_mono)
  then have q: "binexp y - 52 > - 1074" "binexp x < binexp y"
    using False assms by (auto simp: quantum_def max_def le_less split: if_splits)
  let ?z = "(2 :: rat) powi binexp y"
  have "x \<le> ?z" using binexp_bounds(2) [OF assms(1)] q(2) powi_le_iff [of "binexp x + 1" "binexp y"] by linarith
  moreover obtain i where "?z = of_int i * quantum x"
    using powi_int_multiple [of "max (binexp x - 52) (- 1074)" "binexp y"] q b assms by (auto simp: quantum_def)
  ultimately have "round64 x \<le> ?z" using round64_le_multiple [OF assms(1), of i] by simp
  moreover obtain j where j: "?z = of_int j * quantum y"
    using powi_int_multiple [of "max (binexp y - 52) (- 1074)" "binexp y"] q assms by (auto simp: quantum_def)
  have "?z \<le> round64 y"
    using round64_ge_multiple [of y j] j binexp_bounds(1) [of y] assms by auto
  ultimately show ?thesis by simp
qed

lemma round64_mono: "x \<le> y \<Longrightarrow> round64 x \<le> round64 y"
proof -
  assume le: "x \<le> y"
  consider "0 < x" | "x \<le> 0" "0 \<le> y" | "y < 0" by linarith
  then show ?thesis
  proof cases
    case 1
    then show ?thesis using le by (rule round64_mono_pos)
  next
    case 2
    have "round64 x \<le> 0" using round64_nonneg [of "- x"] 2 by (simp add: round64_minus)
    then show ?thesis using round64_nonneg [OF 2(2)] by simp
  next
    case 3
    then show ?thesis using round64_mono_pos [of "- y" "- x"] le by (simp add: round64_minus)
  qed
qed


subsection \<open>Results that are finite, exact, or bounded\<close>

lemma fl_0 [simp]: "fl 0 = Fin 0"
  by (simp add: fl_def)

lemma fl_exact:
  assumes "x = of_int m * 2 powi e" and "\<bar>m\<bar> \<le> 2 ^ 53" and "- 1074 \<le> e" and "\<bar>x\<bar> < 2 powi 1024"
  shows "fl x = Fin x"
  using round64_exact [OF assms(1-3)] assms(4) by (simp add: fl_def)

lemma powi_gt: "\<bar>i\<bar> \<le> 2 ^ n \<Longrightarrow> int n < k \<Longrightarrow> \<bar>of_int i :: rat\<bar> < 2 powi k"
proof -
  assume i: "\<bar>i\<bar> \<le> 2 ^ n" and k: "int n < k"
  have "\<bar>of_int i :: rat\<bar> \<le> of_int (2 ^ n)" using i by (simp only: of_int_abs [symmetric] of_int_le_iff)
  also have "\<dots> = 2 powi int n" by simp
  also have "\<dots> < 2 powi k" using k by (simp only: powi_less_iff)
  finally show ?thesis .
qed

lemma fl_int: "\<bar>i\<bar> \<le> 2 ^ 53 \<Longrightarrow> fl (of_int i) = Fin (of_int i)"
  using powi_gt [of i 53 1024] by (intro fl_exact [of _ i 0]) simp_all

text \<open>An integer with up to 53 bits before its trailing zeros.\<close>

lemma fl_shifted:
  assumes "\<bar>m\<bar> \<le> 2 ^ 53" and "k \<le> 900"
  shows "fl (of_int (m * 2 ^ k)) = Fin (of_int (m * 2 ^ k))"
proof (rule fl_exact [of _ m "int k"])
  have "\<bar>m * 2 ^ k\<bar> = \<bar>m\<bar> * 2 ^ k" by (simp add: abs_mult)
  also have "\<dots> \<le> 2 ^ 53 * 2 ^ k" using assms(1) by (intro mult_right_mono) simp_all
  also have "\<dots> = 2 ^ (53 + k)" by (simp add: power_add)
  finally show "\<bar>of_int (m * 2 ^ k) :: rat\<bar> < 2 powi 1024" using assms(2) by (intro powi_gt [of _ "53 + k"]) auto
qed (use assms in simp_all)

lemma round64_bound: "\<bar>x\<bar> \<le> 2 powi k \<Longrightarrow> - 1074 \<le> k \<Longrightarrow> \<bar>round64 x\<bar> \<le> 2 powi k"
proof -
  assume x: "\<bar>x\<bar> \<le> 2 powi k" and k: "- 1074 \<le> k"
  have "round64 (2 powi k) = 2 powi k" using k by (intro round64_exact [of _ 1 k]) simp_all
  then have "round64 x \<le> 2 powi k" "round64 (- x) \<le> 2 powi k"
    using x round64_mono [of x "2 powi k"] round64_mono [of "- x" "2 powi k"] by simp_all
  then show ?thesis by (simp add: round64_minus abs_le_iff)
qed

lemma fl_finite: "\<bar>x\<bar> \<le> 2 powi k \<Longrightarrow> - 1074 \<le> k \<Longrightarrow> k < 1024 \<Longrightarrow> fl x = Fin (round64 x)"
  using round64_bound [of x k] powi_less_iff [of k 1024] by (simp add: fl_def)

lemma round64_pos: "2 powi k \<le> x \<Longrightarrow> - 1074 \<le> k \<Longrightarrow> 2 powi k \<le> round64 x"
  using round64_mono [of "2 powi k" x] round64_exact [of "2 powi k" 1 k] by simp

text \<open>Rounding keeps a positive number between powers of two that bound it.\<close>

lemma fl_range:
  assumes "2 powi j \<le> x" and "x \<le> 2 powi k" and "- 1074 \<le> j" and "k < 1024"
  obtains y where "fl x = Fin y" "2 powi j \<le> y" "y \<le> 2 powi k"
proof -
  have "(0 :: rat) < 2 powi j" by simp
  then have pos: "0 < x" using assms(1) by linarith
  have "(2 :: rat) powi j \<le> 2 powi k" using assms(1,2) by linarith
  then have k: "- 1074 \<le> k" using assms(3) by (simp only: powi_le_iff)
  show ?thesis
  proof (rule that)
    show "fl x = Fin (round64 x)" using pos assms(2,4) k by (intro fl_finite) simp_all
    show "2 powi j \<le> round64 x" using assms(1,3) by (rule round64_pos)
    show "round64 x \<le> 2 powi k" using round64_bound [of x k] pos assms(2) k by simp
  qed
qed

lemma fl_between:
  assumes "lo \<le> x" and "x \<le> hi" and "round64 lo = lo" and "round64 hi = hi" and "\<bar>lo\<bar> < 2 powi 1024" and "\<bar>hi\<bar> < 2 powi 1024"
  obtains y where "fl x = Fin y" "lo \<le> y" "y \<le> hi"
proof -
  have r: "lo \<le> round64 x" "round64 x \<le> hi" using round64_mono [OF assms(1)] round64_mono [OF assms(2)] assms(3,4) by simp_all
  then have "\<bar>round64 x\<bar> < 2 powi 1024" using assms(5,6) by linarith
  then show ?thesis using that [of "round64 x"] r by (simp add: fl_def)
qed

text \<open>The relative error of one rounding of a number that is not tiny.\<close>

lemma round64_relative:
  assumes "2 powi (- 1022) \<le> \<bar>x\<bar>"
  shows "\<bar>round64 x - x\<bar> \<le> \<bar>x\<bar> * 2 powi (- 53)"
proof -
  have pos: "0 < \<bar>x\<bar>" using assms zero_less_power_int [of "2 :: rat" "- 1022"] by linarith
  have "- 1022 \<le> binexp \<bar>x\<bar>" using pos assms by (rule binexp_ge)
  then have "max (binexp \<bar>x\<bar> - 52) (- 1074) = binexp \<bar>x\<bar> + (- 52)" by linarith
  then have "quantum x = 2 powi (binexp \<bar>x\<bar> + (- 52))" by (simp only: quantum_def)
  also have "\<dots> = 2 powi binexp \<bar>x\<bar> * 2 powi (- 52)" by (rule power_int_add) simp
  also have "\<dots> \<le> \<bar>x\<bar> * 2 powi (- 52)" using binexp_bounds(1) [OF pos] by (intro mult_right_mono) simp_all
  finally show ?thesis using round64_error [of x] by (simp add: power_int_minus field_simps)
qed

text \<open>A rounded product, and the error of roundings in a row.\<close>

lemma d_mul_relative:
  assumes "2 powi (- 1022) \<le> \<bar>a * b\<bar>" and "\<bar>a * b\<bar> \<le> 2 powi 1000"
  obtains z where "d_mul (Fin a) (Fin b) = Fin z" "\<bar>z - a * b\<bar> \<le> \<bar>a * b\<bar> / 2 ^ 53"
proof (rule that)
  show "d_mul (Fin a) (Fin b) = Fin (round64 (a * b))" using fl_finite [OF assms(2)] by simp
  show "\<bar>round64 (a * b) - a * b\<bar> \<le> \<bar>a * b\<bar> / 2 ^ 53"
    using round64_relative [OF assms(1)] by (simp add: power_int_minus field_simps)
qed

lemma within_factor_two:
  fixes p q :: rat
  assumes "\<bar>q - p\<bar> \<le> \<bar>p\<bar> / 2 ^ 53"
  shows "\<bar>p\<bar> / 2 \<le> \<bar>q\<bar>" and "\<bar>q\<bar> \<le> 2 * \<bar>p\<bar>"
proof -
  have "\<bar>q\<bar> \<le> \<bar>q - p\<bar> + \<bar>p\<bar>" using abs_triangle_ineq [of "q - p" p] by simp
  moreover have "\<bar>p\<bar> \<le> \<bar>q - p\<bar> + \<bar>q\<bar>" using abs_triangle_ineq [of "p - q" q] by (simp add: abs_minus_commute)
  moreover have "\<bar>p\<bar> / 2 ^ 53 \<le> \<bar>p\<bar> / 2" by (intro divide_left_mono) simp_all
  ultimately show "\<bar>p\<bar> / 2 \<le> \<bar>q\<bar>" and "\<bar>q\<bar> \<le> 2 * \<bar>p\<bar>" using assms abs_ge_zero [of p] by linarith+
qed

lemma two_roundings:
  fixes p q r :: rat
  assumes "\<bar>q - p\<bar> \<le> \<bar>p\<bar> / 2 ^ 53" and "\<bar>r - q\<bar> \<le> \<bar>q\<bar> / 2 ^ 53"
  shows "\<bar>r - p\<bar> \<le> \<bar>p\<bar> * (9 / 4) / 2 ^ 53"
proof -
  have "\<bar>q\<bar> \<le> \<bar>q - p\<bar> + \<bar>p\<bar>" using abs_triangle_ineq [of "q - p" p] by simp
  moreover have "\<bar>r - p\<bar> \<le> \<bar>r - q\<bar> + \<bar>q - p\<bar>" using abs_triangle_ineq [of "r - q" "q - p"] by simp
  ultimately show ?thesis using assms by simp (use abs_ge_zero [of p] in linarith)
qed

lemma three_roundings:
  fixes p q r s :: rat
  assumes "\<bar>q - p\<bar> \<le> \<bar>p\<bar> / 2 ^ 53" and "\<bar>r - q\<bar> \<le> \<bar>q\<bar> / 2 ^ 53" and "\<bar>s - r\<bar> \<le> \<bar>r\<bar> / 2 ^ 53"
  shows "\<bar>s - p\<bar> \<le> \<bar>p\<bar> / 2 ^ 51"
proof -
  have "\<bar>r\<bar> \<le> \<bar>r - p\<bar> + \<bar>p\<bar>" using abs_triangle_ineq [of "r - p" p] by simp
  moreover have "\<bar>s - p\<bar> \<le> \<bar>s - r\<bar> + \<bar>r - p\<bar>" using abs_triangle_ineq [of "s - r" "r - p"] by simp
  ultimately show ?thesis using two_roundings [OF assms(1,2)] assms(3) by simp (use abs_ge_zero [of p] in linarith)
qed

end
