(* ===== verification/Parse_Double.thy ===== *)
theory Parse_Double
  imports String_Utils Binary64
begin

section \<open>Parsing decimal numbers (include/revoq/StringUtils.hpp)\<close>

text \<open>
  The two parsers of \<^verbatim>\<open>StringUtils\<close> that compute in \<^verbatim>\<open>double\<close>.  Every step rounds, as compiled without
  contraction of products and sums.  \<^verbatim>\<open>fast_parse_double\<close> is given text that is terminated by a zero
  byte, so that it may look at the first character of an empty text.
\<close>

subsection \<open>The parsers\<close>

definition pow10_negative :: "double list" where
  "pow10_negative = map (\<lambda>k. fl (1 / 10 ^ k)) [0..<16]"

fun fast_parse_loop :: "string \<Rightarrow> u64 \<Rightarrow> int \<Rightarrow> u64 \<times> int" where
  "fast_parse_loop [] mantissa decimals = (mantissa, decimals)"
| "fast_parse_loop (c # cs) mantissa decimals =
     (if is_digit c then
        fast_parse_loop cs (mantissa * 10 + of_int (digit_val c))
          (if decimals \<ge> 0 then decimals + 1 else decimals)
      else if c = CHR ''.'' \<and> decimals < 0 then fast_parse_loop cs mantissa 0
      else (mantissa, decimals))"

text \<open>
  With decimals, \<^verbatim>\<open>sign * mantissa\<close> is a product of an \<^verbatim>\<open>int\<close> and a \<^verbatim>\<open>uint64_t\<close> and so computed modulo
  \<open>2 ^ 64\<close>, before it becomes a \<^verbatim>\<open>double\<close>.  \<open>Segv\<close> is an index past the end of the table.
\<close>

definition fast_parse_double :: "string \<Rightarrow> error + double" where
  "fast_parse_double str =
     (let neg = (str \<noteq> [] \<and> hd str = CHR ''-'');
          (mantissa, decimals) = fast_parse_loop (if neg then tl str else str) 0 (-1)
      in if decimals \<le> 0 then Inr (d_mul (d_of_int (if neg then -1 else 1)) (d_of_int (uint mantissa)))
         else if decimals \<ge> 16 then Inl Segv
         else Inr (d_mul (d_of_int (uint ((if neg then -1 else 1) * mantissa))) (pow10_negative ! nat decimals)))"

fun parse_integer_part :: "string \<Rightarrow> double \<Rightarrow> double \<times> string" where
  "parse_integer_part [] result = (result, [])"
| "parse_integer_part (c # cs) result =
     (if is_digit c then parse_integer_part cs (d_add (d_mul result (d_of_int 10)) (d_of_int (digit_val c)))
      else (result, c # cs))"

fun parse_fraction :: "string \<Rightarrow> double \<Rightarrow> double \<Rightarrow> double \<times> string" where
  "parse_fraction [] result fraction = (result, [])"
| "parse_fraction (c # cs) result fraction =
     (if is_digit c then
        parse_fraction cs (d_add result (d_mul (d_of_int (digit_val c)) fraction)) (d_mul fraction (fl (1 / 10)))
      else (result, c # cs))"

definition parseDouble :: "string \<Rightarrow> double option" where
  "parseDouble s =
     (if s = [] then None
      else let negative = (hd s = CHR ''-'');
               rest = (if hd s = CHR ''-'' \<or> hd s = CHR ''+'' then tl s else s)
           in if rest = [] then None
              else let (result, rest) = parse_integer_part rest (Fin 0);
                       (result, rest) = (if rest \<noteq> [] \<and> hd rest = CHR ''.''
                         then parse_fraction (tl rest) result (fl (1 / 10)) else (result, rest))
                   in if rest \<noteq> [] then None else Some (if negative then d_neg result else result))"

subsection \<open>Integers are exact\<close>

lemma digit_val_range: "is_digit c \<Longrightarrow> 0 \<le> digit_val c \<and> digit_val c \<le> 9"
  by (simp add: is_digit_def digit_val_def ascii_def)

lemma d_of_int_exact: "\<bar>i\<bar> \<le> 2 ^ 53 \<Longrightarrow> d_of_int i = Fin (of_int i)"
  by (simp add: d_of_int_def fl_int)

abbreviation read_digits :: "int \<Rightarrow> string \<Rightarrow> int" where
  "read_digits r s \<equiv> foldl (\<lambda>r c. r * 10 + digit_val c) r s"

lemma parse_integer_part_digits:
  assumes "\<forall>c\<in>set s. is_digit c" and "0 \<le> r" and "read_digits r s \<le> 2 ^ 53"
  shows "parse_integer_part s (Fin (of_int r)) = (Fin (of_int (read_digits r s)), [])"
  using assms
proof (induction s arbitrary: r)
  case (Cons c s)
  have d: "0 \<le> digit_val c" "digit_val c \<le> 9" using digit_val_range [of c] Cons.prems(1) by auto
  have "r * 10 + digit_val c \<le> 2 ^ 53"
    using foldl_digits_mono [of s "r * 10 + digit_val c"] Cons.prems d by simp
  then have "fl (of_int (r * 10)) = Fin (of_int (r * 10))" "fl (of_int (r * 10 + digit_val c)) = Fin (of_int (r * 10 + digit_val c))"
    using Cons.prems(2) d by (intro fl_int; simp)+
  moreover have "d_of_int 10 = Fin 10" "d_of_int (digit_val c) = Fin (of_int (digit_val c))"
    using d d_of_int_exact [of 10] d_of_int_exact [of "digit_val c"] by simp_all
  ultimately show ?case using Cons.prems Cons.IH [of "r * 10 + digit_val c"] d by simp
qed simp

lemma fast_parse_loop_digits:
  "\<forall>c\<in>set s. is_digit c \<Longrightarrow>
   fast_parse_loop (s @ t) (of_int r) n = fast_parse_loop t (of_int (read_digits r s)) (if n \<ge> 0 then n + int (length s) else n)"
proof (induction s arbitrary: r n)
  case (Cons c s)
  then show ?case using Cons.IH [of "r * 10 + digit_val c" "if n \<ge> 0 then n + 1 else n"] by (auto simp: add.assoc)
qed simp

lemma digits_no_sign: "\<forall>c\<in>set s. is_digit c \<Longrightarrow> s \<noteq> [] \<Longrightarrow> hd s \<noteq> CHR ''-'' \<and> hd s \<noteq> CHR ''+'' \<and> hd s \<noteq> CHR ''.''"
  using digit_not_sign [of "hd s"] by (cases s) auto

lemma show_nat_value: "read_digits 0 (show_nat n) = int n"
  using digits_value_show_nat [of n] by (simp add: digits_value_def)

lemma show_int_parts:
  "show_int i \<noteq> [] \<and> (hd (show_int i) = CHR ''-'' \<longleftrightarrow> i < 0) \<and> hd (show_int i) \<noteq> CHR ''+'' \<and>
   (if i < 0 then tl (show_int i) else show_int i) = show_nat (nat \<bar>i\<bar>)"
  using digits_no_sign [OF show_nat_digits show_nat_nonempty, of "nat \<bar>i\<bar>"] by (cases "i < 0") (simp_all add: show_int_def)

lemma parseDouble_show_int:
  assumes "\<bar>i\<bar> \<le> 2 ^ 53"
  shows "parseDouble (show_int i) = Some (Fin (of_int i))"
proof -
  have "parse_integer_part (show_nat (nat \<bar>i\<bar>)) (Fin (of_int 0)) = (Fin (of_int \<bar>i\<bar>), [])"
    using assms parse_integer_part_digits [OF show_nat_digits, of 0 "nat \<bar>i\<bar>"] by (simp add: show_nat_value)
  moreover have "show_nat (nat \<bar>i\<bar>) \<noteq> []" by simp
  ultimately show ?thesis using show_int_parts [of i]
    by (cases "i < 0") (auto simp: parseDouble_def Let_def)
qed

lemma fast_parse_double_show_int:
  assumes "\<bar>i\<bar> \<le> 2 ^ 53"
  shows "fast_parse_double (show_int i) = Inr (Fin (of_int i))"
proof -
  have loop: "fast_parse_loop (show_nat (nat \<bar>i\<bar>)) 0 (- 1) = (of_int \<bar>i\<bar>, - 1)"
    using fast_parse_loop_digits [OF show_nat_digits, of "nat \<bar>i\<bar>" "[]" 0 "- 1"] by (simp add: show_nat_value)
  have "uint (of_int \<bar>i\<bar> :: u64) = \<bar>i\<bar>" using assms by (simp add: uint_word_of_int_eq take_bit_int_eq_self)
  then have "d_mul (d_of_int (if i < 0 then - 1 else 1)) (d_of_int (uint (of_int \<bar>i\<bar> :: u64))) = Fin (of_int i)"
    using assms d_of_int_exact [of "\<bar>i\<bar>"] d_of_int_exact [of 1] d_of_int_exact [of "- 1"] fl_int [of i] by (simp add: abs_if)
  then show ?thesis using loop show_int_parts [of i] by (cases "i < 0") (auto simp: fast_parse_double_def Let_def)
qed

subsection \<open>Decimals\<close>

lemma pow10_negative_nth: "k < 16 \<Longrightarrow> pow10_negative ! k = fl (1 / 10 ^ k)"
  by (simp add: pow10_negative_def)

lemma fast_parse_double_decimals:
  assumes "\<forall>c\<in>set (a @ b). is_digit c" and "a \<noteq> []" and "b \<noteq> []" and "length b < 16" and "digits_value (a @ b) < 2 ^ 64"
  shows "fast_parse_double (a @ ''.'' @ b) = Inr (d_mul (d_of_int (digits_value (a @ b))) (fl (1 / 10 ^ length b)))"
    and "digits_value (a @ b) \<noteq> 0 \<Longrightarrow> fast_parse_double (CHR ''-'' # a @ ''.'' @ b) =
      Inr (d_mul (d_of_int (2 ^ 64 - digits_value (a @ b))) (fl (1 / 10 ^ length b)))"
proof -
  let ?m = "digits_value (a @ b)"
  have nn: "0 \<le> ?m" using foldl_digits_mono [of "a @ b" 0] assms(1) by (simp add: digits_value_def)
  have "fast_parse_loop (b @ []) (of_int (read_digits 0 a)) 0 = (of_int ?m, int (length b))"
    using fast_parse_loop_digits [of b "[]" "read_digits 0 a" 0] assms(1) by (simp add: digits_value_def)
  then have loop: "fast_parse_loop (a @ ''.'' @ b) 0 (- 1) = (of_int ?m, int (length b))"
    using fast_parse_loop_digits [of a "''.'' @ b" 0 "- 1"] assms(1) digit_not_sign by auto
  have u: "uint (of_int ?m :: u64) = ?m" using nn assms(5) by (simp add: uint_word_of_int_eq take_bit_int_eq_self)
  show "fast_parse_double (a @ ''.'' @ b) = Inr (d_mul (d_of_int ?m) (fl (1 / 10 ^ length b)))"
    using loop u assms(1-4) digits_no_sign [of a] pow10_negative_nth [OF assms(4)] by (simp add: fast_parse_double_def Let_def)
  assume "?m \<noteq> 0"
  then have "(- ?m) mod 2 ^ 64 = 2 ^ 64 - ?m" using nn assms(5) by (simp add: zmod_zminus1_eq_if)
  then have "uint (- of_int ?m :: u64) = 2 ^ 64 - ?m" by (simp add: uint_word_of_int_eq take_bit_eq_mod flip: of_int_minus)
  then show "fast_parse_double (CHR ''-'' # a @ ''.'' @ b) = Inr (d_mul (d_of_int (2 ^ 64 - ?m)) (fl (1 / 10 ^ length b)))"
    using loop assms(2-4) pow10_negative_nth [OF assms(4)] by (simp add: fast_parse_double_def Let_def)
qed

text \<open>The table entries, and the mantissa they are multiplied with, are within one rounding of what they stand for.\<close>

lemma tenth_power_range:
  assumes "k < 16"
  shows "2 powi (- 50) \<le> (1 :: rat) / 10 ^ k" and "(1 :: rat) / 10 ^ k \<le> 2 powi 0"
proof -
  have "(10 :: rat) ^ k \<le> 10 ^ 15" using assms by (intro power_increasing) simp_all
  also have "\<dots> \<le> 2 powi 50" by simp
  finally show "2 powi (- 50) \<le> (1 :: rat) / 10 ^ k" by (simp add: power_int_minus field_simps)
  show "(1 :: rat) / 10 ^ k \<le> 2 powi 0" by simp
qed

text \<open>C39: A negative decimal number never parses as itself in \<^verbatim>\<open>fast_parse_double\<close>: the digits without the point,
  negated modulo \<open>2 ^ 64\<close>, are scaled down instead, so that \<^verbatim>\<open>"-a.b"\<close> comes out as a number of at least
  8192, and never as a negative one.\<close>

theorem fast_parse_double_negative_decimal:
  assumes "\<forall>c\<in>set (a @ b). is_digit c" and "a \<noteq> []" and "b \<noteq> []" and "length b < 16"
    and "0 < digits_value (a @ b)" and "digits_value (a @ b) < 2 ^ 63"
  shows "\<exists>y. fast_parse_double (CHR ''-'' # a @ ''.'' @ b) = Inr (Fin y) \<and> 8192 \<le> y"
proof -
  let ?m = "digits_value (a @ b)"
  have "(2 :: rat) powi 63 \<le> of_int (2 ^ 64 - ?m)" "of_int (2 ^ 64 - ?m) \<le> (2 :: rat) powi 64"
    using assms(5,6) by simp_all
  then obtain x where x: "d_of_int (2 ^ 64 - ?m) = Fin x" "2 powi 63 \<le> x" "x \<le> 2 powi 64"
    unfolding d_of_int_def by (rule fl_range) simp_all
  obtain y where y: "fl (1 / 10 ^ length b) = Fin y" "2 powi (- 50) \<le> y" "y \<le> 2 powi 0"
    using tenth_power_range [OF assms(4)] by (rule fl_range) simp_all
  have "2 powi 63 * 2 powi (- 50) \<le> x * y" using x(2) y(2) by (intro mult_mono) simp_all
  moreover have "x * y \<le> 2 powi 64 * 2 powi 0" using x(2,3) y(2,3) by (intro mult_mono) auto
  ultimately have "2 powi 13 \<le> x * y" "x * y \<le> 2 powi 64" by (simp_all add: power_int_minus)
  then obtain z where "fl (x * y) = Fin z" "2 powi 13 \<le> z" by (rule fl_range) simp_all
  then show ?thesis
    using fast_parse_double_decimals(2) [OF assms(1-4)] assms(5,6) x(1) y(1) by simp
qed

theorem fast_parse_double_negative_decimal_witness:
  "\<exists>y. fast_parse_double ''-1.5'' = Inr (Fin y) \<and> 8192 \<le> y"
proof -
  have "digits_value ''15'' = 15" "\<forall>c\<in>set ''15''. is_digit c" by code_simp+
  then show ?thesis using fast_parse_double_negative_decimal [of "''1''" "''5''"] by simp
qed

text \<open>C38: An unsigned decimal number of at most fifteen decimals, whose digits without the point make at most
  \<open>2 ^ 53\<close>, is parsed by \<^verbatim>\<open>fast_parse_double\<close> with a relative error of at most \<open>2 ^ -51\<close>.\<close>

theorem fast_parse_double_accurate:
  assumes "\<forall>c\<in>set (a @ b). is_digit c" and "a \<noteq> []" and "b \<noteq> []" and "length b < 16"
    and "digits_value (a @ b) \<le> 2 ^ 53"
  defines "v \<equiv> of_int (digits_value (a @ b)) / 10 ^ length b"
  shows "\<exists>y. fast_parse_double (a @ ''.'' @ b) = Inr (Fin y) \<and> \<bar>y - v\<bar> \<le> v / 2 ^ 51"
proof -
  let ?m = "digits_value (a @ b)" and ?t = "(1 :: rat) / 10 ^ length b"
  have nn: "0 \<le> ?m" using foldl_digits_mono [of "a @ b" 0] assms(1) by (simp add: digits_value_def)
  have parse: "fast_parse_double (a @ ''.'' @ b) = Inr (d_mul (Fin (of_int ?m)) (fl ?t))"
    using fast_parse_double_decimals(1) [OF assms(1-4)] assms(5) nn d_of_int_exact [of ?m] by simp
  have tr: "2 powi (- 50) \<le> ?t" "?t \<le> 2 powi 0" using tenth_power_range [OF assms(4)] by auto
  obtain y where y: "fl ?t = Fin y" "2 powi (- 50) \<le> y" "y \<le> 2 powi 0" using tr by (rule fl_range) simp_all
  have fy: "y = round64 ?t" using y(1) by (auto simp: fl_def split: if_splits)
  show ?thesis
  proof (cases "?m = 0")
    case True
    then show ?thesis using parse y(1) by (simp add: v_def)
  next
    case False
    have m: "1 \<le> (of_int ?m :: rat)" "(of_int ?m :: rat) \<le> 2 powi 53" using False nn assms(5) by simp_all
    have lo: "2 powi (- 50) \<le> of_int ?m * y" using mult_mono [of 1 "of_int ?m" "2 powi (- 50)" y] m(1) y(2) by simp
    have hi: "of_int ?m * y \<le> 2 powi 53" using mult_mono [of "of_int ?m" "2 powi 53" y 1] m y by auto
    have pos: "0 < of_int ?m * y" using lo zero_less_power_int [of "2 :: rat" "- 50"] by linarith
    have "2 powi (- 1022) \<le> \<bar>of_int ?m * y\<bar>" "\<bar>of_int ?m * y\<bar> \<le> 2 powi 1000"
      using lo hi pos powi_le_iff [of "- 1022" "- 50"] powi_le_iff [of 53 1000] by linarith+
    then obtain z where z: "d_mul (Fin (of_int ?m)) (Fin y) = Fin z" "\<bar>z - of_int ?m * y\<bar> \<le> \<bar>of_int ?m * y\<bar> / 2 ^ 53"
      by (rule d_mul_relative)
    have "\<bar>y - ?t\<bar> \<le> ?t / 2 ^ 53"
      using round64_relative [of ?t] tr powi_le_iff [of "- 1022" "- 50"] fy by (simp add: power_int_minus field_simps)
    then have "of_int ?m * \<bar>y - ?t\<bar> \<le> of_int ?m * (?t / 2 ^ 53)" using nn by (intro mult_left_mono) simp_all
    moreover have "\<bar>of_int ?m * y - v\<bar> = of_int ?m * \<bar>y - ?t\<bar>"
      using nn abs_mult [of "of_int ?m" "y - ?t"] by (simp add: v_def right_diff_distrib)
    moreover have v: "0 \<le> v" using nn by (simp add: v_def)
    ultimately have "\<bar>of_int ?m * y - v\<bar> \<le> \<bar>v\<bar> / 2 ^ 53" using nn by (simp add: v_def)
    then have "\<bar>z - v\<bar> \<le> v / 2 ^ 51" using two_roundings [OF _ z(2)] v by fastforce
    then show ?thesis using parse y(1) z(1) by simp
  qed
qed

theorem fast_parse_double_accurate_witness:
  "\<exists>y. fast_parse_double ''12.34'' = Inr (Fin y) \<and> \<bar>y - 1234 / 100\<bar> \<le> 1234 / 100 / 2 ^ 51"
proof -
  have "digits_value ''1234'' = 1234" "\<forall>c\<in>set ''1234''. is_digit c" by code_simp+
  then show ?thesis using fast_parse_double_accurate [of "''12''" "''34''"] by simp
qed

text \<open>Both parsers read the decimal text of an integer of magnitude at most \<open>2 ^ 53\<close> as exactly that
  integer, negative ones included.\<close>

theorem parsers_read_integers:
  assumes "\<bar>i\<bar> \<le> 2 ^ 53"
  shows "parseDouble (show_int i) = Some (Fin (of_int i)) \<and> fast_parse_double (show_int i) = Inr (Fin (of_int i))"
  using parseDouble_show_int [OF assms] fast_parse_double_show_int [OF assms] by simp

theorem parsers_read_integers_witness:
  "parseDouble (show_int (- 42)) = Some (Fin (- 42)) \<and> fast_parse_double (show_int (- 42)) = Inr (Fin (- 42))"
  using parsers_read_integers [of "- 42"] by simp

end
