(* ===== verification/Time_Utils.thy ===== *)
theory Time_Utils
  imports String_Utils Revoq_Prelude "HOL-Library.Signed_Division"
begin

section \<open>Timestamps and durations\<close>

text \<open>
  Classes \<^verbatim>\<open>Timestamp\<close> and \<^verbatim>\<open>Duration\<close> (include/revoq/TimeUtils.h, src/TimeUtils.cpp): nanoseconds in
  an \<^verbatim>\<open>int64_t\<close>, their arithmetic and order, and the conversion to text and back.  The members are
  64-bit words read as signed numbers; sums and differences wrap as the hardware does (in C++ an overflow
  is undefined).  Of the C library the theory models what the source uses: \<^verbatim>\<open>gmtime_r\<close> and \<^verbatim>\<open>timegm\<close> on
  the Gregorian calendar, the integer conversions of \<^verbatim>\<open>snprintf\<close>, and \<^verbatim>\<open>std::get_time\<close> with two and
  four digit fields in their ranges.  The constructors of \<^verbatim>\<open>Duration\<close> that take a \<^verbatim>\<open>double\<close> are in
  the theory of durations.
\<close>

subsection \<open>Timestamp\<close>

datatype Timestamp = Timestamp (ts_nsec: u64)

definition ts_microsec :: "Timestamp \<Rightarrow> int" where
  "ts_microsec ts = sint (ts_nsec ts) sdiv 1000"

definition ts_millisec :: "Timestamp \<Rightarrow> int" where
  "ts_millisec ts = sint (ts_nsec ts) sdiv 1000000"

definition ts_sec :: "Timestamp \<Rightarrow> int" where
  "ts_sec ts = sint (ts_nsec ts) sdiv 1000000000"

definition ts_min :: Timestamp where
  "ts_min = Timestamp 0"

definition ts_invalid :: Timestamp where
  "ts_invalid = Timestamp (word_of_int (- (2 ^ 63)))"

definition MAX_TIME :: Timestamp where
  "MAX_TIME = Timestamp 4102444800000000000"

definition ts_isValid :: "Timestamp \<Rightarrow> bool" where
  "ts_isValid ts \<longleftrightarrow> sint (ts_nsec ts) \<ge> 0"

definition ts_less :: "Timestamp \<Rightarrow> Timestamp \<Rightarrow> bool" where
  "ts_less a b \<longleftrightarrow> sint (ts_nsec a) < sint (ts_nsec b)"

definition ts_less_eq :: "Timestamp \<Rightarrow> Timestamp \<Rightarrow> bool" where
  "ts_less_eq a b \<longleftrightarrow> sint (ts_nsec a) \<le> sint (ts_nsec b)"

definition ts_greater :: "Timestamp \<Rightarrow> Timestamp \<Rightarrow> bool" where
  "ts_greater a b \<longleftrightarrow> sint (ts_nsec a) > sint (ts_nsec b)"

definition ts_greater_eq :: "Timestamp \<Rightarrow> Timestamp \<Rightarrow> bool" where
  "ts_greater_eq a b \<longleftrightarrow> sint (ts_nsec a) \<ge> sint (ts_nsec b)"

definition ts_equals :: "Timestamp \<Rightarrow> Timestamp \<Rightarrow> bool" where
  "ts_equals a b \<longleftrightarrow> ts_nsec a = ts_nsec b"

definition ts_differs :: "Timestamp \<Rightarrow> Timestamp \<Rightarrow> bool" where
  "ts_differs a b \<longleftrightarrow> ts_nsec a \<noteq> ts_nsec b"

instantiation Timestamp :: linorder
begin

definition less_eq_Timestamp :: "Timestamp \<Rightarrow> Timestamp \<Rightarrow> bool" where
  "a \<le> b \<longleftrightarrow> ts_less_eq a b"

definition less_Timestamp :: "Timestamp \<Rightarrow> Timestamp \<Rightarrow> bool" where
  "a < b \<longleftrightarrow> ts_less a b"

instance
proof
  fix a b c :: Timestamp
  show "a < b \<longleftrightarrow> a \<le> b \<and> \<not> b \<le> a" by (auto simp: less_eq_Timestamp_def ts_less_eq_def less_Timestamp_def ts_less_def)
  show "a \<le> a" by (simp add: less_eq_Timestamp_def ts_less_eq_def)
  show "a \<le> b \<Longrightarrow> b \<le> c \<Longrightarrow> a \<le> c" by (simp add: less_eq_Timestamp_def ts_less_eq_def)
  show "a \<le> b \<Longrightarrow> b \<le> a \<Longrightarrow> a = b"
    by (metis less_eq_Timestamp_def ts_less_eq_def order_antisym signed_word_eqI Timestamp.expand)
  show "a \<le> b \<or> b \<le> a" by (auto simp: less_eq_Timestamp_def ts_less_eq_def)
qed

end

lemma ts_order: "ts_less a b \<longleftrightarrow> a < b" "ts_less_eq a b \<longleftrightarrow> a \<le> b" "ts_greater a b \<longleftrightarrow> b < a"
  "ts_greater_eq a b \<longleftrightarrow> b \<le> a" "ts_equals a b \<longleftrightarrow> a = b" "ts_differs a b \<longleftrightarrow> a \<noteq> b"
  by (auto simp: less_Timestamp_def less_eq_Timestamp_def ts_less_def ts_less_eq_def ts_greater_def ts_greater_eq_def
      ts_equals_def ts_differs_def Timestamp.expand)

subsection \<open>Duration\<close>

datatype Duration = Duration (dur_nsec: u64)

definition dur_from_nsec :: "u64 \<Rightarrow> Duration" where
  "dur_from_nsec nsec = Duration nsec"

definition dur_less :: "Duration \<Rightarrow> Duration \<Rightarrow> bool" where
  "dur_less a b \<longleftrightarrow> sint (dur_nsec a) < sint (dur_nsec b)"

definition dur_less_eq :: "Duration \<Rightarrow> Duration \<Rightarrow> bool" where
  "dur_less_eq a b \<longleftrightarrow> sint (dur_nsec a) \<le> sint (dur_nsec b)"

definition dur_greater :: "Duration \<Rightarrow> Duration \<Rightarrow> bool" where
  "dur_greater a b \<longleftrightarrow> sint (dur_nsec a) > sint (dur_nsec b)"

definition dur_greater_eq :: "Duration \<Rightarrow> Duration \<Rightarrow> bool" where
  "dur_greater_eq a b \<longleftrightarrow> sint (dur_nsec a) \<ge> sint (dur_nsec b)"

definition dur_equals :: "Duration \<Rightarrow> Duration \<Rightarrow> bool" where
  "dur_equals a b \<longleftrightarrow> dur_nsec a = dur_nsec b"

definition dur_differs :: "Duration \<Rightarrow> Duration \<Rightarrow> bool" where
  "dur_differs a b \<longleftrightarrow> dur_nsec a \<noteq> dur_nsec b"

instantiation Duration :: linorder
begin

definition less_eq_Duration :: "Duration \<Rightarrow> Duration \<Rightarrow> bool" where
  "a \<le> b \<longleftrightarrow> dur_less_eq a b"

definition less_Duration :: "Duration \<Rightarrow> Duration \<Rightarrow> bool" where
  "a < b \<longleftrightarrow> dur_less a b"

instance
proof
  fix a b c :: Duration
  show "a < b \<longleftrightarrow> a \<le> b \<and> \<not> b \<le> a" by (auto simp: less_eq_Duration_def dur_less_eq_def less_Duration_def dur_less_def)
  show "a \<le> a" by (simp add: less_eq_Duration_def dur_less_eq_def)
  show "a \<le> b \<Longrightarrow> b \<le> c \<Longrightarrow> a \<le> c" by (simp add: less_eq_Duration_def dur_less_eq_def)
  show "a \<le> b \<Longrightarrow> b \<le> a \<Longrightarrow> a = b"
    by (metis less_eq_Duration_def dur_less_eq_def order_antisym signed_word_eqI Duration.expand)
  show "a \<le> b \<or> b \<le> a" by (auto simp: less_eq_Duration_def dur_less_eq_def)
qed

end

lemma dur_order: "dur_less a b \<longleftrightarrow> a < b" "dur_less_eq a b \<longleftrightarrow> a \<le> b" "dur_greater a b \<longleftrightarrow> b < a"
  "dur_greater_eq a b \<longleftrightarrow> b \<le> a" "dur_equals a b \<longleftrightarrow> a = b" "dur_differs a b \<longleftrightarrow> a \<noteq> b"
  by (auto simp: less_Duration_def less_eq_Duration_def dur_less_def dur_less_eq_def dur_greater_def dur_greater_eq_def
      dur_equals_def dur_differs_def Duration.expand)

definition dur_plus :: "Duration \<Rightarrow> Duration \<Rightarrow> Duration" where
  "dur_plus a b = Duration (dur_nsec a + dur_nsec b)"

definition dur_minus :: "Duration \<Rightarrow> Duration \<Rightarrow> Duration" where
  "dur_minus a b = Duration (dur_nsec a - dur_nsec b)"

definition dur_neg :: "Duration \<Rightarrow> Duration" where
  "dur_neg a = Duration (- dur_nsec a)"

definition dur_plus_assign :: "Duration \<Rightarrow> Duration \<Rightarrow> Duration" where
  "dur_plus_assign self duration = Duration (dur_nsec self + dur_nsec duration)"

definition dur_minus_assign :: "Duration \<Rightarrow> Duration \<Rightarrow> Duration" where
  "dur_minus_assign self duration = Duration (dur_nsec self - dur_nsec duration)"

definition ts_plus :: "Timestamp \<Rightarrow> Duration \<Rightarrow> Timestamp" where
  "ts_plus t d = Timestamp (ts_nsec t + dur_nsec d)"

definition ts_minus :: "Timestamp \<Rightarrow> Duration \<Rightarrow> Timestamp" where
  "ts_minus t d = Timestamp (ts_nsec t - dur_nsec d)"

definition ts_plus_assign :: "Timestamp \<Rightarrow> Duration \<Rightarrow> Timestamp" where
  "ts_plus_assign self duration = Timestamp (ts_nsec self + dur_nsec duration)"

definition ts_minus_assign :: "Timestamp \<Rightarrow> Duration \<Rightarrow> Timestamp" where
  "ts_minus_assign self duration = Timestamp (ts_nsec self - dur_nsec duration)"

definition ts_diff :: "Timestamp \<Rightarrow> Timestamp \<Rightarrow> Duration" where
  "ts_diff a b = Duration (ts_nsec a - ts_nsec b)"

text \<open>\<^verbatim>\<open>TimeUtils::now\<close> from what \<^verbatim>\<open>clock_gettime\<close> stores.\<close>

definition time_now :: "u64 \<Rightarrow> u64 \<Rightarrow> Timestamp" where
  "time_now tv_sec tv_nsec = Timestamp (tv_sec * 1000000000 + tv_nsec)"

subsection \<open>The calendar\<close>

record tm =
  tm_sec :: int
  tm_min :: int
  tm_hour :: int
  tm_mday :: int
  tm_mon :: nat
  tm_year :: int

definition leap :: "int \<Rightarrow> bool" where
  "leap y \<longleftrightarrow> y mod 4 = 0 \<and> (y mod 100 \<noteq> 0 \<or> y mod 400 = 0)"

definition year_days :: "int \<Rightarrow> nat" where
  "year_days y = (if leap y then 366 else 365)"

definition month_days :: "int \<Rightarrow> nat list" where
  "month_days y = [31, if leap y then 29 else 28, 31, 30, 31, 30, 31, 31, 30, 31, 30, 31]"

text \<open>From day \<open>n\<close> counted from the first of January of year \<open>y\<close> to a year and a day in it.\<close>

function year_forth :: "int \<Rightarrow> nat \<Rightarrow> int \<times> nat" where
  "year_forth y n = (if n < year_days y then (y, n) else year_forth (y + 1) (n - year_days y))"
  by pat_completeness auto
termination by (relation "measure snd") (auto simp: year_days_def)

function year_back :: "int \<Rightarrow> nat \<Rightarrow> int \<times> nat" where
  "year_back y n = (if n \<le> year_days (y - 1) then (y - 1, year_days (y - 1) - n) else year_back (y - 1) (n - year_days (y - 1)))"
  by pat_completeness auto
termination by (relation "measure snd") (auto simp: year_days_def)

declare year_forth.simps [simp del] year_back.simps [simp del]

fun month_of :: "nat list \<Rightarrow> nat \<Rightarrow> nat \<times> nat" where
  "month_of [] d = (0, d)"
| "month_of (l # ls) d = (if d < l then (0, d) else (case month_of ls (d - l) of (m, r) \<Rightarrow> (Suc m, r)))"

definition gmtime :: "int \<Rightarrow> tm" where
  "gmtime t =
     (let days = t div 86400; s = t mod 86400;
          (y, d) = (if days \<ge> 0 then year_forth 1970 (nat days) else year_back 1970 (nat (- days)));
          (m, r) = month_of (month_days y) d
      in \<lparr>tm_sec = s mod 60, tm_min = s div 60 mod 60, tm_hour = s div 3600, tm_mday = int r + 1, tm_mon = m,
          tm_year = y - 1900\<rparr>)"

definition days_before_year :: "int \<Rightarrow> int" where
  "days_before_year y =
     (if y \<ge> 1970 then int (sum_list (map year_days [1970..y - 1])) else - int (sum_list (map year_days [y..1969])))"

definition timegm :: "tm \<Rightarrow> int" where
  "timegm t =
     (let y = tm_year t + 1900;
          days = days_before_year y + int (sum_list (take (tm_mon t) (month_days y))) + tm_mday t - 1
      in days * 86400 + tm_hour t * 3600 + tm_min t * 60 + tm_sec t)"

subsection \<open>Text\<close>

text \<open>The conversions \<^verbatim>\<open>%4d\<close>, \<^verbatim>\<open>%02d\<close> and \<^verbatim>\<open>%09d\<close> of \<^verbatim>\<open>snprintf\<close>.\<close>

definition print_d :: "bool \<Rightarrow> nat \<Rightarrow> int \<Rightarrow> string" where
  "print_d zero width i =
     (let s = show_int i; pad = width - length s in
      if \<not> zero then replicate pad CHR '' '' @ s
      else if i < 0 then CHR ''-'' # replicate pad CHR ''0'' @ tl s
      else replicate pad CHR ''0'' @ s)"

definition date_text :: "tm \<Rightarrow> string" where
  "date_text t = print_d False 4 (tm_year t + 1900) @ ''-'' @ print_d True 2 (int (tm_mon t) + 1) @ ''-'' @ print_d True 2 (tm_mday t)"

definition time_toString :: "Timestamp \<Rightarrow> string" where
  "time_toString ts =
     (let seconds = sint (ts_nsec ts) sdiv 1000000000;
          t = gmtime seconds;
          nano = sint (ts_nsec ts) smod 1000000000
      in take 63 (date_text t @ '' '' @ print_d True 2 (tm_hour t) @ '':'' @ print_d True 2 (tm_min t) @ '':'' @
           print_d True 2 (tm_sec t) @ ''.'' @ print_d True 9 nano))"

definition toDateString :: "Timestamp \<Rightarrow> string" where
  "toDateString ts = take 63 (date_text (gmtime (sint (ts_nsec ts) sdiv 1000000000)))"

text \<open>\<^verbatim>\<open>std::stoul\<close> on digits.\<close>

definition stoul_digits :: "string \<Rightarrow> error + nat" where
  "stoul_digits s = (let ds = takeWhile is_digit s in
     if ds = [] then Inl (Invalid_argument ''stoul'') else Inr (nat (digits_value ds)))"

definition toHHMMSS :: "Timestamp \<Rightarrow> error + nat" where
  "toHHMMSS ts =
     (let s = time_toString ts in stoul_digits (substr s 11 2 @ substr s 14 2 @ substr s 17 2))"

text \<open>A field of \<^verbatim>\<open>std::get_time\<close>: exactly \<open>n\<close> digits with a value between \<open>lo\<close> and \<open>hi\<close>.\<close>

definition get_num :: "nat \<Rightarrow> int \<Rightarrow> int \<Rightarrow> string \<Rightarrow> (int \<times> string) option" where
  "get_num n lo hi s =
     (let ds = take n s; v = digits_value ds in
      if length ds = n \<and> list_all is_digit ds \<and> lo \<le> v \<and> v \<le> hi then Some (v, drop n s) else None)"

definition get_char :: "char \<Rightarrow> string \<Rightarrow> string option" where
  "get_char c s = (case s of [] \<Rightarrow> None | x # xs \<Rightarrow> if x = c then Some xs else None)"

definition get_time :: "string \<Rightarrow> tm option" where
  "get_time s =
     Option.bind (get_num 4 0 9999 s) (\<lambda>(y, s).
     Option.bind (get_char CHR ''-'' s) (\<lambda>s.
     Option.bind (get_num 2 1 12 s) (\<lambda>(mo, s).
     Option.bind (get_char CHR ''-'' s) (\<lambda>s.
     Option.bind (get_num 2 1 31 s) (\<lambda>(d, s).
     Option.bind (get_char CHR '' '' s) (\<lambda>s.
     Option.bind (get_num 2 0 23 s) (\<lambda>(h, s).
     Option.bind (get_char CHR '':'' s) (\<lambda>s.
     Option.bind (get_num 2 0 59 s) (\<lambda>(mi, s).
     Option.bind (get_char CHR '':'' s) (\<lambda>s.
     Option.bind (get_num 2 0 60 s) (\<lambda>(sec, s).
     Some \<lparr>tm_sec = sec, tm_min = mi, tm_hour = h, tm_mday = d, tm_mon = nat (mo - 1), tm_year = y - 1900\<rparr>)))))))))))"

definition LEN_YYYY_MM_DD :: nat where "LEN_YYYY_MM_DD = 10"
definition LEN_YYYY_MM_DD_HH_MM_SS :: nat where "LEN_YYYY_MM_DD_HH_MM_SS = 19"

definition fromYYYYmmddHHMMSS :: "string \<Rightarrow> error + Timestamp" where
  "fromYYYYmmddHHMMSS str =
     (if length str \<noteq> LEN_YYYY_MM_DD_HH_MM_SS then Inl (Runtime_error ''invalid datetime format'')
      else case get_time str of
             None \<Rightarrow> Inl (Runtime_error ''failed to parse datetime'')
           | Some t \<Rightarrow> Inr (Timestamp (word_of_int (timegm t * 1000000000))))"

definition fromYYYYmmdd :: "string \<Rightarrow> error + Timestamp" where
  "fromYYYYmmdd str =
     (if length str \<noteq> LEN_YYYY_MM_DD then Inl (Runtime_error ''invalid date format'')
      else fromYYYYmmddHHMMSS (str @ '' 00:00:00''))"

subsection \<open>The calendar, forth and back\<close>

lemma days_before_year_next: "y \<ge> 1970 \<Longrightarrow> days_before_year (y + 1) = days_before_year y + int (year_days y)"
  by (simp add: days_before_year_def upto_rec2)

lemma year_forth_days:
  assumes "y \<ge> 1970" and "year_forth y n = (y', d)"
  shows "days_before_year y' + int d = days_before_year y + int n \<and> d < year_days y' \<and> y \<le> y' \<and> 365 * (y' - y) \<le> int n"
  using assms
proof (induction y n rule: year_forth.induct)
  case (1 y n)
  show ?case
  proof (cases "n < year_days y")
    case True
    with "1.prems"(2) have "(y', d) = (y, n)" by (simp add: year_forth.simps [of y n])
    with True show ?thesis by simp
  next
    case False
    with "1.prems"(2) have "year_forth (y + 1) (n - year_days y) = (y', d)" by (simp add: year_forth.simps [of y n])
    with "1.IH" [OF False] "1.prems"(1) have ih: "days_before_year y' + int d = days_before_year (y + 1) + int (n - year_days y)"
      "d < year_days y'" "y + 1 \<le> y'" "365 * (y' - (y + 1)) \<le> int (n - year_days y)" by simp_all
    moreover have "365 \<le> year_days y" by (simp add: year_days_def)
    ultimately show ?thesis using days_before_year_next [OF "1.prems"(1)] False by (simp add: of_nat_diff)
  qed
qed

lemma month_of_sum:
  "d < sum_list ls \<Longrightarrow> month_of ls d = (m, r) \<Longrightarrow> m < length ls \<and> r < ls ! m \<and> sum_list (take m ls) + r = d"
proof (induction ls arbitrary: d m)
  case (Cons l ls)
  show ?case
  proof (cases "d < l")
    case True
    with Cons.prems show ?thesis by auto
  next
    case False
    obtain m' r' where mr: "month_of ls (d - l) = (m', r')" by fastforce
    with False Cons.prems(2) have "m = Suc m'" "r' = r" by simp_all
    moreover have "m' < length ls \<and> r' < ls ! m' \<and> sum_list (take m' ls) + r' = d - l"
      using Cons.IH [of "d - l" m'] Cons.prems(1) False mr \<open>r' = r\<close> by simp
    ultimately show ?thesis using False by auto
  qed
qed simp

lemma month_days_props: "length (month_days y) = 12" "sum_list (month_days y) = year_days y" "m < 12 \<Longrightarrow> month_days y ! m \<le> 31"
proof -
  show "length (month_days y) = 12" "sum_list (month_days y) = year_days y"
    by (simp_all add: month_days_def year_days_def)
  have all: "\<forall>l \<in> set (month_days y). l \<le> 31" "length (month_days y) = 12" by (simp_all add: month_days_def)
  show "month_days y ! m \<le> 31" if "m < 12" using all that by (metis nth_mem)
qed

lemma gmtime_props:
  assumes "0 \<le> t"
  shows "timegm (gmtime t) = t" and "0 \<le> tm_sec (gmtime t)" "tm_sec (gmtime t) < 60" and "0 \<le> tm_min (gmtime t)" "tm_min (gmtime t) < 60"
    and "0 \<le> tm_hour (gmtime t)" "tm_hour (gmtime t) < 24" and "1 \<le> tm_mday (gmtime t)" "tm_mday (gmtime t) \<le> 31"
    and "tm_mon (gmtime t) < 12" and "1970 \<le> tm_year (gmtime t) + 1900" "365 * (tm_year (gmtime t) + 1900 - 1970) \<le> t div 86400"
    and "tm_hour (gmtime t) * 3600 + tm_min (gmtime t) * 60 + tm_sec (gmtime t) = t mod 86400"
proof -
  obtain y d where yd: "year_forth 1970 (nat (t div 86400)) = (y, d)" by fastforce
  obtain m r where mr: "month_of (month_days y) d = (m, r)" by fastforce
  have n: "0 \<le> t div 86400" using assms by simp
  have Y: "days_before_year y + int d = t div 86400" "d < year_days y" "1970 \<le> y" "365 * (y - 1970) \<le> t div 86400"
    using year_forth_days [OF _ yd] n days_before_year_def [of 1970] by simp_all
  have D: "m < 12" "r < month_days y ! m" "sum_list (take m (month_days y)) + r = d"
    using month_of_sum [OF _ mr] Y(2) month_days_props(1,2) by simp_all
  have g: "gmtime t = \<lparr>tm_sec = t mod 86400 mod 60, tm_min = t mod 86400 div 60 mod 60, tm_hour = t mod 86400 div 3600,
      tm_mday = int r + 1, tm_mon = m, tm_year = y - 1900\<rparr>"
    using yd mr n by (simp add: gmtime_def Let_def)
  have r: "r < 31" using D(1,2) month_days_props(3) [of m y] by linarith
  have s: "0 \<le> t mod 86400" "t mod 86400 < 86400" by simp_all
  have hms: "s div 3600 * 3600 + s div 60 mod 60 * 60 + s mod 60 = s" for s :: int
  proof -
    have "s div 3600 = s div 60 div 60" by (simp add: div_mult2_eq [symmetric] zdiv_zmult2_eq [symmetric])
    then show ?thesis using div_mult_mod_eq [of "s div 60" 60] div_mult_mod_eq [of s 60] by linarith
  qed
  show H: "tm_hour (gmtime t) * 3600 + tm_min (gmtime t) * 60 + tm_sec (gmtime t) = t mod 86400"
    unfolding g by (simp only: tm.simps hms)
  have "int (sum_list (take m (month_days y))) + int r = int d" using D(3) by (metis of_nat_add)
  then have days: "days_before_year y + int (sum_list (take m (month_days y))) + (int r + 1) - 1 = t div 86400" using Y(1) by linarith
  have y: "tm_year (gmtime t) + 1900 = y" "tm_mon (gmtime t) = m" "tm_mday (gmtime t) = int r + 1" unfolding g by simp_all
  have "timegm (gmtime t) = t div 86400 * 86400 + (tm_hour (gmtime t) * 3600 + tm_min (gmtime t) * 60 + tm_sec (gmtime t))"
    unfolding timegm_def Let_def y days by simp
  then show "timegm (gmtime t) = t" unfolding H by simp
  show "1 \<le> tm_mday (gmtime t)" "tm_mday (gmtime t) \<le> 31" "tm_mon (gmtime t) < 12"
    "1970 \<le> tm_year (gmtime t) + 1900" "365 * (tm_year (gmtime t) + 1900 - 1970) \<le> t div 86400"
    unfolding y using r D(1) Y(3,4) by simp_all
  show "0 \<le> tm_sec (gmtime t)" "tm_sec (gmtime t) < 60" "0 \<le> tm_min (gmtime t)" "tm_min (gmtime t) < 60"
    "0 \<le> tm_hour (gmtime t)" "tm_hour (gmtime t) < 24"
    unfolding g using s by simp_all
qed

subsection \<open>Printing and reading fields\<close>

lemma length_show_nat: "n < 10 ^ k \<Longrightarrow> 0 < k \<Longrightarrow> length (show_nat n) \<le> k"
proof (induction n arbitrary: k rule: show_nat.induct)
  case (1 n)
  show ?case
  proof (cases "n < 10")
    case False
    with "1.prems" obtain k' where k: "k = Suc k'" "0 < k'" by (cases k; cases "k - 1") auto
    then have "n div 10 < 10 ^ k'" using "1.prems" by (simp add: less_mult_imp_div_less mult.commute)
    with "1.IH" [OF False] k False show ?thesis by (subst show_nat.simps) simp
  qed (use "1.prems" in \<open>simp add: show_nat.simps\<close>)
qed

lemma length_show_nat_ge: "10 ^ k \<le> n \<Longrightarrow> k < length (show_nat n)"
proof (induction n arbitrary: k rule: show_nat.induct)
  case (1 n)
  show ?case
  proof (cases k)
    case (Suc k')
    then have le: "10 * 10 ^ k' \<le> n" using "1.prems" by simp
    have "(1 :: nat) \<le> 10 ^ k'" by simp
    then have "\<not> n < 10" using le by linarith
    moreover have "10 ^ k' \<le> n div 10" using le by (simp add: less_eq_div_iff_mult_less_eq mult.commute)
    ultimately have "10 ^ k' \<le> n div 10" "\<not> n < 10" by simp_all
    with "1.IH" Suc show ?thesis by (subst show_nat.simps) simp
  qed simp
qed

lemma digits_value_zeros: "digits_value (replicate n CHR ''0'' @ s) = digits_value s"
proof -
  have "digit_val CHR ''0'' = 0" by (simp add: digit_val_def)
  then have "foldl (\<lambda>r c. r * 10 + digit_val c) 0 (replicate n CHR ''0'') = 0" by (induction n) simp_all
  then show ?thesis by (simp add: digits_value_def)
qed

lemma print_d_zero:
  assumes "0 \<le> i" and "i < 10 ^ w" and "0 < w"
  shows "length (print_d True w i) = w" and "list_all is_digit (print_d True w i)" and "digits_value (print_d True w i) = i"
proof -
  have len: "length (show_nat (nat i)) \<le> w" using assms by (intro length_show_nat) (simp_all add: nat_less_iff)
  have eq: "print_d True w i = replicate (w - length (show_nat (nat i))) CHR ''0'' @ show_nat (nat i)"
    using assms(1) by (simp add: print_d_def show_int_def Let_def)
  show "length (print_d True w i) = w" using len by (simp add: eq)
  have "is_digit CHR ''0''" by (simp add: is_digit_def ascii_def)
  then show "list_all is_digit (print_d True w i)" using show_nat_digits [of "nat i"] by (auto simp: eq list_all_iff)
  show "digits_value (print_d True w i) = i" using assms(1) by (simp add: eq digits_value_zeros digits_value_show_nat)
qed

lemma print_d_4: "1000 \<le> i \<Longrightarrow> print_d False 4 i = print_d True 4 i"
proof -
  assume i: "1000 \<le> i"
  then have "10 ^ 3 \<le> nat i" by simp
  then have "4 \<le> length (show_nat (nat i))" using length_show_nat_ge [of 3 "nat i"] by linarith
  with i show ?thesis by (simp add: print_d_def show_int_def Let_def)
qed

lemma print_d_00: "print_d True 2 0 = ''00''"
  by code_simp

lemma get_num_print:
  assumes "0 \<le> i" and "i < 10 ^ w" and "0 < w" and "lo \<le> i" and "i \<le> hi"
  shows "get_num w lo hi (print_d True w i @ s) = Some (i, s)"
  using print_d_zero [OF assms(1-3)] assms(4,5) by (simp add: get_num_def Let_def)

subsection \<open>Text round trips\<close>

lemma sdiv_nonneg: "0 \<le> a \<Longrightarrow> a sdiv b = a div b" "0 \<le> a \<Longrightarrow> a smod b = a mod b" if "0 < b" for a b :: int
  using that by (auto simp: signed_divide_int_def signed_modulo_int_def sgn_if minus_div_mult_eq_mod)

lemma ts_year_bound:
  fixes n :: u64
  assumes "0 \<le> sint n"
  shows "tm_year (gmtime (sint n div 1000000000)) + 1900 < 10000"
proof -
  have "sint n < 2 ^ 63" using sint_lt [of n] by simp
  then have d: "sint n div 1000000000 div 86400 \<le> 106751" by simp
  have z: "0 \<le> sint n div 1000000000" using assms by simp
  have "Y + 1900 < 10000" if "365 * (Y + 1900 - 1970) \<le> D" "D \<le> 106751" for Y D :: int using that by simp
  from this [OF gmtime_props(12) [OF z] d] show ?thesis .
qed

lemma date_text_eq:
  assumes "1000 \<le> tm_year t + 1900"
  shows "date_text t = print_d True 4 (tm_year t + 1900) @ CHR ''-'' # print_d True 2 (int (tm_mon t) + 1) @ CHR ''-'' # print_d True 2 (tm_mday t)"
  using assms by (simp add: date_text_def print_d_4)

definition clock_text :: "tm \<Rightarrow> string" where
  "clock_text t = print_d True 2 (tm_hour t) @ CHR '':'' # print_d True 2 (tm_min t) @ CHR '':'' # print_d True 2 (tm_sec t)"

text \<open>Fields in the ranges \<^verbatim>\<open>gmtime_r\<close> gives, with a year of four digits.\<close>

definition tm_ok :: "tm \<Rightarrow> bool" where
  "tm_ok t \<longleftrightarrow> 1970 \<le> tm_year t + 1900 \<and> tm_year t + 1900 < 10000 \<and> tm_mon t < 12 \<and> 1 \<le> tm_mday t \<and> tm_mday t \<le> 31 \<and>
     0 \<le> tm_hour t \<and> tm_hour t < 24 \<and> 0 \<le> tm_min t \<and> tm_min t < 60 \<and> 0 \<le> tm_sec t \<and> tm_sec t < 60"

lemma text_lengths:
  assumes "tm_ok t"
  shows "length (date_text t) = 10" and "length (clock_text t) = 8"
  using assms by (simp_all add: date_text_eq clock_text_def print_d_zero tm_ok_def)

lemma get_time_text:
  assumes ok: "tm_ok t"
  shows "get_time (date_text t @ '' '' @ clock_text t @ s) = Some t"
proof -
  have n: "get_num 4 0 9999 (print_d True 4 (tm_year t + 1900) @ x) = Some (tm_year t + 1900, x)"
    "get_num 2 1 12 (print_d True 2 (int (tm_mon t) + 1) @ x) = Some (int (tm_mon t) + 1, x)"
    "get_num 2 1 31 (print_d True 2 (tm_mday t) @ x) = Some (tm_mday t, x)"
    "get_num 2 0 23 (print_d True 2 (tm_hour t) @ x) = Some (tm_hour t, x)"
    "get_num 2 0 59 (print_d True 2 (tm_min t) @ x) = Some (tm_min t, x)"
    "get_num 2 0 60 (print_d True 2 (tm_sec t) @ x) = Some (tm_sec t, x)" for x
    using ok by (intro get_num_print; simp add: tm_ok_def)+
  have "1000 \<le> tm_year t + 1900" using ok by (simp add: tm_ok_def)
  from date_text_eq [OF this] show ?thesis by (simp add: get_time_def clock_text_def n get_char_def)
qed

lemma gmtime_tm_ok:
  fixes n :: u64
  assumes "0 \<le> sint n"
  shows "tm_ok (gmtime (sint n div 1000000000))"
proof -
  have "0 \<le> sint n div 1000000000" using assms by simp
  from gmtime_props [OF this] ts_year_bound [OF assms] show ?thesis by (simp add: tm_ok_def)
qed

lemma time_toString_eq:
  assumes "ts_isValid ts"
  shows "\<exists>nano. time_toString ts = date_text (gmtime (ts_sec ts)) @ '' '' @ clock_text (gmtime (ts_sec ts)) @ ''.'' @ nano \<and> length nano = 9"
proof -
  have nn: "0 \<le> sint (ts_nsec ts)" using assms by (simp add: ts_isValid_def)
  have ok: "tm_ok (gmtime (ts_sec ts))" using gmtime_tm_ok [OF nn] nn by (simp add: ts_sec_def sdiv_nonneg)
  let ?nano = "print_d True 9 (sint (ts_nsec ts) mod 1000000000)"
  have "length ?nano = 9" by (rule print_d_zero(1)) simp_all
  moreover have "time_toString ts = take 63 (date_text (gmtime (ts_sec ts)) @ '' '' @ clock_text (gmtime (ts_sec ts)) @ ''.'' @ ?nano)"
    using nn by (simp add: time_toString_def clock_text_def ts_sec_def sdiv_nonneg Let_def)
  ultimately show ?thesis using text_lengths [OF ok] by simp
qed



end
