(* ===== verification/Durations.thy ===== *)
theory Durations
  imports Time_Utils Binary64
begin

section \<open>Durations from and to double precision (include/revoq/TimeUtils.h)\<close>

text \<open>
  The constructors of \<^verbatim>\<open>Duration\<close> that scale a \<^verbatim>\<open>double\<close>, the readings in seconds and milliseconds, the
  literal operators built on them, the hash and the text of both classes.  A conversion to \<^verbatim>\<open>int64_t\<close>
  out of range is undefined and the value \<open>None\<close>.  A \<^verbatim>\<open>long double\<close> literal is the number it stands for,
  rounded when it is passed on as a \<^verbatim>\<open>double\<close>.
\<close>

subsection \<open>Constructors and readings\<close>

definition to_int64 :: "double \<Rightarrow> Duration option" where
  "to_int64 x = map_option (\<lambda>i. Duration (word_of_int i)) (d_trunc (- (2 ^ 63)) (2 ^ 63) x)"

definition from_msec :: "double \<Rightarrow> Duration option" where
  "from_msec msec = to_int64 (d_mul msec (d_of_int 1000000))"

definition from_sec :: "double \<Rightarrow> Duration option" where
  "from_sec sec = to_int64 (d_mul sec (d_of_int 1000000000))"

definition from_minute :: "double \<Rightarrow> Duration option" where
  "from_minute minute = to_int64 (d_mul (d_mul minute (d_of_int 1000000000)) (d_of_int 60))"

definition from_hour :: "double \<Rightarrow> Duration option" where
  "from_hour hour = to_int64 (d_mul (d_mul hour (d_of_int 1000000000)) (d_of_int 3600))"

definition from_day :: "double \<Rightarrow> Duration option" where
  "from_day day = to_int64 (d_mul (d_mul (d_mul day (d_of_int 1000000000)) (d_of_int 3600)) (d_of_int 24))"

definition dur_sec :: "Duration \<Rightarrow> double" where
  "dur_sec d = d_mul (d_of_int (sint (dur_nsec d))) (fl (1 / 10 ^ 9))"

definition dur_msec :: "Duration \<Rightarrow> double" where
  "dur_msec d = d_mul (d_of_int (sint (dur_nsec d))) (fl (1 / 10 ^ 6))"

subsection \<open>Literals\<close>

definition literal_ns :: "u64 \<Rightarrow> Duration" where "literal_ns nsec = dur_from_nsec nsec"
definition literal_ms :: "u64 \<Rightarrow> Duration option" where "literal_ms msec = from_msec (d_of_int (uint msec))"
definition literal_s :: "u64 \<Rightarrow> Duration option" where "literal_s sec = from_sec (d_of_int (uint sec))"
definition literal_m :: "u64 \<Rightarrow> Duration option" where "literal_m minute = from_minute (d_of_int (uint minute))"
definition literal_h :: "u64 \<Rightarrow> Duration option" where "literal_h hour = from_hour (d_of_int (uint hour))"
definition literal_d :: "u64 \<Rightarrow> Duration option" where "literal_d day = from_day (d_of_int (uint day))"

definition real_literal_ms :: "rat \<Rightarrow> Duration option" where "real_literal_ms msec = from_msec (fl msec)"
definition real_literal_s :: "rat \<Rightarrow> Duration option" where "real_literal_s sec = from_sec (fl sec)"
definition real_literal_m :: "rat \<Rightarrow> Duration option" where "real_literal_m minute = from_minute (fl minute)"
definition real_literal_h :: "rat \<Rightarrow> Duration option" where "real_literal_h hour = from_hour (fl hour)"
definition real_literal_d :: "rat \<Rightarrow> Duration option" where "real_literal_d day = from_day (fl day)"

subsection \<open>Hash and text\<close>

text \<open>\<^verbatim>\<open>std::hash<int64_t>\<close> is the standard library's choice, a parameter.\<close>

definition ts_hash :: "(u64 \<Rightarrow> u64) \<Rightarrow> Timestamp \<Rightarrow> u64" where
  "ts_hash hash_i64 t = hash_i64 (ts_nsec t)"

definition dur_hash :: "(u64 \<Rightarrow> u64) \<Rightarrow> Duration \<Rightarrow> u64" where
  "dur_hash hash_i64 d = hash_i64 (dur_nsec d)"

definition ts_format :: "Timestamp \<Rightarrow> string" where
  "ts_format ts = time_toString ts"

definition dur_format :: "Duration \<Rightarrow> string" where
  "dur_format d = show_int (sint (dur_nsec d)) @ '' nano''"

subsection \<open>Whole literals\<close>

lemma to_int64_int: "- (2 ^ 63) \<le> i \<Longrightarrow> i < 2 ^ 63 \<Longrightarrow> to_int64 (Fin (of_int i)) = Some (Duration (word_of_int i))"
  by (simp add: to_int64_def)

text \<open>A product of integers whose odd part fits 53 bits is exact.\<close>

lemma d_mul_shifted:
  assumes "i * j = m * 2 ^ k" and "\<bar>m\<bar> \<le> 2 ^ 53" and "k \<le> 900"
  shows "d_mul (Fin (of_int i)) (Fin (of_int j)) = Fin (of_int (i * j))"
  using fl_shifted [OF assms(2,3)] assms(1) by (simp flip: of_int_mult)

lemma d_of_int_small: "\<bar>i\<bar> \<le> 2 ^ 53 \<Longrightarrow> d_of_int i = Fin (of_int i)"
  by (simp add: d_of_int_def fl_int)

lemmas d_constants = d_of_int_small [of 1000000, simplified] d_of_int_small [of 1000000000, simplified]
  d_of_int_small [of 60, simplified] d_of_int_small [of 3600, simplified] d_of_int_small [of 24, simplified]

lemma scale_second:
  assumes "0 \<le> i" and "i \<le> 4611686018"
  shows "d_mul (d_of_int i) (d_of_int 1000000000) = Fin (of_int (i * 1000000000))"
  using assms d_of_int_small [of i] d_mul_shifted [of i 1000000000 "i * 1953125" 9] by (simp add: d_constants)

lemma scale_hour:
  assumes "0 \<le> i" and "i \<le> 2562047"
  shows "d_mul (d_mul (d_of_int i) (d_of_int 1000000000)) (d_of_int 3600) = Fin (of_int (i * 3600000000000))"
  using assms scale_second [of i] d_mul_shifted [of "i * 1000000000" 3600 "i * 439453125" 13]
  by (simp add: d_constants)

lemma from_whole:
  assumes "0 \<le> i"
  shows "i \<le> 576460752303 \<Longrightarrow> from_msec (d_of_int i) = Some (Duration (word_of_int (i * 1000000)))"
    and "i \<le> 4611686018 \<Longrightarrow> from_sec (d_of_int i) = Some (Duration (word_of_int (i * 1000000000)))"
    and "i \<le> 153722867 \<Longrightarrow> from_minute (d_of_int i) = Some (Duration (word_of_int (i * 60000000000)))"
    and "i \<le> 2562047 \<Longrightarrow> from_hour (d_of_int i) = Some (Duration (word_of_int (i * 3600000000000)))"
    and "i \<le> 106751 \<Longrightarrow> from_day (d_of_int i) = Some (Duration (word_of_int (i * 86400000000000)))"
proof -
  show "from_msec (d_of_int i) = Some (Duration (word_of_int (i * 1000000)))" if "i \<le> 576460752303"
    using that assms d_of_int_small [of i] d_mul_shifted [of i 1000000 "i * 15625" 6] to_int64_int [of "i * 1000000"]
    by (simp add: from_msec_def d_constants)
  show "from_sec (d_of_int i) = Some (Duration (word_of_int (i * 1000000000)))" if "i \<le> 4611686018"
    using that assms scale_second [of i] to_int64_int [of "i * 1000000000"] by (simp add: from_sec_def)
  show "from_minute (d_of_int i) = Some (Duration (word_of_int (i * 60000000000)))" if "i \<le> 153722867"
    using that assms scale_second [of i] d_mul_shifted [of "i * 1000000000" 60 "i * 29296875" 11]
      to_int64_int [of "i * 60000000000"] by (simp add: from_minute_def d_constants mult.commute)
  show "from_hour (d_of_int i) = Some (Duration (word_of_int (i * 3600000000000)))" if "i \<le> 2562047"
    using that assms scale_hour [of i] to_int64_int [of "i * 3600000000000"] by (simp add: from_hour_def)
  show "from_day (d_of_int i) = Some (Duration (word_of_int (i * 86400000000000)))" if "i \<le> 106751"
    using that assms scale_hour [of i] d_mul_shifted [of "i * 3600000000000" 24 "i * 1318359375" 16]
      to_int64_int [of "i * 86400000000000"] by (simp add: from_day_def d_constants mult.commute)
qed

text \<open>A whole-number literal is the exact number of nanoseconds as long as the product fits: up to 576460752303
  milliseconds and 4611686018 seconds (where the 53 bits of a \<^verbatim>\<open>double\<close> end), 153722867 minutes, 2562047 hours
  and 106751 days (where \<^verbatim>\<open>int64_t\<close> ends), for all of which the conversion is defined and nothing is rounded.\<close>

theorem literals_exact:
  "(uint n \<le> 576460752303 \<longrightarrow> literal_ms n = Some (Duration (n * 1000000))) \<and>
   (uint n \<le> 4611686018 \<longrightarrow> literal_s n = Some (Duration (n * 1000000000))) \<and>
   (uint n \<le> 153722867 \<longrightarrow> literal_m n = Some (Duration (n * 60000000000))) \<and>
   (uint n \<le> 2562047 \<longrightarrow> literal_h n = Some (Duration (n * 3600000000000))) \<and>
   (uint n \<le> 106751 \<longrightarrow> literal_d n = Some (Duration (n * 86400000000000)))"
  using from_whole [of "uint n"]
  by (simp add: literal_ms_def literal_s_def literal_m_def literal_h_def literal_d_def)

theorem literals_exact_witness:
  "literal_ms 250 = Some (Duration 250000000) \<and> literal_s 4611686018 = Some (Duration 4611686018000000000) \<and>
   literal_d 106751 = Some (Duration 9223286400000000000)"
  using literals_exact [of 250] literals_exact [of 4611686018] literals_exact [of 106751] by simp

subsection \<open>Seconds and back\<close>

lemma to_int64_near:
  assumes "\<bar>x - of_int n\<bar> < 1" and "\<bar>n\<bar> \<le> 2 ^ 62"
  shows "\<exists>i. to_int64 (Fin x) = Some (Duration (word_of_int i)) \<and> \<bar>i - n\<bar> \<le> 1"
proof -
  let ?i = "if x < 0 then \<lceil>x\<rceil> else \<lfloor>x\<rfloor>"
  have x: "of_int (n - 1) \<le> x" "x \<le> of_int (n + 1)" using assms(1) by (simp_all add: abs_less_iff)
  then have "n - 1 \<le> \<lfloor>x\<rfloor>" "\<lceil>x\<rceil> \<le> n + 1" by (simp_all only: le_floor_iff ceiling_le_iff)
  moreover have "\<lfloor>x\<rfloor> \<le> \<lceil>x\<rceil>" by (rule floor_le_ceiling)
  ultimately have "\<bar>\<lceil>x\<rceil> - n\<bar> \<le> 1" "\<bar>\<lfloor>x\<rfloor> - n\<bar> \<le> 1" by linarith+
  then have i: "\<bar>?i - n\<bar> \<le> 1" by simp
  moreover have "- (2 ^ 63) \<le> j \<and> j < 2 ^ 63" if "\<bar>j - n\<bar> \<le> 1" for j using that assms(2) by (simp add: abs_if split: if_splits)
  ultimately have "- (2 ^ 63) \<le> ?i" "?i < 2 ^ 63" by blast+
  then have "to_int64 (Fin x) = Some (Duration (word_of_int ?i))" by (simp add: to_int64_def Let_def)
  with i show ?thesis by blast
qed

lemma scaled_round_trip:
  assumes n: "\<bar>n\<bar> \<le> 2 ^ 50" and N: "1 \<le> N" "N \<le> 2 ^ 30"
  shows "\<exists>i. to_int64 (d_mul (d_mul (d_of_int n) (fl (1 / of_int N))) (d_of_int N)) = Some (Duration (word_of_int i)) \<and> \<bar>i - n\<bar> \<le> 1"
proof -
  let ?n = "of_int n :: rat" and ?N = "of_int N :: rat"
  have N': "1 \<le> ?N" "?N \<le> 2 powi 30" using N by simp_all
  have t: "2 powi (- 30) \<le> 1 / ?N" "1 / ?N \<le> 2 powi 0" using N' by (simp_all add: power_int_minus field_simps)
  then obtain c where c: "fl (1 / ?N) = Fin c" "2 powi (- 30) \<le> c" "c \<le> 2 powi 0" by (rule fl_range) simp_all
  have "c = round64 (1 / ?N)" using c(1) by (auto simp: fl_def split: if_splits)
  then have e0: "\<bar>c - 1 / ?N\<bar> \<le> \<bar>1 / ?N\<bar> / 2 ^ 53"
    using round64_relative [of "1 / ?N"] t N' powi_le_iff [of "- 1022" "- 30"] by (simp add: power_int_minus field_simps)
  have d: "d_of_int n = Fin ?n" "d_of_int N = Fin ?N" using n N by (intro d_of_int_small; simp)+
  show ?thesis
  proof (cases "n = 0")
    case True
    then have "to_int64 (d_mul (d_mul (d_of_int n) (fl (1 / ?N))) (d_of_int N)) = Some (Duration (word_of_int 0))"
      using d c(1) to_int64_int [of 0] by simp
    then show ?thesis using True by (intro exI [of _ 0]) simp
  next
    case False
    have n': "1 \<le> \<bar>?n\<bar>" "\<bar>?n\<bar> \<le> 2 powi 50"
      using False n of_int_le_iff [of 1 "\<bar>n\<bar>", where ?'a = rat] of_int_le_iff [of "\<bar>n\<bar>" "2 ^ 50", where ?'a = rat] by simp_all
    have c0: "0 < c" using c(2) zero_less_power_int [of "2 :: rat" "- 30"] by linarith
    have nc: "2 powi (- 30) \<le> \<bar>?n * c\<bar>" "\<bar>?n * c\<bar> \<le> 2 powi 50"
      using mult_mono [OF n'(1) c(2)] mult_mono [OF n'(2) c(3)] c0 by (simp_all add: abs_mult)
    have "2 powi (- 1022) \<le> \<bar>?n * c\<bar>" "\<bar>?n * c\<bar> \<le> 2 powi 1000"
      using nc powi_le_iff [of "- 1022" "- 30"] powi_le_iff [of 50 1000] by linarith+
    then obtain z where z: "d_mul (Fin ?n) (Fin c) = Fin z" "\<bar>z - ?n * c\<bar> \<le> \<bar>?n * c\<bar> / 2 ^ 53" by (rule d_mul_relative)
    have z': "2 powi (- 31) \<le> \<bar>z\<bar>" "\<bar>z\<bar> \<le> 2 powi 51" using z(2) nc within_factor_two [of z "?n * c"] by (simp_all add: power_int_minus)
    have zN: "2 powi (- 31) \<le> \<bar>z * ?N\<bar>" "\<bar>z * ?N\<bar> \<le> 2 powi 81"
      using mult_mono [OF z'(1) N'(1)] mult_mono [OF z'(2) N'(2)] N' by (simp_all add: abs_mult)
    have "2 powi (- 1022) \<le> \<bar>z * ?N\<bar>" "\<bar>z * ?N\<bar> \<le> 2 powi 1000"
      using zN powi_le_iff [of "- 1022" "- 31"] powi_le_iff [of 81 1000] by linarith+
    then obtain w where w: "d_mul (Fin z) (Fin ?N) = Fin w" "\<bar>w - z * ?N\<bar> \<le> \<bar>z * ?N\<bar> / 2 ^ 53" by (rule d_mul_relative)
    have "\<bar>w - ?n\<bar> \<le> \<bar>?n\<bar> / 2 ^ 51"
    proof (rule three_roundings [OF _ _ w(2)])
      have "\<bar>?n * c * ?N - ?n\<bar> = \<bar>?n\<bar> * ?N * \<bar>c - 1 / ?N\<bar>"
        using N' abs_mult [of "?n * ?N" "c - 1 / ?N"] by (simp add: abs_mult right_diff_distrib mult.commute mult.left_commute)
      also have "\<dots> \<le> \<bar>?n\<bar> * ?N * (\<bar>1 / ?N\<bar> / 2 ^ 53)" using e0 N' by (intro mult_left_mono) simp_all
      finally show "\<bar>?n * c * ?N - ?n\<bar> \<le> \<bar>?n\<bar> / 2 ^ 53" using N' by simp
      have "\<bar>z * ?N - ?n * c * ?N\<bar> = \<bar>z - ?n * c\<bar> * ?N"
        using N' abs_mult [of "z - ?n * c" ?N] by (simp add: left_diff_distrib)
      also have "\<dots> \<le> \<bar>?n * c\<bar> / 2 ^ 53 * ?N" using z(2) N' by (intro mult_right_mono) simp_all
      finally show "\<bar>z * ?N - ?n * c * ?N\<bar> \<le> \<bar>?n * c * ?N\<bar> / 2 ^ 53" using N' by (simp add: abs_mult)
    qed
    moreover have "\<bar>?n\<bar> / 2 ^ 51 < 1" using n'(2) by simp
    ultimately have "\<bar>w - ?n\<bar> < 1" by linarith
    then show ?thesis using to_int64_near [of w n] n d c(1) z(1) w(1) by simp
  qed
qed

text \<open>A duration of up to \<open>2 ^ 50\<close> nanoseconds (thirteen days) either way that is read in seconds or in milliseconds and
  made into a duration again is the same to one nanosecond, and the conversion back is defined.\<close>

theorem duration_seconds_round_trip:
  assumes "\<bar>sint (dur_nsec d)\<bar> \<le> 2 ^ 50"
  shows "(\<exists>i. from_sec (dur_sec d) = Some (Duration (word_of_int i)) \<and> \<bar>i - sint (dur_nsec d)\<bar> \<le> 1) \<and>
    (\<exists>i. from_msec (dur_msec d) = Some (Duration (word_of_int i)) \<and> \<bar>i - sint (dur_nsec d)\<bar> \<le> 1)"
  using scaled_round_trip [OF assms, of 1000000000] scaled_round_trip [OF assms, of 1000000]
  by (simp add: from_sec_def from_msec_def dur_sec_def dur_msec_def)

theorem duration_seconds_round_trip_witness:
  "\<exists>i. from_sec (dur_sec (Duration 1500000001)) = Some (Duration (word_of_int i)) \<and> \<bar>i - 1500000001\<bar> \<le> 1"
  using duration_seconds_round_trip [of "Duration 1500000001"] by simp

end
