(* ===== verification/Thread_Platform.thy ===== *)
theory Thread_Platform
  imports Journal_Base
begin

section \<open>Placement and priority of threads\<close>

text \<open>
  Classes \<^verbatim>\<open>CpuAffinity\<close> and \<^verbatim>\<open>ScopedCpuPin\<close> (include/revoq/CpuAffinity.h), \<^verbatim>\<open>RealtimePriority\<close> and
  \<^verbatim>\<open>ScopedRealtimePriority\<close> (include/revoq/RealtimePriority.h) and the placement of background threads
  (include/revoq/JournalPlatform.h), in their Linux branches.  The state is what the kernel keeps of
  the calling thread.  Every system call takes its outcome as an argument: a code other than 0 makes it
  fail and change nothing; with code 0 it still fails with \<^verbatim>\<open>EINVAL\<close> where the kernel rejects its
  arguments.  A \<^verbatim>\<open>cpu_set_t\<close> is a set of CPU numbers below \<^verbatim>\<open>CPU_SETSIZE\<close>.
\<close>

subsection \<open>The kernel's view of a thread\<close>

datatype SchedulerPolicy = NORMAL | FIFO | RR | BATCH | IDLE

record thread_state =
  th_allowed :: "nat set"
  th_affinity :: "nat set"
  th_policy :: SchedulerPolicy
  th_priority :: int
  th_lock_current :: bool
  th_lock_future :: bool

definition CPU_SETSIZE :: nat where
  "CPU_SETSIZE = 1024"

definition EINVAL :: int where
  "EINVAL = 22"

text \<open>\<^verbatim>\<open>CPU_SET\<close> ignores a number outside the set, also a negative one, which it takes as unsigned.\<close>

definition CPU_SET :: "int \<Rightarrow> nat set \<Rightarrow> nat set" where
  "CPU_SET cpu cpuset = (if 0 \<le> cpu \<and> cpu < int CPU_SETSIZE then insert (nat cpu) cpuset else cpuset)"

definition setaffinity :: "int \<Rightarrow> nat set \<Rightarrow> thread_state \<Rightarrow> int \<times> thread_state" where
  "setaffinity rc cpuset st =
     (if rc \<noteq> 0 then (rc, st)
      else if cpuset \<inter> th_allowed st = {} then (EINVAL, st)
      else (0, st\<lparr>th_affinity := cpuset \<inter> th_allowed st\<rparr>))"

fun priority_range :: "SchedulerPolicy \<Rightarrow> int \<times> int" where
  "priority_range FIFO = (1, 99)"
| "priority_range RR = (1, 99)"
| "priority_range _ = (0, 0)"

definition valid_priority :: "SchedulerPolicy \<Rightarrow> int \<Rightarrow> bool" where
  "valid_priority policy priority \<longleftrightarrow> fst (priority_range policy) \<le> priority \<and> priority \<le> snd (priority_range policy)"

definition setschedparam :: "int \<Rightarrow> SchedulerPolicy \<Rightarrow> int \<Rightarrow> thread_state \<Rightarrow> int \<times> thread_state" where
  "setschedparam rc policy priority st =
     (if rc \<noteq> 0 then (rc, st)
      else if \<not> valid_priority policy priority then (EINVAL, st)
      else (0, st\<lparr>th_policy := policy, th_priority := priority\<rparr>))"

definition thread_ok :: "thread_state \<Rightarrow> bool" where
  "thread_ok st \<longleftrightarrow> th_affinity st \<noteq> {} \<and> th_affinity st \<subseteq> th_allowed st \<and> th_allowed st \<subseteq> {..<CPU_SETSIZE} \<and>
     valid_priority (th_policy st) (th_priority st)"

subsection \<open>CpuAffinity\<close>

definition pinToCore :: "int \<Rightarrow> int \<Rightarrow> thread_state \<Rightarrow> bool \<times> thread_state" where
  "pinToCore rc core_id st =
     (let cpuset = CPU_SET core_id {} in
      case setaffinity rc cpuset st of (result, st') \<Rightarrow> (result = 0, st'))"

definition pinToCores :: "int \<Rightarrow> int list \<Rightarrow> thread_state \<Rightarrow> bool \<times> thread_state" where
  "pinToCores rc core_ids st =
     (let cpuset = fold CPU_SET core_ids {} in
      case setaffinity rc cpuset st of (result, st') \<Rightarrow> (result = 0, st'))"

definition getCurrentAffinity :: "int \<Rightarrow> thread_state \<Rightarrow> int list" where
  "getCurrentAffinity rc st =
     (if rc = 0 then map int (filter (\<lambda>i. i \<in> th_affinity st) [0..<CPU_SETSIZE]) else [])"

text \<open>\<open>getcpu\<close> is what \<^verbatim>\<open>sched_getcpu\<close> answers after the pause.\<close>

definition pinAndVerify :: "int \<Rightarrow> (thread_state \<Rightarrow> int) \<Rightarrow> int \<Rightarrow> thread_state \<Rightarrow> bool \<times> thread_state" where
  "pinAndVerify rc getcpu core_id st =
     (case pinToCore rc core_id st of (ok, st') \<Rightarrow>
        if \<not> ok then (False, st')
        else if getcpu st' \<noteq> core_id then (False, st')
        else (True, st'))"

record ScopedCpuPin =
  sp_core_id :: int
  sp_pinned :: bool
  sp_original_affinity :: "int list"

definition ScopedCpuPin_new :: "int \<Rightarrow> int \<Rightarrow> int \<Rightarrow> thread_state \<Rightarrow> ScopedCpuPin \<times> thread_state" where
  "ScopedCpuPin_new rc_get rc_set core_id st =
     (let original = getCurrentAffinity rc_get st in
      case pinToCore rc_set core_id st of (pinned, st') \<Rightarrow>
        (\<lparr>sp_core_id = core_id, sp_pinned = pinned, sp_original_affinity = original\<rparr>, st'))"

definition ScopedCpuPin_destroy :: "int \<Rightarrow> ScopedCpuPin \<Rightarrow> thread_state \<Rightarrow> thread_state" where
  "ScopedCpuPin_destroy rc p st =
     (if sp_pinned p \<and> sp_original_affinity p \<noteq> [] then snd (pinToCores rc (sp_original_affinity p) st) else st)"

subsection \<open>RealtimePriority\<close>

definition setRealtimePriority :: "int \<Rightarrow> int \<Rightarrow> SchedulerPolicy \<Rightarrow> thread_state \<Rightarrow> bool \<times> thread_state" where
  "setRealtimePriority rc priority policy st =
     (if priority < 1 \<or> priority > 99 then (False, st)
      else case setschedparam rc policy priority st of (result, st') \<Rightarrow> (result = 0, st'))"

definition setNormalPriority :: "int \<Rightarrow> thread_state \<Rightarrow> bool \<times> thread_state" where
  "setNormalPriority rc st = (case setschedparam rc NORMAL 0 st of (result, st') \<Rightarrow> (result = 0, st'))"

definition getCurrentPriority :: "int \<Rightarrow> thread_state \<Rightarrow> SchedulerPolicy \<times> int" where
  "getCurrentPriority rc st = (if rc = 0 then (th_policy st, th_priority st) else (NORMAL, 0))"

definition isRealtime :: "int \<Rightarrow> thread_state \<Rightarrow> bool" where
  "isRealtime rc st = (case getCurrentPriority rc st of (policy, priority) \<Rightarrow> policy = FIFO \<or> policy = RR)"

definition getPriorityRange :: "SchedulerPolicy \<Rightarrow> int \<times> int" where
  "getPriorityRange policy = priority_range policy"

definition lockMemory :: "bool \<Rightarrow> thread_state \<Rightarrow> bool \<times> thread_state" where
  "lockMemory ok st = (if \<not> ok then (False, st) else (True, st\<lparr>th_lock_current := True, th_lock_future := True\<rparr>))"

definition lockCurrentMemory :: "bool \<Rightarrow> thread_state \<Rightarrow> bool \<times> thread_state" where
  "lockCurrentMemory ok st = (if \<not> ok then (False, st) else (True, st\<lparr>th_lock_current := True, th_lock_future := False\<rparr>))"

definition unlockMemory :: "bool \<Rightarrow> thread_state \<Rightarrow> bool \<times> thread_state" where
  "unlockMemory ok st = (if \<not> ok then (False, st) else (True, st\<lparr>th_lock_current := False, th_lock_future := False\<rparr>))"

record ScopedRealtimePriority =
  sr_enabled :: bool
  sr_original_policy :: SchedulerPolicy
  sr_original_priority :: int

definition ScopedRealtimePriority_new ::
    "int \<Rightarrow> int \<Rightarrow> int \<Rightarrow> SchedulerPolicy \<Rightarrow> thread_state \<Rightarrow> ScopedRealtimePriority \<times> thread_state" where
  "ScopedRealtimePriority_new rc_get rc_set priority policy st =
     (case getCurrentPriority rc_get st of (orig_policy, orig_priority) \<Rightarrow>
      case setRealtimePriority rc_set priority policy st of (enabled, st') \<Rightarrow>
        (\<lparr>sr_enabled = enabled, sr_original_policy = orig_policy, sr_original_priority = orig_priority\<rparr>, st'))"

definition ScopedRealtimePriority_destroy :: "int \<Rightarrow> ScopedRealtimePriority \<Rightarrow> thread_state \<Rightarrow> thread_state" where
  "ScopedRealtimePriority_destroy rc p st =
     (if sr_enabled p then
        (if sr_original_policy p = NORMAL then snd (setNormalPriority rc st)
         else snd (setRealtimePriority rc (sr_original_priority p) (sr_original_policy p) st))
      else st)"

subsection \<open>CPU lists\<close>

text \<open>The first line of a file; nothing when it cannot be opened.\<close>

definition readCpuListFile :: "string option \<Rightarrow> string" where
  "readCpuListFile contents = (case contents of None \<Rightarrow> [] | Some s \<Rightarrow> takeWhile (\<lambda>c. c \<noteq> CHR 0x0A) s)"

text \<open>The tokens of \<^verbatim>\<open>std::getline\<close> with a delimiter: no empty one after the last delimiter.\<close>

definition getline_tokens :: "char \<Rightarrow> string \<Rightarrow> string list" where
  "getline_tokens d s = (let ts = split_ref (\<lambda>c. c = d) s in if last ts = [] then butlast ts else ts)"

fun cpuListContains_loop :: "string list \<Rightarrow> int \<Rightarrow> error + bool" where
  "cpuListContains_loop [] cpu = Inr False"
| "cpuListContains_loop (token # tokens) cpu =
     (if token = [] \<or> \<not> is_digit (hd token) then cpuListContains_loop tokens cpu
      else let dash = find_char token CHR ''-'' 0 in
        case stoi (case dash of None \<Rightarrow> token | Some d \<Rightarrow> substr token 0 d) of
          Inl e \<Rightarrow> Inl e
        | Inr lo \<Rightarrow>
            (case (case dash of None \<Rightarrow> Inr lo | Some d \<Rightarrow> stoi (drop (d + 1) token)) of
               Inl e \<Rightarrow> Inl e
             | Inr hi \<Rightarrow> if cpu \<ge> lo \<and> cpu \<le> hi then Inr True else cpuListContains_loop tokens cpu))"

definition cpuListContains :: "string \<Rightarrow> int \<Rightarrow> error + bool" where
  "cpuListContains list cpu = cpuListContains_loop (getline_tokens CHR '','' list) cpu"

subsection \<open>Background threads\<close>

fun housekeeping_loop :: "string \<Rightarrow> string \<Rightarrow> nat list \<Rightarrow> nat set \<Rightarrow> nat \<Rightarrow> error + nat set \<times> nat" where
  "housekeeping_loop isolated nohz_full [] cpuset selected = Inr (cpuset, selected)"
| "housekeeping_loop isolated nohz_full (cpu # cpus) cpuset selected =
     (case cpuListContains isolated (int cpu) of
        Inl e \<Rightarrow> Inl e
      | Inr True \<Rightarrow> housekeeping_loop isolated nohz_full cpus cpuset selected
      | Inr False \<Rightarrow> (case cpuListContains nohz_full (int cpu) of
            Inl e \<Rightarrow> Inl e
          | Inr True \<Rightarrow> housekeeping_loop isolated nohz_full cpus cpuset selected
          | Inr False \<Rightarrow> housekeeping_loop isolated nohz_full cpus (CPU_SET (int cpu) cpuset) (selected + 1)))"

text \<open>The two files and \<^verbatim>\<open>sysconf(_SC_NPROCESSORS_CONF)\<close> are arguments.\<close>

definition makeHousekeepingCpuSet :: "string option \<Rightarrow> string option \<Rightarrow> int \<Rightarrow> error + bool \<times> nat set" where
  "makeHousekeepingCpuSet isolated_file nohz_full_file nprocessors =
     (let isolated = readCpuListFile isolated_file;
          nohz_full = readCpuListFile nohz_full_file;
          cpu_count = (if nprocessors \<le> 0 \<or> nprocessors > int CPU_SETSIZE then int CPU_SETSIZE else nprocessors)
      in case housekeeping_loop isolated nohz_full [0..<nat cpu_count] {} 0 of
           Inl e \<Rightarrow> Inl e
         | Inr (cpuset, selected) \<Rightarrow>
             if selected > 0 then Inr (True, cpuset)
             else Inr (cpu_count > 0, fold (\<lambda>cpu. CPU_SET (int cpu)) [0..<nat cpu_count] cpuset))"

definition pin_housekeeping ::
    "int \<Rightarrow> string option \<Rightarrow> string option \<Rightarrow> int \<Rightarrow> thread_state \<Rightarrow> error + bool \<times> thread_state" where
  "pin_housekeeping rc isolated_file nohz_full_file nprocessors st =
     (case makeHousekeepingCpuSet isolated_file nohz_full_file nprocessors of
        Inl e \<Rightarrow> Inl e
      | Inr (False, cpuset) \<Rightarrow> Inr (False, st)
      | Inr (True, cpuset) \<Rightarrow> Inr (case setaffinity rc cpuset st of (result, st') \<Rightarrow> (result = 0, st')))"

definition pinThreadToBackgroundCpus ::
    "int \<Rightarrow> int \<Rightarrow> string option \<Rightarrow> string option \<Rightarrow> int \<Rightarrow> int \<Rightarrow> thread_state \<Rightarrow> error + bool \<times> thread_state" where
  "pinThreadToBackgroundCpus rc_cpu rc isolated_file nohz_full_file nprocessors background_worker_cpu st =
     (if background_worker_cpu \<ge> 0 then
        (case setaffinity rc_cpu (CPU_SET background_worker_cpu {}) st of (result, st') \<Rightarrow>
           if result = 0 then Inr (True, st')
           else pin_housekeeping rc isolated_file nohz_full_file nprocessors st')
      else pin_housekeeping rc isolated_file nohz_full_file nprocessors st)"

subsection \<open>Scoped guards\<close>

lemma fold_CPU_SET: "fold CPU_SET cs A = A \<union> {i. i < CPU_SETSIZE \<and> int i \<in> set cs}"
proof (induction cs arbitrary: A)
  case (Cons c cs)
  then show ?case by (auto simp: CPU_SET_def)
qed simp

lemma getCurrentAffinity_set: "{i. i < CPU_SETSIZE \<and> int i \<in> set (getCurrentAffinity 0 st)} = th_affinity st \<inter> {..<CPU_SETSIZE}"
  by (auto simp: getCurrentAffinity_def)

lemma getCurrentAffinity_nonempty: "thread_ok st \<Longrightarrow> getCurrentAffinity 0 st \<noteq> []"
  by (auto simp: getCurrentAffinity_def thread_ok_def filter_empty_conv)

lemma pinToCores_affinity:
  assumes "thread_ok st" and "th_allowed st' = th_allowed st"
  shows "pinToCores 0 (getCurrentAffinity 0 st) st' = (True, st'\<lparr>th_affinity := th_affinity st\<rparr>)"
proof -
  have "th_affinity st \<inter> {..<CPU_SETSIZE} \<inter> th_allowed st' = th_affinity st" "th_affinity st \<noteq> {}"
    using assms by (auto simp: thread_ok_def)
  then show ?thesis by (simp add: pinToCores_def fold_CPU_SET getCurrentAffinity_set setaffinity_def)
qed

text \<open>A scoped CPU pin.  When the system calls succeed, the guard pins the thread to exactly the core asked for --
  or, when the thread may not run there, changes nothing and says so -- and destroying it restores the
  affinity the thread had.\<close>

theorem scoped_pin_restores:
  assumes "thread_ok st" and "ScopedCpuPin_new 0 0 core st = (p, st')"
  shows "(sp_pinned p \<longleftrightarrow> 0 \<le> core \<and> nat core \<in> th_allowed st) \<and>
    st' = (if sp_pinned p then st\<lparr>th_affinity := {nat core}\<rparr> else st) \<and>
    ScopedCpuPin_destroy 0 p st' = st"
proof -
  have allowed: "n \<in> th_allowed st \<Longrightarrow> n < CPU_SETSIZE" for n using assms(1) by (auto simp: thread_ok_def)
  have pin: "pinToCore 0 core st = (if 0 \<le> core \<and> nat core \<in> th_allowed st then (True, st\<lparr>th_affinity := {nat core}\<rparr>) else (False, st))"
    using allowed [of "nat core"] by (auto simp: pinToCore_def CPU_SET_def setaffinity_def EINVAL_def)
  show ?thesis
    using assms(2) getCurrentAffinity_nonempty [OF assms(1)] pinToCores_affinity [OF assms(1)]
    by (auto simp: ScopedCpuPin_new_def pin ScopedCpuPin_destroy_def split: if_splits)
qed

lemma valid_realtime: "policy = FIFO \<or> policy = RR \<Longrightarrow> valid_priority policy priority \<longleftrightarrow> 1 \<le> priority \<and> priority \<le> 99"
  by (auto simp: valid_priority_def)

lemma valid_other: "policy \<noteq> FIFO \<Longrightarrow> policy \<noteq> RR \<Longrightarrow> valid_priority policy priority \<longleftrightarrow> priority = 0"
  by (cases policy) (auto simp: valid_priority_def)

text \<open>C26: a scoped real-time priority.  When the system calls succeed, the guard is enabled exactly for a real-time
  policy with a priority from 1 to 99, and destroying it restores what the thread had before, unless the
  thread was scheduled as \<^verbatim>\<open>BATCH\<close> or \<^verbatim>\<open>IDLE\<close>: then the restoring call is refused because the old priority is 0,
  and the thread keeps its real-time priority.\<close>

theorem scoped_priority_restores:
  assumes "thread_ok st" and "ScopedRealtimePriority_new 0 0 priority policy st = (p, st')"
  shows "(sr_enabled p \<longleftrightarrow> (policy = FIFO \<or> policy = RR) \<and> 1 \<le> priority \<and> priority \<le> 99) \<and>
    ScopedRealtimePriority_destroy 0 p st' =
      (if sr_enabled p \<and> (th_policy st = BATCH \<or> th_policy st = IDLE)
       then st\<lparr>th_policy := policy, th_priority := priority\<rparr> else st)"
proof -
  have v: "valid_priority (th_policy st) (th_priority st)" using assms(1) by (simp add: thread_ok_def)
  have set: "setRealtimePriority 0 pr po s =
      ((po = FIFO \<or> po = RR) \<and> 1 \<le> pr \<and> pr \<le> 99,
       if (po = FIFO \<or> po = RR) \<and> 1 \<le> pr \<and> pr \<le> 99 then s\<lparr>th_policy := po, th_priority := pr\<rparr> else s)" for pr po s
    by (cases po) (auto simp: setRealtimePriority_def setschedparam_def EINVAL_def valid_realtime valid_other)
  have norm: "setNormalPriority 0 s = (True, s\<lparr>th_policy := NORMAL, th_priority := 0\<rparr>)" for s
    by (simp add: setNormalPriority_def setschedparam_def valid_other)
  let ?en = "(policy = FIFO \<or> policy = RR) \<and> 1 \<le> priority \<and> priority \<le> 99"
  have p: "p = \<lparr>sr_enabled = ?en, sr_original_policy = th_policy st, sr_original_priority = th_priority st\<rparr>"
    and st': "st' = (if ?en then st\<lparr>th_policy := policy, th_priority := priority\<rparr> else st)"
    using assms(2) unfolding ScopedRealtimePriority_new_def getCurrentPriority_def set by auto
  have "ScopedRealtimePriority_destroy 0 p st' =
      (if ?en \<and> (th_policy st = BATCH \<or> th_policy st = IDLE) then st\<lparr>th_policy := policy, th_priority := priority\<rparr> else st)"
  proof (cases ?en)
    case True
    have "th_policy st = NORMAL \<Longrightarrow> st\<lparr>th_policy := NORMAL, th_priority := 0\<rparr> = st" "st\<lparr>th_policy := th_policy st, th_priority := th_priority st\<rparr> = st"
      using v by (simp_all add: valid_other)
    then show ?thesis using v unfolding ScopedRealtimePriority_destroy_def p st' if_P [OF True]
      by (cases "th_policy st") (simp_all add: True set norm valid_realtime valid_other)
  next
    case False
    then have "\<not> sr_enabled p" by (simp add: p)
    moreover have "st' = st" by (simp only: st' if_not_P [OF False])
    ultimately show ?thesis using False by (simp only: ScopedRealtimePriority_destroy_def) (simp only: if_False False conj_assoc simp_thms)
  qed
  then show ?thesis by (simp add: p)
qed

definition ex_thread :: thread_state where
  "ex_thread = \<lparr>th_allowed = {0, 1, 2, 3}, th_affinity = {0, 1}, th_policy = BATCH, th_priority = 0,
     th_lock_current = False, th_lock_future = False\<rparr>"

lemma ex_thread_simps [simp]: "th_allowed ex_thread = {0, 1, 2, 3}" "th_policy ex_thread = BATCH"
  by (simp_all add: ex_thread_def)

lemma ex_thread_ok: "thread_ok ex_thread"
  by (simp add: thread_ok_def valid_other CPU_SETSIZE_def) (simp add: ex_thread_def)

theorem scoped_pin_restores_witness:
  "thread_ok ex_thread \<and> sp_pinned (fst (ScopedCpuPin_new 0 0 3 ex_thread)) \<and>
   th_affinity (snd (ScopedCpuPin_new 0 0 3 ex_thread)) = {3} \<and>
   ScopedCpuPin_destroy 0 (fst (ScopedCpuPin_new 0 0 3 ex_thread)) (snd (ScopedCpuPin_new 0 0 3 ex_thread)) = ex_thread"
proof -
  let ?r = "ScopedCpuPin_new 0 0 3 ex_thread"
  note w = scoped_pin_restores [OF ex_thread_ok, of 3 "fst ?r" "snd ?r", simplified prod.collapse, OF refl]
  have "sp_pinned (fst ?r)" using w by simp
  moreover from this have "th_affinity (snd ?r) = {3}" using w by (simp only: if_True) simp
  ultimately show ?thesis using w ex_thread_ok by blast
qed

theorem scoped_priority_restores_witness:
  "thread_ok ex_thread \<and> sr_enabled (fst (ScopedRealtimePriority_new 0 0 50 FIFO ex_thread)) \<and>
   th_policy (ScopedRealtimePriority_destroy 0 (fst (ScopedRealtimePriority_new 0 0 50 FIFO ex_thread))
     (snd (ScopedRealtimePriority_new 0 0 50 FIFO ex_thread))) = FIFO"
  using scoped_priority_restores [OF ex_thread_ok, of 50 FIFO "fst (ScopedRealtimePriority_new 0 0 50 FIFO ex_thread)"
      "snd (ScopedRealtimePriority_new 0 0 50 FIFO ex_thread)"] ex_thread_ok by simp

subsection \<open>CPU lists are read as printed\<close>

text \<open>The format of the kernel's CPU lists: ranges, and single numbers for ranges of one.\<close>

fun print_range :: "nat \<times> nat \<Rightarrow> string" where
  "print_range (lo, hi) = (if lo = hi then show_nat lo else show_nat lo @ CHR ''-'' # show_nat hi)"

definition print_cpu_list :: "(nat \<times> nat) list \<Rightarrow> string" where
  "print_cpu_list rs = join (map print_range rs) [CHR '','']"

definition cpus_of :: "(nat \<times> nat) list \<Rightarrow> nat set" where
  "cpus_of rs = (\<Union>(lo, hi)\<in>set rs. {lo..hi})"

definition ranges_ok :: "(nat \<times> nat) list \<Rightarrow> bool" where
  "ranges_ok rs \<longleftrightarrow> list_all (\<lambda>(lo, hi). lo \<le> hi \<and> hi < 2 ^ 31) rs"

lemma show_nat_chars: "c \<in> set (show_nat n) \<Longrightarrow> c \<noteq> CHR ''-'' \<and> c \<noteq> CHR '','' \<and> c \<noteq> CHR 0x0A"
  using show_nat_digits [of n] by (auto simp: is_digit_def ascii_def)

lemma stoi_show_nat: "n < 2 ^ 31 \<Longrightarrow> stoi (show_nat n) = Inr (int n)"
  using stoi_show_int [of "int n"] by (simp add: show_int_def)

lemma find_dash_none: "find_char (show_nat n) CHR ''-'' 0 = None"
proof -
  have "takeWhile (\<lambda>c. c \<noteq> CHR ''-'') (show_nat n) = show_nat n"
    using show_nat_chars [of _ n] by (simp add: takeWhile_eq_all_conv)
  then show ?thesis unfolding find_char_def find_if_from_def drop_0 Let_def by (simp only:) simp
qed

lemma find_dash: "find_char (show_nat lo @ CHR ''-'' # t) CHR ''-'' 0 = Some (length (show_nat lo))"
proof -
  have "takeWhile (\<lambda>c. c \<noteq> CHR ''-'') (show_nat lo @ CHR ''-'' # t) = show_nat lo"
    using show_nat_chars [of _ lo] by (subst takeWhile_append2) auto
  then show ?thesis by (simp add: find_char_def find_if_from_def)
qed

lemma print_range_nonempty: "print_range r \<noteq> []" "is_digit (hd (print_range r))"
  by (cases r; simp add: show_nat_hd)+

lemma cpuListContains_loop_ranges:
  "ranges_ok rs \<Longrightarrow> cpuListContains_loop (map print_range rs) (int cpu) = Inr (cpu \<in> cpus_of rs)"
proof (induction rs)
  case (Cons r rs)
  obtain lo hi where r: "r = (lo, hi)" by (cases r)
  have b: "lo \<le> hi" "hi < 2 ^ 31" "lo < 2 ^ 31" using Cons.prems by (auto simp: ranges_ok_def r)
  have IH: "cpuListContains_loop (map print_range rs) (int cpu) = Inr (cpu \<in> cpus_of rs)"
    using Cons by (simp add: ranges_ok_def)
  show ?case
  proof (cases "lo = hi")
    case True
    then show ?thesis using b IH by (auto simp: r find_dash_none stoi_show_nat show_nat_hd cpus_of_def)
  next
    case False
    then show ?thesis using b IH
      by (auto simp: r find_dash stoi_show_nat show_nat_hd cpus_of_def substr_def)
  qed
qed (simp add: cpus_of_def)

lemma getline_print: "getline_tokens CHR '','' (print_cpu_list rs) = map print_range rs"
proof (cases "rs = []")
  case True
  then show ?thesis by (simp add: getline_tokens_def print_cpu_list_def join_def)
next
  case False
  have "CHR '','' \<notin> set (print_range r)" for r
    by (cases r) (auto dest: show_nat_chars)
  then have "split_ref (\<lambda>c. c = CHR '','') (print_cpu_list rs) = map print_range rs"
    using False unfolding print_cpu_list_def by (intro split_ref_join) auto
  then show ?thesis using False print_range_nonempty(1) by (simp add: getline_tokens_def last_map)
qed

lemma cpuListContains_print: "ranges_ok rs \<Longrightarrow> cpuListContains (print_cpu_list rs) (int cpu) = Inr (cpu \<in> cpus_of rs)"
  by (simp add: cpuListContains_def getline_print cpuListContains_loop_ranges)

subsection \<open>Where background threads run\<close>

lemma housekeeping_loop_print:
  assumes "ranges_ok isol" and "ranges_ok nohz" and "\<forall>cpu\<in>set cpus. cpu < CPU_SETSIZE"
  shows "housekeeping_loop (print_cpu_list isol) (print_cpu_list nohz) cpus A k =
    (let free = filter (\<lambda>cpu. cpu \<notin> cpus_of isol \<and> cpu \<notin> cpus_of nohz) cpus in Inr (A \<union> set free, k + length free))"
  using assms(3)
proof (induction cpus arbitrary: A k)
  case (Cons cpu cpus)
  then show ?case using assms(1,2)
    by (cases "cpu \<in> cpus_of isol"; cases "cpu \<in> cpus_of nohz")
      (simp_all add: cpuListContains_print Let_def CPU_SET_def)
qed simp

text \<open>The CPUs a background thread is meant for: those neither isolated nor tickless, or all if there are none.\<close>

definition housekeeping_cpus :: "(nat \<times> nat) list \<Rightarrow> (nat \<times> nat) list \<Rightarrow> nat \<Rightarrow> nat set" where
  "housekeeping_cpus isol nohz n =
     (let free = {..<n} - cpus_of isol - cpus_of nohz in if free = {} then {..<n} else free)"

lemma readCpuListFile_print: "readCpuListFile (Some (print_cpu_list rs @ CHR 0x0A # t)) = print_cpu_list rs"
proof -
  have r: "CHR 0x0A \<notin> set (print_range r)" for r by (cases r) (auto dest: show_nat_chars)
  have "CHR 0x0A \<notin> set (print_cpu_list rs)"
  proof (cases rs)
    case (Cons r rs')
    then show ?thesis using r by (auto simp: print_cpu_list_def join_Cons)
  qed (simp add: print_cpu_list_def join_def)
  then show ?thesis unfolding readCpuListFile_def by (simp, subst takeWhile_append2) auto
qed

lemma makeHousekeepingCpuSet_print:
  assumes "ranges_ok isol" and "ranges_ok nohz" and "0 < n" and "n \<le> CPU_SETSIZE"
  shows "makeHousekeepingCpuSet (Some (print_cpu_list isol @ CHR 0x0A # t)) (Some (print_cpu_list nohz @ CHR 0x0A # t')) (int n) =
    Inr (True, housekeeping_cpus isol nohz n)"
proof -
  let ?free = "filter (\<lambda>cpu. cpu \<notin> cpus_of isol \<and> cpu \<notin> cpus_of nohz) [0..<n]"
  have loop: "housekeeping_loop (print_cpu_list isol) (print_cpu_list nohz) [0..<n] {} 0 = Inr (set ?free, length ?free)"
    using assms(4) by (subst housekeeping_loop_print [OF assms(1,2)]) (auto simp: Let_def)
  have set: "set ?free = {..<n} - cpus_of isol - cpus_of nohz" by auto
  have "fold (\<lambda>cpu. CPU_SET (int cpu)) [0..<n] A = A \<union> {..<n}" if "n \<le> CPU_SETSIZE" for n A
    using that by (induction n) (auto simp: CPU_SET_def lessThan_Suc)
  then have all: "fold (\<lambda>cpu. CPU_SET (int cpu)) [0..<n] {} = {..<n}" using assms(4) by simp
  show ?thesis
  proof (cases "?free = []")
    case True
    then have "{..<n} - cpus_of isol - cpus_of nohz = {}" using set by (metis list.set(1))
    then show ?thesis using assms(3,4) loop True all
      by (simp add: makeHousekeepingCpuSet_def readCpuListFile_print housekeeping_cpus_def Let_def)
  next
    case False
    then have "{..<n} - cpus_of isol - cpus_of nohz \<noteq> {}" using set by (metis set_empty)
    then show ?thesis using assms(3,4) loop False set
      by (simp add: makeHousekeepingCpuSet_def readCpuListFile_print housekeeping_cpus_def Let_def)
  qed
qed

text \<open>Placement of background threads.  With the kernel's files of isolated and tickless CPUs and system calls that
  succeed, a background thread is pinned to the CPU that was configured, if it may run there; otherwise
  to the CPUs that are neither isolated nor tickless, or to all CPUs when there are none; when it may
  run on none of these, nothing changes and the call says so.  No call throws.\<close>

theorem background_thread_placement:
  assumes "ranges_ok isol" and "ranges_ok nohz" and "0 < n" and "n \<le> CPU_SETSIZE" and "thread_ok st"
  shows "pinThreadToBackgroundCpus 0 0 (Some (print_cpu_list isol @ CHR 0x0A # t)) (Some (print_cpu_list nohz @ CHR 0x0A # t')) (int n) cpu st =
    Inr (if 0 \<le> cpu \<and> nat cpu \<in> th_allowed st then (True, st\<lparr>th_affinity := {nat cpu}\<rparr>)
         else if housekeeping_cpus isol nohz n \<inter> th_allowed st = {} then (False, st)
         else (True, st\<lparr>th_affinity := housekeeping_cpus isol nohz n \<inter> th_allowed st\<rparr>))"
proof -
  have hk: "pin_housekeeping 0 (Some (print_cpu_list isol @ CHR 0x0A # t)) (Some (print_cpu_list nohz @ CHR 0x0A # t')) (int n) st =
      Inr (if housekeeping_cpus isol nohz n \<inter> th_allowed st = {} then (False, st)
         else (True, st\<lparr>th_affinity := housekeeping_cpus isol nohz n \<inter> th_allowed st\<rparr>))"
    by (simp add: pin_housekeeping_def makeHousekeepingCpuSet_print [OF assms(1-4)] setaffinity_def EINVAL_def)
  have "nat cpu < CPU_SETSIZE" if "nat cpu \<in> th_allowed st" using that assms(5) by (auto simp: thread_ok_def)
  then have "setaffinity 0 (CPU_SET cpu {}) st =
      (if nat cpu \<in> th_allowed st then (0, st\<lparr>th_affinity := {nat cpu}\<rparr>) else (EINVAL, st))" if "0 \<le> cpu"
    using that by (auto simp: setaffinity_def CPU_SET_def)
  then show ?thesis by (auto simp: pinThreadToBackgroundCpus_def hk EINVAL_def)
qed

theorem background_thread_placement_witness:
  "pinThreadToBackgroundCpus 0 0 (Some (print_cpu_list [(2, 3)] @ [CHR 0x0A])) (Some (print_cpu_list [(1, 1)] @ [CHR 0x0A])) 4 (-1) ex_thread =
   Inr (True, ex_thread\<lparr>th_affinity := {0}\<rparr>)"
proof -
  have "housekeeping_cpus [(2, 3)] [(1, 1)] 4 = {0}"
  proof -
    have "{..<4} - {2..3} - {1..1} = {0 :: nat}" by auto
    then show ?thesis by (simp add: housekeeping_cpus_def cpus_of_def Let_def)
  qed
  then show ?thesis
    using background_thread_placement [of "[(2, 3)]" "[(1, 1)]" 4 ex_thread "[]" "[]" "-1"] ex_thread_ok
    by (simp add: ranges_ok_def CPU_SETSIZE_def)
qed

end
