(* ===== verification/Tsc_Timer.thy ===== *)
theory Tsc_Timer
  imports Thread_Platform
begin

section \<open>The time stamp counter (include/revoq/TscTimer.h)\<close>

text \<open>
  The tests by which class \<^verbatim>\<open>TscTimer\<close> decides whether the counter can be used across cores: the CPUID
  bit, the flags of \<^verbatim>\<open>/proc/cpuinfo\<close>, and the spread of the counters of the first cores.  What the
  processor and the kernel answer is an argument.  The conversion between ticks and nanoseconds is in
  the theory of the rate.
\<close>

subsection \<open>The tests\<close>

definition has_invariant_tsc :: "u32 \<Rightarrow> u32 \<Rightarrow> bool" where
  "has_invariant_tsc cpuid_max edx =
     (if cpuid_max = 0 \<or> cpuid_max < 0x80000007 then False else edx AND push_bit 8 1 \<noteq> 0)"

abbreviation found :: "string \<Rightarrow> string \<Rightarrow> bool" where
  "found line pat \<equiv> find_str line pat \<noteq> None"

fun cpuinfo_loop :: "string list \<Rightarrow> bool \<Rightarrow> bool \<Rightarrow> bool" where
  "cpuinfo_loop [] has_constant_tsc has_nonstop_tsc = (has_constant_tsc \<and> has_nonstop_tsc)"
| "cpuinfo_loop (line # lines) has_constant_tsc has_nonstop_tsc =
     (if found line ''flags'' then
        let c = found line ''constant_tsc''; n = found line ''nonstop_tsc''
        in if c \<and> n then c \<and> n else cpuinfo_loop lines c n
      else cpuinfo_loop lines has_constant_tsc has_nonstop_tsc)"

definition is_suitable_for_cross_core_timing :: "u32 \<Rightarrow> u32 \<Rightarrow> string option \<Rightarrow> bool" where
  "is_suitable_for_cross_core_timing cpuid_max edx cpuinfo =
     (if \<not> has_invariant_tsc cpuid_max edx then False
      else case cpuinfo of
        None \<Rightarrow> False
      | Some contents \<Rightarrow> cpuinfo_loop (getline_tokens CHR 0x0A contents) False False)"

text \<open>\<open>rdtscp core\<close> is what the thread pinned to that core reads; \<open>issue\<close> is \<^verbatim>\<open>has_tsc_offset_issue_\<close>.\<close>

definition detect_tsc_offset_issue :: "int \<Rightarrow> (nat \<Rightarrow> u64) \<Rightarrow> bool \<Rightarrow> bool" where
  "detect_tsc_offset_issue num_cores rdtscp issue =
     (if num_cores < 2 then issue
      else let core_timestamps = map rdtscp [0..<nat (min num_cores 4)];
               min_ts = Min (set core_timestamps);
               max_ts = Max (set core_timestamps);
               spread = max_ts - min_ts
           in if spread > 10000000000 then True else issue)"

definition has_cross_core_offset_issue :: "bool \<Rightarrow> bool" where
  "has_cross_core_offset_issue issue = issue"

subsection \<open>What the tests decide\<close>

lemma cpuinfo_loop_iff:
  "cpuinfo_loop lines c n \<longleftrightarrow>
     (\<exists>l\<in>set lines. found l ''flags'' \<and> found l ''constant_tsc'' \<and> found l ''nonstop_tsc'') \<or>
     (c \<and> n \<and> \<not> (\<exists>l\<in>set lines. found l ''flags''))"
proof (induction lines arbitrary: c n)
  case (Cons l ls)
  show ?case
  proof (cases "found l ''flags''")
    case True
    then show ?thesis using Cons.IH [of "found l ''constant_tsc''" "found l ''nonstop_tsc''"] by (auto simp: Let_def)
  next
    case False
    then show ?thesis using Cons.IH [of c n] by simp
  qed
qed simp

lemma spread_iff:
  fixes f :: "nat \<Rightarrow> u64"
  assumes "0 < n"
  shows "Max (f ` {..<n}) - Min (f ` {..<n}) > d \<longleftrightarrow> (\<exists>i<n. \<exists>j<n. f i \<le> f j \<and> f j - f i > d)"
proof
  have fin: "finite (f ` {..<n})" "f ` {..<n} \<noteq> {}" using assms by auto
  assume d: "Max (f ` {..<n}) - Min (f ` {..<n}) > d"
  obtain i j where "i < n" "f i = Min (f ` {..<n})" "j < n" "f j = Max (f ` {..<n})"
    using Min_in [OF fin] Max_in [OF fin] by fastforce
  moreover have "Min (f ` {..<n}) \<le> Max (f ` {..<n})" using fin by (meson Max_in Min_le)
  ultimately show "\<exists>i<n. \<exists>j<n. f i \<le> f j \<and> f j - f i > d" using d by metis
next
  assume "\<exists>i<n. \<exists>j<n. f i \<le> f j \<and> f j - f i > d"
  then obtain i j where ij: "i < n" "j < n" "f i \<le> f j" "f j - f i > d" by blast
  have "Min (f ` {..<n}) \<le> f i" "f j \<le> Max (f ` {..<n})" using ij by simp_all
  with ij(3) have "f j - f i \<le> Max (f ` {..<n}) - Min (f ` {..<n})"
    by (simp add: word_le_nat_alt unat_sub)
  with ij(4) show "Max (f ` {..<n}) - Min (f ` {..<n}) > d" by simp
qed

text \<open>The tests of the time stamp counter.  The counter counts as suitable exactly when CPUID reports an invariant counter and one line of the CPU's
  flags has both \<^verbatim>\<open>constant_tsc\<close> and \<^verbatim>\<open>nonstop_tsc\<close>, whatever other flag lines say; and an offset is reported, from then
  on, exactly when two of the first four cores differ by more than the limit.\<close>

theorem tsc_tests_decide:
  "(is_suitable_for_cross_core_timing cpuid_max edx cpuinfo \<longleftrightarrow>
      0x80000007 \<le> cpuid_max \<and> bit edx 8 \<and>
      (\<exists>contents l. cpuinfo = Some contents \<and> l \<in> set (getline_tokens CHR 0x0A contents) \<and>
         found l ''flags'' \<and> found l ''constant_tsc'' \<and> found l ''nonstop_tsc'')) \<and>
   (detect_tsc_offset_issue cores rdtscp issue \<longleftrightarrow>
      issue \<or> 2 \<le> cores \<and> (\<exists>i<nat (min cores 4). \<exists>j<nat (min cores 4). rdtscp i \<le> rdtscp j \<and> rdtscp j - rdtscp i > 10000000000))"
proof (intro conjI)
  have mask: "edx AND push_bit 8 1 \<noteq> 0 \<longleftrightarrow> bit edx 8" by (rule bit_iff_and_push_bit_not_eq_0 [symmetric])
  show "is_suitable_for_cross_core_timing cpuid_max edx cpuinfo \<longleftrightarrow>
      0x80000007 \<le> cpuid_max \<and> bit edx 8 \<and>
      (\<exists>contents l. cpuinfo = Some contents \<and> l \<in> set (getline_tokens CHR 0x0A contents) \<and>
         found l ''flags'' \<and> found l ''constant_tsc'' \<and> found l ''nonstop_tsc'')"
    unfolding is_suitable_for_cross_core_timing_def has_invariant_tsc_def mask cpuinfo_loop_iff
    by (auto simp: not_less split: option.splits)
  show "detect_tsc_offset_issue cores rdtscp issue \<longleftrightarrow>
      issue \<or> 2 \<le> cores \<and> (\<exists>i<nat (min cores 4). \<exists>j<nat (min cores 4). rdtscp i \<le> rdtscp j \<and> rdtscp j - rdtscp i > 10000000000)"
  proof (cases "cores < 2")
    case False
    then have "0 < nat (min cores 4)" by simp
    moreover have "set (map rdtscp [0..<nat (min cores 4)]) = rdtscp ` {..<nat (min cores 4)}" by auto
    ultimately show ?thesis using False
      unfolding detect_tsc_offset_issue_def Let_def by (simp only: spread_iff if_False not_less) auto
  qed (simp add: detect_tsc_offset_issue_def)
qed

end
