(* ===== verification/Tsc_Rate.thy ===== *)
theory Tsc_Rate
  imports Tsc_Timer Time_Utils Binary64
begin

section \<open>From ticks to nanoseconds (include/revoq/TscTimer.h)\<close>

text \<open>
  The part of \<^verbatim>\<open>TscTimer\<close> that computes in \<^verbatim>\<open>double\<close>: \<^verbatim>\<open>calibrate\<close>, \<^verbatim>\<open>recalibrate_if_drift\<close> and the conversion of
  differences of the counter, on x86-64 Linux.  The four static members are one record.  What the clock and
  the counter read at each call is an argument; the clock reads in nanoseconds.
\<close>

subsection \<open>State and operations\<close>

record tsc_state =
  ticks_per_ns :: double
  last_chk_cycles :: u64
  last_chk_steady :: u64
  tsc_offset_issue :: bool

definition tsc_initial :: tsc_state where
  "tsc_initial = \<lparr>ticks_per_ns = Fin 1, last_chk_cycles = 0, last_chk_steady = 0, tsc_offset_issue = False\<rparr>"

text \<open>\<^verbatim>\<open>std::to_string(double)\<close>, that is \<^verbatim>\<open>%f\<close>.\<close>

fun d_to_string :: "double \<Rightarrow> string" where
  "d_to_string (Fin x) =
     (let n = nat (rne (\<bar>x\<bar> * 1000000)) in
      (if x < 0 then ''-'' else []) @ show_nat (n div 1000000) @ ''.'' @ print_d True 6 (int (n mod 1000000)))"
| "d_to_string (Infinite s) = (if s then ''-inf'' else ''inf'')"
| "d_to_string NaN = ''nan''"

text \<open>What the machine answers during one calibration.\<close>

record tsc_env =
  env_cpuid_max :: u32
  env_edx :: u32
  env_cpuinfo :: "string option"
  env_t0 :: u64
  env_c0 :: u64
  env_c1 :: u64
  env_t1 :: u64
  env_t2 :: u64
  env_cores :: int
  env_core_tsc :: "nat \<Rightarrow> u64"

definition tsc_rate :: "tsc_env \<Rightarrow> double" where
  "tsc_rate e = d_div (d_of_int (uint (env_c1 e - env_c0 e))) (d_of_int (sint (env_t1 e - env_t0 e)))"

definition calibrate :: "tsc_env \<Rightarrow> tsc_state \<Rightarrow> error + tsc_state" where
  "calibrate e s =
     (if \<not> is_suitable_for_cross_core_timing (env_cpuid_max e) (env_edx e) (env_cpuinfo e)
      then Inl (Runtime_error (''TSC not suitable for cross-core timing on this CPU. '' @
             ''Missing invariant_tsc, constant_tsc, or nonstop_tsc support.''))
      else let tpn = tsc_rate e in
        if d_less tpn (Fin (1 / 2)) \<or> d_less (Fin 10) tpn
        then Inl (Runtime_error (''TSC calibration failed: unreasonable ticks_per_ns='' @ d_to_string tpn))
        else Inr (s\<lparr>ticks_per_ns := tpn, last_chk_cycles := env_c1 e, last_chk_steady := env_t2 e,
               tsc_offset_issue := detect_tsc_offset_issue (env_cores e) (env_core_tsc e) (tsc_offset_issue s)\<rparr>))"

definition now_cycles_begin :: "u64 \<Rightarrow> u64" where "now_cycles_begin tsc = tsc"
definition now_cycles_end :: "u64 \<Rightarrow> u64" where "now_cycles_end tsc = tsc"

definition delta_ns :: "tsc_state \<Rightarrow> u64 \<Rightarrow> u64 \<Rightarrow> double" where
  "delta_ns s start end' =
     (let tpn = ticks_per_ns s in d_div (d_of_int (uint (end' - start))) (if d_less (Fin 0) tpn then tpn else Fin 1))"

definition delta_us :: "tsc_state \<Rightarrow> u64 \<Rightarrow> u64 \<Rightarrow> double" where
  "delta_us s start end' = d_div (delta_ns s start end') (d_of_int 1000)"

definition blend :: "double \<Rightarrow> double \<Rightarrow> double" where
  "blend old_tpn new_tpn = d_add (d_mul (fl (85 / 100)) old_tpn) (d_mul (fl (15 / 100)) new_tpn)"

definition recalibrate_if_drift :: "double \<Rightarrow> u64 \<Rightarrow> u64 \<Rightarrow> u64 \<Rightarrow> tsc_state \<Rightarrow> tsc_state" where
  "recalibrate_if_drift rel_threshold interval now_sc_ns now_cyc s =
     (let last_sc_ns = last_chk_steady s in
      if last_sc_ns = 0 \<or> sint (now_sc_ns - last_sc_ns) < sint (interval * 1000000) then s
      else let sc_ns = d_of_int (sint (now_sc_ns - last_sc_ns));
               cyc = d_of_int (uint (now_cyc - last_chk_cycles s))
           in if d_le sc_ns (Fin 0) \<or> d_le cyc (Fin 0) then s
              else let new_tpn = d_div cyc sc_ns;
                       old_tpn = ticks_per_ns s;
                       tpn = (if d_le old_tpn (Fin 0) then new_tpn
                              else let drift = d_div (d_abs (d_sub new_tpn old_tpn)) old_tpn
                                   in if d_less rel_threshold drift then blend old_tpn new_tpn else old_tpn)
                   in s\<lparr>ticks_per_ns := tpn, last_chk_cycles := now_cyc, last_chk_steady := now_sc_ns\<rparr>)"

subsection \<open>Reachable states\<close>

text \<open>A calibration sleeps, so its clock has advanced; everything else is arbitrary.\<close>

inductive tsc_reachable :: "tsc_state \<Rightarrow> bool" where
  start: "tsc_reachable tsc_initial"
| calibrated: "tsc_reachable s \<Longrightarrow> 0 < sint (env_t1 e - env_t0 e) \<Longrightarrow> calibrate e s = Inr s' \<Longrightarrow> tsc_reachable s'"
| recalibrated: "tsc_reachable s \<Longrightarrow> tsc_reachable (recalibrate_if_drift rel_threshold interval now_sc_ns now_cyc s)"

definition rate_ok :: "double \<Rightarrow> bool" where
  "rate_ok r \<longleftrightarrow> (case r of Fin x \<Rightarrow> 2 powi (- 66) \<le> x \<and> x \<le> 2 powi 65 | _ \<Rightarrow> False)"

lemma rate_okE:
  assumes "rate_ok r"
  obtains x where "r = Fin x" "2 powi (- 66) \<le> x" "x \<le> 2 powi 65" "0 < x"
proof (cases r)
  case (Fin x)
  moreover have "(0 :: rat) < 2 powi (- 66)" by simp
  ultimately show ?thesis using assms that [of x] by (auto simp: rate_ok_def)
qed (use assms in \<open>simp_all add: rate_ok_def\<close>)

text \<open>Bounds on operands carry over to the rounded result.\<close>

lemma between_powers:
  assumes "(2 :: rat) powi j \<le> x" and "j' \<le> j" and "x \<le> 2 powi k" and "k \<le> k'"
  shows "2 powi j' \<le> x" and "x \<le> 2 powi k'"
  using assms powi_le_iff [of j' j] powi_le_iff [of k k'] by linarith+

lemma d_of_int_range:
  assumes "0 < i" and "i \<le> 2 ^ k" and "k < 1000"
  obtains x where "d_of_int i = Fin x" "2 powi 0 \<le> x" "x \<le> 2 powi int k"
proof -
  have "(of_int i :: rat) \<le> of_int (2 ^ k)" using assms(2) by (simp only: of_int_le_iff)
  then show ?thesis using fl_range [of 0 "of_int i" "int k" thesis] that assms by (simp add: d_of_int_def)
qed

lemma d_div_range:
  assumes "2 powi a \<le> x" "x \<le> 2 powi b" "2 powi c \<le> y" "y \<le> 2 powi d" and "- 1074 \<le> a - d" and "b - c < 1024"
  obtains z where "d_div (Fin x) (Fin y) = Fin z" "2 powi (a - d) \<le> z" "z \<le> 2 powi (b - c)" "z = round64 (x / y)"
proof -
  have pos: "(0 :: rat) < 2 powi a" "(0 :: rat) < 2 powi c" by simp_all
  then have xy: "0 < x" "0 < y" using assms(1,3) by linarith+
  have "2 powi a / 2 powi d \<le> x / y" using xy assms(1,4) by (intro frac_le) auto
  moreover have "x / y \<le> 2 powi b / 2 powi c" using xy assms(2,3) by (intro frac_le) auto
  ultimately have r: "2 powi (a - d) \<le> x / y" "x / y \<le> 2 powi (b - c)" by (simp_all add: power_int_diff)
  obtain z where z: "fl (x / y) = Fin z" "2 powi (a - d) \<le> z" "z \<le> 2 powi (b - c)" using r assms(5,6) by (rule fl_range)
  then have "z = round64 (x / y)" by (auto simp: fl_def split: if_splits)
  then show ?thesis using that [of z] z xy by simp
qed

lemma new_rate:
  assumes "0 < sint t" and "c \<noteq> 0"
  obtains x where "d_div (d_of_int (uint (c :: u64))) (d_of_int (sint (t :: u64))) = Fin x" "2 powi (- 63) \<le> x" "x \<le> 2 powi 64"
proof -
  have "0 < uint c" "uint c \<le> 2 ^ 64" using assms(2) uint_lt2p [of c] by (simp_all add: word_neq_0_conv word_less_def)
  then obtain x where x: "d_of_int (uint c) = Fin x" "2 powi 0 \<le> x" "x \<le> 2 powi int 64" by (rule d_of_int_range) simp
  have "sint t \<le> 2 ^ 63" using sint_lt [of t] by simp
  with assms(1) obtain y where y: "d_of_int (sint t) = Fin y" "2 powi 0 \<le> y" "y \<le> 2 powi int 63" by (rule d_of_int_range) simp
  obtain z where "d_div (Fin x) (Fin y) = Fin z" "2 powi (0 - int 63) \<le> z" "z \<le> 2 powi (int 64 - 0)"
    using x(2,3) y(2,3) by (rule d_div_range) simp_all
  then show ?thesis using that [of z] x(1) y(1) by simp
qed

lemma blend_ok:
  assumes "rate_ok old_tpn" and "2 powi (- 63) \<le> y" and "y \<le> 2 powi 64"
  shows "rate_ok (blend old_tpn (Fin y))"
proof -
  obtain x where x: "old_tpn = Fin x" "2 powi (- 66) \<le> x" "x \<le> 2 powi 65" "0 < x" using assms(1) by (rule rate_okE)
  have "(2 :: rat) powi (- 1) \<le> 85 / 100" "(85 :: rat) / 100 \<le> 2 powi 0" by (simp_all add: power_int_minus)
  then obtain p where p: "fl (85 / 100) = Fin p" "2 powi (- 1) \<le> p" by (rule fl_range) simp_all
  have "p = round64 (85 / 100)" using p(1) by (auto simp: fl_def split: if_splits)
  moreover have "round64 (7 / 8) = 7 / 8" by (rule round64_exact [of _ 7 "- 3"]) (simp_all add: power_int_minus)
  ultimately have p': "p \<le> 7 / 8" using round64_mono [of "85 / 100" "7 / 8"] by simp
  have "(2 :: rat) powi (- 3) \<le> 15 / 100" "(15 :: rat) / 100 \<le> 2 powi (- 2)" by (simp_all add: power_int_minus)
  then obtain q where q: "fl (15 / 100) = Fin q" "2 powi (- 3) \<le> q" "q \<le> 2 powi (- 2)" by (rule fl_range) simp_all
  have y: "0 < y" using assms(2) zero_less_power_int [of "2 :: rat" "- 63"] by linarith
  have "2 powi (- 1) * 2 powi (- 66) \<le> p * x" "p * x \<le> 7 / 8 * 2 powi 65"
    using p(2) p' x by (intro mult_mono; simp)+
  then have px: "2 powi (- 67) \<le> p * x" "p * x \<le> 7 * 2 ^ 62" by (simp_all add: power_int_minus)
  have ex: "round64 (2 powi (- 67)) = 2 powi (- 67)" "round64 (7 * 2 ^ 62) = 7 * 2 ^ 62" "round64 (2 powi (- 66)) = 2 powi (- 66)"
    "round64 (2 powi 62) = 2 powi 62" "round64 (2 powi 65) = 2 powi 65"
    by (rule round64_exact [of _ 1 "- 67"] round64_exact [of _ 7 62] round64_exact [of _ 1 "- 66"] round64_exact [of _ 1 62]
        round64_exact [of _ 1 65]; simp)+
  have small: "\<bar>2 powi k :: rat\<bar> < 2 powi 1024" if "k < 1024" for k using that powi_less_iff [of k 1024] by simp
  obtain u where u: "fl (p * x) = Fin u" "2 powi (- 67) \<le> u" "u \<le> 7 * 2 ^ 62"
    using px ex(1,2) by (rule fl_between) (use small [of "- 67"] powi_gt [of "7 * 2 ^ 62" 65 1024] in simp_all)
  have "2 powi (- 3) * 2 powi (- 63) \<le> q * y" "q * y \<le> 2 powi (- 2) * 2 powi 64"
    using q(2,3) assms(2,3) y by (intro mult_mono; simp)+
  then have "2 powi (- 66) \<le> q * y" "q * y \<le> 2 powi 62" by (simp_all add: power_int_minus)
  then obtain v where v: "fl (q * y) = Fin v" "2 powi (- 66) \<le> v" "v \<le> 2 powi 62"
    using ex(3,4) small [of "- 66"] small [of 62] by (rule fl_between) simp_all
  have "2 powi (- 66) \<le> u + v" using u(2) v(2) zero_less_power_int [of "2 :: rat" "- 67"] by linarith
  moreover have "u + v \<le> 2 powi 65" using u(3) v(3) by simp
  ultimately obtain w where "fl (u + v) = Fin w" "2 powi (- 66) \<le> w" "w \<le> 2 powi 65"
    using ex(3,5) small [of "- 66"] small [of 65] by (rule fl_between) simp_all
  then show ?thesis using x(1) p(1) q(1) u(1) v(1) by (simp add: blend_def rate_ok_def)
qed

lemma calibrate_ok:
  assumes "calibrate e s = Inr s'" and "0 < sint (env_t1 e - env_t0 e)"
  shows "rate_ok (ticks_per_ns s')"
proof -
  have r: "\<not> d_less (tsc_rate e) (Fin (1 / 2))" "\<not> d_less (Fin 10) (tsc_rate e)" "ticks_per_ns s' = tsc_rate e"
    using assms(1) by (auto simp: calibrate_def Let_def split: if_splits)
  have "env_c1 e - env_c0 e \<noteq> 0"
  proof
    assume "env_c1 e - env_c0 e = 0"
    moreover have "sint (env_t1 e - env_t0 e) \<le> 2 ^ 63" using sint_lt [of "env_t1 e - env_t0 e"] by simp
    with assms(2) obtain y where "d_of_int (sint (env_t1 e - env_t0 e)) = Fin y" "2 powi 0 \<le> y"
      by (rule d_of_int_range) simp
    ultimately show False using r(1) by (simp add: tsc_rate_def d_of_int_def)
  qed
  then obtain x where "tsc_rate e = Fin x" using new_rate [OF assms(2)] unfolding tsc_rate_def by blast
  then have "1 / 2 \<le> x" "x \<le> 10" "tsc_rate e = Fin x" using r(1,2) by (simp_all add: not_less)
  moreover have "(2 :: rat) powi (- 66) \<le> 1 / 2" "(10 :: rat) \<le> 2 powi 65" by (simp_all add: power_int_minus)
  ultimately show ?thesis unfolding r(3) rate_ok_def by simp
qed

lemma d_of_int_nonpos: "i \<le> 0 \<Longrightarrow> d_le (d_of_int i) (Fin 0)"
proof (cases "i = 0")
  case False
  assume "i \<le> 0"
  then show ?thesis using False round64_mono [of "of_int i" 0] by (auto simp: d_of_int_def fl_def d_le_def)
qed (simp add: d_of_int_def d_le_def)

lemma recalibrate_ok:
  assumes "rate_ok (ticks_per_ns s)"
  shows "rate_ok (ticks_per_ns (recalibrate_if_drift rel_threshold interval now_sc_ns now_cyc s))"
proof -
  let ?t = "now_sc_ns - last_chk_steady s" and ?c = "now_cyc - last_chk_cycles s"
  show ?thesis
  proof (cases "d_le (d_of_int (sint ?t)) (Fin 0) \<or> d_le (d_of_int (uint ?c)) (Fin 0)")
    case False
    then have "0 < sint ?t" using d_of_int_nonpos [of "sint ?t"] by linarith
    moreover have "?c \<noteq> 0" using False d_of_int_nonpos [of 0] by auto
    ultimately obtain y where y: "d_div (d_of_int (uint ?c)) (d_of_int (sint ?t)) = Fin y" "2 powi (- 63) \<le> y" "y \<le> 2 powi 64"
      by (rule new_rate)
    have "\<not> d_le (ticks_per_ns s) (Fin 0)" using assms by (auto elim: rate_okE simp: d_le_def)
    then show ?thesis using assms blend_ok [OF assms y(2,3)] by (simp add: recalibrate_if_drift_def Let_def y(1))
  qed (use assms in \<open>simp add: recalibrate_if_drift_def Let_def\<close>)
qed

lemma tsc_reachable_ok: "tsc_reachable s \<Longrightarrow> rate_ok (ticks_per_ns s)"
proof (induction rule: tsc_reachable.induct)
  case start
  then show ?case by (simp add: tsc_initial_def rate_ok_def power_int_minus)
next
  case (calibrated s e s')
  then show ?case by (blast intro: calibrate_ok)
next
  case (recalibrated s rel_threshold interval now_sc_ns now_cyc)
  then show ?case by (blast intro: recalibrate_ok)
qed

lemma d_div_relative:
  assumes "d_div (Fin x) (Fin y) = Fin z" and "y \<noteq> 0" and "2 powi (- 1022) \<le> \<bar>x / y\<bar>"
  shows "\<bar>z - x / y\<bar> \<le> \<bar>x / y\<bar> / 2 ^ 53"
proof -
  have "z = round64 (x / y)" using assms(1,2) by (auto simp: fl_def split: if_splits)
  then show ?thesis using round64_relative [OF assms(3)] by (simp add: power_int_minus field_simps)
qed

text \<open>C37: The rate of the time stamp counter stays usable.  Whatever the clock and the counter read, after any sequence of
  calibrations (whose clock advanced while they slept) and recalibrations the rate is a finite positive
  number, so that \<^verbatim>\<open>delta_ns\<close> divides by it and never falls back to one tick per nanosecond; the difference of two
  readings comes out finite, is zero only for equal readings, and is within a relative error of \<open>2 ^ -51\<close> of
  the number of ticks divided by the rate.\<close>

theorem tsc_delta_accurate:
  assumes "tsc_reachable s"
  shows "\<exists>x y. ticks_per_ns s = Fin x \<and> 0 < x \<and> delta_ns s start end' = Fin y \<and> (y = 0 \<longleftrightarrow> end' = start) \<and>
    \<bar>y - of_int (uint (end' - start)) / x\<bar> \<le> of_int (uint (end' - start)) / x / 2 ^ 51"
proof -
  obtain x where x: "ticks_per_ns s = Fin x" "2 powi (- 66) \<le> x" "x \<le> 2 powi 65" "0 < x"
    using tsc_reachable_ok [OF assms] by (rule rate_okE)
  let ?n = "uint (end' - start)"
  show ?thesis
  proof (cases "end' = start")
    case True
    then show ?thesis using x by (simp add: delta_ns_def d_of_int_def)
  next
    case False
    then have "end' - start \<noteq> 0" by simp
    then have n: "0 < ?n" "?n \<le> 2 ^ 64" using uint_lt2p [of "end' - start"] by (simp_all only: word_neq_0_conv word_less_def) simp_all
    then obtain i where i: "d_of_int ?n = Fin i" "2 powi 0 \<le> i" "i \<le> 2 powi int 64" by (rule d_of_int_range) simp
    obtain z where z: "d_div (Fin i) (Fin x) = Fin z" "2 powi (0 - 65) \<le> z"
      using i(2,3) x(2,3) by (rule d_div_range) simp_all
    have pos: "0 < i" "0 < z" using i(2) z(2) zero_less_power_int [of "2 :: rat" "0 - 65"] by (simp, linarith)
    have "i = round64 (of_int ?n)" using i(1) by (auto simp: d_of_int_def fl_def split: if_splits)
    moreover have n1: "(1 :: rat) \<le> of_int ?n" using n(1) of_int_le_iff [of 1 ?n, where ?'a = rat] by linarith
    ultimately have "\<bar>i - of_int ?n\<bar> \<le> \<bar>of_int ?n\<bar> / 2 ^ 53"
      using round64_relative [of "of_int ?n"] powi_le_iff [of "- 1022" 0] by (simp add: power_int_minus field_simps)
    then have "\<bar>i - of_int ?n\<bar> / x \<le> \<bar>of_int ?n\<bar> / 2 ^ 53 / x" using x(4) by (intro divide_right_mono) simp_all
    moreover have "\<bar>i / x - of_int ?n / x\<bar> = \<bar>i - of_int ?n\<bar> / x" using x(4) by (simp add: diff_divide_distrib [symmetric])
    ultimately have q: "\<bar>i / x - of_int ?n / x\<bar> \<le> \<bar>of_int ?n / x\<bar> / 2 ^ 53" using x(4) by (simp add: mult.commute)
    have "(2 :: rat) powi (- 1022) \<le> 2 powi (0 - 65)" by (simp only: powi_le_iff)
    also have "\<dots> = 2 powi 0 / 2 powi 65" by (rule power_int_diff) simp
    also have "\<dots> \<le> i / x" using pos x i(2) by (intro frac_le) auto
    finally have "2 powi (- 1022) \<le> i / x" .
    then have "2 powi (- 1022) \<le> \<bar>i / x\<bar>" by linarith
    then have r: "\<bar>z - i / x\<bar> \<le> \<bar>i / x\<bar> / 2 ^ 53" using z(1) x(4) by (intro d_div_relative) simp_all
    have nn: "0 \<le> of_int ?n / x" using n1 x(4) by (intro divide_nonneg_pos) linarith+
    have "\<bar>z - of_int ?n / x\<bar> \<le> of_int ?n / x / 2 ^ 51" using two_roundings [OF q r] nn by simp
    then show ?thesis using x i(1) z(1) pos False by (simp add: delta_ns_def Let_def)
  qed
qed

text \<open>A machine at three ticks per nanosecond.\<close>

definition sample_env :: tsc_env where
  "sample_env = \<lparr>env_cpuid_max = 0x80000008, env_edx = 0x100, env_cpuinfo = Some ''flags : constant_tsc nonstop_tsc'',
     env_t0 = 1000, env_c0 = 50, env_c1 = 300000050, env_t1 = 100001000, env_t2 = 100001100, env_cores = 1,
     env_core_tsc = (\<lambda>_. 0)\<rparr>"

lemma calibrate_sample:
  "calibrate sample_env tsc_initial =
     Inr \<lparr>ticks_per_ns = Fin 3, last_chk_cycles = 300000050, last_chk_steady = 100001100, tsc_offset_issue = False\<rparr>"
proof -
  have "is_suitable_for_cross_core_timing 0x80000008 0x100 (Some ''flags : constant_tsc nonstop_tsc'')" by code_simp
  moreover have "tsc_rate sample_env = Fin 3"
    using fl_int [of 3] fl_int [of 300000000] fl_int [of 100000000] by (simp add: tsc_rate_def sample_env_def d_of_int_def)
  ultimately show ?thesis
    by (simp add: calibrate_def Let_def tsc_initial_def) (simp add: sample_env_def detect_tsc_offset_issue_def)
qed

theorem tsc_delta_accurate_witness:
  "\<exists>y. delta_ns \<lparr>ticks_per_ns = Fin 3, last_chk_cycles = 300000050, last_chk_steady = 100001100, tsc_offset_issue = False\<rparr> 7 3007 = Fin y \<and>
     \<bar>y - 1000\<bar> \<le> 1000 / 2 ^ 51"
proof -
  have "0 < sint (env_t1 sample_env - env_t0 sample_env)" by (simp add: sample_env_def)
  from tsc_reachable.calibrated [OF tsc_reachable.start this calibrate_sample] show ?thesis
    using tsc_delta_accurate [of _ 7 3007] by fastforce
qed

end
