(* ===== verification/File_Tree.thy ===== *)
theory File_Tree
  imports Journal_Base "HOL-Library.Sublist"
begin

section \<open>Directories and files (include/revoq/FileUtils.h, class Locator of include/revoq/JournalBase.h)\<close>

text \<open>
  The functions that make, list and remove directories and files, over a tree of named nodes.  A path is the
  sequence of its non-empty parts and whether it is absolute; \<^verbatim>\<open>.\<close> and \<^verbatim>\<open>..\<close> are names like any other.  What
  the calling process may create, write or remove is the argument \<open>perm\<close>; a call of \<^verbatim>\<open>std::filesystem\<close> that fails throws.
\<close>

subsection \<open>The tree\<close>

datatype node = Directory | Regular "u8 list"

type_synonym fs_path = "bool \<times> string list"
type_synonym file_tree = "(fs_path \<times> node) list"

definition path_of :: "string \<Rightarrow> fs_path" where
  "path_of s = (s \<noteq> [] \<and> hd s = CHR ''/'', filter (\<lambda>part. part \<noteq> []) (split s CHR ''/''))"

definition parent_path :: "fs_path \<Rightarrow> fs_path" where
  "parent_path p = (fst p, butlast (snd p))"

text \<open>The root and the working directory always exist.\<close>

definition node_at :: "file_tree \<Rightarrow> fs_path \<Rightarrow> node option" where
  "node_at T p = (if snd p = [] then Some Directory else map_of T p)"

definition below :: "fs_path \<Rightarrow> fs_path \<Rightarrow> bool" where
  "below p q \<longleftrightarrow> fst p = fst q \<and> prefix (snd p) (snd q)"

lemma below_refl [simp]: "below p p"
  by (simp add: below_def)

abbreviation fs_error :: error where
  "fs_error \<equiv> Runtime_error ''filesystem error''"

subsection \<open>The library calls\<close>

text \<open>\<^verbatim>\<open>std::filesystem::create_directory\<close>, \<^verbatim>\<open>create_directories\<close> and \<^verbatim>\<open>remove_all\<close>.\<close>

definition create_directory :: "(fs_path \<Rightarrow> bool) \<Rightarrow> fs_path \<Rightarrow> (file_tree, bool) prog" where
  "create_directory perm p = (\<lambda>T.
     case node_at T p of
       Some Directory \<Rightarrow> (Inr False, T)
     | Some (Regular _) \<Rightarrow> (Inl fs_error, T)
     | None \<Rightarrow> if node_at T (parent_path p) = Some Directory \<and> perm p
               then (Inr True, AList.update p Directory T) else (Inl fs_error, T))"

fun create_all :: "(fs_path \<Rightarrow> bool) \<Rightarrow> fs_path list \<Rightarrow> (file_tree, bool) prog" where
  "create_all perm [] = return_p False"
| "create_all perm (p # ps) =
     bind_p (create_directory perm p) (\<lambda>made. bind_p (create_all perm ps) (\<lambda>rest. return_p (made \<or> rest)))"

definition create_directories :: "(fs_path \<Rightarrow> bool) \<Rightarrow> fs_path \<Rightarrow> (file_tree, bool) prog" where
  "create_directories perm p = create_all perm (map (Pair (fst p)) (prefixes (snd p)))"

definition remove_all :: "(fs_path \<Rightarrow> bool) \<Rightarrow> fs_path \<Rightarrow> (file_tree, nat) prog" where
  "remove_all perm p = (\<lambda>T.
     if node_at T p = None then (Inr 0, T)
     else if perm p then (Inr (length (filter (\<lambda>(q, _). below p q) T)), filter (\<lambda>(q, _). \<not> below p q) T)
     else (Inl fs_error, T))"

text \<open>The entries \<^verbatim>\<open>directory_iterator\<close> visits, in the order of the tree.\<close>

definition entries :: "fs_path \<Rightarrow> (file_tree, (fs_path \<times> node) list) prog" where
  "entries p = (\<lambda>T.
     if node_at T p = Some Directory then (Inr (filter (\<lambda>(q, _). parent_path q = p) T), T) else (Inl fs_error, T))"

subsection \<open>FileUtils\<close>

definition rmDir :: "(fs_path \<Rightarrow> bool) \<Rightarrow> string \<Rightarrow> (file_tree, bool) prog" where
  "rmDir perm dir = bind_p (remove_all perm (path_of dir)) (\<lambda>n. return_p (n \<noteq> 0))"

definition mkDir :: "(fs_path \<Rightarrow> bool) \<Rightarrow> string \<Rightarrow> (file_tree, bool) prog" where
  "mkDir perm directory = create_directory perm (path_of directory)"

definition file_exists :: "file_tree \<Rightarrow> string \<Rightarrow> bool" where
  "file_exists T path \<longleftrightarrow> path \<noteq> [] \<and> node_at T (path_of path) \<noteq> None"

text \<open>\<^verbatim>\<open>std::ofstream f(path)\<close> creates a file or empties it; when it cannot, the stream is not open.\<close>

definition touch :: "(fs_path \<Rightarrow> bool) \<Rightarrow> string \<Rightarrow> (file_tree, bool) prog" where
  "touch perm path = (\<lambda>T.
     let p = path_of path in
     if node_at T p \<noteq> Some Directory \<and> node_at T (parent_path p) = Some Directory \<and> perm p
     then (Inr True, AList.update p (Regular []) T) else (Inr False, T))"

definition listDirs :: "string \<Rightarrow> (file_tree, fs_path list) prog" where
  "listDirs path = bind_p (entries (path_of path)) (\<lambda>es. return_p (map fst (filter (\<lambda>(_, n). n = Directory) es)))"

definition hasEnv :: "(string \<rightharpoonup> string) \<Rightarrow> string \<Rightarrow> bool" where
  "hasEnv env name \<longleftrightarrow> env name \<noteq> None"

definition getEnv :: "(string \<rightharpoonup> string) \<Rightarrow> string \<Rightarrow> string" where
  "getEnv env name = (case env name of None \<Rightarrow> [] | Some v \<Rightarrow> v)"

subsection \<open>Locator\<close>

definition Locator_hasEnv :: "(string \<rightharpoonup> string) \<Rightarrow> string \<Rightarrow> bool" where
  "Locator_hasEnv env name \<longleftrightarrow> env name \<noteq> None"

definition Locator_getEnv :: "(string \<rightharpoonup> string) \<Rightarrow> string \<Rightarrow> string" where
  "Locator_getEnv env name = (case env name of None \<Rightarrow> [] | Some v \<Rightarrow> v)"

definition Locator_exists :: "file_tree \<Rightarrow> Location \<Rightarrow> Layout \<Rightarrow> bool" where
  "Locator_exists T loc l = file_exists T (layoutDir loc l)"

definition makeLayoutDir :: "(fs_path \<Rightarrow> bool) \<Rightarrow> Location \<Rightarrow> Layout \<Rightarrow> (file_tree, string) prog" where
  "makeLayoutDir perm loc l =
     (let p = layoutDir loc l in
      bind_p get_p (\<lambda>T.
      bind_p (if file_exists T p then return_p False else create_directories perm (path_of p)) (\<lambda>_.
      return_p p)))"

definition makeLayoutFile :: "(fs_path \<Rightarrow> bool) \<Rightarrow> Location \<Rightarrow> Layout \<Rightarrow> string \<Rightarrow> (file_tree, string) prog" where
  "makeLayoutFile perm loc l name =
     bind_p (makeLayoutDir perm loc l) (\<lambda>p.
     let p2 = path_append p (name @ ''.'' @ layoutToStr l) in
     bind_p get_p (\<lambda>T.
     bind_p (if file_exists T p2 then return_p False else touch perm p2) (\<lambda>_.
     return_p p2)))"

text \<open>\<^verbatim>\<open>listPageId\<close> with the directory it makes and reads.\<close>

definition Locator_listPageId :: "(fs_path \<Rightarrow> bool) \<Rightarrow> Location \<Rightarrow> u32 \<Rightarrow> (file_tree, int list) prog" where
  "Locator_listPageId perm loc dest_id =
     bind_p (makeLayoutDir perm loc JOURNAL) (\<lambda>p.
     bind_p (entries (path_of p)) (\<lambda>es.
     case listPageId dest_id (map (\<lambda>(q, _). last (snd q)) es) of Inl e \<Rightarrow> throw_p e | Inr ids \<Rightarrow> return_p ids))"

definition getHome :: "Location \<Rightarrow> string" where
  "getHome loc = loc_home loc"

subsection \<open>A well-formed tree\<close>

text \<open>Every node has one entry, and lies in a directory.\<close>

definition tree_ok :: "file_tree \<Rightarrow> bool" where
  "tree_ok T \<longleftrightarrow> distinct (map fst T) \<and> (\<forall>q \<in> dom (map_of T). snd q \<noteq> [] \<and> node_at T (parent_path q) = Some Directory)"

lemma node_at_update: "snd p \<noteq> [] \<Longrightarrow> node_at (AList.update p n T) q = (if q = p then Some n else node_at T q)"
  by (simp add: node_at_def update_conv')

text \<open>A node that is no directory may be replaced, and a node may be added in a directory.\<close>

lemma tree_ok_update:
  assumes ok: "tree_ok T" and p: "snd p \<noteq> []" "node_at T p \<noteq> Some Directory" "node_at T (parent_path p) = Some Directory"
  shows "tree_ok (AList.update p n T)"
proof -
  have "snd q \<noteq> [] \<and> node_at (AList.update p n T) (parent_path q) = Some Directory" if "q \<in> dom (map_of (AList.update p n T))" for q
  proof (cases "q = p")
    case True
    have "butlast (snd p) \<noteq> snd p" using p(1) by (metis append_butlast_last_id append_self_conv not_Cons_self2)
    then have "parent_path p \<noteq> p" by (metis parent_path_def snd_conv)
    with True p show ?thesis by (simp add: node_at_update)
  next
    case False
    then have "q \<in> dom (map_of T)" using that by (auto simp: update_conv')
    then have q: "snd q \<noteq> []" "node_at T (parent_path q) = Some Directory" using ok by (auto simp: tree_ok_def)
    then have "parent_path q \<noteq> p" using p(2) by auto
    with q p(1) show ?thesis by (simp add: node_at_update)
  qed
  then show ?thesis using ok by (auto simp: tree_ok_def distinct_update)
qed

text \<open>Programs that keep the tree well formed.\<close>

named_theorems tree_intros

definition keeps_tree :: "(file_tree, 'a) prog \<Rightarrow> bool" where
  "keeps_tree p \<longleftrightarrow> (\<forall>T. tree_ok T \<longrightarrow> tree_ok (snd (p T)))"

lemma tree_bind [tree_intros]: "keeps_tree p \<Longrightarrow> (\<And>x. keeps_tree (f x)) \<Longrightarrow> keeps_tree (bind_p p f)"
  by (auto simp: keeps_tree_def bind_p_def split: prod.split sum.split)

lemma tree_return [tree_intros]: "keeps_tree (return_p x)" "keeps_tree (throw_p e)" "keeps_tree get_p" "keeps_tree (entries p)"
  by (simp_all add: keeps_tree_def prog_simps entries_def)

lemma tree_if [tree_intros]: "keeps_tree p \<Longrightarrow> keeps_tree q \<Longrightarrow> keeps_tree (if b then p else q)"
  by simp

lemma tree_sum [tree_intros]:
  "(\<And>e. keeps_tree (p e)) \<Longrightarrow> (\<And>x. keeps_tree (q x)) \<Longrightarrow> keeps_tree (case y of Inl e \<Rightarrow> p e | Inr x \<Rightarrow> q x)"
  by (cases y) simp_all

lemma tree_create_directory [tree_intros]: "keeps_tree (create_directory perm p)"
  by (auto simp: keeps_tree_def create_directory_def node_at_def split: option.split node.split intro!: tree_ok_update)

lemma tree_create_all [tree_intros]: "keeps_tree (create_all perm ps)"
  by (induction ps) (auto intro!: tree_intros)

lemma tree_touch [tree_intros]: "keeps_tree (touch perm path)"
  by (auto simp: keeps_tree_def touch_def Let_def node_at_def intro!: tree_ok_update split: if_splits)

lemma tree_remove_all [tree_intros]: "keeps_tree (remove_all perm p)"
  unfolding keeps_tree_def
proof (intro allI impI)
  fix T assume ok: "tree_ok T"
  let ?T = "filter (\<lambda>(q, _). \<not> below p q) T"
  have look: "map_of ?T q = (if below p q then None else map_of T q)" for q
    by (induction T) auto
  have "snd q \<noteq> [] \<and> node_at ?T (parent_path q) = Some Directory" if q: "q \<in> dom (map_of ?T)" for q
  proof -
    have "\<not> below p q" "q \<in> dom (map_of T)" using q by (auto simp: look split: if_splits)
    then have d: "snd q \<noteq> []" "node_at T (parent_path q) = Some Directory" using ok by (auto simp: tree_ok_def)
    have "prefix (butlast (snd q)) (snd q)" by (metis append_butlast_last_id d(1) prefixI)
    then have "\<not> below p (parent_path q)" using \<open>\<not> below p q\<close> by (auto simp: below_def parent_path_def dest: prefix_order.trans)
    with d show ?thesis by (simp add: node_at_def look split: if_splits)
  qed
  moreover have "distinct (map fst ?T)" using ok distinct_map_filter by (auto simp: tree_ok_def)
  ultimately show "tree_ok (snd (remove_all perm p T))" using ok by (simp add: remove_all_def tree_ok_def)
qed

text \<open>The calls that change the tree.\<close>

datatype fs_call =
    Call_rmDir string
  | Call_mkDir string
  | Call_touch string
  | Call_makeLayoutDir Location Layout
  | Call_makeLayoutFile Location Layout string
  | Call_listPageId Location u32

text \<open>A sequence of calls, each with what it may do; a call that throws is caught and the next one runs.\<close>

fun fs_tree :: "(fs_path \<Rightarrow> bool) \<Rightarrow> fs_call \<Rightarrow> file_tree \<Rightarrow> file_tree" where
  "fs_tree perm (Call_rmDir dir) T = snd (rmDir perm dir T)"
| "fs_tree perm (Call_mkDir dir) T = snd (mkDir perm dir T)"
| "fs_tree perm (Call_touch path) T = snd (touch perm path T)"
| "fs_tree perm (Call_makeLayoutDir loc l) T = snd (makeLayoutDir perm loc l T)"
| "fs_tree perm (Call_makeLayoutFile loc l name) T = snd (makeLayoutFile perm loc l name T)"
| "fs_tree perm (Call_listPageId loc dest) T = snd (Locator_listPageId perm loc dest T)"

lemma tree_makeLayoutDir [tree_intros]: "keeps_tree (makeLayoutDir perm loc l)"
  unfolding makeLayoutDir_def create_directories_def Let_def by (intro tree_intros)

lemma fs_tree_ok: "tree_ok T \<Longrightarrow> tree_ok (fs_tree perm call T)"
proof -
  have "keeps_tree (rmDir perm dir)" "keeps_tree (mkDir perm dir)" "keeps_tree (makeLayoutFile perm loc l name)"
    "keeps_tree (Locator_listPageId perm loc dest)" for dir loc l name dest
    unfolding rmDir_def mkDir_def makeLayoutFile_def Locator_listPageId_def Let_def by (intro tree_intros)+
  with tree_touch tree_makeLayoutDir show "tree_ok T \<Longrightarrow> tree_ok (fs_tree perm call T)"
    by (cases call) (simp_all add: keeps_tree_def)
qed

text \<open>No call leaves a file or directory outside a directory.  Starting from a tree in which every node has one entry and lies in a
  directory, after any sequence of calls of \<^verbatim>\<open>rmDir\<close>, \<^verbatim>\<open>mkDir\<close>, \<^verbatim>\<open>touch\<close>, \<^verbatim>\<open>makeLayoutDir\<close>,
  \<^verbatim>\<open>makeLayoutFile\<close> and \<^verbatim>\<open>listPageId\<close>, whatever the process may do at each and whichever of them throw, this still holds.\<close>

theorem file_calls_keep_tree:
  assumes "tree_ok T"
  shows "tree_ok (fold (\<lambda>(perm, call). fs_tree perm call) calls T)"
  using assms by (induction calls arbitrary: T) (auto intro: fs_tree_ok)

definition ex_tree :: file_tree where
  "ex_tree = [((True, [''tmp'']), Directory), ((True, [''tmp'', ''a'']), Regular [1])]"

lemma ex_tree_ok: "tree_ok ex_tree"
  by (auto simp: tree_ok_def ex_tree_def node_at_def parent_path_def split: if_splits)

theorem file_calls_keep_tree_witness:
  "tree_ok (fold (\<lambda>(perm, call). fs_tree perm call)
     [(\<lambda>_. True, Call_makeLayoutFile (Location_new LIVE EXECUTION ''g'' ''n'' ''/tmp'') JOURNAL ''x''), (\<lambda>_. True, Call_rmDir ''/tmp'')] ex_tree)"
  by (rule file_calls_keep_tree [OF ex_tree_ok])

subsection \<open>Making a layout file\<close>

lemma create_all_append:
  "create_all perm (ps @ qs) = bind_p (create_all perm ps) (\<lambda>a. bind_p (create_all perm qs) (\<lambda>b. return_p (a \<or> b)))"
  by (induction ps) (simp_all add: bind_p_assoc fun_eq_iff bind_p_def return_p_def disj_assoc split: prod.split sum.split)

text \<open>A directory whose path meets no file can be made; nothing that exists changes.\<close>

lemma create_directories_makes:
  assumes "\<forall>ys x. prefix ys xs \<longrightarrow> node_at T (b, ys) \<noteq> Some (Regular x)"
  shows "\<exists>r T'. create_directories (\<lambda>_. True) (b, xs) T = (Inr r, T') \<and>
    (\<forall>q. node_at T' q = (if below q (b, xs) then Some Directory else node_at T q))"
  using assms
proof (induction xs rule: rev_induct)
  case Nil
  show ?case by (auto simp: create_directories_def create_directory_def node_at_def below_def prog_simps)
next
  case (snoc x xs)
  then obtain r T1 where T1: "create_directories (\<lambda>_. True) (b, xs) T = (Inr r, T1)"
    "\<forall>q. node_at T1 q = (if below q (b, xs) then Some Directory else node_at T q)" by auto
  have below: "below q (b, xs @ [x]) \<longleftrightarrow> below q (b, xs) \<or> q = (b, xs @ [x])" for q
    by (cases q) (auto simp: below_def)
  have new: "\<not> below (b, xs @ [x]) (b, xs)" by (simp add: below_def)
  have parent: "node_at T1 (parent_path (b, xs @ [x])) = Some Directory" using T1(2) by (simp add: parent_path_def below_def)
  have at: "node_at T1 (b, xs @ [x]) = node_at T (b, xs @ [x])" using T1(2) new by simp
  obtain r2 T2 where T2: "create_directory (\<lambda>_. True) (b, xs @ [x]) T1 = (Inr r2, T2)"
    "\<forall>q. node_at T2 q = (if q = (b, xs @ [x]) then Some Directory else node_at T1 q)"
  proof (cases "node_at T (b, xs @ [x])")
    case None
    with at parent show ?thesis by (intro that [of True "AList.update (b, xs @ [x]) Directory T1"]) (simp_all add: create_directory_def node_at_update)
  next
    case (Some n)
    with snoc.prems have "n = Directory" by (cases n) auto
    with Some at show ?thesis by (intro that [of False T1]) (auto simp: create_directory_def)
  qed
  have "create_directories (\<lambda>_. True) (b, xs @ [x]) T = (Inr (r \<or> r2), T2)"
    using T1(1) T2(1) by (simp add: create_directories_def create_all_append prog_simps)
  with T1(2) T2(2) below show ?case by auto
qed

lemma path_of_append:
  assumes "p \<noteq> []" and "c \<noteq> []" and "CHR ''/'' \<notin> set c"
  shows "path_of (path_append p c) = (fst (path_of p), snd (path_of p) @ [c])"
proof -
  let ?P = "\<lambda>x. x = CHR ''/''" and ?ne = "filter (\<lambda>part. part \<noteq> [])"
  have split: "split_ref ?P (xs @ CHR ''/'' # c) = split_ref ?P xs @ [c]" for xs
    using assms(3) split_ref_no_delim [of c ?P] by (induction xs) (auto split: list.split)
  have "hd c \<noteq> CHR ''/''" using assms(2,3) hd_in_set by metis
  then have "path_append p c = p @ CHR ''/'' # c \<or> (\<exists>q. p = q @ [CHR ''/''] \<and> path_append p c = q @ CHR ''/'' # c)"
    using assms by (cases p rule: rev_cases) (auto simp: path_append_def)
  then show ?thesis
  proof
    assume "path_append p c = p @ CHR ''/'' # c"
    then show ?thesis using assms split by (simp add: path_of_def split_eq_ref)
  next
    assume "\<exists>q. p = q @ [CHR ''/''] \<and> path_append p c = q @ CHR ''/'' # c"
    then obtain q where q: "p = q @ [CHR ''/'']" "path_append p c = q @ CHR ''/'' # c" by blast
    have "split_ref ?P (q @ [CHR ''/'']) = split_ref ?P q @ [[]]" by (induction q) (auto split: list.split)
    then show ?thesis using assms split q by (simp add: path_of_def split_eq_ref hd_append)
  qed
qed

lemma layoutDir_nonempty:
  assumes "loc_name loc \<noteq> []"
  shows "layoutDir loc l \<noteq> []"
proof -
  have "path_append p q \<noteq> []" if "p \<noteq> [] \<or> q \<noteq> []" for p q using that by (auto simp: path_append_def)
  with assms show ?thesis by (simp add: layoutDir_def)
qed

text \<open>In a well-formed tree everything on the way to a node is a directory.\<close>

lemma ancestor_directory:
  assumes ok: "tree_ok T" and "node_at T (b, xs) \<noteq> None" and "prefix ys xs" and "ys \<noteq> xs"
  shows "node_at T (b, ys) = Some Directory"
  using assms(2-)
proof (induction xs rule: rev_induct)
  case (snoc x xs)
  have "(b, xs @ [x]) \<in> dom (map_of T)" using snoc.prems(1) by (auto simp: node_at_def)
  then have "node_at T (parent_path (b, xs @ [x])) = Some Directory" using ok unfolding tree_ok_def by blast
  then have "node_at T (b, xs) = Some Directory" by (simp add: parent_path_def)
  with snoc show ?case by (cases "ys = xs") auto
qed simp

lemma makeLayoutDir_makes:
  assumes ok: "tree_ok T" and free: "\<forall>q x. below q (path_of (layoutDir loc l)) \<longrightarrow> node_at T q \<noteq> Some (Regular x)"
  obtains T1 where "makeLayoutDir (\<lambda>_. True) loc l T = (Inr (layoutDir loc l), T1)"
    and "\<forall>q. node_at T1 q = (if below q (path_of (layoutDir loc l)) then Some Directory else node_at T q)"
proof (cases "file_exists T (layoutDir loc l)")
  case True
  let ?dir = "path_of (layoutDir loc l)"
  obtain n where n: "node_at T ?dir = Some n" using True by (cases "node_at T ?dir") (simp_all add: file_exists_def)
  then have at: "node_at T ?dir = Some Directory" using free [rule_format, of ?dir] by (cases n) simp_all
  have "node_at T q = Some Directory" if "below q ?dir" for q
  proof (cases "q = ?dir")
    case False
    then have "fst q = fst ?dir" "prefix (snd q) (snd ?dir)" "snd q \<noteq> snd ?dir" using that by (auto simp: below_def prod_eq_iff)
    moreover have "node_at T (fst ?dir, snd ?dir) \<noteq> None" using at by simp
    ultimately have "node_at T (fst q, snd q) = Some Directory" using ancestor_directory [OF ok, of "fst ?dir" "snd ?dir" "snd q"] by simp
    then show ?thesis by simp
  qed (use at in simp)
  with True show thesis by (intro that [of T]) (simp_all add: makeLayoutDir_def Let_def prog_simps)
next
  case False
  let ?dir = "path_of (layoutDir loc l)"
  obtain r T1 where "create_directories (\<lambda>_. True) ?dir T = (Inr r, T1)"
    "\<forall>q. node_at T1 q = (if below q ?dir then Some Directory else node_at T q)"
    using create_directories_makes [of "snd ?dir" T "fst ?dir"] free by (auto simp: below_def)
  with False show thesis by (intro that [of T1]) (simp_all add: makeLayoutDir_def Let_def prog_simps)
qed

text \<open>C40: \<^verbatim>\<open>makeLayoutFile\<close> gets the file ready and never empties it.  For a location with a name, when no file lies where a directory of
  its layout should be, the call succeeds: the directory exists afterwards, the file exists, empty when it is new and with its contents
  when it was there (\<^verbatim>\<open>touch\<close> alone would empty it), nothing else that existed changes, and a second call changes nothing.\<close>

theorem makeLayoutFile_ready:
  fixes loc l name
  defines "dir \<equiv> path_of (layoutDir loc l)"
  assumes ok: "tree_ok T" and named: "loc_name loc \<noteq> []" and name: "CHR ''/'' \<notin> set (name @ ''.'' @ layoutToStr l)"
    and free: "\<forall>q x. below q dir \<longrightarrow> node_at T q \<noteq> Some (Regular x)"
    and no_dir: "node_at T (fst dir, snd dir @ [name @ ''.'' @ layoutToStr l]) \<noteq> Some Directory"
  shows "\<exists>T' p2. makeLayoutFile (\<lambda>_. True) loc l name T = (Inr p2, T') \<and> path_of p2 = (fst dir, snd dir @ [name @ ''.'' @ layoutToStr l]) \<and>
    Locator_exists T' loc l \<and>
    node_at T' (path_of p2) = (case node_at T (path_of p2) of None \<Rightarrow> Some (Regular []) | Some n \<Rightarrow> Some n) \<and>
    (\<forall>q. node_at T q \<noteq> None \<longrightarrow> node_at T' q = node_at T q) \<and>
    makeLayoutFile (\<lambda>_. True) loc l name T' = (Inr p2, T')"
proof -
  let ?f = "name @ ''.'' @ layoutToStr l" and ?d = "layoutDir loc l"
  have ne: "?d \<noteq> []" by (rule layoutDir_nonempty [OF named])
  define p2 where "p2 = path_append ?d ?f"
  have named_p2: "path_append ?d (name @ CHR ''.'' # layoutToStr l) = p2" by (simp add: p2_def)
  have p2: "path_of p2 = (fst dir, snd dir @ [?f])" unfolding p2_def dir_def using ne name by (intro path_of_append) auto
  then have p2': "p2 \<noteq> []" "snd (path_of p2) \<noteq> []" "parent_path (path_of p2) = dir" "\<not> below (path_of p2) dir"
    by (auto simp: path_of_def split_eq_ref parent_path_def below_def)
  obtain T1 where T1: "makeLayoutDir (\<lambda>_. True) loc l T = (Inr ?d, T1)"
    "\<forall>q. node_at T1 q = (if below q dir then Some Directory else node_at T q)"
    by (rule makeLayoutDir_makes [OF ok]) (use free in \<open>auto simp: dir_def\<close>)
  have at: "node_at T1 dir = Some Directory" "node_at T1 (path_of p2) = node_at T (path_of p2)"
    using T1(2) [rule_format, of dir] T1(2) [rule_format, of "path_of p2"] p2'(4) by simp_all
  have old: "node_at T1 q = node_at T q" if "node_at T q \<noteq> None" for q
  proof -
    obtain n where n: "node_at T q = Some n" using \<open>node_at T q \<noteq> None\<close> by (cases "node_at T q") simp_all
    then have "below q dir \<Longrightarrow> n = Directory" using free [rule_format, of q] by (cases n) auto
    with n show ?thesis using T1(2) [rule_format, of q] by simp
  qed
  define T' where "T' = (if file_exists T1 p2 then T1 else AList.update (path_of p2) (Regular []) T1)"
  have T': "makeLayoutFile (\<lambda>_. True) loc l name T = (Inr p2, T')"
    using T1(1) at p2 p2' no_dir by (simp add: makeLayoutFile_def T'_def touch_def prog_simps Let_def named_p2)
  have nodes: "node_at T' q = (if q = path_of p2 \<and> node_at T q = None then Some (Regular []) else node_at T1 q)" for q
    using p2' at by (auto simp: T'_def file_exists_def node_at_update)
  have dir': "node_at T' dir = Some Directory" using nodes at(1) p2'(4) by auto
  have file': "node_at T' (path_of p2) \<noteq> None" using nodes at(2) by auto
  have "makeLayoutFile (\<lambda>_. True) loc l name T' = (Inr p2, T')"
    using dir' file' ne p2'(1) by (simp add: makeLayoutFile_def makeLayoutDir_def file_exists_def prog_simps Let_def named_p2 flip: dir_def)
  moreover have "node_at T' (path_of p2) = (case node_at T (path_of p2) of None \<Rightarrow> Some (Regular []) | Some n \<Rightarrow> Some n)"
    using nodes at(2) by (auto split: option.split)
  moreover have "\<forall>q. node_at T q \<noteq> None \<longrightarrow> node_at T' q = node_at T q" using nodes old by auto
  moreover have "Locator_exists T' loc l" using dir' ne by (simp add: Locator_exists_def file_exists_def flip: dir_def)
  ultimately show ?thesis using T' p2 by blast
qed

theorem makeLayoutFile_ready_witness:
  "\<exists>T' p2. makeLayoutFile (\<lambda>_. True) (Location_new LIVE EXECUTION ''g'' ''n'' ''/tmp'') JOURNAL ''x'' ex_tree = (Inr p2, T') \<and>
    path_of p2 = (True, [''tmp'', ''executiondata'', ''g'', ''n'', ''journal'', ''live'', ''x.journal'']) \<and>
    node_at T' (path_of p2) = Some (Regular []) \<and> node_at T' (True, [''tmp'', ''a'']) = Some (Regular [1])"
proof -
  let ?loc = "Location_new LIVE EXECUTION ''g'' ''n'' ''/tmp''"
  have dir: "path_of (layoutDir ?loc JOURNAL) = (True, [''tmp'', ''executiondata'', ''g'', ''n'', ''journal'', ''live''])" by code_simp
  have "node_at ex_tree q \<noteq> Some (Regular x)" if "below q (True, [''tmp'', ''executiondata'', ''g'', ''n'', ''journal'', ''live''])" for q x
    using that by (auto simp: ex_tree_def node_at_def below_def)
  then have free: "\<forall>q x. below q (path_of (layoutDir ?loc JOURNAL)) \<longrightarrow> node_at ex_tree q \<noteq> Some (Regular x)" unfolding dir by blast
  have name: "loc_name ?loc \<noteq> []" "CHR ''/'' \<notin> set (''x'' @ ''.'' @ layoutToStr JOURNAL)" by (simp_all add: Location_new_def Let_def)
  have "node_at ex_tree (True, [''tmp'', ''executiondata'', ''g'', ''n'', ''journal'', ''live'', ''x.journal'']) = None"
    "node_at ex_tree (True, [''tmp'', ''a'']) = Some (Regular [1])" by (simp_all add: ex_tree_def node_at_def)
  with makeLayoutFile_ready [OF ex_tree_ok name free] show ?thesis unfolding dir by fastforce
qed

end
