(* ===== verification/Ring_Pages.thy ===== *)
theory Ring_Pages
  imports Main
begin

section \<open>Rings of page numbers\<close>

text \<open>
  The page numbers of a ring are a function \<open>P\<close>; \<open>E\<close> is the number of slots filled so far, so that
  the slots hold, at \<open>k mod 16\<close>, what was filled last for \<open>E - 16 \<le> k < E\<close>.  \<open>L\<close> is the last page the writer has
  asked for, and \<open>c\<close> the page from which the thread counts.
\<close>

definition window :: "nat \<Rightarrow> nat \<Rightarrow> bool" where
  "window E k \<longleftrightarrow> k < E \<and> E \<le> k + 16"

definition in_ring :: "(nat \<Rightarrow> int) \<Rightarrow> int \<Rightarrow> bool" where
  "in_ring P q \<longleftrightarrow> (\<exists>x<16. P x = q)"

definition distinct_ring :: "(nat \<Rightarrow> int) \<Rightarrow> bool" where
  "distinct_ring P \<longleftrightarrow> (\<forall>x<16. \<forall>y<16. 0 \<le> P x \<and> P x = P y \<longrightarrow> x = y)"

text \<open>No page is missing between the last page asked for and a page of the ring.\<close>

definition gapless :: "(nat \<Rightarrow> int) \<Rightarrow> int \<Rightarrow> bool" where
  "gapless P L \<longleftrightarrow> (\<forall>q q'. L < q \<and> q < q' \<and> in_ring P q' \<longrightarrow> in_ring P q)"

definition rising :: "(nat \<Rightarrow> int) \<Rightarrow> nat \<Rightarrow> int \<Rightarrow> bool" where
  "rising P E L \<longleftrightarrow> (\<forall>j k. window E j \<and> window E k \<and> j < k \<and> L < P (j mod 16) \<and> L < P (k mod 16) \<longrightarrow>
     P (j mod 16) < P (k mod 16))"

text \<open>All slots filled after \<open>m\<close> are occupied, by pages not far below \<open>n\<close>.\<close>

definition full_after :: "(nat \<Rightarrow> int) \<Rightarrow> nat \<Rightarrow> nat \<Rightarrow> int \<Rightarrow> bool" where
  "full_after P E m n \<longleftrightarrow> (\<forall>k. m < k \<and> k < E \<longrightarrow> 0 \<le> P (k mod 16) \<and> n - 7 \<le> P (k mod 16))"

definition good_ring :: "(nat \<Rightarrow> int) \<Rightarrow> nat \<Rightarrow> int \<Rightarrow> int \<Rightarrow> bool" where
  "good_ring P E L c \<longleftrightarrow> - 1 \<le> c \<and> c \<le> L \<and> distinct_ring P \<and> gapless P L \<and> rising P E L \<and>
     (\<forall>k. window E k \<and> L < P (k mod 16) \<longrightarrow> full_after P E k (P (k mod 16))) \<and>
     (\<forall>x<16. E \<le> x \<longrightarrow> P x < 0) \<and> (\<forall>x<16. P x \<le> c + 8)"

lemmas ring_defs = good_ring_def distinct_ring_def gapless_def rising_def full_after_def in_ring_def

lemma mod16_near:
  fixes j k :: nat
  assumes "j mod 16 = k mod 16" "j \<le> k" "k \<le> j + 16"
  shows "k = j \<or> k = j + 16"
proof -
  obtain q where q: "k = j + 16 * q" using mod_eq_nat2E [of j 16 k] assms by metis
  then have "q \<le> 1" using assms(3) by simp
  then show ?thesis using q by (cases q) auto
qed

lemma window_same:
  assumes "window E j" "window E k" "j mod 16 = k mod 16"
  shows "j = k"
proof (cases "j \<le> k")
  case True
  then show ?thesis using mod16_near [of j k] assms by (auto simp: window_def)
next
  case False
  then show ?thesis using mod16_near [of k j] assms by (auto simp: window_def)
qed

lemma window_at:
  assumes "x < 16" "x < E"
  obtains m where "window E m" "m mod 16 = x"
proof
  let ?t = "(E - 1 - x) div 16"
  have "16 * ?t + (E - 1 - x) mod 16 = E - 1 - x" "(E - 1 - x) mod 16 < 16" by simp_all
  then show "window E (x + 16 * ?t)" using assms unfolding window_def by linarith
  show "(x + 16 * ?t) mod 16 = x" using assms by simp
qed

lemma window_Suc: "window (Suc E) k \<longleftrightarrow> k = E \<or> (window E k \<and> k mod 16 \<noteq> E mod 16)"
proof
  show "window (Suc E) k \<Longrightarrow> k = E \<or> (window E k \<and> k mod 16 \<noteq> E mod 16)"
    using mod16_near [of k E] by (auto simp: window_def)
  have "k + 16 \<noteq> E" if "k mod 16 \<noteq> E mod 16" using that by auto
  then show "k = E \<or> (window E k \<and> k mod 16 \<noteq> E mod 16) \<Longrightarrow> window (Suc E) k"
    by (auto simp: window_def)
qed

lemma good_ring_levels: "good_ring P E L c \<Longrightarrow> - 1 \<le> c \<and> c \<le> L"
  by (simp add: good_ring_def)

lemma good_ring_up: "good_ring P E L c \<Longrightarrow> P (k mod 16) \<le> c + 8"
  by (simp add: good_ring_def)

lemma good_ring_slot:
  "\<lbrakk>good_ring P E L c; P (j mod 16) = P (k mod 16); 0 \<le> P (j mod 16)\<rbrakk> \<Longrightarrow> j mod 16 = k mod 16"
  by (simp add: good_ring_def distinct_ring_def)

lemma good_ring_reached: "\<lbrakk>good_ring P E L c; x < 16; 0 \<le> P x\<rbrakk> \<Longrightarrow> x < E"
  unfolding good_ring_def by (meson leI linorder_not_less)

lemma good_ring_rising:
  "\<lbrakk>good_ring P E L c; window E j; window E k; j < k; L < P (j mod 16); L < P (k mod 16)\<rbrakk> \<Longrightarrow>
    P (j mod 16) < P (k mod 16)"
  by (simp add: good_ring_def rising_def)

lemma good_ring_full:
  "\<lbrakk>good_ring P E L c; window E k; L < P (k mod 16)\<rbrakk> \<Longrightarrow> full_after P E k (P (k mod 16))"
  by (simp add: good_ring_def)

lemma good_ring_gapless:
  "\<lbrakk>good_ring P E L c; L < q; q < q'; in_ring P q'\<rbrakk> \<Longrightarrow> in_ring P q"
  unfolding good_ring_def gapless_def by blast

lemma full_afterD: "\<lbrakk>full_after P E m n; m < k; k < E\<rbrakk> \<Longrightarrow> 0 \<le> P (k mod 16) \<and> n - 7 \<le> P (k mod 16)"
  by (simp add: full_after_def)

lemma in_ring_at: "in_ring P (P (k mod 16))"
  unfolding in_ring_def by (metis mod_less_divisor zero_less_numeral)

lemma no_crowd:
  fixes f :: "'a \<Rightarrow> int"
  assumes "inj_on f A" "finite A" "15 < card A" "\<forall>a\<in>A. b \<le> f a \<and> f a \<le> b + 14"
  shows False
proof -
  have "card (f ` A) \<le> card {b..b + 14}" using assms(4) by (intro card_mono) auto
  then show False using assms by (simp add: card_image)
qed

lemma good_ring_later:
  assumes "good_ring P E L c" "L \<le> L'"
  shows "good_ring P E L' c"
proof -
  have "gapless P L'" "rising P E L'" using assms by (auto simp: ring_defs)
  then show ?thesis using assms unfolding good_ring_def by auto
qed

lemma good_ring_local:
  "good_ring P E L c \<Longrightarrow> c \<le> c' \<Longrightarrow> c' \<le> L \<Longrightarrow> good_ring P E L c'"
  unfolding good_ring_def by force

lemma in_ring_upd: "\<lbrakk>in_ring P q; P x \<noteq> q\<rbrakk> \<Longrightarrow> in_ring (P(x := v)) q"
  by (auto simp: in_ring_def)

lemma in_ring_upd_old: "\<lbrakk>in_ring (P(x := v)) q; v \<noteq> q\<rbrakk> \<Longrightarrow> in_ring P q"
  by (auto simp: in_ring_def split: if_splits)

lemma in_ring_new: "x < 16 \<Longrightarrow> in_ring (P(x := v)) v"
  by (auto simp: in_ring_def)

text \<open>Emptying a slot whose page is not above \<open>L\<close>, and on which no later slot depends, keeps the ring good.\<close>

lemma good_ring_remove:
  assumes good: "good_ring P E L c" and v: "v < 0" and x: "P x \<le> L"
    and keep: "\<And>k. \<lbrakk>window E k; L < P (k mod 16); k mod 16 \<noteq> x\<rbrakk> \<Longrightarrow> full_after (P(x := v)) E k (P (k mod 16))"
  shows "good_ring (P(x := v)) E L c"
proof -
  have L: "- 1 \<le> c" "c \<le> L" using good by (auto simp: good_ring_def)
  have "gapless (P(x := v)) L"
    unfolding gapless_def
  proof (intro allI impI, elim conjE)
    fix q q' assume "L < q" "q < q'" "in_ring (P(x := v)) q'"
    then have "in_ring P q" using good v L by (auto simp: good_ring_def gapless_def dest!: in_ring_upd_old)
    then show "in_ring (P(x := v)) q" using x \<open>L < q\<close> by (intro in_ring_upd) auto
  qed
  moreover have "distinct_ring (P(x := v))" using good v by (auto simp: ring_defs)
  moreover have "rising (P(x := v)) E L" using good v L by (auto simp: good_ring_def rising_def)
  ultimately show ?thesis using good v L keep unfolding good_ring_def by auto
qed

lemma good_ring_empty_slot:
  assumes "good_ring P E L c" "P x < 0" "v < 0"
  shows "good_ring (P(x := v)) E L c"
proof (rule good_ring_remove [OF assms(1,3)])
  show "P x \<le> L" using assms by (auto simp: good_ring_def)
  show "full_after (P(x := v)) E k (P (k mod 16))" if "window E k" "L < P (k mod 16)" for k
    using good_ring_full [OF assms(1) that] assms(2) by (auto simp: full_after_def)
qed

lemma good_ring_drop:
  assumes "good_ring P E L c" "P x < c - 16"
  shows "good_ring (P(x := - 1)) E L c"
proof (rule good_ring_remove [OF assms(1)])
  show "P x \<le> L" using assms by (auto simp: good_ring_def)
  show "full_after (P(x := - 1)) E k (P (k mod 16))" if "window E k" "L < P (k mod 16)" for k
    using good_ring_full [OF assms(1) that] good_ring_levels [OF assms(1)] assms(2) that
    by (auto simp: full_after_def)
qed simp

text \<open>The writer empties the slot of the next page; what was filled later stays.\<close>

lemma good_ring_take:
  assumes good: "good_ring P E L c" and x: "x < 16" "P x = L + 1"
  shows "good_ring (P(x := - 1)) E (L + 1) c"
    and "\<exists>m. window E m \<and> m mod 16 = x \<and> full_after (P(x := - 1)) E m (L + 1)"
proof -
  have good': "good_ring P E (L + 1) c" by (rule good_ring_later [OF good]) simp
  have other: "P (k' mod 16) \<noteq> L + 1"
    if "window E k" "L < P (k mod 16)" "k < k'" "k' < E" for k k'
  proof
    assume "P (k' mod 16) = L + 1"
    moreover have "window E k'" using that by (auto simp: window_def)
    ultimately show False using good_ring_rising [OF good that(1) _ that(3,2)] that(2) by simp
  qed
  show "good_ring (P(x := - 1)) E (L + 1) c"
  proof (rule good_ring_remove [OF good'])
    show "full_after (P(x := - 1)) E k (P (k mod 16))"
      if "window E k" "L + 1 < P (k mod 16)" "k mod 16 \<noteq> x" for k
    proof -
      have "full_after P E k (P (k mod 16))" using good' that by (simp add: good_ring_def)
      then show ?thesis using other [of k] that x by (auto simp: full_after_def)
    qed
  qed (use x in simp_all)
  have "x < E" using good_ring_reached [OF good x(1)] good_ring_levels [OF good] x by simp
  then obtain m where m: "window E m" "m mod 16 = x" using window_at x by metis
  have "full_after P E m (L + 1)" using good_ring_full [OF good m(1)] m x by simp
  then have "full_after (P(x := - 1)) E m (L + 1)"
    using other [of m] m x by (auto simp: full_after_def) metis
  then show "\<exists>m. window E m \<and> m mod 16 = x \<and> full_after (P(x := - 1)) E m (L + 1)" using m by blast
qed

text \<open>The warmer fills the next slot with a page that is not in the ring.\<close>

lemma good_ring_publish:
  assumes good: "good_ring P E L c" and free: "P (E mod 16) < 0"
    and q: "0 \<le> q" "c < q" "q \<le> c + 8" "\<not> in_ring P q"
    and below: "\<And>q'. \<lbrakk>c < q'; q' < q\<rbrakk> \<Longrightarrow> q' \<le> L \<or> in_ring P q'"
  shows "good_ring (P(E mod 16 := q)) (Suc E) L c"
proof -
  let ?P = "P(E mod 16 := q)"
  have L: "c \<le> L" using good by (simp add: good_ring_def)
  have "distinct_ring ?P" using good q unfolding good_ring_def distinct_ring_def in_ring_def by auto
  moreover have "gapless ?P L"
    unfolding gapless_def
  proof (intro allI impI, elim conjE)
    fix r r' assume r: "L < r" "r < r'" "in_ring ?P r'"
    have "in_ring P r"
    proof (cases "r' = q")
      case True
      then show ?thesis using below [of r] r L by auto
    next
      case False
      then have "in_ring P r'" using r by (auto dest: in_ring_upd_old)
      then show ?thesis using good r unfolding good_ring_def gapless_def by blast
    qed
    then show "in_ring ?P r" using free r L good by (intro in_ring_upd) (auto simp: good_ring_def)
  qed
  moreover have "rising ?P (Suc E) L"
    unfolding rising_def
  proof (intro allI impI, elim conjE)
    fix j k assume w: "window (Suc E) j" "window (Suc E) k" "j < k"
      and above: "L < ?P (j mod 16)" "L < ?P (k mod 16)"
    from w have j: "window E j" "j mod 16 \<noteq> E mod 16" by (auto simp: window_Suc) (auto simp: window_def)
    show "?P (j mod 16) < ?P (k mod 16)"
    proof (cases "k = E")
      case True
      then have "\<not> q < P (j mod 16)" "P (j mod 16) \<noteq> q"
        using good_ring_gapless [OF good, of q "P (j mod 16)"] in_ring_at [of P j] q above True by auto
      then show ?thesis using True j by simp
    next
      case False
      then have "window E k" "k mod 16 \<noteq> E mod 16" using w by (auto simp: window_Suc)
      then show ?thesis using good_ring_rising [OF good j(1)] j w above by simp
    qed
  qed
  moreover have "full_after ?P (Suc E) k (?P (k mod 16))"
    if k: "window (Suc E) k" "L < ?P (k mod 16)" for k
  proof (cases "k = E")
    case False
    then have k': "window E k" "k mod 16 \<noteq> E mod 16" using k by (auto simp: window_Suc)
    then have "full_after P E k (P (k mod 16))" using good k by (auto simp: good_ring_def)
    moreover have "P (k mod 16) \<le> c + 8" using good by (auto simp: good_ring_def)
    ultimately show ?thesis using k' q by (auto simp: full_after_def less_Suc_eq)
  qed (simp add: full_after_def)
  ultimately show ?thesis using good q unfolding good_ring_def by auto
qed

text \<open>The ring never fills up so far that the next slot holds the next page.\<close>

lemma good_ring_not_next:
  assumes good: "good_ring P E L c"
  shows "P (E mod 16) \<noteq> L + 1"
proof
  assume next_: "P (E mod 16) = L + 1"
  have L: "- 1 \<le> c" "c \<le> L" using good by (auto simp: good_ring_def)
  have E: "16 \<le> E"
  proof (rule ccontr)
    assume "\<not> 16 \<le> E"
    then have "P (E mod 16) < 0" using good by (auto simp: good_ring_def)
    then show False using next_ L by simp
  qed
  have at: "(E - 16) mod 16 = E mod 16" using le_mod_geq [OF E] by simp
  have "full_after P E (E - 16) (L + 1)"
    using good_ring_full [OF good, of "E - 16"] E next_ at by (simp add: window_def)
  then have later: "0 \<le> P (k mod 16) \<and> L - 6 \<le> P (k mod 16)" if "E - 16 < k" "k < E" for k
    using full_afterD [OF _ that, of P "L + 1"] by simp
  have all: "0 \<le> P (k mod 16) \<and> L - 6 \<le> P (k mod 16)" if "E - 16 \<le> k" "k < E" for k
  proof (cases "k = E - 16")
    case True
    then show ?thesis unfolding True at next_ using L by simp
  next
    case False
    then show ?thesis using that by (intro later) simp_all
  qed
  show False
  proof (rule no_crowd [where f = "\<lambda>k. P (k mod 16)" and A = "{E - 16..<E}" and b = "L - 6"])
    show "inj_on (\<lambda>k. P (k mod 16)) {E - 16..<E}"
    proof (rule inj_onI)
      fix j k assume jk: "j \<in> {E - 16..<E}" "k \<in> {E - 16..<E}" "P (j mod 16) = P (k mod 16)"
      have "0 \<le> P (j mod 16)" using all jk(1) by (meson atLeastLessThan_iff)
      then have same: "j mod 16 = k mod 16" by (rule good_ring_slot [OF good jk(3)])
      have "window E j" "window E k" using jk(1,2) by (auto simp: window_def)
      then show "j = k" using same by (rule window_same)
    qed
    show "\<forall>k\<in>{E - 16..<E}. L - 6 \<le> P (k mod 16) \<and> P (k mod 16) \<le> L - 6 + 14"
    proof
      fix k assume "k \<in> {E - 16..<E}"
      then have "L - 6 \<le> P (k mod 16)" using all by (meson atLeastLessThan_iff)
      then show "L - 6 \<le> P (k mod 16) \<and> P (k mod 16) \<le> L - 6 + 14" using good_ring_up [OF good, of k] L by linarith
    qed
  qed (use E in simp_all)
qed

text \<open>
  The central bound: a slot the writer has emptied is not the next one to be filled, as long as the
  thread still has a page to put into the ring.
\<close>

lemma good_ring_not_emptied:
  assumes good: "good_ring P E L c" and m: "window E m" "full_after P E m n" "P (m mod 16) < 0"
    and n: "c < n" "n \<le> c + 8" and q: "c < q" "q \<le> c + 8" "\<not> in_ring P q"
  shows "E mod 16 \<noteq> m mod 16"
proof
  assume "E mod 16 = m mod 16"
  then have E: "E = m + 16" using mod16_near [of m E] m(1) by (auto simp: window_def)
  let ?f = "\<lambda>k. if k = m then q else P (k mod 16)"
  have all: "0 \<le> P (k mod 16) \<and> n - 7 \<le> P (k mod 16)" if "m < k" "k < E" for k
    by (rule full_afterD [OF m(2) that])
  show False
  proof (rule no_crowd [where f = ?f and A = "{m..<E}" and b = "n - 7"])
    show "inj_on ?f {m..<E}"
    proof (rule inj_onI)
      fix j k assume jk: "j \<in> {m..<E}" "k \<in> {m..<E}" "?f j = ?f k"
      have nq: "P (i mod 16) \<noteq> q" for i using q(3) in_ring_at [of P i] by blast
      show "j = k"
      proof (cases "j = m \<or> k = m")
        case True
        then show ?thesis using jk(3) nq by metis
      next
        case False
        then have P: "P (j mod 16) = P (k mod 16)" "m < j" "j < E" using jk by auto
        then have "0 \<le> P (j mod 16)" using all by blast
        then have same: "j mod 16 = k mod 16" by (rule good_ring_slot [OF good P(1)])
        have "window E j" "window E k" using jk(1,2) E by (auto simp: window_def)
        then show ?thesis using same by (rule window_same)
      qed
    qed
    have up: "P (k mod 16) \<le> c + 8" for k by (rule good_ring_up [OF good])
    show "\<forall>k\<in>{m..<E}. n - 7 \<le> ?f k \<and> ?f k \<le> n - 7 + 14"
    proof
      fix k assume k: "k \<in> {m..<E}"
      show "n - 7 \<le> ?f k \<and> ?f k \<le> n - 7 + 14"
      proof (cases "k = m")
        case False
        then have "n - 7 \<le> P (k mod 16)" using k by (intro conjunct2 [OF all]) simp_all
        then show ?thesis using False up [of k] n by (simp del: mod_less)
      qed (use n q in simp)
    qed
  qed (use E in simp_all)
qed

end
