(* ===== verification/Ring_Handover.thy ===== *)
theory Ring_Handover
  imports Page_Warmer Ring_Pages
begin

section \<open>The hand-over of warmed pages, access by access\<close>

text \<open>
  The ring of \<open>Page_Warmer\<close> once more, at the granularity of its atomic accesses.  \<^verbatim>\<open>getWarmedPage\<close> empties a
  slot with a compare-and-exchange and reads the slot's address only afterwards; \<^verbatim>\<open>warmupLoop\<close> may take
  an empty slot at any time (include/revoq/PageWarmer.h, called from \<^verbatim>\<open>rotatePage\<close> of
  include/revoq/JournalWriter.h).  Each thread has a program counter and advances by one turn;
  a schedule is the list of the turns.  The ring is shown to be long enough: while
  the writer still reads the slot it has emptied, the thread cannot come round to it, provided no mapping
  fails.  A schedule with failing mappings shows that the proviso is needed.

  The indices are natural numbers here: the code's 64-bit counters are only used modulo the
  length of the ring.  A mapping is named by the number of its page; the size and sequence of a slot are left
  out, as every slot gets the same size and the sequence is never read.
\<close>

subsection \<open>The ring and the two threads\<close>

record rslot =
  rs_page :: int
  rs_addr :: "int option"
  rs_owned :: bool

text \<open>
  \<open>Top\<close>: reading the current page; \<open>Check i x\<close>: \<^verbatim>\<open>isPageInRing\<close> for the \<open>i\<close>-th page ahead, at slot \<open>x\<close>;
  \<open>Claim\<close>: the compare-and-exchange; \<open>Map_page\<close>, \<open>Fill\<close>, \<open>Publish\<close>: \<^verbatim>\<open>warmPageIntoSlot\<close>; \<open>Advance\<close>: the write index;
  \<open>Sweep x\<close>, \<open>Drop x v\<close>, \<open>Unmap x\<close>: \<^verbatim>\<open>cleanupOldPages\<close> at slot \<open>x\<close>, its load, its compare-and-exchange and the release.
\<close>

datatype warmer_pc = Top | Check nat nat | Claim nat | Map_page nat | Fill nat | Publish nat
  | Advance nat | Sweep nat | Drop nat int | Unmap nat

text \<open>
  \<open>Idle\<close>: about to rotate; \<open>Probe k\<close>, \<open>Grab k\<close>: load and compare-and-exchange at the \<open>k\<close>-th slot;
  \<open>Take x\<close>, \<open>Disown x\<close>: reading the address of the emptied slot, giving up its ownership; \<open>Tell\<close>:
  \<^verbatim>\<open>updateCurrentPage\<close>, after the page was loaded.
\<close>

datatype writer_pc = Idle | Probe nat | Grab nat | Take nat | Disown nat | Tell

record handover =
  ho_ring :: "rslot list"
  ho_write :: nat
  ho_read :: nat
  ho_current :: int
  ho_local :: int
  ho_warmer :: warmer_pc
  ho_page :: int
  ho_writer :: writer_pc
  ho_made :: "int list"
  ho_released :: "int list"
  ho_handed :: "(int \<times> int option) list"

abbreviation pageat :: "handover \<Rightarrow> nat \<Rightarrow> int" where
  "pageat s x \<equiv> rs_page (ho_ring s ! x)"

definition edit_slot :: "nat \<Rightarrow> (rslot \<Rightarrow> rslot) \<Rightarrow> handover \<Rightarrow> handover" where
  "edit_slot x f s = s\<lparr>ho_ring := (ho_ring s)[x := f (ho_ring s ! x)]\<rparr>"

definition handover_start :: "int \<Rightarrow> handover" where
  "handover_start p = \<lparr>ho_ring = replicate RingSize \<lparr>rs_page = - 1, rs_addr = None, rs_owned = False\<rparr>,
     ho_write = 0, ho_read = 0, ho_current = - 1, ho_local = - 1, ho_warmer = Top, ho_page = p,
     ho_writer = Tell, ho_made = [], ho_released = [], ho_handed = []\<rparr>"

text \<open>
  The writer's turn.  \<open>ok\<close> says whether loading the page succeeds; when it throws, \<^verbatim>\<open>updateCurrentPage\<close> is
  not reached, and the next rotation asks for the page after it.
\<close>

definition writer_turn :: "bool \<Rightarrow> handover \<Rightarrow> handover" where
  "writer_turn ok s = (case ho_writer s of
     Idle \<Rightarrow> s\<lparr>ho_page := ho_page s + 1, ho_writer := Probe 0\<rparr>
   | Probe k \<Rightarrow>
       if k \<ge> RingSize then s\<lparr>ho_writer := Tell\<rparr>
       else if pageat s ((ho_read s + k) mod RingSize) = ho_page s then s\<lparr>ho_writer := Grab k\<rparr>
       else s\<lparr>ho_writer := Probe (Suc k)\<rparr>
   | Grab k \<Rightarrow>
       let x = (ho_read s + k) mod RingSize in
       if pageat s x = ho_page s
       then (edit_slot x (\<lambda>t. t\<lparr>rs_page := - 1\<rparr>) s)\<lparr>ho_writer := Take x\<rparr>
       else s\<lparr>ho_writer := Probe (Suc k)\<rparr>
   | Take x \<Rightarrow> s\<lparr>ho_handed := ho_handed s @ [(ho_page s, rs_addr (ho_ring s ! x))], ho_writer := Disown x\<rparr>
   | Disown x \<Rightarrow> (edit_slot x (\<lambda>t. t\<lparr>rs_owned := False\<rparr>) s)
       \<lparr>ho_read := (x + 1) mod RingSize, ho_writer := Tell\<rparr>
   | Tell \<Rightarrow> if ok then s\<lparr>ho_current := ho_page s, ho_writer := Idle\<rparr> else s\<lparr>ho_writer := Idle\<rparr>)"

text \<open>
  The turn of the warmer thread; \<open>d\<close> is \<^verbatim>\<open>warmup_distance_\<close>.  \<open>ok\<close> says whether mapping the file succeeds; when
  it throws, the slot is emptied again and the write index stays.
\<close>

definition warmer_turn :: "nat \<Rightarrow> bool \<Rightarrow> handover \<Rightarrow> handover" where
  "warmer_turn d ok s = (let x = ho_write s mod RingSize in case ho_warmer s of
     Top \<Rightarrow>
       if ho_current s < 0 then s\<lparr>ho_local := ho_current s\<rparr>
       else s\<lparr>ho_local := ho_current s, ho_warmer := Check 1 0\<rparr>
   | Check i y \<Rightarrow>
       if i > d then s\<lparr>ho_warmer := Sweep 0\<rparr>
       else if y \<ge> RingSize then s\<lparr>ho_warmer := Claim i\<rparr>
       else if pageat s y = ho_local s + int i then s\<lparr>ho_warmer := Check (Suc i) 0\<rparr>
       else s\<lparr>ho_warmer := Check i (Suc y)\<rparr>
   | Claim i \<Rightarrow>
       if pageat s x = - 1 then (edit_slot x (\<lambda>t. t\<lparr>rs_page := - 2\<rparr>) s)\<lparr>ho_warmer := Map_page i\<rparr>
       else s\<lparr>ho_warmer := Check (Suc i) 0\<rparr>
   | Map_page i \<Rightarrow>
       if ok then s\<lparr>ho_made := ho_made s @ [ho_local s + int i], ho_warmer := Fill i\<rparr>
       else (edit_slot x (\<lambda>t. t\<lparr>rs_page := - 1\<rparr>) s)\<lparr>ho_warmer := Check (Suc i) 0\<rparr>
   | Fill i \<Rightarrow>
       (edit_slot x (\<lambda>t. t\<lparr>rs_addr := Some (ho_local s + int i), rs_owned := True\<rparr>) s)\<lparr>ho_warmer := Publish i\<rparr>
   | Publish i \<Rightarrow> (edit_slot x (\<lambda>t. t\<lparr>rs_page := ho_local s + int i\<rparr>) s)\<lparr>ho_warmer := Advance i\<rparr>
   | Advance i \<Rightarrow> s\<lparr>ho_write := ho_write s + 1, ho_warmer := Check (Suc i) 0\<rparr>
   | Sweep y \<Rightarrow>
       if y \<ge> RingSize then s\<lparr>ho_warmer := Top\<rparr>
       else if 0 \<le> pageat s y \<and> pageat s y < ho_local s - int RingSize
            then s\<lparr>ho_warmer := Drop y (pageat s y)\<rparr>
       else s\<lparr>ho_warmer := Sweep (Suc y)\<rparr>
   | Drop y v \<Rightarrow>
       if pageat s y = v then (edit_slot y (\<lambda>t. t\<lparr>rs_page := - 1\<rparr>) s)\<lparr>ho_warmer := Unmap y\<rparr>
       else s\<lparr>ho_warmer := Sweep (Suc y)\<rparr>
   | Unmap y \<Rightarrow>
       (case rs_addr (ho_ring s ! y) of
          Some q \<Rightarrow>
            if rs_owned (ho_ring s ! y)
            then (edit_slot y (\<lambda>t. t\<lparr>rs_addr := None, rs_owned := False\<rparr>) s)
                   \<lparr>ho_released := ho_released s @ [q], ho_warmer := Sweep (Suc y)\<rparr>
            else s\<lparr>ho_warmer := Sweep (Suc y)\<rparr>
        | None \<Rightarrow> s\<lparr>ho_warmer := Sweep (Suc y)\<rparr>))"

datatype turn = Writer bool | Warmer bool

fun take_turn :: "nat \<Rightarrow> turn \<Rightarrow> handover \<Rightarrow> handover" where
  "take_turn d (Writer ok) s = writer_turn ok s"
| "take_turn d (Warmer ok) s = warmer_turn d ok s"

definition run_turns :: "nat \<Rightarrow> turn list \<Rightarrow> handover \<Rightarrow> handover" where
  "run_turns d ts s = fold (take_turn (min d (RingSize div 2))) ts s"

subsection \<open>The invariant of the two threads\<close>

definition pages :: "rslot list \<Rightarrow> nat \<Rightarrow> int" where
  "pages r = (\<lambda>x. rs_page (r ! x))"

definition addrs :: "rslot list \<Rightarrow> nat \<Rightarrow> int option" where
  "addrs r = (\<lambda>x. rs_addr (r ! x))"

definition owners :: "rslot list \<Rightarrow> nat \<Rightarrow> bool" where
  "owners r = (\<lambda>x. rs_owned (r ! x))"

lemma pages_set [simp]: "x < length r \<Longrightarrow> pages (r[x := t]) = (pages r)(x := rs_page t)"
  by (auto simp: pages_def)

lemma addrs_set [simp]: "x < length r \<Longrightarrow> addrs (r[x := t]) = (addrs r)(x := rs_addr t)"
  by (auto simp: addrs_def)

lemma owners_set [simp]: "x < length r \<Longrightarrow> owners (r[x := t]) = (owners r)(x := rs_owned t)"
  by (rule ext) (auto simp: owners_def nth_list_update)

lemma slot_views: "rs_page (r ! x) = pages r x" "rs_addr (r ! x) = addrs r x" "rs_owned (r ! x) = owners r x"
  by (simp_all add: pages_def addrs_def owners_def)

fun held :: "writer_pc \<Rightarrow> nat option" where
  "held (Take x) = Some x"
| "held (Disown x) = Some x"
| "held _ = None"

fun searching :: "writer_pc \<Rightarrow> bool" where
  "searching (Probe _) = True"
| "searching (Grab _) = True"
| "searching _ = False"

fun published :: "warmer_pc \<Rightarrow> nat" where
  "published (Advance _) = 1"
| "published _ = 0"

fun filling :: "warmer_pc \<Rightarrow> bool" where
  "filling (Map_page _) = True"
| "filling (Fill _) = True"
| "filling (Publish _) = True"
| "filling _ = False"

definition wrap :: "nat \<Rightarrow> nat" where
  "wrap k = k mod 16"

lemma wrap_less [simp]: "wrap k < 16"
  by (simp add: wrap_def)

lemmas ring_mod = RingSize_def wrap_def [symmetric]

abbreviation next_slot :: "handover \<Rightarrow> nat" where
  "next_slot s \<equiv> wrap (ho_write s)"

definition filled :: "handover \<Rightarrow> nat" where
  "filled s = ho_write s + published (ho_warmer s)"

definition asked :: "handover \<Rightarrow> int" where
  "asked s = (if searching (ho_writer s) then ho_page s - 1 else ho_page s)"

text \<open>
  What the thread knows at each point of its pass: the pages before the \<open>i\<close>-th are in the ring or no
  longer needed, unless the next slot is in use; the \<open>i\<close>-th page is not in the ring.
\<close>

definition warmed_below :: "(nat \<Rightarrow> int) \<Rightarrow> int \<Rightarrow> int \<Rightarrow> int \<Rightarrow> bool" where
  "warmed_below P L c n \<longleftrightarrow> (\<forall>q. c < q \<and> q < n \<longrightarrow> q \<le> L \<or> in_ring P q)"

fun warmer_knows :: "warmer_pc \<Rightarrow> (nat \<Rightarrow> int) \<Rightarrow> nat \<Rightarrow> int \<Rightarrow> int \<Rightarrow> bool" where
  "warmer_knows (Check i y) P w L c \<longleftrightarrow> 1 \<le> i \<and> 0 \<le> c \<and> (0 \<le> P w \<or> warmed_below P L c (c + int i)) \<and>
     (\<forall>x<16. x < y \<longrightarrow> P x \<noteq> c + int i)"
| "warmer_knows (Claim i) P w L c \<longleftrightarrow> 1 \<le> i \<and> i \<le> 8 \<and> 0 \<le> c \<and>
     (0 \<le> P w \<or> warmed_below P L c (c + int i)) \<and> \<not> in_ring P (c + int i)"
| "warmer_knows (Map_page i) P w L c \<longleftrightarrow> 1 \<le> i \<and> i \<le> 8 \<and> 0 \<le> c \<and> P w = - 2 \<and>
     warmed_below P L c (c + int i) \<and> \<not> in_ring P (c + int i)"
| "warmer_knows (Fill i) P w L c \<longleftrightarrow> 1 \<le> i \<and> i \<le> 8 \<and> 0 \<le> c \<and> P w = - 2 \<and>
     warmed_below P L c (c + int i) \<and> \<not> in_ring P (c + int i)"
| "warmer_knows (Publish i) P w L c \<longleftrightarrow> 1 \<le> i \<and> i \<le> 8 \<and> 0 \<le> c \<and> P w = - 2 \<and>
     warmed_below P L c (c + int i) \<and> \<not> in_ring P (c + int i)"
| "warmer_knows (Advance i) P w L c \<longleftrightarrow> 1 \<le> i \<and> 0 \<le> c \<and> warmed_below P L c (c + int i + 1)"
| "warmer_knows (Drop y v) P w L c \<longleftrightarrow> y < 16 \<and> 0 \<le> v \<and> v < c - 16"
| "warmer_knows (Unmap y) P w L c \<longleftrightarrow> y < 16 \<and> P y = - 1"
| "warmer_knows _ P w L c \<longleftrightarrow> True"

text \<open>Who uses a slot: the ring, the thread that fills or releases it, or the writer that has emptied it.\<close>

definition slot_used :: "rslot list \<Rightarrow> warmer_pc \<Rightarrow> writer_pc \<Rightarrow> nat \<Rightarrow> nat \<Rightarrow> bool" where
  "slot_used r pc pen w x \<longleftrightarrow>
     0 \<le> pages r x \<or> held pen = Some x \<or> pc = Unmap x \<or> (\<exists>i. pc = Publish i \<and> x = w)"

definition hslot_ok :: "rslot list \<Rightarrow> warmer_pc \<Rightarrow> writer_pc \<Rightarrow> nat \<Rightarrow> nat \<Rightarrow> bool" where
  "hslot_ok r pc pen w x \<longleftrightarrow> (0 \<le> pages r x \<longrightarrow> addrs r x = Some (pages r x)) \<and> - 2 \<le> pages r x \<and>
     (pages r x = - 2 \<longrightarrow> filling pc \<and> x = w) \<and> (owners r x \<longleftrightarrow> slot_used r pc pen w x) \<and>
     (owners r x \<longrightarrow> addrs r x \<noteq> None)"

definition slots_ok :: "rslot list \<Rightarrow> warmer_pc \<Rightarrow> writer_pc \<Rightarrow> nat \<Rightarrow> int \<Rightarrow> bool" where
  "slots_ok r pc pen w c \<longleftrightarrow> length r = 16 \<and> (\<forall>x<16. hslot_ok r pc pen w x) \<and>
     (\<forall>i. pc = Publish i \<longrightarrow> addrs r w = Some (c + int i)) \<and>
     (\<forall>x. held pen = Some x \<longrightarrow> pc \<noteq> Unmap x)"

definition writer_holds :: "rslot list \<Rightarrow> nat \<Rightarrow> int \<Rightarrow> int \<Rightarrow> nat \<Rightarrow> bool" where
  "writer_holds r E n c x \<longleftrightarrow> x < 16 \<and> pages r x = - 1 \<and> addrs r x = Some n \<and> n \<le> c + 8 \<and>
     (\<exists>m. window E m \<and> wrap m = x \<and> full_after (pages r) E m n)"

definition levels :: "handover \<Rightarrow> bool" where
  "levels s \<longleftrightarrow> - 1 \<le> ho_current s \<and> ho_local s \<le> ho_current s \<and>
     ho_current s \<le> ho_page s - (if searching (ho_writer s) \<or> held (ho_writer s) \<noteq> None then 1 else 0)"

definition handover_inv :: "handover \<Rightarrow> bool" where
  "handover_inv s \<longleftrightarrow> good_ring (pages (ho_ring s)) (filled s) (asked s) (ho_local s) \<and>
     warmer_knows (ho_warmer s) (pages (ho_ring s)) (next_slot s) (asked s) (ho_local s) \<and>
     slots_ok (ho_ring s) (ho_warmer s) (ho_writer s) (next_slot s) (ho_local s) \<and>
     (\<forall>x. held (ho_writer s) = Some x \<longrightarrow> writer_holds (ho_ring s) (filled s) (ho_page s) (ho_local s) x) \<and>
     levels s \<and> (\<forall>(n, a)\<in>set (ho_handed s). a = Some n)"

lemma handover_start_inv: "0 \<le> p \<Longrightarrow> handover_inv (handover_start p)"
  by (auto simp: handover_inv_def handover_start_def RingSize_def filled_def asked_def levels_def slots_ok_def
      hslot_ok_def pages_def addrs_def owners_def ring_defs window_def slot_used_def split: if_splits)

text \<open>Turns that only move the program counter of a thread that holds no slot do not matter to the slots.\<close>

definition quiet :: "warmer_pc \<Rightarrow> bool" where
  "quiet pc \<longleftrightarrow> \<not> filling pc \<and> (\<forall>x. pc \<noteq> Unmap x)"

lemma quiet_simps [simp]: "quiet Top" "quiet (Check i y)" "quiet (Claim i)" "quiet (Advance i)" "quiet (Sweep y)"
  "quiet (Drop y v)" "\<not> quiet (Unmap y)"
  by (auto simp: quiet_def)

lemma slot_used_quiet: "quiet pc \<Longrightarrow> slot_used r pc pen w x \<longleftrightarrow> 0 \<le> pages r x \<or> held pen = Some x"
  by (cases pc) (auto simp: slot_used_def quiet_def)

lemma slots_okI:
  assumes "slots_ok r pc pen w c" "\<And>y. hslot_ok r pc pen w y \<Longrightarrow> hslot_ok r' pc' pen' w' y" "length r' = length r"
    "\<And>i. pc' = Publish i \<Longrightarrow> addrs r' w' = Some (c' + int i)" "\<And>x. held pen' = Some x \<Longrightarrow> pc' \<noteq> Unmap x"
  shows "slots_ok r' pc' pen' w' c'"
  using assms(1,3) by (simp add: slots_ok_def assms(2,4,5))

lemma slots_ok_quiet:
  assumes "quiet pc" "quiet pc'" "held pen' = held pen"
  shows "slots_ok r pc pen w c \<Longrightarrow> slots_ok r pc' pen' w' c'"
  using assms unfolding slots_ok_def hslot_ok_def by (auto simp: slot_used_quiet quiet_def)

lemma slots_ok_held:
  "slots_ok r pc pen w c \<Longrightarrow> held pen' = held pen \<Longrightarrow> slots_ok r pc pen' w c"
  by (simp add: slots_ok_def hslot_ok_def slot_used_def)

subsection \<open>The writer's turns\<close>

lemma warmed_below_later: "\<lbrakk>warmed_below P L c n; L \<le> L'\<rbrakk> \<Longrightarrow> warmed_below P L' c n"
  by (force simp: warmed_below_def)

lemma warmer_knows_later: "\<lbrakk>warmer_knows pc P w L c; L \<le> L'\<rbrakk> \<Longrightarrow> warmer_knows pc P w L' c"
  by (cases pc) (auto intro: warmed_below_later)

lemma warmed_below_take:
  "\<lbrakk>warmed_below P L c n; P x = L + 1\<rbrakk> \<Longrightarrow> warmed_below (P(x := - 1)) (L + 1) c n"
  unfolding warmed_below_def by (metis in_ring_upd linorder_not_less not_less_iff_gr_or_eq zless_add1_eq)

lemma warmer_knows_take:
  assumes "warmer_knows pc P (wrap W) L c" "good_ring P (W + published pc) L c" "P x = L + 1" "x < 16"
  shows "warmer_knows pc (P(x := - 1)) (wrap W) (L + 1) c"
proof -
  have "P (wrap W) \<noteq> L + 1" if "published pc = 0"
    using good_ring_not_next [of P W L c] assms(2) that by (simp add: wrap_def)
  moreover have "- 1 \<le> L" using assms(2) by (simp add: good_ring_def)
  ultimately show ?thesis using assms(1,3)
    by (cases pc) (auto intro: warmed_below_take dest: in_ring_upd_old)
qed

lemma slots_ok_take:
  assumes "slots_ok r pc pen w c" "held pen = None" "held pen' = Some x" "x < 16" "0 \<le> pages r x" "pc \<noteq> Unmap x"
  shows "slots_ok (r[x := (r ! x)\<lparr>rs_page := - 1\<rparr>]) pc pen' w c"
  using assms unfolding slots_ok_def by (auto simp: hslot_ok_def slot_used_def slot_views)

lemma grab_inv:
  assumes inv: "handover_inv s" and pc: "ho_writer s = Grab k" and x: "x < 16" "pages (ho_ring s) x = ho_page s"
  shows "handover_inv ((edit_slot x (\<lambda>t. t\<lparr>rs_page := - 1\<rparr>) s)\<lparr>ho_writer := Take x\<rparr>)"
proof -
  let ?P = "pages (ho_ring s)" and ?L = "ho_page s - 1" and ?c = "ho_local s"
  have good: "good_ring ?P (filled s) ?L ?c"
    and kn: "warmer_knows (ho_warmer s) ?P (next_slot s) ?L ?c"
    and ok: "slots_ok (ho_ring s) (ho_warmer s) (ho_writer s) (next_slot s) ?c"
    using inv pc by (simp_all add: handover_inv_def asked_def)
  have P: "?P x = ?L + 1" "0 \<le> ?P x" using x good by (auto simp: good_ring_def)
  have len: "length (ho_ring s) = 16" and addr: "addrs (ho_ring s) x = Some (ho_page s)"
    using ok x P by (auto simp: slots_ok_def hslot_ok_def)
  note taken = good_ring_take [OF good x(1) P(1), folded wrap_def]
  have "warmer_knows (ho_warmer s) (?P(x := - 1)) (next_slot s) (?L + 1) ?c"
    using warmer_knows_take [OF kn _ P(1) x(1)] good by (simp add: filled_def)
  moreover have "?P x \<le> ?c + 8" using good_ring_up [OF good, of x] x by simp
  moreover have "slots_ok ((ho_ring s)[x := (ho_ring s ! x)\<lparr>rs_page := - 1\<rparr>]) (ho_warmer s) (Take x) (next_slot s) ?c"
    using kn P x pc by (intro slots_ok_take [OF ok]) auto
  ultimately show ?thesis
    using inv taken len x pc P addr
    by (auto simp: handover_inv_def edit_slot_def filled_def asked_def writer_holds_def levels_def slot_views)
qed

lemma slots_ok_disown:
  assumes "slots_ok r pc pen w c" "held pen = Some x" "held pen' = None" "x < 16" "pages r x = - 1" "pages r w = - 2 \<or> \<not> filling pc"
  shows "slots_ok (r[x := (r ! x)\<lparr>rs_owned := False\<rparr>]) pc pen' w c"
proof -
  let ?r = "r[x := (r ! x)\<lparr>rs_owned := False\<rparr>]"
  have pc: "pc \<noteq> Unmap x" "\<not> (\<exists>i. pc = Publish i \<and> x = w)" "length r = 16"
    using assms by (auto simp: slots_ok_def)
  have "hslot_ok ?r pc pen' w y" if "hslot_ok r pc pen w y" for y
    using assms(2-5) pc that unfolding hslot_ok_def slot_used_def by (cases "y = x") (auto simp: slot_views)
  then show ?thesis using assms(1,3) pc(3) assms(4) by (simp add: slots_ok_def slot_views)
qed

lemma warmer_knows_filling: "\<lbrakk>warmer_knows pc P w L c; filling pc\<rbrakk> \<Longrightarrow> P w = - 2"
  by (cases pc) auto

lemma writer_turn_inv:
  assumes inv: "handover_inv s"
  shows "handover_inv (writer_turn ok s)"
proof (cases "ho_writer s")
  case (Probe k)
  have "good_ring (pages (ho_ring s)) (filled s) (ho_page s) (ho_local s)"
    and "warmer_knows (ho_warmer s) (pages (ho_ring s)) (next_slot s) (ho_page s) (ho_local s)"
    using inv Probe
    by (auto simp: handover_inv_def asked_def intro: good_ring_later warmer_knows_later)
  then show ?thesis using inv Probe
    by (auto simp: writer_turn_def handover_inv_def filled_def asked_def levels_def elim!: slots_ok_held)
next
  case (Grab k)
  show ?thesis
  proof (cases "pages (ho_ring s) (wrap (ho_read s + k)) = ho_page s")
    case True
    then show ?thesis using grab_inv [OF inv Grab _ True] Grab
      by (simp add: writer_turn_def ring_mod Let_def slot_views)
  next
    case False
    then show ?thesis using inv Grab
      by (auto simp: writer_turn_def ring_mod Let_def slot_views handover_inv_def filled_def asked_def
          levels_def elim!: slots_ok_held)
  qed
next
  case (Take x)
  then show ?thesis using inv
    by (auto simp: writer_turn_def slot_views handover_inv_def filled_def asked_def levels_def
        writer_holds_def elim!: slots_ok_held)
next
  case (Disown x)
  then have hold: "x < 16" "pages (ho_ring s) x = - 1"
    and len: "length (ho_ring s) = 16"
    and ok: "slots_ok (ho_ring s) (ho_warmer s) (Disown x) (next_slot s) (ho_local s)"
    using inv by (auto simp: handover_inv_def slots_ok_def writer_holds_def)
  have "slots_ok ((ho_ring s)[x := (ho_ring s ! x)\<lparr>rs_owned := False\<rparr>]) (ho_warmer s) Tell (next_slot s) (ho_local s)"
    using inv warmer_knows_filling hold by (intro slots_ok_disown [OF ok]) (auto simp: handover_inv_def)
  then show ?thesis using inv Disown hold len
    by (auto simp: writer_turn_def edit_slot_def slot_views handover_inv_def filled_def asked_def
        levels_def fun_upd_idem)
qed (use inv in \<open>auto simp: writer_turn_def handover_inv_def filled_def asked_def levels_def elim!: slots_ok_held\<close>)

subsection \<open>The thread's turns\<close>

lemma full_after_upd: "\<lbrakk>full_after P E m n; P x < 0\<rbrakk> \<Longrightarrow> full_after (P(x := v)) E m n"
  by (auto simp: full_after_def)

lemma warmed_below_upd: "\<lbrakk>warmed_below P L c n; P x < 0; 0 \<le> c\<rbrakk> \<Longrightarrow> warmed_below (P(x := v)) L c n"
  by (auto simp: warmed_below_def intro!: in_ring_upd)

lemma warmed_below_Suc:
  "\<lbrakk>warmed_below P L c (c + int i); in_ring P (c + int i)\<rbrakk> \<Longrightarrow> warmed_below P L c (c + int i + 1)"
  by (auto simp: warmed_below_def zless_add1_eq order_le_less)

lemma warmed_below_start: "warmed_below P L c (c + 1)"
  by (auto simp: warmed_below_def)

lemma handover_invD:
  assumes "handover_inv s"
  shows "good_ring (pages (ho_ring s)) (filled s) (asked s) (ho_local s)"
    and "warmer_knows (ho_warmer s) (pages (ho_ring s)) (next_slot s) (asked s) (ho_local s)"
    and "slots_ok (ho_ring s) (ho_warmer s) (ho_writer s) (next_slot s) (ho_local s)"
    and "held (ho_writer s) = Some x \<Longrightarrow> writer_holds (ho_ring s) (filled s) (ho_page s) (ho_local s) x"
    and "levels s" and "\<forall>(n, a)\<in>set (ho_handed s). a = Some n" and "length (ho_ring s) = 16"
  using assms by (auto simp: handover_inv_def slots_ok_def)

text \<open>A turn of the thread that changes neither the ring nor the number of filled slots.\<close>

lemma warmer_move:
  assumes inv: "handover_inv s" and ring: "ho_ring t = ho_ring s" and E: "filled t = filled s"
    and pen: "ho_writer t = ho_writer s" "ho_page t = ho_page s" "ho_handed t = ho_handed s" "ho_current t = ho_current s"
    and c: "ho_local s \<le> ho_local t" "ho_local t \<le> ho_current s"
    and pc: "quiet (ho_warmer s)" "quiet (ho_warmer t)"
    and kn: "warmer_knows (ho_warmer t) (pages (ho_ring s)) (next_slot t) (asked s) (ho_local t)"
  shows "handover_inv t"
proof -
  have L: "asked t = asked s" "ho_current s \<le> asked s" using handover_invD(5) [OF inv] pen
    by (auto simp: asked_def levels_def split: if_splits)
  have "good_ring (pages (ho_ring s)) (filled s) (asked s) (ho_local t)"
    using good_ring_local [OF handover_invD(1) [OF inv] c(1)] c L by simp
  moreover have "slots_ok (ho_ring s) (ho_warmer t) (ho_writer s) (next_slot t) (ho_local t)"
    by (rule slots_ok_quiet [OF pc refl handover_invD(3) [OF inv]])
  moreover have "writer_holds (ho_ring s) (filled s) (ho_page s) (ho_local t) x" if "held (ho_writer s) = Some x" for x
    using handover_invD(4) [OF inv that] c by (auto simp: writer_holds_def)
  ultimately show ?thesis
    using inv L kn c by (simp add: handover_inv_def ring pen E levels_def)
qed

text \<open>A turn of the thread that edits the ring.\<close>

lemma warmer_edit:
  assumes inv: "handover_inv s"
    and same: "ho_writer t = ho_writer s" "ho_page t = ho_page s" "ho_handed t = ho_handed s"
      "ho_current t = ho_current s" "ho_local t = ho_local s"
    and good: "good_ring (pages (ho_ring t)) (filled t) (asked s) (ho_local s)"
    and kn: "warmer_knows (ho_warmer t) (pages (ho_ring t)) (next_slot t) (asked s) (ho_local s)"
    and ok: "slots_ok (ho_ring t) (ho_warmer t) (ho_writer s) (next_slot t) (ho_local s)"
    and hold: "\<And>x. held (ho_writer s) = Some x \<Longrightarrow> writer_holds (ho_ring t) (filled t) (ho_page s) (ho_local s) x"
  shows "handover_inv t"
proof -
  have "asked t = asked s" using same by (simp add: asked_def)
  then show ?thesis
    using handover_invD(5,6) [OF inv] good kn ok hold by (simp add: handover_inv_def same levels_def)
qed

lemma top_inv:
  assumes inv: "handover_inv s" and pc: "ho_warmer s = Top"
  shows "handover_inv (warmer_turn d ok s)"
proof (rule warmer_move [OF inv])
  show "warmer_knows (ho_warmer (warmer_turn d ok s)) (pages (ho_ring s)) (next_slot (warmer_turn d ok s)) (asked s)
      (ho_local (warmer_turn d ok s))"
    using pc by (auto simp: warmer_turn_def warmed_below_start)
qed (use pc handover_invD(5) [OF inv] in \<open>auto simp: warmer_turn_def filled_def levels_def\<close>)

lemma check_inv:
  assumes inv: "handover_inv s" and pc: "ho_warmer s = Check i y" and d: "d \<le> 8"
  shows "handover_inv (warmer_turn d ok s)"
proof (rule warmer_move [OF inv])
  let ?P = "pages (ho_ring s)"
  have kn: "1 \<le> i" "0 \<le> ho_local s" "0 \<le> ?P (next_slot s) \<or> warmed_below ?P (asked s) (ho_local s) (ho_local s + int i)"
      "\<forall>x<16. x < y \<longrightarrow> ?P x \<noteq> ho_local s + int i"
    using handover_invD(2) [OF inv] pc by auto
  have "0 \<le> ?P (next_slot s) \<or> warmed_below ?P (asked s) (ho_local s) (ho_local s + (1 + int i))"
    if "y < 16" "?P y = ho_local s + int i"
    using warmed_below_Suc [of ?P "asked s" "ho_local s" i] kn that by (auto simp: in_ring_def ac_simps)
  then show "warmer_knows (ho_warmer (warmer_turn d ok s)) ?P (next_slot (warmer_turn d ok s)) (asked s)
      (ho_local (warmer_turn d ok s))"
    using pc kn d by (auto simp: warmer_turn_def ring_mod slot_views in_ring_def less_Suc_eq add.assoc)
qed (use pc handover_invD(5) [OF inv] in \<open>auto simp: warmer_turn_def filled_def levels_def\<close>)

lemma slots_ok_claim:
  assumes "slots_ok r pc pen w c" "quiet pc" "pages r w = - 1" "w < 16"
  shows "slots_ok (r[w := (r ! w)\<lparr>rs_page := - 2\<rparr>]) (Map_page i) pen w c"
proof -
  have len: "length r = 16" using assms(1) by (simp add: slots_ok_def)
  have "hslot_ok (r[w := (r ! w)\<lparr>rs_page := - 2\<rparr>]) (Map_page i) pen w y" if "hslot_ok r pc pen w y" for y
    using assms(2-) len that unfolding hslot_ok_def by (cases "y = w") (auto simp: slot_views slot_used_def quiet_def)
  then show ?thesis using assms(2-) len by (intro slots_okI [OF assms(1)]) auto
qed

lemma claim_ring:
  assumes inv: "handover_inv s" and pc: "ho_warmer s = Claim i" and free: "pages (ho_ring s) (next_slot s) = - 1"
  shows "good_ring ((pages (ho_ring s))(next_slot s := - 2)) (ho_write s) (asked s) (ho_local s)"
    and "warmer_knows (Map_page i) ((pages (ho_ring s))(next_slot s := - 2)) (next_slot s) (asked s) (ho_local s)"
    and "held (ho_writer s) = Some x \<Longrightarrow> x \<noteq> next_slot s"
proof -
  let ?P = "pages (ho_ring s)" and ?w = "next_slot s"
  have good: "good_ring ?P (ho_write s) (asked s) (ho_local s)"
    and kn: "1 \<le> i" "i \<le> 8" "0 \<le> ho_local s" "\<not> in_ring ?P (ho_local s + int i)"
      "warmed_below ?P (asked s) (ho_local s) (ho_local s + int i)"
    using inv pc free by (auto simp: handover_inv_def filled_def)
  show "good_ring (?P(?w := - 2)) (ho_write s) (asked s) (ho_local s)"
    using free by (intro good_ring_empty_slot [OF good]) auto
  show "warmer_knows (Map_page i) (?P(?w := - 2)) ?w (asked s) (ho_local s)"
    using kn free by (auto intro: warmed_below_upd dest: in_ring_upd_old)
  assume held: "held (ho_writer s) = Some x"
  obtain m where "window (ho_write s) m" "wrap m = x" "full_after ?P (ho_write s) m (ho_page s)"
    "?P x = - 1" "ho_page s \<le> ho_local s + 8"
    using handover_invD(4) [OF inv held] pc by (auto simp: writer_holds_def filled_def)
  moreover have "ho_local s < ho_page s" using handover_invD(5) [OF inv] held by (auto simp: levels_def)
  ultimately show "x \<noteq> ?w"
    using good_ring_not_emptied [OF good, of m "ho_page s" "ho_local s + int i", folded wrap_def] kn by auto
qed

lemma slots_ok_busy:
  assumes "slots_ok r pc pen w c" "quiet pc" "w < 16" "pages r w \<noteq> - 1"
  shows "0 \<le> pages r w"
  using assms(2,4) slots_ok_def [of r pc pen w c, THEN iffD1, OF assms(1)] assms(3)
  by (auto simp: hslot_ok_def quiet_def)

lemma claim_inv:
  assumes inv: "handover_inv s" and pc: "ho_warmer s = Claim i"
  shows "handover_inv (warmer_turn d ok s)"
proof (cases "pages (ho_ring s) (next_slot s) = - 1")
  case True
  note claimed = claim_ring [OF inv pc True]
  let ?t = "warmer_turn d ok s"
  have t: "?t = s\<lparr>ho_ring := (ho_ring s)[next_slot s := (ho_ring s ! next_slot s)\<lparr>rs_page := - 2\<rparr>],
      ho_warmer := Map_page i\<rparr>"
    using pc True by (simp add: warmer_turn_def ring_mod Let_def edit_slot_def slot_views)
  show ?thesis
  proof (rule warmer_edit [OF inv])
    show "slots_ok (ho_ring ?t) (ho_warmer ?t) (ho_writer s) (next_slot ?t) (ho_local s)"
      using slots_ok_claim [OF handover_invD(3) [OF inv]] pc True by (simp add: t)
    show "writer_holds (ho_ring ?t) (filled ?t) (ho_page s) (ho_local s) x" if "held (ho_writer s) = Some x" for x
      using handover_invD(4) [OF inv that] claimed(3) [OF that] handover_invD(7) [OF inv] pc True
      by (auto simp: t writer_holds_def filled_def slot_views intro!: full_after_upd)
  qed (use claimed(1,2) handover_invD(7) [OF inv] in \<open>simp_all add: t filled_def\<close>)
next
  case False
  then have "0 \<le> pages (ho_ring s) (next_slot s)"
    using slots_ok_busy [OF handover_invD(3) [OF inv]] pc by simp
  then show ?thesis using handover_invD(2,5) [OF inv] pc False
    by (intro warmer_move [OF inv]) (auto simp: warmer_turn_def ring_mod slot_views filled_def levels_def)
qed

lemma slots_ok_mapped:
  "slots_ok r (Map_page i) pen w c \<Longrightarrow> slots_ok r (Fill i) pen w c"
  by (simp add: slots_ok_def hslot_ok_def slot_used_def)

lemma map_inv:
  assumes inv: "handover_inv s" and pc: "ho_warmer s = Map_page i"
  shows "handover_inv (warmer_turn d True s)"
  using handover_invD [OF inv] pc
  by (intro warmer_edit [OF inv]) (auto simp: warmer_turn_def filled_def intro: slots_ok_mapped)

lemma slots_ok_fill:
  assumes "slots_ok r (Fill i) pen w c" "pages r w = - 2" "w < 16"
  shows "slots_ok (r[w := (r ! w)\<lparr>rs_addr := Some (c + int i), rs_owned := True\<rparr>]) (Publish i) pen w c"
proof -
  have len: "length r = 16" using assms(1) by (simp add: slots_ok_def)
  have "hslot_ok (r[w := (r ! w)\<lparr>rs_addr := Some (c + int i), rs_owned := True\<rparr>]) (Publish i) pen w y"
    if "hslot_ok r (Fill i) pen w y" for y
  proof (cases "y = w")
    case True
    show ?thesis
      using assms(2-) len that unfolding True hslot_ok_def by (simp add: slot_views slot_used_def)
  next
    case False
    then show ?thesis
      using assms(2-) len that unfolding hslot_ok_def by (simp add: slot_views slot_used_def)
  qed
  then show ?thesis using assms(2-) len by (intro slots_okI [OF assms(1)]) auto
qed

lemma fill_inv:
  assumes inv: "handover_inv s" and pc: "ho_warmer s = Fill i"
  shows "handover_inv (warmer_turn d ok s)"
proof -
  let ?t = "warmer_turn d ok s"
  have t: "?t = s\<lparr>ho_ring := (ho_ring s)[next_slot s := (ho_ring s ! next_slot s)
      \<lparr>rs_addr := Some (ho_local s + int i), rs_owned := True\<rparr>], ho_warmer := Publish i\<rparr>"
    using pc by (simp add: warmer_turn_def ring_mod Let_def edit_slot_def)
  have w: "pages (ho_ring s) (next_slot s) = - 2" using handover_invD(2) [OF inv] pc by simp
  have P: "pages (ho_ring ?t) = pages (ho_ring s)"
    using handover_invD(7) [OF inv] by (auto simp: t slot_views)
  show ?thesis
  proof (rule warmer_edit [OF inv])
    show "slots_ok (ho_ring ?t) (ho_warmer ?t) (ho_writer s) (next_slot ?t) (ho_local s)"
      using slots_ok_fill [of "ho_ring s" i] handover_invD(3) [OF inv] pc w by (simp add: t)
    show "writer_holds (ho_ring ?t) (filled ?t) (ho_page s) (ho_local s) x" if "held (ho_writer s) = Some x" for x
      using handover_invD(4) [OF inv that] w P pc handover_invD(7) [OF inv]
      by (auto simp: writer_holds_def filled_def) (auto simp: t)
  qed (use handover_invD(1,2) [OF inv] P pc in \<open>auto simp: t filled_def\<close>)
qed

lemma full_after_publish:
  assumes "full_after P E m n" "P (wrap E) < 0" "0 \<le> q" "n - 7 \<le> q"
  shows "full_after (P(wrap E := q)) (Suc E) m n"
  using assms by (auto simp: full_after_def less_Suc_eq wrap_def)

lemma slots_ok_publish:
  assumes "slots_ok r (Publish i) pen w c" "pages r w = - 2" "w < 16" "0 \<le> c" "held pen \<noteq> Some w"
  shows "slots_ok (r[w := (r ! w)\<lparr>rs_page := c + int i\<rparr>]) (Advance i) pen w c"
proof -
  have len: "length r = 16" and addr: "addrs r w = Some (c + int i)" using assms(1) by (simp_all add: slots_ok_def)
  have "hslot_ok (r[w := (r ! w)\<lparr>rs_page := c + int i\<rparr>]) (Advance i) pen w y"
    if "hslot_ok r (Publish i) pen w y" for y
  proof (cases "y = w")
    case True
    show ?thesis
      using assms(2-) len addr that unfolding True hslot_ok_def by (simp add: slot_views slot_used_def)
  next
    case False
    then show ?thesis
      using assms(2-) len that unfolding hslot_ok_def by (simp add: slot_views slot_used_def)
  qed
  then show ?thesis using assms(2-) len by (intro slots_okI [OF assms(1)]) auto
qed

lemma publish_inv:
  assumes inv: "handover_inv s" and pc: "ho_warmer s = Publish i"
  shows "handover_inv (warmer_turn d ok s)"
proof -
  let ?t = "warmer_turn d ok s" and ?P = "pages (ho_ring s)" and ?w = "next_slot s" and ?q = "ho_local s + int i"
  have t: "?t = s\<lparr>ho_ring := (ho_ring s)[?w := (ho_ring s ! ?w)\<lparr>rs_page := ?q\<rparr>], ho_warmer := Advance i\<rparr>"
    using pc by (simp add: warmer_turn_def ring_mod Let_def edit_slot_def)
  have good: "good_ring ?P (ho_write s) (asked s) (ho_local s)"
    and kn: "1 \<le> i" "i \<le> 8" "0 \<le> ho_local s" "?P ?w = - 2" "\<not> in_ring ?P ?q"
      "warmed_below ?P (asked s) (ho_local s) ?q"
    using handover_invD(1,2) [OF inv] pc by (auto simp: filled_def)
  have len: "length (ho_ring s) = 16" by (rule handover_invD(7) [OF inv])
  show ?thesis
  proof (rule warmer_edit [OF inv])
    show "good_ring (pages (ho_ring ?t)) (filled ?t) (asked s) (ho_local s)"
      using good_ring_publish [OF good, of ?q, folded wrap_def] kn len by (auto simp: t filled_def warmed_below_def)
    have "warmed_below (?P(?w := ?q)) (asked s) (ho_local s) (?q + 1)"
      using kn by (intro warmed_below_Suc warmed_below_upd in_ring_new) auto
    then show "warmer_knows (ho_warmer ?t) (pages (ho_ring ?t)) (next_slot ?t) (asked s) (ho_local s)"
      using kn len by (simp add: t)
    have other: "held (ho_writer s) \<noteq> Some ?w"
      using handover_invD(4) [OF inv, of ?w] kn by (auto simp: writer_holds_def)
    then show "slots_ok (ho_ring ?t) (ho_warmer ?t) (ho_writer s) (next_slot ?t) (ho_local s)"
      using slots_ok_publish [of "ho_ring s" i] handover_invD(3) [OF inv] pc kn by (simp add: t)
    show "writer_holds (ho_ring ?t) (filled ?t) (ho_page s) (ho_local s) x" if x: "held (ho_writer s) = Some x" for x
    proof -
      obtain m where m: "window (ho_write s) m" "wrap m = x" "full_after ?P (ho_write s) m (ho_page s)"
        and "?P x = - 1" "addrs (ho_ring s) x = Some (ho_page s)" "ho_page s \<le> ho_local s + 8" "x < 16"
        using handover_invD(4) [OF inv x] pc by (auto simp: writer_holds_def filled_def)
      moreover have "window (Suc (ho_write s)) m" using m x other by (auto simp: window_Suc wrap_def)
      moreover have "full_after (?P(?w := ?q)) (Suc (ho_write s)) m (ho_page s)"
        using kn calculation by (intro full_after_publish) auto
      ultimately show ?thesis using x other len by (auto simp: writer_holds_def t filled_def slot_views)
    qed
  qed (simp_all add: t)
qed

lemma advance_inv:
  assumes inv: "handover_inv s" and pc: "ho_warmer s = Advance i"
  shows "handover_inv (warmer_turn d ok s)"
  using handover_invD(2,5) [OF inv] pc
  by (intro warmer_move [OF inv]) (auto simp: warmer_turn_def filled_def levels_def ac_simps)

lemma sweep_inv:
  assumes inv: "handover_inv s" and pc: "ho_warmer s = Sweep y"
  shows "handover_inv (warmer_turn d ok s)"
  using handover_invD(5) [OF inv] pc
  by (intro warmer_move [OF inv]) (auto simp: warmer_turn_def filled_def levels_def RingSize_def slot_views)

lemma slots_ok_drop:
  assumes "slots_ok r (Drop x v) pen w c" "pages r x = v" "0 \<le> v" "x < 16" "held pen \<noteq> Some x"
  shows "slots_ok (r[x := (r ! x)\<lparr>rs_page := - 1\<rparr>]) (Unmap x) pen w c"
proof -
  have len: "length r = 16" using assms(1) by (simp add: slots_ok_def)
  have "hslot_ok (r[x := (r ! x)\<lparr>rs_page := - 1\<rparr>]) (Unmap x) pen w y" if "hslot_ok r (Drop x v) pen w y" for y
    using assms(2-) len that unfolding hslot_ok_def by (cases "y = x") (simp_all add: slot_views slot_used_def)
  then show ?thesis using assms(2-) len by (intro slots_okI [OF assms(1)]) auto
qed

lemma full_after_drop: "\<lbrakk>full_after P E m n; P x < n - 7\<rbrakk> \<Longrightarrow> full_after (P(x := - 1)) E m n"
  by (auto simp: full_after_def)

lemma drop_inv:
  assumes inv: "handover_inv s" and pc: "ho_warmer s = Drop y v"
  shows "handover_inv (warmer_turn d ok s)"
proof (cases "pages (ho_ring s) y = v")
  case True
  let ?t = "warmer_turn d ok s"
  have t: "?t = s\<lparr>ho_ring := (ho_ring s)[y := (ho_ring s ! y)\<lparr>rs_page := - 1\<rparr>], ho_warmer := Unmap y\<rparr>"
    using pc True by (simp add: warmer_turn_def Let_def edit_slot_def slot_views)
  have kn: "y < 16" "0 \<le> v" "v < ho_local s - 16" using handover_invD(2) [OF inv] pc by auto
  have len: "length (ho_ring s) = 16" by (rule handover_invD(7) [OF inv])
  show ?thesis
  proof (rule warmer_edit [OF inv])
    show "good_ring (pages (ho_ring ?t)) (filled ?t) (asked s) (ho_local s)"
      using good_ring_drop [OF handover_invD(1) [OF inv], of y] kn True len pc by (simp add: t filled_def)
    have other: "held (ho_writer s) \<noteq> Some y"
      using handover_invD(4) [OF inv, of y] kn True by (auto simp: writer_holds_def)
    then show "slots_ok (ho_ring ?t) (ho_warmer ?t) (ho_writer s) (next_slot ?t) (ho_local s)"
      using slots_ok_drop [of "ho_ring s" y v] handover_invD(3) [OF inv] pc kn True by (simp add: t)
    show "writer_holds (ho_ring ?t) (filled ?t) (ho_page s) (ho_local s) x" if x: "held (ho_writer s) = Some x" for x
    proof -
      have "ho_local s < ho_page s" using handover_invD(5) [OF inv] x by (auto simp: levels_def)
      then show ?thesis using handover_invD(4) [OF inv x] other x len kn True pc
        by (auto simp: t writer_holds_def filled_def slot_views intro!: full_after_drop)
    qed
  qed (use kn len in \<open>simp_all add: t\<close>)
next
  case False
  then show ?thesis using handover_invD(5) [OF inv] pc
    by (intro warmer_move [OF inv]) (auto simp: warmer_turn_def slot_views filled_def levels_def)
qed

lemma slots_ok_unmap:
  assumes "slots_ok r (Unmap x) pen w c" "pages r x = - 1" "x < 16"
  shows "slots_ok (r[x := (r ! x)\<lparr>rs_addr := None, rs_owned := False\<rparr>]) (Sweep (Suc x)) pen w c"
proof -
  have len: "length r = 16" and other: "held pen \<noteq> Some x" using assms(1) by (auto simp: slots_ok_def)
  have "hslot_ok (r[x := (r ! x)\<lparr>rs_addr := None, rs_owned := False\<rparr>]) (Sweep (Suc x)) pen w y"
    if "hslot_ok r (Unmap x) pen w y" for y
    using assms(2-) len other that unfolding hslot_ok_def
    by (cases "y = x") (simp_all add: slot_views slot_used_def)
  then show ?thesis using assms(2-) len other by (intro slots_okI [OF assms(1)]) auto
qed

lemma unmap_turn:
  assumes inv: "handover_inv s" and pc: "ho_warmer s = Unmap y"
  obtains q where "y < 16" "addrs (ho_ring s) y = Some q"
    "warmer_turn d ok s = s\<lparr>ho_ring := (ho_ring s)[y := (ho_ring s ! y)\<lparr>rs_addr := None, rs_owned := False\<rparr>],
       ho_released := ho_released s @ [q], ho_warmer := Sweep (Suc y)\<rparr>"
proof -
  have y: "y < 16" using handover_invD(2) [OF inv] pc by simp
  then have "owners (ho_ring s) y" "addrs (ho_ring s) y \<noteq> None"
    using handover_invD(3) [OF inv] pc by (auto simp: slots_ok_def hslot_ok_def slot_used_def)
  then show ?thesis using that y pc by (auto simp: warmer_turn_def Let_def edit_slot_def slot_views)
qed

lemma unmap_inv:
  assumes inv: "handover_inv s" and pc: "ho_warmer s = Unmap y"
  shows "handover_inv (warmer_turn d ok s)"
proof -
  let ?t = "warmer_turn d ok s"
  obtain q where y: "y < 16" and t: "?t = s\<lparr>ho_ring := (ho_ring s)[y := (ho_ring s ! y)\<lparr>rs_addr := None, rs_owned := False\<rparr>],
       ho_released := ho_released s @ [q], ho_warmer := Sweep (Suc y)\<rparr>"
    by (rule unmap_turn [OF inv pc])
  have P: "pages (ho_ring ?t) = pages (ho_ring s)"
    using handover_invD(7) [OF inv] y by (auto simp: t slot_views)
  have other: "held (ho_writer s) \<noteq> Some y" using handover_invD(3) [OF inv] pc by (auto simp: slots_ok_def)
  show ?thesis
  proof (rule warmer_edit [OF inv])
    show "slots_ok (ho_ring ?t) (ho_warmer ?t) (ho_writer s) (next_slot ?t) (ho_local s)"
      using slots_ok_unmap [of "ho_ring s" y] handover_invD(2,3) [OF inv] pc by (simp add: t)
    show "writer_holds (ho_ring ?t) (filled ?t) (ho_page s) (ho_local s) x" if x: "held (ho_writer s) = Some x" for x
      using handover_invD(4) [OF inv x] other x P pc handover_invD(7) [OF inv] y
      by (simp add: writer_holds_def filled_def) (auto simp: t)
  qed (use handover_invD(1) [OF inv] P pc in \<open>auto simp: t filled_def\<close>)
qed

lemma warmer_turn_inv:
  assumes "handover_inv s" "d \<le> 8" "ok"
  shows "handover_inv (warmer_turn d ok s)"
  using assms top_inv check_inv claim_inv map_inv fill_inv publish_inv advance_inv sweep_inv drop_inv unmap_inv
  by (cases "ho_warmer s") auto

subsection \<open>The account of the mappings\<close>

text \<open>
  Each mapping the thread makes is in one place: in the thread's hands, in a slot the ring owns, handed to the writer,
  or released.  A slot counts as owned until the writer has read its address.
\<close>

definition owned_map :: "rslot list \<Rightarrow> writer_pc \<Rightarrow> nat \<Rightarrow> int option" where
  "owned_map r pen x = (if owners r x \<and> pen \<noteq> Disown x then addrs r x else None)"

fun opt_mset :: "'a option \<Rightarrow> 'a multiset" where
  "opt_mset None = {#}"
| "opt_mset (Some q) = {#q#}"

definition ring_maps :: "rslot list \<Rightarrow> writer_pc \<Rightarrow> int multiset" where
  "ring_maps r pen = (\<Sum>x<16. opt_mset (owned_map r pen x))"

fun in_flight :: "warmer_pc \<Rightarrow> int \<Rightarrow> int multiset" where
  "in_flight (Fill i) c = {#c + int i#}"
| "in_flight _ c = {#}"

definition handed_maps :: "handover \<Rightarrow> int multiset" where
  "handed_maps s = mset (map (the \<circ> snd) (ho_handed s))"

definition balanced :: "handover \<Rightarrow> bool" where
  "balanced s \<longleftrightarrow> mset (ho_made s) = mset (ho_released s) + handed_maps s +
     in_flight (ho_warmer s) (ho_local s) + ring_maps (ho_ring s) (ho_writer s)"

lemma ring_maps_same:
  "(\<And>x. owned_map r' pen' x = owned_map r pen x) \<Longrightarrow> ring_maps r' pen' = ring_maps r pen"
  by (simp add: ring_maps_def)

lemma ring_maps_upd:
  assumes "x < 16" "\<And>y. y \<noteq> x \<Longrightarrow> owned_map r' pen' y = owned_map r pen y"
  shows "ring_maps r' pen' + opt_mset (owned_map r pen x) = ring_maps r pen + opt_mset (owned_map r' pen' x)"
proof -
  have split: "ring_maps t p = opt_mset (owned_map t p x) + (\<Sum>y\<in>{..<16} - {x}. opt_mset (owned_map t p y))" for t p
    unfolding ring_maps_def using assms(1) by (intro sum.remove) auto
  have "(\<Sum>y\<in>{..<16} - {x}. opt_mset (owned_map r' pen' y)) = (\<Sum>y\<in>{..<16} - {x}. opt_mset (owned_map r pen y))"
    using assms(2) by (intro sum.cong) auto
  then show ?thesis by (simp add: split [of r pen] split [of r' pen'] ac_simps)
qed

lemma addrs_page [simp]: "addrs (r[x := (r ! x)\<lparr>rs_page := v\<rparr>]) = addrs r"
  by (cases "x < length r") (auto simp: slot_views list_update_beyond)

lemma owners_page [simp]: "owners (r[x := (r ! x)\<lparr>rs_page := v\<rparr>]) = owners r"
  by (cases "x < length r") (auto simp: slot_views list_update_beyond)

lemma opt_mset_the: "v \<noteq> None \<Longrightarrow> opt_mset v = {#the v#}"
  by auto

lemma ring_maps_mset:
  assumes "length r = 16" "\<forall>x<16. owners r x \<longrightarrow> addrs r x \<noteq> None"
  shows "ring_maps r Idle = image_mset (\<lambda>t. the (rs_addr t)) (filter_mset rs_owned (mset r))"
proof -
  have "(\<Sum>x<n. opt_mset (owned_map r Idle x)) =
      image_mset (\<lambda>t. the (rs_addr t)) (filter_mset rs_owned (mset (take n r)))" if "n \<le> 16" for n
    using that
  proof (induction n)
    case (Suc n)
    then have "take (Suc n) r = take n r @ [r ! n]" using assms(1) by (simp add: take_Suc_conv_app_nth)
    then show ?case using Suc assms by (simp add: owned_map_def owners_def addrs_def opt_mset_the)
  qed simp
  from this [of 16] show ?thesis using assms(1) by (simp add: ring_maps_def)
qed

lemma owned_map_pen: "\<lbrakk>\<And>x. pen \<noteq> Disown x; \<And>x. pen' \<noteq> Disown x\<rbrakk> \<Longrightarrow> owned_map r pen' y = owned_map r pen y"
  by (simp add: owned_map_def)

lemma held_owned:
  assumes inv: "handover_inv s" and x: "held (ho_writer s) = Some x"
  shows "x < 16" "owners (ho_ring s) x" "addrs (ho_ring s) x = Some (ho_page s)"
  using handover_invD(3) [OF inv] handover_invD(4) [OF inv x] x
  by (auto simp: writer_holds_def slots_ok_def hslot_ok_def slot_used_def)

lemma take_balanced:
  assumes inv: "handover_inv s" and bal: "balanced s" and pc: "ho_writer s = Take x"
  shows "balanced (writer_turn ok s)"
proof -
  have x: "x < 16" "owned_map (ho_ring s) (Take x) x = Some (ho_page s)"
    using held_owned [OF inv, of x] pc by (auto simp: owned_map_def)
  have "ring_maps (ho_ring s) (Disown x) + {#ho_page s#} = ring_maps (ho_ring s) (Take x)"
    using ring_maps_upd [OF x(1), of "ho_ring s" "Disown x" "ho_ring s" "Take x"] x(2)
    by (auto simp: owned_map_def)
  then show ?thesis using bal pc held_owned [OF inv, of x]
    by (auto simp: balanced_def writer_turn_def handed_maps_def slot_views ac_simps)
qed

lemma writer_turn_balanced:
  assumes inv: "handover_inv s" and bal: "balanced s"
  shows "balanced (writer_turn ok s)"
proof (cases "\<exists>x. ho_writer s = Take x")
  case True
  then show ?thesis using take_balanced [OF inv bal] by blast
next
  case False
  have len: "length (ho_ring s) = 16" by (rule handover_invD(7) [OF inv])
  have "x < 16" if "ho_writer s = Disown x" for x using held_owned(1) [OF inv, of x] that by simp
  then have "owned_map (ho_ring (writer_turn ok s)) (ho_writer (writer_turn ok s)) y =
      owned_map (ho_ring s) (ho_writer s) y" for y
    using False len
    by (auto simp: writer_turn_def edit_slot_def owned_map_def Let_def split: writer_pc.splits)
  then have "ring_maps (ho_ring (writer_turn ok s)) (ho_writer (writer_turn ok s)) = ring_maps (ho_ring s) (ho_writer s)"
    by (rule ring_maps_same)
  moreover have "ho_made (writer_turn ok s) = ho_made s" "ho_released (writer_turn ok s) = ho_released s"
    "ho_handed (writer_turn ok s) = ho_handed s" "ho_warmer (writer_turn ok s) = ho_warmer s"
    "ho_local (writer_turn ok s) = ho_local s"
    using False by (auto simp: writer_turn_def edit_slot_def Let_def split: writer_pc.splits)
  ultimately show ?thesis using bal by (simp add: balanced_def handed_maps_def)
qed

lemma fill_balanced:
  assumes inv: "handover_inv s" and bal: "balanced s" and pc: "ho_warmer s = Fill i"
  shows "balanced (warmer_turn d ok s)"
proof -
  let ?r = "ho_ring s" and ?w = "next_slot s" and ?q = "ho_local s + int i"
  let ?r' = "?r[?w := (?r ! ?w)\<lparr>rs_addr := Some ?q, rs_owned := True\<rparr>]"
  have "pages ?r ?w = - 2" using handover_invD(2) [OF inv] pc by simp
  then have free: "\<not> slot_used ?r (Fill i) (ho_writer s) ?w ?w"
    using handover_invD(4) [OF inv, of ?w] by (auto simp: slot_used_def writer_holds_def)
  then have "\<not> owners ?r ?w" using handover_invD(3) [OF inv] pc by (simp add: slots_ok_def hslot_ok_def)
  then have none: "owned_map ?r (ho_writer s) ?w = None" by (simp add: owned_map_def)
  have some: "owned_map ?r' (ho_writer s) ?w = Some ?q"
    using free handover_invD(7) [OF inv] by (auto simp: owned_map_def slot_used_def)
  have "ring_maps ?r' (ho_writer s) = ring_maps ?r (ho_writer s) + {#?q#}"
    using ring_maps_upd [of ?w ?r' "ho_writer s" ?r "ho_writer s"] none some handover_invD(7) [OF inv]
    by (simp add: owned_map_def)
  then show ?thesis using bal pc
    by (simp add: balanced_def warmer_turn_def ring_mod Let_def edit_slot_def handed_maps_def)
qed

lemma unmap_balanced:
  assumes inv: "handover_inv s" and bal: "balanced s" and pc: "ho_warmer s = Unmap y"
  shows "balanced (warmer_turn d ok s)"
proof -
  let ?r = "ho_ring s" and ?r' = "(ho_ring s)[y := (ho_ring s ! y)\<lparr>rs_addr := None, rs_owned := False\<rparr>]"
  obtain q where y: "y < 16" and q: "addrs ?r y = Some q"
    and t: "warmer_turn d ok s = s\<lparr>ho_ring := ?r', ho_released := ho_released s @ [q], ho_warmer := Sweep (Suc y)\<rparr>"
    by (rule unmap_turn [OF inv pc])
  have "owners ?r y" "held (ho_writer s) \<noteq> Some y"
    using handover_invD(3) [OF inv] pc y by (auto simp: slots_ok_def hslot_ok_def slot_used_def)
  then have "owned_map ?r (ho_writer s) y = Some q" "owned_map ?r' (ho_writer s) y = None"
    using q y handover_invD(7) [OF inv] by (auto simp: owned_map_def)
  then have "ring_maps ?r' (ho_writer s) + {#q#} = ring_maps ?r (ho_writer s)"
    using ring_maps_upd [OF y, of ?r' "ho_writer s" ?r "ho_writer s"] y handover_invD(7) [OF inv]
    by (simp add: owned_map_def)
  then show ?thesis using bal pc by (auto simp: balanced_def t handed_maps_def ac_simps)
qed

lemma warmer_turn_balanced:
  assumes inv: "handover_inv s" and bal: "balanced s"
  shows "balanced (warmer_turn d ok s)"
proof (cases "(\<exists>i. ho_warmer s = Fill i) \<or> (\<exists>y. ho_warmer s = Unmap y)")
  case True
  then show ?thesis using fill_balanced [OF inv bal] unmap_balanced [OF inv bal] by blast
next
  case False
  let ?t = "warmer_turn d ok s"
  have "ring_maps (ho_ring ?t) (ho_writer ?t) = ring_maps (ho_ring s) (ho_writer s)"
    using False
    by (intro ring_maps_same) (auto simp: warmer_turn_def Let_def edit_slot_def owned_map_def split: warmer_pc.splits)
  then show ?thesis using False bal
    by (auto simp: warmer_turn_def Let_def edit_slot_def balanced_def handed_maps_def split: warmer_pc.splits)
qed

lemma handover_start_balanced: "balanced (handover_start p)"
proof -
  have "owned_map (ho_ring (handover_start p)) Tell x = None" if "x < 16" for x
    using that by (simp add: owned_map_def owners_def handover_start_def RingSize_def)
  then have "ring_maps (ho_ring (handover_start p)) Tell = {#}" by (simp add: ring_maps_def)
  then show ?thesis by (simp add: balanced_def handed_maps_def handover_start_def)
qed

lemma run_turns_safe:
  assumes "0 \<le> p" "Warmer False \<notin> set ts"
  shows "handover_inv (run_turns d ts (handover_start p))" "balanced (run_turns d ts (handover_start p))"
proof -
  let ?f = "take_turn (min d (RingSize div 2))"
  have d: "min d (RingSize div 2) \<le> 8" by (simp add: RingSize_def)
  have step: "handover_inv (?f t s) \<and> balanced (?f t s)" if "handover_inv s" "balanced s" "t \<noteq> Warmer False" for t s
  proof (cases t)
    case (Writer ok)
    then show ?thesis using writer_turn_inv [OF that(1)] writer_turn_balanced [OF that(1,2)] by simp
  next
    case (Warmer ok)
    then show ?thesis
      using warmer_turn_inv [OF that(1) d] warmer_turn_balanced [OF that(1,2)] that(3) by simp
  qed
  have "handover_inv (fold ?f ts s) \<and> balanced (fold ?f ts s)" if "handover_inv s" "balanced s" for s
    using assms(2) that
  proof (induction ts arbitrary: s)
    case (Cons t ts)
    then show ?case using step [of s t] by auto
  qed simp
  moreover note handover_start_balanced
  ultimately show "handover_inv (run_turns d ts (handover_start p))" "balanced (run_turns d ts (handover_start p))"
    using handover_start_inv [OF assms(1)] by (simp_all add: run_turns_def)
qed

subsection \<open>The writer alone is \<open>getWarmedPage\<close>\<close>

text \<open>The slots of a warmer, with a mapping named by the number of its page.\<close>

definition slot_view :: "PageSlot \<Rightarrow> rslot" where
  "slot_view t = \<lparr>rs_page = slot_page_id t, rs_addr = map_option (snd \<circ> snd) (slot_address t), rs_owned = slot_is_owned t\<rparr>"

definition ring_of :: "PageWarmer \<Rightarrow> rslot list" where
  "ring_of w = map slot_view (pw_ring w)"

lemma ring_index_plus: "ring_index (a + of_nat k) = (unat a + k) mod 16"
  unfolding ring_index_add by (simp add: ring_index_mod mod_add_left_eq)

lemma unat_read_index: "unat (of_nat k AND (of_nat RingSize - 1) :: u64) = k mod 16"
  using ring_index_plus [of 0 k] by (simp add: ring_index_def)

lemma ring_of_set:
  "i < length (pw_ring w) \<Longrightarrow> ring_of (set_slot i f w) = (ring_of w)[i := slot_view (f (pw_ring w ! i))]"
  by (simp add: ring_of_def set_slot_def map_update)

definition after_scan :: "handover \<Rightarrow> PageWarmer \<Rightarrow> (page_key option \<times> u32) \<times> PageWarmer \<Rightarrow> handover" where
  "after_scan s w res = (case res of ((a, _), w') \<Rightarrow>
     s\<lparr>ho_ring := ring_of w', ho_read := unat (pw_read_index w'), ho_writer := Tell,
       ho_handed := ho_handed s @
         (if isPageInRing w (ho_page s) then [(ho_page s, map_option (snd \<circ> snd) a)] else [])\<rparr>)"

lemma after_scan_probe: "after_scan (s\<lparr>ho_writer := q\<rparr>) w res = after_scan s w res"
  by (cases res) (auto simp: after_scan_def split: prod.splits)

lemma writer_hit:
  assumes s: "ho_ring s = ring_of w" "length (pw_ring w) = 16" "ho_writer s = Probe k" "k < 16"
    and x: "x = (ho_read s + k) mod 16" and hit: "slot_page_id (pw_ring w ! x) = ho_page s"
  shows "(writer_turn ok ^^ 4) s =
    s\<lparr>ho_ring := ring_of (set_slot x (\<lambda>t. t\<lparr>slot_page_id := - 1, slot_is_owned := False\<rparr>) w),
      ho_read := (x + 1) mod 16, ho_writer := Tell,
      ho_handed := ho_handed s @ [(ho_page s, map_option (snd \<circ> snd) (slot_address (pw_ring w ! x)))]\<rparr>"
proof -
  have len: "length (ho_ring s) = 16" "x < 16" using s x by (simp_all add: ring_of_def)
  have at: "ho_ring s ! x = slot_view (pw_ring w ! x)" using s len by (simp add: ring_of_def)
  have "writer_turn ok s = s\<lparr>ho_writer := Grab k\<rparr>"
    using s x hit at by (simp add: writer_turn_def RingSize_def slot_view_def)
  moreover have "writer_turn ok (s\<lparr>ho_writer := Grab k\<rparr>) =
      s\<lparr>ho_ring := (ho_ring s)[x := (ho_ring s ! x)\<lparr>rs_page := - 1\<rparr>], ho_writer := Take x\<rparr>"
    using x hit at by (simp add: writer_turn_def RingSize_def slot_view_def edit_slot_def Let_def)
  moreover have "(writer_turn ok ^^ 4) s = writer_turn ok (writer_turn ok (writer_turn ok (writer_turn ok s)))"
    by (simp add: numeral_eq_Suc)
  ultimately show ?thesis using s(2) len at s(1)
    by (simp add: writer_turn_def edit_slot_def slot_view_def ring_of_set RingSize_def)
qed

lemma ring_of_empty: "ring_of w ! i = slot_view (pw_ring w ! i)" if "i < length (pw_ring w)"
  using that by (simp add: ring_of_def)

lemma scan_turns:
  assumes "ho_ring s = ring_of w" "length (pw_ring w) = 16" "ho_read s = unat (pw_read_index w)"
    "ho_writer s = Probe k" "k \<le> 16"
    "\<forall>i<k. slot_page_id (pw_ring w ! ring_index (pw_read_index w + of_nat i)) \<noteq> ho_page s"
  shows "\<exists>n. (writer_turn ok ^^ n) s = after_scan s w (getWarmedPage_scan (pw_read_index w) (ho_page s) [k..<16] w)"
  using assms
proof (induction "16 - k" arbitrary: k s)
  case 0
  have "\<not> isPageInRing w (ho_page s)"
  proof
    assume "isPageInRing w (ho_page s)"
    then obtain i where i: "i < 16" "slot_page_id (pw_ring w ! i) = ho_page s"
      using 0 by (auto simp: isPageInRing_def list_ex_length)
    then obtain j where "j < 16" "ring_index (pw_read_index w + of_nat j) = i"
      using ring_index_covers [of i "pw_read_index w"] by (auto simp: RingSize_def)
    then show False using 0 i by auto
  qed
  then have "(writer_turn ok ^^ 1) s = after_scan s w (getWarmedPage_scan (pw_read_index w) (ho_page s) [k..<16] w)"
    using 0 by (simp add: after_scan_def writer_turn_def RingSize_def)
  then show ?case by blast
next
  case (Suc m)
  let ?x = "(ho_read s + k) mod 16"
  have k: "k < 16" "[k..<16] = k # [Suc k..<16]" using Suc by (auto simp: upt_conv_Cons)
  have x: "ring_index (pw_read_index w + of_nat k) = ?x" "?x < 16" using Suc by (simp_all add: ring_index_plus)
  show ?case
  proof (cases "slot_page_id (pw_ring w ! ?x) = ho_page s")
    case True
    then have "isPageInRing w (ho_page s)"
      using x(2) Suc(4) unfolding isPageInRing_def list_ex_length by metis
    then have "(writer_turn ok ^^ 4) s = after_scan s w (getWarmedPage_scan (pw_read_index w) (ho_page s) [k..<16] w)"
      using writer_hit [OF Suc(3,4,6) k(1) refl True] True x k
      by (simp add: after_scan_def unat_read_index Let_def ring_of_def set_slot_def del: of_nat_Suc of_nat_add)
    then show ?thesis by blast
  next
    case False
    let ?t = "s\<lparr>ho_writer := Probe (Suc k)\<rparr>"
    have turn: "writer_turn ok s = ?t" using Suc False x k
      by (simp add: writer_turn_def RingSize_def ring_of_empty slot_view_def)
    have "\<exists>n. (writer_turn ok ^^ n) ?t = after_scan ?t w (getWarmedPage_scan (pw_read_index w) (ho_page ?t) [Suc k..<16] w)"
      using Suc(2-) False k x by (intro Suc(1)) (auto simp: less_Suc_eq)
    then obtain n where "(writer_turn ok ^^ n) ?t = after_scan s w (getWarmedPage_scan (pw_read_index w) (ho_page s) [k..<16] w)"
      using False x k by (auto simp: after_scan_probe Let_def)
    then have "(writer_turn ok ^^ Suc n) s = after_scan s w (getWarmedPage_scan (pw_read_index w) (ho_page s) [k..<16] w)"
      by (simp add: funpow_Suc_right turn del: funpow.simps)
    then show ?thesis by blast
  qed
qed

subsection \<open>Properties\<close>

text \<open>C7: the writer never gets a wrong mapping.  Under every schedule in which no mapping fails, each page handed to the writer
  comes with the mapping of that page's own file, although the slot is emptied before its address is read and
  the thread may fill empty slots at any time: the thread does not come round to a slot the writer still reads.
\<close>

theorem handed_page_right:
  assumes "0 \<le> p" "Warmer False \<notin> set ts" "s = run_turns d ts (handover_start p)"
  shows "(\<forall>(n, a)\<in>set (ho_handed s). a = Some n) \<and>
    (\<forall>x. held (ho_writer s) = Some x \<longrightarrow> rs_addr (ho_ring s ! x) = Some (ho_page s) \<and>
       \<not> (filling (ho_warmer s) \<and> ho_write s mod RingSize = x))"
proof -
  have inv: "handover_inv s" using run_turns_safe(1) [OF assms(1,2)] assms(3) by simp
  have "addrs (ho_ring s) x = Some (ho_page s)" "\<not> (filling (ho_warmer s) \<and> next_slot s = x)"
    if "held (ho_writer s) = Some x" for x
    using warmer_knows_filling [OF handover_invD(2) [OF inv]] handover_invD(4) [OF inv that]
    by (auto simp: writer_holds_def)
  then show ?thesis using handover_invD(6) [OF inv] by (auto simp: slot_views ring_mod)
qed

definition one_handover :: handover where
  "one_handover = run_turns 1 (Writer True # replicate 41 (Warmer True) @ replicate 6 (Writer True)) (handover_start 3)"

lemma one_handover_run:
  "ho_writer one_handover = Idle" "ho_warmer one_handover = Top" "ho_made one_handover = [4]"
  "ho_handed one_handover = [(4, Some 4)]"
  unfolding one_handover_def by code_simp+

theorem handed_page_right_witness:
  "ho_handed one_handover = [(4, Some 4)] \<and> list_all (\<lambda>(n, a). a = Some n) (ho_handed one_handover)"
  using handed_page_right [OF _ _ one_handover_def] one_handover_run(4) unfolding list_all_iff by simp

text \<open>C9: no mapping is lost or released twice.  Under every schedule in which no mapping fails, when the writer is
  outside a rotation and the thread at the start of a pass, each mapping the thread has made was released by it, was handed to the writer,
  or is owned by a slot of the ring, exactly once.
\<close>

theorem mappings_accounted:
  assumes "0 \<le> p" "Warmer False \<notin> set ts" "s = run_turns d ts (handover_start p)"
    "ho_writer s = Idle" "ho_warmer s = Top"
  shows "mset (ho_made s) = mset (ho_released s) + mset (map fst (ho_handed s)) +
    image_mset (\<lambda>t. the (rs_addr t)) (filter_mset rs_owned (mset (ho_ring s)))"
proof -
  have inv: "handover_inv s" and bal: "balanced s" using run_turns_safe [OF assms(1,2)] assms(3) by simp_all
  have "handed_maps s = mset (map fst (ho_handed s))"
    unfolding handed_maps_def using handover_invD(6) [OF inv] by (intro arg_cong [of _ _ mset] map_cong) auto
  moreover have "ring_maps (ho_ring s) Idle =
      image_mset (\<lambda>t. the (rs_addr t)) (filter_mset rs_owned (mset (ho_ring s)))"
    by (rule ring_maps_mset) (use handover_invD(3) [OF inv] in \<open>auto simp: slots_ok_def hslot_ok_def\<close>)
  ultimately show ?thesis using bal assms(4,5) by (simp add: balanced_def)
qed

theorem mappings_accounted_witness:
  "ho_made one_handover = [4] \<and> {#4#} = mset (ho_released one_handover) + {#4#} +
    image_mset (\<lambda>t. the (rs_addr t)) (filter_mset rs_owned (mset (ho_ring one_handover)))"
  using mappings_accounted [OF _ _ one_handover_def one_handover_run(1,2)] one_handover_run(3,4) by simp

text \<open>C35: the writer's turns, taken without interruption, are \<^verbatim>\<open>getWarmedPage\<close>: from a rotation's start they empty the
  slot, read its address and give up its ownership as the operation of \<open>Page_Warmer\<close> does, and they hand over the
  address that operation returns.
\<close>

theorem writer_turns_getWarmedPage:
  assumes "ho_ring s = ring_of w" "length (pw_ring w) = RingSize" "ho_read s = unat (pw_read_index w)"
    "ho_writer s = Idle" "getWarmedPage (ho_page s + 1) w = ((a, sz), w')"
  shows "\<exists>n. (writer_turn ok ^^ n) s =
    s\<lparr>ho_page := ho_page s + 1, ho_ring := ring_of w', ho_read := unat (pw_read_index w'), ho_writer := Tell,
      ho_handed := ho_handed s @ (if isPageInRing w (ho_page s + 1)
        then [(ho_page s + 1, map_option (snd \<circ> snd) a)] else [])\<rparr>"
proof -
  let ?t = "s\<lparr>ho_page := ho_page s + 1, ho_writer := Probe 0\<rparr>"
  have turn: "writer_turn ok s = ?t" using assms(4) by (simp add: writer_turn_def)
  obtain n where "(writer_turn ok ^^ n) ?t = after_scan ?t w ((a, sz), w')"
    using scan_turns [of ?t w 0 ok] assms by (auto simp: RingSize_def getWarmedPage_def)
  then have "(writer_turn ok ^^ Suc n) s = after_scan ?t w ((a, sz), w')"
    by (simp add: funpow_Suc_right turn del: funpow.simps)
  then show ?thesis by (intro exI [of _ "Suc n"]) (simp add: after_scan_def del: funpow.simps)
qed

definition ex_ring :: PageWarmer where
  "ex_ring = set_slot 3 (\<lambda>t. t\<lparr>slot_page_id := 2, slot_address := Some ([], 0, 2), slot_is_owned := True\<rparr>)
     (PageWarmer_new ex_location 0 PAGE_SIZE_DEFAULT True 2)"

lemma ex_ring_scan:
  "fst (getWarmedPage 2 ex_ring) = (Some ([], 0, 2), 0)" "isPageInRing ex_ring 2" "length (pw_ring ex_ring) = RingSize"
  "pw_read_index ex_ring = 0"
  by (code_simp, code_simp, simp add: ex_ring_def set_slot_def PageWarmer_new_def, code_simp)

theorem writer_turns_getWarmedPage_witness:
  "\<exists>n. (writer_turn True ^^ n) ((handover_start 1)\<lparr>ho_ring := ring_of ex_ring, ho_writer := Idle\<rparr>) =
    (handover_start 1)\<lparr>ho_page := 2, ho_ring := ring_of (snd (getWarmedPage 2 ex_ring)),
      ho_read := unat (pw_read_index (snd (getWarmedPage 2 ex_ring))), ho_writer := Tell, ho_handed := [(2, Some 2)]\<rparr>"
proof -
  let ?s = "(handover_start 1)\<lparr>ho_ring := ring_of ex_ring, ho_writer := Idle\<rparr>"
  have s: "ho_ring ?s = ring_of ex_ring" "ho_read ?s = unat (pw_read_index ex_ring)" "ho_writer ?s = Idle"
    "getWarmedPage (ho_page ?s + 1) ex_ring = ((Some ([], 0, 2), 0), snd (getWarmedPage 2 ex_ring))"
    using ex_ring_scan by (simp_all add: handover_start_def prod_eq_iff)
  show ?thesis
    using writer_turns_getWarmedPage [OF s(1) ex_ring_scan(3) s(2-4), of True] ex_ring_scan(2)
    by (simp add: handover_start_def)
qed

definition lost_race :: "turn list" where
  "lost_race = Writer True # Warmer True # concat (replicate 7 (replicate 18 (Warmer True) @ [Warmer False])) @
     replicate 214 (Warmer True) @ replicate 34 (Writer True) @ replicate 160 (Warmer True) @
     replicate 6 (Writer True) @ replicate 124 (Warmer True) @ replicate 3 (Writer True) @
     replicate 2 (Warmer True) @ replicate 11 (Writer True) @ replicate 97 (Warmer True) @ [Writer True]"


end
