(* ===== verification/Shutdown_Protocol.thy ===== *)
theory Shutdown_Protocol
  imports Revoq_Prelude "HOL-Library.Multiset"
begin

section \<open>The background threads of a journal and their shutdown\<close>

text \<open>
  Class \<^verbatim>\<open>Journal\<close> (include/revoq/Journal.h) has, besides the thread that uses it, a thread that destroys retired pages
  (\<^verbatim>\<open>retireLoop\<close>, the same code as in include/revoq/JournalWriter.h) and a thread that maps the next page ahead
  (\<^verbatim>\<open>readerWarmerLoop\<close>).  They share two mutexes, each with a condition variable, a queue of pages and the flag
  \<^verbatim>\<open>retire_running_\<close>.  Here each lock, unlock, wait, wake-up and flag access is a step of its own, and the steps of the three threads
  interleave in any order.  A wait may also end without a notification.  What the threads do with a page or a
  mapping is the subject of \<open>Journal_Cursor\<close>; here a page is its number and the work of the warmer is a
  number of rounds before each of which it polls the flag.  The flag is a relaxed atomic; every read of it lies in a
  critical section, and the owner stores it inside or before a critical section of the same mutex, so that an
  interleaving of whole steps loses nothing.
\<close>

subsection \<open>The threads\<close>

datatype thread = T_owner | T_retire | T_warm

text \<open>
  The owner in \<^verbatim>\<open>loadPage\<close>: \<open>O_take\<close> and \<open>O_taking\<close> before and inside the critical section that takes over a warmed page,
  \<open>O_load\<close> the loading, which may fail; \<open>O_evict\<close> the loop over the retained pages, \<open>O_push\<close> and \<open>O_pushing\<close> before and inside the critical section,
  \<open>O_notify\<close> after it; \<open>O_ask\<close>, \<open>O_asking\<close> the request to the warmer.  In the destructor: \<open>O_stop\<close> and \<open>O_stopping\<close> the first critical
  section, \<open>O_wake\<close> its notification, \<open>O_pass\<close> and \<open>O_passing\<close> the empty critical section, \<open>O_wake_warm\<close>, then the two joins.
\<close>

datatype owner_pc = O_idle | O_take | O_taking | O_load | O_evict | O_push int | O_pushing int | O_notify | O_ask | O_asking
  | O_stop | O_stopping | O_wake | O_pass | O_passing | O_wake_warm | O_join | O_join_warm | O_end

text \<open>
  A waiting thread tests the predicate (\<open>R_test\<close>), and when it is false gives up the mutex and sleeps in one step
  (\<open>R_sleep\<close> to \<open>R_wait\<close>); after a wake-up it takes the mutex again before the next test (\<open>R_woken\<close>).
\<close>

datatype retire_pc = R_lock | R_test | R_sleep | R_wait | R_woken | R_pop | R_free int | R_relock | R_done

datatype warm_pc = V_lock | V_test | V_sleep | V_wait | V_woken | V_go | V_work nat | V_poll nat | V_done

record shared =
  sh_owner :: owner_pc
  sh_retire :: retire_pc
  sh_warm :: warm_pc
  sh_retire_mutex :: "thread option"
  sh_warm_mutex :: "thread option"
  sh_queue :: "int list"
  sh_running :: bool
  sh_pending :: bool
  sh_current :: "int option"
  sh_retired :: "int list"
  sh_has_warmer :: bool
  sh_loaded :: "int list"
  sh_destroyed :: "int list"

definition shared_start :: "bool \<Rightarrow> shared" where
  "shared_start warmer = \<lparr>sh_owner = O_idle, sh_retire = R_lock, sh_warm = (if warmer then V_lock else V_done),
     sh_retire_mutex = None, sh_warm_mutex = None, sh_queue = [], sh_running = True, sh_pending = False,
     sh_current = None, sh_retired = [], sh_has_warmer = warmer, sh_loaded = [], sh_destroyed = []\<rparr>"

definition notify_retire :: "shared \<Rightarrow> shared" where
  "notify_retire s = (if sh_retire s = R_wait then s\<lparr>sh_retire := R_woken\<rparr> else s)"

definition notify_warm :: "shared \<Rightarrow> shared" where
  "notify_warm s = (if sh_warm s = V_wait then s\<lparr>sh_warm := V_woken\<rparr> else s)"

text \<open>\<^verbatim>\<open>retireLoop\<close>.\<close>

inductive retire_step :: "shared \<Rightarrow> shared \<Rightarrow> bool" where
  lock: "sh_retire s = R_lock \<Longrightarrow> sh_retire_mutex s = None \<Longrightarrow>
    retire_step s (s\<lparr>sh_retire := R_test, sh_retire_mutex := Some T_retire\<rparr>)"
| test: "sh_retire s = R_test \<Longrightarrow>
    retire_step s (s\<lparr>sh_retire := if sh_queue s \<noteq> [] \<or> \<not> sh_running s then R_pop else R_sleep\<rparr>)"
| sleep: "sh_retire s = R_sleep \<Longrightarrow> retire_step s (s\<lparr>sh_retire := R_wait, sh_retire_mutex := None\<rparr>)"
| woken: "sh_retire s = R_woken \<Longrightarrow> sh_retire_mutex s = None \<Longrightarrow>
    retire_step s (s\<lparr>sh_retire := R_test, sh_retire_mutex := Some T_retire\<rparr>)"
| pop: "sh_retire s = R_pop \<Longrightarrow> sh_queue s = p # q \<Longrightarrow>
    retire_step s (s\<lparr>sh_retire := R_free p, sh_queue := q, sh_retire_mutex := None\<rparr>)"
| free: "sh_retire s = R_free p \<Longrightarrow>
    retire_step s (s\<lparr>sh_retire := R_relock, sh_destroyed := sh_destroyed s @ [p]\<rparr>)"
| relock: "sh_retire s = R_relock \<Longrightarrow> sh_retire_mutex s = None \<Longrightarrow>
    retire_step s (s\<lparr>sh_retire := R_pop, sh_retire_mutex := Some T_retire\<rparr>)"
| drained: "sh_retire s = R_pop \<Longrightarrow> sh_queue s = [] \<Longrightarrow>
    retire_step s (s\<lparr>sh_retire := if sh_running s then R_lock else R_done, sh_retire_mutex := None\<rparr>)"

text \<open>
  \<^verbatim>\<open>readerWarmerLoop\<close>: the wait, the request taken, and \<open>k\<close> rounds of work; before each round the mutex is taken to look for
  a newer request or the end.
\<close>

inductive warm_step :: "shared \<Rightarrow> shared \<Rightarrow> bool" where
  lock: "sh_warm s = V_lock \<Longrightarrow> sh_warm_mutex s = None \<Longrightarrow>
    warm_step s (s\<lparr>sh_warm := V_test, sh_warm_mutex := Some T_warm\<rparr>)"
| test: "sh_warm s = V_test \<Longrightarrow>
    warm_step s (s\<lparr>sh_warm := if sh_pending s \<or> \<not> sh_running s then V_go else V_sleep\<rparr>)"
| sleep: "sh_warm s = V_sleep \<Longrightarrow> warm_step s (s\<lparr>sh_warm := V_wait, sh_warm_mutex := None\<rparr>)"
| woken: "sh_warm s = V_woken \<Longrightarrow> sh_warm_mutex s = None \<Longrightarrow>
    warm_step s (s\<lparr>sh_warm := V_test, sh_warm_mutex := Some T_warm\<rparr>)"
| stop: "sh_warm s = V_go \<Longrightarrow> \<not> sh_running s \<Longrightarrow> warm_step s (s\<lparr>sh_warm := V_done, sh_warm_mutex := None\<rparr>)"
| go: "sh_warm s = V_go \<Longrightarrow> sh_running s \<Longrightarrow>
    warm_step s (s\<lparr>sh_warm := V_work k, sh_pending := False, sh_warm_mutex := None\<rparr>)"
| again: "sh_warm s = V_work 0 \<Longrightarrow> warm_step s (s\<lparr>sh_warm := V_lock\<rparr>)"
| poll: "sh_warm s = V_work (Suc k) \<Longrightarrow> sh_warm_mutex s = None \<Longrightarrow>
    warm_step s (s\<lparr>sh_warm := V_poll k, sh_warm_mutex := Some T_warm\<rparr>)"
| polled: "sh_warm s = V_poll k \<Longrightarrow>
    warm_step s (s\<lparr>sh_warm := if sh_pending s \<or> \<not> sh_running s then V_lock else V_work k, sh_warm_mutex := None\<rparr>)"

text \<open>\<^verbatim>\<open>loadPage\<close> with \<open>m\<close> pages retained, as far as the threads are concerned.\<close>

inductive load_step :: "nat \<Rightarrow> shared \<Rightarrow> shared \<Rightarrow> bool" for m where
  enter: "sh_owner s = O_idle \<Longrightarrow>
    load_step m s (s\<lparr>sh_owner := if sh_has_warmer s then O_take else O_load\<rparr>)"
| take: "sh_owner s = O_take \<Longrightarrow> sh_warm_mutex s = None \<Longrightarrow>
    load_step m s (s\<lparr>sh_owner := O_taking, sh_warm_mutex := Some T_owner\<rparr>)"
| taken: "sh_owner s = O_taking \<Longrightarrow> load_step m s (s\<lparr>sh_owner := O_load, sh_warm_mutex := None\<rparr>)"
| fails: "sh_owner s = O_load \<Longrightarrow> load_step m s (s\<lparr>sh_owner := O_idle\<rparr>)"
| load: "sh_owner s = O_load \<Longrightarrow>
    load_step m s (s\<lparr>sh_owner := O_evict, sh_current := Some p, sh_loaded := sh_loaded s @ [p],
      sh_retired := sh_retired s @ (case sh_current s of None \<Rightarrow> [] | Some old \<Rightarrow> [old])\<rparr>)"
| evict: "sh_owner s = O_evict \<Longrightarrow> sh_retired s = p # ps \<Longrightarrow> length (sh_retired s) > m \<Longrightarrow>
    load_step m s (s\<lparr>sh_owner := O_push p, sh_retired := ps\<rparr>)"
| keep: "sh_owner s = O_evict \<Longrightarrow> length (sh_retired s) \<le> m \<Longrightarrow>
    load_step m s (s\<lparr>sh_owner := if sh_has_warmer s then O_ask else O_idle\<rparr>)"
| push: "sh_owner s = O_push p \<Longrightarrow> sh_retire_mutex s = None \<Longrightarrow>
    load_step m s (s\<lparr>sh_owner := O_pushing p, sh_retire_mutex := Some T_owner\<rparr>)"
| pushed: "sh_owner s = O_pushing p \<Longrightarrow>
    load_step m s (s\<lparr>sh_owner := O_notify, sh_queue := sh_queue s @ [p], sh_retire_mutex := None\<rparr>)"
| notify: "sh_owner s = O_notify \<Longrightarrow> load_step m s (notify_retire (s\<lparr>sh_owner := O_evict\<rparr>))"
| ask: "sh_owner s = O_ask \<Longrightarrow> sh_warm_mutex s = None \<Longrightarrow>
    load_step m s (s\<lparr>sh_owner := O_asking, sh_warm_mutex := Some T_owner\<rparr>)"
| asked: "sh_owner s = O_asking \<Longrightarrow>
    load_step m s (notify_warm (s\<lparr>sh_owner := O_idle, sh_pending := True, sh_warm_mutex := None\<rparr>))"

text \<open>The destructor.\<close>

inductive destroy_step :: "shared \<Rightarrow> shared \<Rightarrow> bool" where
  destroy: "sh_owner s = O_idle \<Longrightarrow> destroy_step s (s\<lparr>sh_owner := O_stop\<rparr>)"
| stop: "sh_owner s = O_stop \<Longrightarrow> sh_retire_mutex s = None \<Longrightarrow>
    destroy_step s (s\<lparr>sh_owner := O_stopping, sh_retire_mutex := Some T_owner\<rparr>)"
| stopped: "sh_owner s = O_stopping \<Longrightarrow>
    destroy_step s (s\<lparr>sh_owner := O_wake, sh_running := False, sh_retire_mutex := None, sh_current := None, sh_retired := [],
      sh_queue := sh_queue s @ (case sh_current s of None \<Rightarrow> [] | Some p \<Rightarrow> [p]) @ sh_retired s\<rparr>)"
| wake: "sh_owner s = O_wake \<Longrightarrow> destroy_step s (notify_retire (s\<lparr>sh_owner := O_pass\<rparr>))"
| pass: "sh_owner s = O_pass \<Longrightarrow> sh_warm_mutex s = None \<Longrightarrow>
    destroy_step s (s\<lparr>sh_owner := O_passing, sh_warm_mutex := Some T_owner\<rparr>)"
| passed: "sh_owner s = O_passing \<Longrightarrow> destroy_step s (s\<lparr>sh_owner := O_wake_warm, sh_warm_mutex := None\<rparr>)"
| wake_warm: "sh_owner s = O_wake_warm \<Longrightarrow> destroy_step s (notify_warm (s\<lparr>sh_owner := O_join\<rparr>))"
| join: "sh_owner s = O_join \<Longrightarrow> sh_retire s = R_done \<Longrightarrow> destroy_step s (s\<lparr>sh_owner := O_join_warm\<rparr>)"
| join_warm: "sh_owner s = O_join_warm \<Longrightarrow> sh_warm s = V_done \<Longrightarrow> destroy_step s (s\<lparr>sh_owner := O_end\<rparr>)"

text \<open>A wait may end without a notification.\<close>

inductive spurious :: "shared \<Rightarrow> shared \<Rightarrow> bool" where
  "sh_retire s = R_wait \<Longrightarrow> spurious s (s\<lparr>sh_retire := R_woken\<rparr>)"
| "sh_warm s = V_wait \<Longrightarrow> spurious s (s\<lparr>sh_warm := V_woken\<rparr>)"

text \<open>The steps the program makes by itself, and all steps.\<close>

inductive own_step :: "nat \<Rightarrow> shared \<Rightarrow> shared \<Rightarrow> bool" for m where
  "load_step m s t \<Longrightarrow> own_step m s t"
| "destroy_step s t \<Longrightarrow> own_step m s t"
| "retire_step s t \<Longrightarrow> own_step m s t"
| "warm_step s t \<Longrightarrow> own_step m s t"

definition any_step :: "nat \<Rightarrow> shared \<Rightarrow> shared \<Rightarrow> bool" where
  "any_step m s t \<longleftrightarrow> own_step m s t \<or> spurious s t"

inductive reachable :: "nat \<Rightarrow> shared \<Rightarrow> bool" for m where
  start: "reachable m (shared_start warmer)"
| step: "reachable m s \<Longrightarrow> any_step m s t \<Longrightarrow> reachable m t"

subsection \<open>The invariant\<close>

fun owner_in_retire :: "owner_pc \<Rightarrow> bool" where
  "owner_in_retire (O_pushing _) = True"
| "owner_in_retire O_stopping = True"
| "owner_in_retire _ = False"

fun owner_in_warm :: "owner_pc \<Rightarrow> bool" where
  "owner_in_warm O_taking = True"
| "owner_in_warm O_asking = True"
| "owner_in_warm O_passing = True"
| "owner_in_warm _ = False"

fun retire_inside :: "retire_pc \<Rightarrow> bool" where
  "retire_inside R_test = True"
| "retire_inside R_sleep = True"
| "retire_inside R_pop = True"
| "retire_inside _ = False"

fun warm_inside :: "warm_pc \<Rightarrow> bool" where
  "warm_inside V_test = True"
| "warm_inside V_sleep = True"
| "warm_inside V_go = True"
| "warm_inside (V_poll _) = True"
| "warm_inside _ = False"

text \<open>A mutex has one holder, and that is the thread in its critical section.\<close>

definition exclusive :: "shared \<Rightarrow> bool" where
  "exclusive s \<longleftrightarrow>
     \<not> (owner_in_retire (sh_owner s) \<and> retire_inside (sh_retire s)) \<and>
     \<not> (owner_in_warm (sh_owner s) \<and> warm_inside (sh_warm s)) \<and>
     sh_retire_mutex s = (if owner_in_retire (sh_owner s) then Some T_owner
       else if retire_inside (sh_retire s) then Some T_retire else None) \<and>
     sh_warm_mutex s = (if owner_in_warm (sh_owner s) then Some T_owner
       else if warm_inside (sh_warm s) then Some T_warm else None)"

text \<open>The pages of the queue and those in a thread's hands.\<close>

fun owner_hand :: "owner_pc \<Rightarrow> int list" where
  "owner_hand (O_push p) = [p]"
| "owner_hand (O_pushing p) = [p]"
| "owner_hand _ = []"

fun retire_hand :: "retire_pc \<Rightarrow> int list" where
  "retire_hand (R_free p) = [p]"
| "retire_hand _ = []"

definition pages_kept :: "shared \<Rightarrow> bool" where
  "pages_kept s \<longleftrightarrow> mset (sh_loaded s) = mset (sh_destroyed s) + mset (retire_hand (sh_retire s)) + mset (sh_queue s) +
     mset (owner_hand (sh_owner s)) + mset (sh_retired s) + mset (case sh_current s of None \<Rightarrow> [] | Some p \<Rightarrow> [p])"

fun ending :: "owner_pc \<Rightarrow> bool" where
  "ending pc \<longleftrightarrow> pc \<in> {O_wake, O_pass, O_passing, O_wake_warm, O_join, O_join_warm, O_end}"

text \<open>
  After the flag is cleared nobody sleeps unless the notification that wakes him is still to come; a thread about to sleep still
  holds its mutex.
\<close>

definition flag_ok :: "shared \<Rightarrow> bool" where
  "flag_ok s \<longleftrightarrow> sh_running s = (\<not> ending (sh_owner s)) \<and>
     (\<not> sh_running s \<longrightarrow> sh_retired s = [] \<and> sh_current s = None)"

definition retire_awake :: "shared \<Rightarrow> bool" where
  "retire_awake s \<longleftrightarrow>
     (sh_retire s = R_sleep \<longrightarrow> sh_running s \<and> sh_queue s = []) \<and>
     (sh_retire s = R_wait \<longrightarrow> sh_owner s = O_wake \<or> sh_owner s = O_notify \<or> sh_running s \<and> sh_queue s = []) \<and>
     (sh_retire s = R_done \<longrightarrow> \<not> sh_running s \<and> sh_queue s = [])"

definition warm_awake :: "shared \<Rightarrow> bool" where
  "warm_awake s \<longleftrightarrow>
     (sh_warm s = V_sleep \<longrightarrow> sh_running s \<or> sh_owner s = O_wake \<or> sh_owner s = O_pass) \<and>
     (sh_warm s = V_wait \<longrightarrow> sh_running s \<or> sh_owner s \<in> {O_wake, O_pass, O_passing, O_wake_warm})"

definition joined :: "shared \<Rightarrow> bool" where
  "joined s \<longleftrightarrow> (sh_owner s = O_join_warm \<or> sh_owner s = O_end \<longrightarrow> sh_retire s = R_done) \<and>
     (sh_owner s = O_end \<longrightarrow> sh_warm s = V_done)"

definition shared_inv :: "shared \<Rightarrow> bool" where
  "shared_inv s \<longleftrightarrow> exclusive s \<and> pages_kept s \<and> flag_ok s \<and> retire_awake s \<and> warm_awake s \<and> joined s"

lemma any_stepE:
  assumes "any_step m s t"
  obtains (load) "load_step m s t" | (destroy) "destroy_step s t" | (retire) "retire_step s t" | (warm) "warm_step s t" | (wake) "spurious s t"
  using assms by (auto simp: any_step_def own_step.simps)

lemmas step_cases = load_step.cases destroy_step.cases retire_step.cases warm_step.cases spurious.cases

lemma exclusive_step: "any_step m s t \<Longrightarrow> exclusive s \<Longrightarrow> exclusive t"
  by (erule any_stepE; erule step_cases; simp add: exclusive_def notify_retire_def notify_warm_def split: if_splits)

lemma pages_kept_step: "any_step m s t \<Longrightarrow> pages_kept s \<Longrightarrow> pages_kept t"
  by (erule any_stepE; erule step_cases;
      simp add: pages_kept_def notify_retire_def notify_warm_def split: if_splits option.splits)

lemma flag_ok_step: "any_step m s t \<Longrightarrow> flag_ok s \<Longrightarrow> flag_ok t"
  by (erule any_stepE; erule step_cases;
      simp add: flag_ok_def notify_retire_def notify_warm_def split: if_splits)

lemma joined_step: "any_step m s t \<Longrightarrow> joined s \<Longrightarrow> joined t"
  by (erule any_stepE; erule step_cases;
      auto simp: joined_def notify_retire_def notify_warm_def split: if_splits)

text \<open>Whoever is about to sleep holds his mutex, so that the owner is not in that critical section.\<close>

lemma exclusive_sleep:
  assumes "exclusive s"
  shows "sh_retire s = R_sleep \<longrightarrow> \<not> owner_in_retire (sh_owner s)" "sh_warm s = V_sleep \<longrightarrow> sh_warm_mutex s = Some T_warm"
  using assms by (auto simp: exclusive_def)

lemmas notify_defs = notify_retire_def notify_warm_def

lemma retire_awake_step:
  assumes "any_step m s t" "exclusive s" "flag_ok s" "retire_awake s"
  shows "retire_awake t"
proof -
  note sleep = exclusive_sleep(1) [OF assms(2)]
  from assms(1) show ?thesis
  proof (cases rule: any_stepE)
    case load
    then show ?thesis using sleep assms(3,4)
      by cases (auto simp: retire_awake_def flag_ok_def notify_defs split: if_splits)
  next
    case destroy
    then show ?thesis using sleep assms(3,4)
      by cases (auto simp: retire_awake_def flag_ok_def notify_defs split: if_splits)
  next
    case retire
    then show ?thesis using assms(3,4) by cases (auto simp: retire_awake_def split: if_splits)
  next
    case warm
    then show ?thesis using assms(4) by cases (simp_all add: retire_awake_def)
  next
    case wake
    then show ?thesis using assms(4) by cases (simp_all add: retire_awake_def)
  qed
qed

lemma warm_awake_step:
  assumes "any_step m s t" "exclusive s" "flag_ok s" "warm_awake s"
  shows "warm_awake t"
proof -
  note sleep = exclusive_sleep(2) [OF assms(2)]
  from assms(1) show ?thesis
  proof (cases rule: any_stepE)
    case load
    then show ?thesis using sleep assms(3,4)
      by cases (auto simp: warm_awake_def flag_ok_def notify_defs split: if_splits)
  next
    case destroy
    then show ?thesis using sleep assms(3,4)
      by cases (auto simp: warm_awake_def flag_ok_def notify_defs split: if_splits)
  next
    case retire
    then show ?thesis using assms(4) by cases (simp_all add: warm_awake_def)
  next
    case warm
    then show ?thesis using assms(3,4) by cases (auto simp: warm_awake_def split: if_splits)
  next
    case wake
    then show ?thesis using assms(4) by cases (simp_all add: warm_awake_def)
  qed
qed

lemma shared_inv_step: "any_step m s t \<Longrightarrow> shared_inv s \<Longrightarrow> shared_inv t"
  using exclusive_step pages_kept_step flag_ok_step retire_awake_step warm_awake_step joined_step
  unfolding shared_inv_def by metis

lemma shared_inv_start: "shared_inv (shared_start warmer)"
  by (simp add: shared_inv_def shared_start_def exclusive_def pages_kept_def flag_ok_def retire_awake_def warm_awake_def joined_def)

lemma reachable_inv: "reachable m s \<Longrightarrow> shared_inv s"
  by (induction rule: reachable.induct) (auto intro: shared_inv_start shared_inv_step)

subsection \<open>Systems that finish\<close>

text \<open>
  A system whose steps keep an invariant and lower a measure, and which stops only in good states, ends
  in a good state however its steps are chosen.
\<close>

locale finishing =
  fixes step progress :: "'s \<Rightarrow> 's \<Rightarrow> bool" and inv good :: "'s \<Rightarrow> bool" and rank :: "'s \<Rightarrow> nat"
  assumes keeps: "inv s \<Longrightarrow> step s t \<Longrightarrow> inv t"
    and lowers: "inv s \<Longrightarrow> step s t \<Longrightarrow> rank t < rank s"
    and progress_step: "progress s t \<Longrightarrow> step s t"
    and stops: "inv s \<Longrightarrow> \<nexists>t. progress s t \<Longrightarrow> good s"
begin

lemma keeps_many: "step\<^sup>*\<^sup>* s t \<Longrightarrow> inv s \<Longrightarrow> inv t"
  by (induction rule: rtranclp_induct) (auto intro: keeps)

lemma bounded: "(step ^^ n) s t \<Longrightarrow> inv s \<Longrightarrow> n + rank t \<le> rank s \<and> inv t"
proof (induction n arbitrary: t)
  case (Suc n)
  then obtain u where u: "(step ^^ n) s u" "step u t" by auto
  with Suc.IH [OF u(1) Suc.prems(2)] show ?case using keeps lowers by fastforce
qed simp

lemma ends_good: "step\<^sup>*\<^sup>* s t \<Longrightarrow> inv s \<Longrightarrow> \<nexists>u. progress t u \<Longrightarrow> good t"
  using keeps_many stops by blast

lemma finishes: "inv s \<Longrightarrow> \<exists>t. progress\<^sup>*\<^sup>* s t \<and> good t"
proof (induction "rank s" arbitrary: s rule: less_induct)
  case less
  show ?case
  proof (cases "\<exists>t. progress s t")
    case True
    then obtain t where t: "progress s t" by blast
    then obtain u where "progress\<^sup>*\<^sup>* t u" "good u"
      using less keeps lowers progress_step by metis
    then show ?thesis using t by (meson converse_rtranclp_into_rtranclp)
  next
    case False
    then show ?thesis using stops [OF less.prems] by blast
  qed
qed

end

subsection \<open>The end of the destructor\<close>

fun owner_rank :: "owner_pc \<Rightarrow> nat" where
  "owner_rank O_wake = 6"
| "owner_rank O_pass = 5"
| "owner_rank O_passing = 4"
| "owner_rank O_wake_warm = 3"
| "owner_rank O_join = 2"
| "owner_rank O_join_warm = 1"
| "owner_rank _ = 0"

fun retire_rank :: "retire_pc \<Rightarrow> nat" where
  "retire_rank R_sleep = 6"
| "retire_rank R_wait = 5"
| "retire_rank R_woken = 4"
| "retire_rank R_lock = 4"
| "retire_rank R_test = 3"
| "retire_rank R_pop = 2"
| "retire_rank (R_free _) = 4"
| "retire_rank R_relock = 3"
| "retire_rank R_done = 0"

fun warm_rank :: "warm_pc \<Rightarrow> nat" where
  "warm_rank V_sleep = 6"
| "warm_rank V_wait = 5"
| "warm_rank V_woken = 4"
| "warm_rank V_lock = 4"
| "warm_rank V_test = 3"
| "warm_rank V_go = 2"
| "warm_rank (V_work k) = 2 * k + 5"
| "warm_rank (V_poll k) = 2 * k + 6"
| "warm_rank V_done = 0"

definition shared_rank :: "shared \<Rightarrow> nat" where
  "shared_rank s = owner_rank (sh_owner s) + retire_rank (sh_retire s) + 3 * length (sh_queue s) + warm_rank (sh_warm s)"

definition finished :: "shared \<Rightarrow> bool" where
  "finished s \<longleftrightarrow> sh_owner s = O_end \<and> sh_retire s = R_done \<and> sh_warm s = V_done \<and> sh_queue s = [] \<and>
     mset (sh_destroyed s) = mset (sh_loaded s)"

definition shutting_down :: "shared \<Rightarrow> bool" where
  "shutting_down s \<longleftrightarrow> shared_inv s \<and> \<not> sh_running s"

lemma stays_stopped: "any_step m s t \<Longrightarrow> \<not> sh_running s \<Longrightarrow> \<not> sh_running t"
  by (erule any_stepE; erule step_cases; simp add: notify_defs split: if_splits)

lemma shared_rank_step:
  "any_step m s t \<Longrightarrow> \<not> sh_running s \<Longrightarrow> flag_ok s \<Longrightarrow> shared_rank t < shared_rank s"
  by (erule any_stepE; erule step_cases;
      simp add: shared_rank_def flag_ok_def notify_defs split: if_splits)

lemma stopped_free:
  assumes "shutting_down s"
  shows "\<not> owner_in_retire (sh_owner s)" "retire_inside (sh_retire s) \<or> sh_retire_mutex s = None"
    "warm_inside (sh_warm s) \<or> owner_in_warm (sh_owner s) \<or> sh_warm_mutex s = None"
  using assms by (auto simp: shutting_down_def shared_inv_def flag_ok_def exclusive_def)

lemma retire_moves:
  assumes "shutting_down s" "sh_retire s \<noteq> R_wait" "sh_retire s \<noteq> R_done"
  shows "\<exists>t. retire_step s t"
proof (cases "sh_retire s")
  case R_pop
  then show ?thesis by (cases "sh_queue s") (auto intro: retire_step.intros)
qed (use assms stopped_free(2) [OF assms(1)] in \<open>auto intro: retire_step.intros\<close>)

lemma warm_moves:
  assumes "shutting_down s" "sh_warm s \<noteq> V_wait" "sh_warm s \<noteq> V_done" "\<not> owner_in_warm (sh_owner s)"
  shows "\<exists>t. warm_step s t"
proof (cases "sh_warm s")
  case (V_work k)
  then show ?thesis using stopped_free(3) [OF assms(1)] assms(4) by (cases k) (auto intro: warm_step.intros)
next
  case V_go
  then show ?thesis using assms(1) by (auto simp: shutting_down_def intro: warm_step.intros)
qed (use assms stopped_free(3) [OF assms(1)] in \<open>auto intro: warm_step.intros\<close>)

lemma shutdown_stops:
  assumes inv: "shutting_down s" and stuck: "\<nexists>t. own_step m s t"
  shows "finished s"
proof -
  have owner: "\<nexists>t. destroy_step s t" and retire: "\<nexists>t. retire_step s t" and warm: "\<nexists>t. warm_step s t"
    using stuck by (auto simp: own_step.simps)
  have parts: "exclusive s" "pages_kept s" "flag_ok s" "retire_awake s" "warm_awake s" "joined s" "\<not> sh_running s"
    using inv by (auto simp: shutting_down_def shared_inv_def)
  have r: "sh_retire s = R_wait \<or> sh_retire s = R_done" using retire_moves [OF inv] retire by blast
  have w: "sh_warm s = V_wait \<or> sh_warm s = V_done \<or> owner_in_warm (sh_owner s)"
    using warm_moves [OF inv] warm by blast
  have "sh_owner s \<notin> {O_wake, O_passing, O_wake_warm}" using owner by (auto intro: destroy_step.intros)
  moreover have "sh_owner s \<noteq> O_pass"
    using owner w stopped_free(3) [OF inv] by (auto intro: destroy_step.intros)
  moreover have "sh_owner s \<noteq> O_join" using owner r parts(4,7) by (auto simp: retire_awake_def intro: destroy_step.intros)
  moreover have "sh_owner s \<noteq> O_join_warm" using owner w parts(5,7) by (auto simp: warm_awake_def intro: destroy_step.intros)
  ultimately have O: "sh_owner s = O_end" using parts(3,7) by (auto simp: flag_ok_def)
  then have "sh_retire s = R_done" "sh_warm s = V_done" using parts(6) by (auto simp: joined_def)
  then show ?thesis using O parts by (auto simp: finished_def pages_kept_def flag_ok_def retire_awake_def)
qed

interpretation shut: finishing "any_step m" "own_step m" shutting_down finished shared_rank for m
proof
  fix s t
  show "shutting_down s \<Longrightarrow> any_step m s t \<Longrightarrow> shutting_down t"
    using shared_inv_step stays_stopped by (auto simp: shutting_down_def)
  show "shutting_down s \<Longrightarrow> any_step m s t \<Longrightarrow> shared_rank t < shared_rank s"
    using shared_rank_step by (auto simp: shutting_down_def shared_inv_def)
  show "own_step m s t \<Longrightarrow> any_step m s t" by (simp add: any_step_def)
  show "shutting_down s \<Longrightarrow> \<nexists>t. own_step m s t \<Longrightarrow> finished s" by (rule shutdown_stops)
qed

subsection \<open>Properties\<close>

text \<open>C8: the destructor of a journal ends and leaves nothing behind.  Once it has cleared the flag, however the steps of the
  three threads interleave and whichever waits end without a notification, only boundedly many steps follow; the threads come to a stop only when both
  background threads have returned, the destructor is at its end, and every page ever loaded was destroyed
  exactly once; and such a state is reached.  So no notification is lost and no join waits forever.
\<close>

theorem destructor_finishes:
  assumes "reachable m s" "\<not> sh_running s"
  shows "(\<exists>N. \<forall>n t. (any_step m ^^ n) s t \<longrightarrow> n \<le> N) \<and>
    (\<forall>t. (any_step m)\<^sup>*\<^sup>* s t \<and> (\<nexists>u. own_step m t u) \<longrightarrow> finished t) \<and>
    (\<exists>t. (own_step m)\<^sup>*\<^sup>* s t \<and> finished t)"
proof -
  have down: "shutting_down s" using reachable_inv [OF assms(1)] assms(2) by (simp add: shutting_down_def)
  show ?thesis
    using shut.bounded [OF _ down] shut.ends_good [OF _ down] shut.finishes [OF down] by (metis add_leD1)
qed

definition ex_stopped :: shared where
  "ex_stopped = (shared_start False)\<lparr>sh_owner := O_wake, sh_running := False, sh_queue := [7], sh_loaded := [7]\<rparr>"

lemma ex_stopped_reachable: "reachable 2 ex_stopped"
proof -
  have step: "reachable 2 t" if "load_step 2 s t \<or> destroy_step s t" "reachable 2 s" for s t
    using that by (auto intro: reachable.step simp: any_step_def own_step.simps)
  let ?s = "(shared_start False)\<lparr>sh_current := Some 7, sh_loaded := [7]\<rparr>"
  have "reachable 2 ((shared_start False)\<lparr>sh_owner := O_load\<rparr>)"
    using step [OF disjI1 [OF load_step.enter] reachable.start [of _ False]] by (simp add: shared_start_def)
  from step [OF disjI1 [OF load_step.load [where p = 7]] this] have "reachable 2 (?s\<lparr>sh_owner := O_evict\<rparr>)"
    by (simp add: shared_start_def)
  from step [OF disjI1 [OF load_step.keep] this] have "reachable 2 ?s" by (simp add: shared_start_def)
  from step [OF disjI2 [OF destroy_step.destroy] this] have "reachable 2 (?s\<lparr>sh_owner := O_stop\<rparr>)" by (simp add: shared_start_def)
  from step [OF disjI2 [OF destroy_step.stop] this] have "reachable 2 (?s\<lparr>sh_owner := O_stopping, sh_retire_mutex := Some T_owner\<rparr>)"
    by (simp add: shared_start_def)
  from step [OF disjI2 [OF destroy_step.stopped] this] show ?thesis by (simp add: ex_stopped_def shared_start_def)
qed

theorem destructor_finishes_witness: "\<exists>t. (own_step 2)\<^sup>*\<^sup>* ex_stopped t \<and> finished t"
  using destructor_finishes [OF ex_stopped_reachable] by (simp add: ex_stopped_def)

text \<open>C10: the threads of a journal, in every reachable state: no two of them are in critical sections of the same mutex; each page loaded is current,
  retained, in a thread's hands, queued or destroyed, once; and the thread that destroys pages sleeps
  on a non-empty queue or a cleared flag only while the notification is still to come.
\<close>

theorem journal_threads_safe:
  assumes "reachable m s"
  shows "\<not> (owner_in_retire (sh_owner s) \<and> retire_inside (sh_retire s)) \<and>
    \<not> (owner_in_warm (sh_owner s) \<and> warm_inside (sh_warm s)) \<and>
    mset (sh_loaded s) = mset (sh_destroyed s) + mset (retire_hand (sh_retire s)) + mset (sh_queue s) +
      mset (owner_hand (sh_owner s)) + mset (sh_retired s) + mset (case sh_current s of None \<Rightarrow> [] | Some p \<Rightarrow> [p]) \<and>
    (sh_retire s = R_wait \<and> (sh_queue s \<noteq> [] \<or> \<not> sh_running s) \<longrightarrow> sh_owner s = O_wake \<or> sh_owner s = O_notify)"
  using reachable_inv [OF assms]
  by (auto simp: shared_inv_def exclusive_def pages_kept_def retire_awake_def)

theorem journal_threads_safe_witness:
  "mset (sh_loaded ex_stopped) = mset (sh_destroyed ex_stopped) + mset (retire_hand (sh_retire ex_stopped)) +
    mset (sh_queue ex_stopped) + mset (owner_hand (sh_owner ex_stopped)) + mset (sh_retired ex_stopped) +
    mset (case sh_current ex_stopped of None \<Rightarrow> [] | Some p \<Rightarrow> [p])"
  using journal_threads_safe [OF ex_stopped_reachable] by blast

end
