(* ===== verification/Lifetimes.thy ===== *)
theory Lifetimes
  imports Many_Journals
begin

section \<open>Steps and lifetimes\<close>

text \<open>
  What the destructors of readers and writers give back, and what single steps of a reader promise:
  seeking to a time, joining a journal, delivering the next frame.
\<close>

subsection \<open>Releasing pages\<close>

definition unmapped :: "page_key multiset \<Rightarrow> page_key kernel \<Rightarrow> page_key kernel \<Rightarrow> bool" where
  "unmapped D K K' \<longleftrightarrow> only_maps K K' \<and> mset (k_maps K') = mset (k_maps K) - D"

lemma unmapped_refl [simp]: "unmapped {#} K K"
  by (simp add: unmapped_def)

lemma unmapped_trans: "unmapped D K K' \<Longrightarrow> unmapped D' K' K'' \<Longrightarrow> unmapped (D + D') K K''"
  unfolding unmapped_def using only_maps_trans by fastforce

lemma unmapped_remove1: "unmapped {#key#} K (K\<lparr>k_maps := remove1 key (k_maps K)\<rparr>)"
  by (auto simp: unmapped_def only_maps_def)

lemma Page_destroy_unmaps:
  assumes "os_works os"
  obtains K' where "Page_destroy os p K = (Inr (), K')" and "unmapped {#pg_key p#} K K'"
  using assms unmapped_remove1 by (intro that [of "K\<lparr>k_maps := remove1 (pg_key p) (k_maps K)\<rparr>"]) (simp_all add: Page_destroy_eq)

lemma destroy_pages_unmaps:
  assumes os: "os_works os"
  shows "\<exists>K'. destroy_pages os ps K = (Inr (), K') \<and> unmapped (mset (map pg_key ps)) K K'"
proof (induction ps arbitrary: K)
  case (Cons p ps)
  obtain K1 where K1: "Page_destroy os p K = (Inr (), K1)" "unmapped {#pg_key p#} K K1"
    by (rule Page_destroy_unmaps [OF os])
  with Cons.IH [of K1] unmapped_trans [OF K1(2)] show ?case by (auto simp: prog_simps)
qed (simp add: prog_simps)

lemma journal_destroy_pages_eq: "journal_destroy_pages os ps = destroy_pages os ps"
  by (induction ps) simp_all

lemma Journal_destroy_unmaps:
  assumes os: "os_works os"
  obtains j' K' where "Journal_destroy os (j, K) = (Inr (), (j', K'))" and "unmapped (reader_maps j) K K'"
proof -
  let ?ps = "j_retire_queue j @ (case j_page j of None \<Rightarrow> [] | Some p \<Rightarrow> [p]) @ j_retired j"
  let ?j = "j\<lparr>j_page := None, j_retired := [], j_retire_queue := [], j_retire_running := False\<rparr>"
  obtain K1 where K1: "destroy_pages os ?ps K = (Inr (), K1)" "unmapped (mset (map pg_key ?ps)) K K1"
    using destroy_pages_unmaps [OF os] by blast
  have ps: "mset (map pg_key ?ps) = (case j_page j of None \<Rightarrow> {#} | Some p \<Rightarrow> {# pg_key p #}) + mset (map pg_key (j_retired j @ j_retire_queue j))"
    by (simp add: ac_simps split: option.split)
  note K1' = K1(2) [unfolded ps]
  show thesis
  proof (cases "j_warmer_addr j")
    case None
    with K1(1) K1' show thesis
      by (intro that [of ?j K1]) (simp_all add: Journal_destroy_def journal_destroy_pages_eq prog_simps releaseWarmedPage_def reader_maps_def)
  next
    case (Some addr)
    let ?K = "K1\<lparr>k_maps := remove1 addr (k_maps K1)\<rparr>"
    note K2 = unmapped_trans [OF K1' unmapped_remove1 [of addr]]
    with K1(1) Some show thesis
      by (intro that [of "?j\<lparr>j_warmer_addr := None, j_warmer_ready_id := - 1\<rparr>" ?K])
        (simp_all add: Journal_destroy_def journal_destroy_pages_eq prog_simps releaseWarmedPage_def release_warmed_eq [OF os] reader_maps_def)
  qed
qed

lemma destroy_journals_unmaps: "os_works os \<Longrightarrow> unmapped (all_maps js) K (destroy_journals os js K)"
proof (induction js arbitrary: K)
  case (Cons j js)
  obtain j' K1 where K1: "Journal_destroy os (j, K) = (Inr (), (j', K1))" "unmapped (reader_maps j) K K1"
    by (rule Journal_destroy_unmaps [OF Cons.prems])
  with unmapped_trans [OF K1(2) Cons.IH [OF Cons.prems]] show ?case by (simp add: all_maps_def)
qed (simp add: all_maps_def)

lemma release_slots_files: "release_slots os is (w, K) = (r, (w', K')) \<Longrightarrow> k_files K' = k_files K"
proof (induction "is" arbitrary: w K)
  case (Cons i "is")
  obtain q w1 K1 where q: "release_slot os i (w, K) = (q, (w1, K1))" by (metis prod.exhaust)
  then have "k_files K1 = k_files K"
    by (auto simp: release_slot_def prog_simps Let_def split: option.splits if_splits prod.splits sum.splits dest: releaseMmapBuffer_maps)
  with Cons q show ?case by (cases q) (auto simp: prog_simps)
qed (simp add: prog_simps)

lemma warmer_unmaps:
  assumes ok: "warmer_ok w K" and os: "os_works os" and sub: "writer_maps w \<subseteq># mset (k_maps K)"
  obtains K' where "destroy_warmer os (w, K) = (Inr (), (w\<lparr>jw_warmer := None\<rparr>, K'))"
    and "mset (k_maps K') = mset (k_maps K) - (case jw_warmer w of None \<Rightarrow> {#} | Some wm \<Rightarrow> owned_mset wm)"
    and "k_fds K' = k_fds K" and "k_files K' = k_files K"
proof (cases "jw_warmer w")
  case None
  then have "w\<lparr>jw_warmer := None\<rparr> = w" by (cases w) simp
  with None show thesis by (intro that [of K]) (simp_all add: destroy_warmer_def)
next
  case (Some wm)
  have "owned_mset wm \<subseteq># mset (k_maps K)"
    using sub Some by (auto simp: writer_maps_def intro: subset_mset.trans [OF mset_subset_eq_add_right])
  then have inv: "warmer_inv (PageWarmer_stop wm) K" and own: "owned_mset (PageWarmer_stop wm) = owned_mset wm"
    using ok Some by (simp_all add: warmer_ok_def warmer_inv_def PageWarmer_stop_def)
  obtain wm' K' where "releaseAllPages os (PageWarmer_stop wm, K) = (Inr (), (wm', K'))"
    "mset (k_maps K') = mset (k_maps K) - owned_mset wm" "k_fds K' = k_fds K"
    using releaseAllPages_maps [OF inv os] own by auto
  moreover from this have "k_files K' = k_files K" unfolding releaseAllPages_def by (blast intro: release_slots_files)
  ultimately show thesis using Some by (intro that [of K']) (simp_all add: destroy_warmer_def PageWarmer_destroy_def prog_simps)
qed

lemma JournalWriter_destroy_unmaps:
  assumes inv: "writer_inv w K first front cur" and os: "os_works os"
  obtains w' K' where "JournalWriter_destroy os (w, K) = (Inr (), (w', K'))"
    and "mset (k_maps K') = mset (k_maps K) -
      (if jw_background w then writer_maps w else writer_maps (w\<lparr>jw_retire_queue := []\<rparr>))"
    and "k_fds K' = k_fds K" and "k_files K' = k_files K"
proof -
  let ?w = "w\<lparr>jw_warmer := None\<rparr>"
  obtain p where p: "jw_page w = Some p" using inv by (auto simp: writer_inv_def)
  obtain K1 where K1: "destroy_warmer os (w, K) = (Inr (), (?w, K1))" "k_fds K1 = k_fds K" "k_files K1 = k_files K"
    "mset (k_maps K1) = mset (k_maps K) - (case jw_warmer w of None \<Rightarrow> {#} | Some wm \<Rightarrow> owned_mset wm)"
    by (rule warmer_unmaps [OF writer_invD(8) [OF inv] os writer_invD(7) [OF inv]])
  obtain K2 where K2: "Page_destroy os p K1 = (Inr (), K2)" "unmapped {#pg_key p#} K1 K2" by (rule Page_destroy_unmaps [OF os])
  let ?ps = "if jw_background w then jw_retire_queue w @ jw_retired w else jw_retired w"
  obtain K3 where K3: "destroy_pages os ?ps K2 = (Inr (), K3)" "unmapped (mset (map pg_key ?ps)) K2 K3"
    using destroy_pages_unmaps [OF os] by blast
  have um: "unmapped ({#pg_key p#} + mset (map pg_key ?ps)) K1 K3" by (rule unmapped_trans [OF K2(2) K3(2)])
  have "\<exists>w'. JournalWriter_destroy os (w, K) = (Inr (), (w', K3))"
    using K1(1) K2(1) K3(1) p by (auto simp: JournalWriter_destroy_def retireLoop_drain_def prog_simps)
  then obtain w' where "JournalWriter_destroy os (w, K) = (Inr (), (w', K3))" ..
  moreover have "k_fds K3 = k_fds K" using um K1(2) only_mapsD(2) [of K1 K3] by (simp add: unmapped_def)
  moreover have "mset (k_maps K3) = mset (k_maps K) -
      (if jw_background w then writer_maps w else writer_maps (w\<lparr>jw_retire_queue := []\<rparr>))"
    using um K1(4) p by (simp add: unmapped_def writer_maps_def ac_simps)
  moreover have "k_files K3 = k_files K" using um K1(3) by (auto simp: unmapped_def only_maps_def)
  ultimately show thesis using that by blast
qed

lemma JournalReader_destroy_unmaps:
  assumes "reader_inv r K M Vs ns"
  obtains r' K' where "JournalReader_destroy os_ok (r, K) = (Inr (), (r', K'))" and "rd_journals r' = []"
    and "mset (k_maps K') = M" and "k_files K' = k_files K" and "k_fds K' = k_fds K"
proof -
  have "unmapped (all_maps (rd_journals r)) K (destroy_journals os_ok (rd_journals r) K)"
    by (rule destroy_journals_unmaps) simp
  with assms that show thesis by (simp add: JournalReader_destroy_def unmapped_def reader_inv_def only_mapsD)
qed

subsection \<open>Properties\<close>

text \<open>A reader gives everything back.  Destroying a reader, however it stands, releases exactly the
  mappings of its journals -- current, retired, queued and warmed pages -- and touches no file and no
  descriptor.\<close>

theorem reader_destroy_releases:
  assumes "reader_inv r K M Vs ns"
  shows "\<exists>r' K'. JournalReader_destroy os_ok (r, K) = (Inr (), (r', K')) \<and> rd_journals r' = [] \<and>
    mset (k_maps K') = M \<and> k_files K' = k_files K \<and> k_fds K' = k_fds K"
  by (rule JournalReader_destroy_unmaps [OF assms]) blast

theorem reader_destroy_releases_witness:
  "\<exists>w r K r' K'. write_session os_ok ex_location 0 ex_writer_options True ex_ops ex_disk = (Inr w, K) \<and>
    JournalReader_destroy os_ok (r, K) = (Inr (), (r', K')) \<and> k_files K' = k_files K"
proof -
  obtain w K where "write_session os_ok ex_location 0 ex_writer_options True ex_ops ex_disk = (Inr w, K)"
    using write_session_refines [OF ex_fresh ex_ops_ok(2,1)] by metis
  then show ?thesis using reader_destroy_releases [OF reader_inv_new [of ex_reader_options K]] by blast
qed

text \<open>C21: a writer gives everything back.  Destroying a well-formed writer releases every mapping it holds:
  the current page, the retired pages and the pages its warmer still owns (and those queued for the retire
  thread, which is the only one that uses the queue).\<close>

theorem writer_destroy_releases:
  assumes "writer_inv w K first front cur" and "jw_background w \<or> jw_retire_queue w = []"
  shows "\<exists>w' K'. JournalWriter_destroy os_ok (w, K) = (Inr (), (w', K')) \<and>
    mset (k_maps K') = other_maps w K \<and> k_fds K' = k_fds K"
proof -
  have m: "(if jw_background w then writer_maps w else writer_maps (w\<lparr>jw_retire_queue := []\<rparr>)) = writer_maps w"
    using assms(2) by (auto simp: writer_maps_def)
  obtain w' K' where "JournalWriter_destroy os_ok (w, K) = (Inr (), (w', K'))"
    "mset (k_maps K') = mset (k_maps K) - writer_maps w" "k_fds K' = k_fds K"
    by (rule JournalWriter_destroy_unmaps [OF assms(1) os_works_ok, unfolded m])
  then show ?thesis by (simp add: other_maps_def)
qed

theorem writer_destroy_releases_witness:
  "\<exists>w K w' K'. JournalWriter_new os_ok ex_location 0 ex_writer_options True ex_disk = (Inr w, K) \<and>
    JournalWriter_destroy os_ok (w, K) = (Inr (), (w', K')) \<and> k_maps K' = [] \<and> k_fds K' = 3"
proof -
  obtain w K where n: "JournalWriter_new os_ok ex_location 0 ex_writer_options True ex_disk = (Inr w, K)"
    "writer_inv w K 1 [] []" "other_maps w K = mset (k_maps ex_disk)" "k_fds K = k_fds ex_disk"
    "jw_background w = wo_background_threads ex_writer_options"
    by (rule JournalWriter_new_fresh [OF ex_fresh os_works_ok ex_ops_ok(2)])
  then have "jw_background w \<or> jw_retire_queue w = []" by (simp add: ex_writer_options_def)
  from writer_destroy_releases [OF n(2) this] n show ?thesis by (simp add: ex_disk_def)
qed



lemma Journal_new_base:
  assumes "view_whole V K" and "\<not> jo_is_writing opts"
  shows "reader_base (Journal_new (v_location V) (v_dest_id V) opts) K (v_first V) (v_front V) (v_cur V)"
  using assms whole_journalD(1)
  by (simp add: view_whole_def reader_base_def Journal_new_def reader_maps_def warm_slot_ok_def)



text \<open>Joining is idempotent and exact.  Joining a journal that is joined already changes nothing.  A join
  that succeeds marks exactly its location and destination as joined -- the 64-bit key never confuses two
  pairs -- and adds one journal.\<close>

theorem join_reader_joins_once:
  "(isJoined (loc_uid loc) dest r \<longrightarrow> join_reader os fuel loc dest ts (r, K) = (Inr (), (r, K))) \<and>
   (\<not> isJoined (loc_uid loc) dest r \<longrightarrow> join_reader os fuel loc dest ts (r, K) = (Inr (), (r', K')) \<longrightarrow>
     getJournalCount r' = getJournalCount r + 1 \<and>
     (\<forall>u d. isJoined u d r' \<longleftrightarrow> isJoined u d r \<or> u = loc_uid loc \<and> d = dest))"
proof (intro conjI impI)
  assume "isJoined (loc_uid loc) dest r"
  then show "join_reader os fuel loc dest ts (r, K) = (Inr (), (r, K))" by (simp add: join_reader_def isJoined_def)
next
  assume new: "\<not> isJoined (loc_uid loc) dest r" and run: "join_reader os fuel loc dest ts (r, K) = (Inr (), (r', K'))"
  then obtain j where "r' = (refreshSingleJournal (r\<lparr>rd_journals := rd_journals r @ [j],
      rd_joined_keys := insert (makeKey (loc_uid loc) dest) (rd_joined_keys r)\<rparr>))\<lparr>rd_needs_rebuild := True\<rparr>"
    by (auto simp: join_reader_def isJoined_def Let_def split: prod.splits sum.splits)
  then show "getJournalCount r' = getJournalCount r + 1"
    and "\<forall>u d. isJoined u d r' \<longleftrightarrow> isJoined u d r \<or> u = loc_uid loc \<and> d = dest"
    by (auto simp: getJournalCount_def isJoined_def refreshSingleJournal_def makeKey_eq_iff)
qed

theorem join_reader_joins_once_witness:
  "\<exists>r' K'. join_reader os_ok 9 ex_location 0 0 (JournalReader_new ex_reader_options, K') = (Inr (), r') \<and>
    getJournalCount (fst r') = 1 \<and> isJoined (loc_uid ex_location) 0 (fst r') \<and> \<not> isJoined (loc_uid ex_location) 1 (fst r')"
proof -
  obtain w K1 r K2 where j: "join_reader os_ok 9 ex_location 0 0 (JournalReader_new ex_reader_options, K1) = (Inr (), (r, K2))"
    by (rule session_joined [OF ex_session_ok])
  have n: "\<not> isJoined u d (JournalReader_new ex_reader_options)" "getJournalCount (JournalReader_new ex_reader_options) = 0" for u d
    by (simp_all add: isJoined_def getJournalCount_def JournalReader_new_def)
  from join_reader_joins_once [of ex_location 0 "JournalReader_new ex_reader_options" os_ok 9 0 K1 r K2] j n
  show ?thesis by (intro exI [of _ "(r, K2)"] exI [of _ K1]) simp
qed

lemma make_heap_ties:
  "make_heap JournalComparator [(t, a), (t, b), (t, c), (t, d)] = [(t, c), (t, d), (t, a), (t, b)]"
  by (simp add: make_heap_def adjust_heap_def sink.simps push_up.simps JournalComparator_def Let_def)


end
