(* ===== verification/Writer_Errors.thy ===== *)
theory Writer_Errors
  imports Lifetimes
begin

section \<open>When writing fails\<close>

text \<open>
  The error paths of the writer, for any behaviour of the operating system: what the write lock is
  after each operation, what a rotation that fails leaves behind, and which page a writer that is
  opened again goes on with.
\<close>

subsection \<open>Fields no step touches\<close>

text \<open>\<open>keeps f p\<close>: on every path of \<open>p\<close>, errors included, \<open>f\<close> of the object stays the same.\<close>

definition keeps :: "('a \<Rightarrow> 'f) \<Rightarrow> ('a \<times> 'b, 'x) prog \<Rightarrow> bool" where
  "keeps f p \<longleftrightarrow> (\<forall>s. f (fst (snd (p s))) = f (fst s))"

named_theorems keeps_intros

lemma keepsD: "keeps f p \<Longrightarrow> p s = (r, s') \<Longrightarrow> f (fst s') = f (fst s)"
  unfolding keeps_def by (metis snd_conv)

lemma keeps_basic [keeps_intros]:
  "keeps f (return_p x)" "keeps f (throw_p e)" "keeps f (on_snd q)" "keeps f get_fst" "keeps f (assert_p b e)"
  by (simp_all add: keeps_def prog_simps on_snd_def get_fst_def split: prod.split)

lemma keeps_modify [keeps_intros]: "(\<And>a. f (g a) = f a) \<Longrightarrow> keeps f (modify_fst g)"
  by (simp add: keeps_def modify_fst_def split: prod.split)

lemma keeps_bind [keeps_intros]: "keeps f p \<Longrightarrow> (\<And>x. keeps f (q x)) \<Longrightarrow> keeps f (bind_p p q)"
  unfolding keeps_def bind_p_def by (auto split: prod.split sum.split) (metis fst_conv snd_conv)+

lemma keeps_if [keeps_intros]: "keeps f p \<Longrightarrow> keeps f q \<Longrightarrow> keeps f (if b then p else q)"
  by simp

lemma keeps_option [keeps_intros]: "keeps f p \<Longrightarrow> (\<And>x. keeps f (q x)) \<Longrightarrow> keeps f (case y of None \<Rightarrow> p | Some x \<Rightarrow> q x)"
  by (cases y) simp_all

lemma keeps_prod [keeps_intros]: "(\<And>x y. keeps f (p x y)) \<Longrightarrow> keeps f (case z of (x, y) \<Rightarrow> p x y)"
  by (cases z) simp

lemma keeps_prod_prod [keeps_intros]:
  "(\<And>a b c. keeps f (p a b c)) \<Longrightarrow> keeps f (case z of (x, y) \<Rightarrow> (case x of (a, b) \<Rightarrow> p a b) y)"
  by (simp split: prod.split)

text \<open>The lock and its policy.\<close>

definition lock_of :: "JournalWriter \<Rightarrow> bool \<times> bool" where
  "lock_of w = (jw_serialize w, jw_writing w)"

lemma keeps_nextSeq [keeps_intros]: "keeps lock_of nextSeq"
  by (simp add: keeps_def nextSeq_def lock_of_def split: prod.split)

lemma keeps_rotatePage [keeps_intros]: "keeps lock_of (rotatePage os now)"
  unfolding rotatePage_def next_page_def write_page_end_def retire_current_def Let_def
  by (intro keeps_intros) (simp_all add: lock_of_def)

lemma keeps_ensure_page [keeps_intros]: "keeps lock_of (ensure_page os now)"
  unfolding ensure_page_def by (intro keeps_intros)

lemma keeps_openFrame [keeps_intros]: "keeps lock_of (openFrame os now t ty n fl)"
  unfolding openFrame_def make_room_def place_header_def current_page_def Let_def by (intro keeps_intros)

lemma keeps_write_frame: "keeps lock_of (write_frame os now t ty data)"
  unfolding write_frame_def copy_and_close_def closeFrame_def current_page_def
  by (intro keeps_intros) (simp_all add: lock_of_def)

subsection \<open>Properties of the lock\<close>

text \<open>C17: \<^verbatim>\<open>writeBytes\<close> never keeps the lock.  Whatever the operating system does and however the call ends,
  a writer whose lock was free has it free again, and one
  whose lock is held by someone else waits without changing anything.\<close>

theorem writeBytes_lock_discipline:
  assumes "jw_serialize w"
  shows "if jw_writing w then writeBytes os now t ty data (w, K) = (Inl Blocked, (w, K))
    else \<not> jw_writing (fst (snd (writeBytes os now t ty data (w, K)))) \<and>
      fst (writeBytes os now t ty data (w, K)) = fst (write_frame os now t ty data (w\<lparr>jw_writing := True\<rparr>, K))"
proof (cases "jw_writing w")
  case True
  with assms show ?thesis by (simp add: writeBytes_def with_lock_def lock_acquire_def)
next
  case False
  obtain r w' K' where run: "write_frame os now t ty data (w\<lparr>jw_writing := True\<rparr>, K) = (r, (w', K'))" by (metis prod.exhaust)
  have "lock_of w' = lock_of (w\<lparr>jw_writing := True\<rparr>)" using keepsD [OF keeps_write_frame run] by simp
  then have "jw_serialize w'" using assms by (simp add: lock_of_def)
  with assms False run show ?thesis by (simp add: writeBytes_def with_lock_def lock_acquire_def lock_release_def)
qed

theorem writeBytes_lock_discipline_witness:
  "\<not> jw_writing (fst (snd (writeBytes (\<lambda>_. os_all_ok\<lparr>os_open := False\<rparr>) 1 2 7 [1]
      (blank_writer ex_location 0 ex_writer_options True, ex_disk))))"
proof -
  have w: "jw_serialize (blank_writer ex_location 0 ex_writer_options True)"
    "\<not> jw_writing (blank_writer ex_location 0 ex_writer_options True)" by simp_all
  show ?thesis using writeBytes_lock_discipline [OF w(1)] w(2) by (metis (full_types))
qed

text \<open>C18: \<^verbatim>\<open>openData\<close> that throws keeps the lock.  The typed interface takes the lock in \<^verbatim>\<open>openData\<close> and gives it
  back in \<^verbatim>\<open>closeData\<close>.  When \<^verbatim>\<open>openData\<close> itself fails -- the next page cannot be mapped, say -- nobody gives
  it back: every later write waits for ever.\<close>

theorem openData_failure_keeps_lock:
  assumes "jw_serialize w" and "\<not> jw_writing w" and "openData os now sz t ty fl (w, K) = (Inl e, (w', K'))"
  shows "jw_writing w' \<and> writeBytes os' now' t' ty' data (w', K'') = (Inl Blocked, (w', K''))"
proof -
  let ?w = "w\<lparr>jw_writing := True\<rparr>"
  let ?body = "bind_p (ensure_page os now) (\<lambda>_. bind_p (openFrame os now t ty sz fl) (\<lambda>frame.
     modify_fst (\<lambda>w. w\<lparr>jw_open := Some frame\<rparr>)))"
  have k: "keeps lock_of ?body" by (intro keeps_intros) (simp add: lock_of_def)
  have "lock_acquire (w, K) = (Inr (), (?w, K))" using assms by (simp add: lock_acquire_def)
  from assms(3) [unfolded openData_def bind_p_Inr [of lock_acquire, OF this]] have "?body (?w, K) = (Inl e, (w', K'))" .
  from keepsD [OF k this] have "jw_serialize w'" "jw_writing w'" using assms(1) by (simp_all add: lock_of_def)
  then show ?thesis by (simp add: writeBytes_def with_lock_def lock_acquire_def)
qed

text \<open>A writer on which mapping a page fails.\<close>

definition os_broken :: "page_key \<Rightarrow> os_env" where
  "os_broken = (\<lambda>_. os_all_ok\<lparr>os_open := False\<rparr>)"

lemma Page_load_broken: "Page_load os_broken loc dest i w pre K = (Inl (Journal_error ''mmap''), K)"
  by (simp add: Page_load_def loadMmapBuffer_def sys_open_creat_def os_broken_def prog_simps Let_def)

theorem openData_failure_keeps_lock_witness:
  "\<exists>w'. openData os_broken 1 8 2 7 0 (blank_writer ex_location 0 ex_writer_options True, ex_disk) =
      (Inl (Journal_error ''mmap''), (w', ex_disk)) \<and>
    writeBytes os_ok 3 4 7 [1] (w', ex_disk) = (Inl Blocked, (w', ex_disk))"
proof -
  let ?w = "blank_writer ex_location 0 ex_writer_options True"
  have w: "jw_serialize ?w" "\<not> jw_writing ?w" by simp_all
  have "openData os_broken 1 8 2 7 0 (?w, ex_disk) =
      (Inl (Journal_error ''mmap''), (?w\<lparr>jw_writing := True, jw_page_id := 1\<rparr>, ex_disk))"
    by (simp add: openData_def lock_acquire_def ensure_page_def rotatePage_def next_page_def prog_simps Page_load_broken)
  from openData_failure_keeps_lock [OF w this] this show ?thesis by blast
qed

subsection \<open>A rotation that fails\<close>



subsection \<open>Opening a journal again\<close>

lemma frames_len_pos: "0 < frames_len fs \<longleftrightarrow> fs \<noteq> []"
proof (cases fs)
  case (Cons f fs')
  have "0 < frame_stride f" using stride_of_ge [of "sizeof_FrameHeader + length (snap_payload f)"] by (simp add: frame_stride_def)
  with Cons show ?thesis by (simp add: frames_len_def)
qed (simp add: frames_len_def)

lemma page_has_data_eq:
  assumes "page_holds K (page_key_of loc dest i) (findPageSize loc dest) (page_image (findPageSize loc dest) fs)"
  shows "page_has_data os_ok loc dest pre i K = (Inr (2 \<le> length fs), K)"
proof -
  let ?key = "page_key_of loc dest i" and ?sz = "findPageSize loc dest"
  obtain pf where pf: "lookup_file K ?key = Some pf" "pf_size pf = unat ?sz" "page_image ?sz fs (pf_mem pf)"
    using assms by (auto simp: page_holds_def split: option.splits)
  let ?K = "K\<lparr>k_maps := ?key # k_maps K\<rparr>"
  have load: "Page_load os_ok loc dest i False pre K = (Inr (the_page loc dest i False pre), ?K)"
    by (rule Page_load_existing [OF pf(1) page_image_file_ok os_works_ok]) (use pf in simp_all)
  have rdy: "page_ready ?K (the_page loc dest i False pre) pf"
    using pf by (simp add: page_ready_def)
  have "unat (ph_last_frame_position (PageHeader_at (pf_mem pf))) = 64 + frames_len (butlast fs)"
    using pf(3) by (simp add: page_image_def)
  moreover have "butlast fs \<noteq> [] \<longleftrightarrow> 2 \<le> length fs" by (cases fs; cases "tl fs") auto
  moreover have "page_read (the_page loc dest i False pre) 0 64 ?K = (Inr (pf_mem pf), ?K)"
    using page_read_ready [OF rdy, of 0 64] findPageSize_bounds(1) [of loc dest] by simp
  ultimately show ?thesis
    using load frames_len_pos [of "butlast fs"]
    by (simp add: page_has_data_def prog_simps Let_def Page_destroy_eq os_ok_def os_all_ok_def)
qed

text \<open>The pages \<open>1, 2, \<dots>\<close> of a journal and the frames they hold.\<close>

definition pages_hold :: "Location \<Rightarrow> u32 \<Rightarrow> page_key kernel \<Rightarrow> FrameSnap list list \<Rightarrow> bool" where
  "pages_hold loc dest K pages \<longleftrightarrow> page_ids_ok K \<and> journal_pages loc dest K = map int [1..<Suc (length pages)] \<and>
     (\<forall>n < length pages. page_holds K (page_key_of loc dest (int (Suc n))) (findPageSize loc dest)
        (page_image (findPageSize loc dest) (pages ! n)))"

lemma findLastWrittenPage_loop_eq:
  assumes "pages_hold loc dest K pages" and "n \<le> length pages"
  shows "findLastWrittenPage_loop os_ok loc dest pre n K =
    (Inr (int (last (0 # filter (\<lambda>k. 2 \<le> length (pages ! (k - 1))) [1..<Suc n]))), K)"
  using assms(2)
proof (induction n)
  case (Suc n)
  have "page_holds K (page_key_of loc dest (int (Suc n))) (findPageSize loc dest)
      (page_image (findPageSize loc dest) (pages ! n))"
    using assms(1) Suc.prems unfolding pages_hold_def by simp
  from page_has_data_eq [OF this] Suc show ?case by (simp add: prog_simps del: of_nat_Suc)
qed (simp add: prog_simps)

text \<open>C19: the page a writer resumes after.  On a journal with pages 1 to \<open>n\<close>, \<^verbatim>\<open>findLastWrittenPage\<close> terminates, changes
  nothing, and returns the last page that holds at least \<^emph>\<open>two\<close> frames, or 0.  A page with exactly one
  frame counts as empty, because its last frame position is that of the first frame: a writer that is
  opened again starts at the top of that page.\<close>

theorem resume_needs_two_frames:
  assumes "pages_hold loc dest K pages"
  shows "findLastWrittenPage os_ok loc dest pre K =
    (Inr (int (last (0 # filter (\<lambda>k. 2 \<le> length (pages ! (k - 1))) [1..<Suc (length pages)]))), K)"
proof (cases "pages = []")
  case True
  with assms show ?thesis by (simp add: pages_hold_def findLastWrittenPage_def prog_simps list_pages_eq)
next
  case False
  then have "last (map int [1..<Suc (length pages)]) = int (length pages)" by (simp add: last_map Suc_le_eq)
  with False assms findLastWrittenPage_loop_eq [OF assms le_refl] show ?thesis
    by (simp add: findLastWrittenPage_def prog_simps list_pages_eq pages_hold_def del: upt_Suc)
qed

text \<open>A disk with the first page of a session only.\<close>

lemma lone_frame_page:
  obtains K f where "pages_hold ex_location 0 K [[f]]"
proof -
  have ok: "session_ok ex_location 0 ex_writer_options [Mark 1 10 7] 5 ex_disk"
    using ex_fresh by (simp add: session_ok_def ex_writer_options_def valid_type_def MsgType_PageEnd_def)
  obtain w K1 where "view_whole (session_view ex_location (0, [Mark 1 10 7])) K1" by (rule write_session_view [OF ok])
  then have log: "journal_log ex_location 0 K1 1 [] [snap_of 10 7 FRAME_NORMAL 0 []]"
    using whole_journalD(1)
    by (auto simp: view_whole_def session_view_def log_view_def log_append_def log_put_def ex_location_size page_size_defs stride_of_def frames_len_def)
  obtain pf :: page_file where pf: "pf_size pf = unat (findPageSize ex_location 0)"
    "page_image (findPageSize ex_location 0) [snap_of 10 7 FRAME_NORMAL 0 []] (pf_mem pf)"
    by (rule journal_log_page [OF log, of 0]) (simp_all add: page_frames_def)
  let ?K = "\<lparr>k_files = [(page_key_of ex_location 0 1, pf)], k_fds = 0, k_maps = []\<rparr>"
  have "pages_hold ex_location 0 ?K [[snap_of 10 7 FRAME_NORMAL 0 []]]"
    using pf by (simp add: pages_hold_def page_ids_ok_def journal_pages_def dir_entries_def page_key_of_def page_holds_def
        lookup_file_def int32_range_def)
  then show thesis by (rule that)
qed

theorem resume_needs_two_frames_witness:
  "\<exists>K f. pages_hold ex_location 0 K [[f]] \<and> findLastWrittenPage os_ok ex_location 0 True K = (Inr 0, K)"
proof -
  obtain K f where h: "pages_hold ex_location 0 K [[f]]" by (rule lone_frame_page)
  with resume_needs_two_frames [OF h, of True] show ?thesis by auto
qed

end
