(* ===== verification/Writer_Type.thy ===== *)
theory Writer_Type
  imports Writer_Errors
begin

section \<open>The shape of a writer\<close>

text \<open>
  What holds of the members of a \<^verbatim>\<open>JournalWriter\<close> after every operation whatever the operating system does,
  failed calls included: the configuration never changes, every page the writer holds is a writable page of
  its own journal, at most the configured number of pages is retained, the retire queue is used only with a
  retire thread, and the warmer is set up for the same journal.  A small logic over programs carries the
  proofs: \<open>inv_p P Q p\<close> says that \<open>p\<close> keeps \<open>P\<close> of the object and that a result satisfies \<open>Q\<close>.
\<close>

subsection \<open>Invariants of programs\<close>

definition inv_p :: "('a \<Rightarrow> bool) \<Rightarrow> ('x \<Rightarrow> bool) \<Rightarrow> ('a \<times> 'b, 'x) prog \<Rightarrow> bool" where
  "inv_p P Q p \<longleftrightarrow> (\<forall>a b. P a \<longrightarrow> P (fst (snd (p (a, b)))) \<and> (\<forall>x. fst (p (a, b)) = Inr x \<longrightarrow> Q x))"

named_theorems inv_intros

lemma inv_pI:
  assumes "\<And>a b. P a \<Longrightarrow> P (fst (snd (p (a, b))))" and "\<And>a b x. P a \<Longrightarrow> fst (p (a, b)) = Inr x \<Longrightarrow> Q x"
  shows "inv_p P Q p"
  using assms by (simp add: inv_p_def)

lemma inv_pD: "inv_p P Q p \<Longrightarrow> P a \<Longrightarrow> P (fst (snd (p (a, b))))"
  by (simp add: inv_p_def)

lemma inv_return [inv_intros]: "Q x \<Longrightarrow> inv_p P Q (return_p x)"
  by (simp add: inv_p_def prog_simps)

lemma inv_throw [inv_intros]: "inv_p P Q (throw_p e)"
  by (simp add: inv_p_def prog_simps)

lemma inv_assert [inv_intros]: "inv_p P (\<lambda>_. True) (assert_p b e)"
  by (simp add: inv_p_def prog_simps)

lemma inv_get [inv_intros]: "inv_p P P get_fst"
  by (simp add: inv_p_def prog_simps)

lemma inv_modify [inv_intros]: "(\<And>a. P a \<Longrightarrow> P (g a)) \<Longrightarrow> inv_p P (\<lambda>_. True) (modify_fst g)"
  by (simp add: inv_p_def prog_simps)

lemma inv_snd: "(\<And>b x b'. q b = (Inr x, b') \<Longrightarrow> Q x) \<Longrightarrow> inv_p P Q (on_snd q)"
  by (auto simp: inv_p_def prog_simps split: prod.split)

lemma inv_snd_True [inv_intros]: "inv_p P (\<lambda>_. True) (on_snd q)"
  by (rule inv_snd) simp

lemma inv_bind:
  assumes "inv_p P Q p" and "\<And>x. Q x \<Longrightarrow> inv_p P R (f x)"
  shows "inv_p P R (bind_p p f)"
proof (rule inv_pI)
  fix a b assume a: "P a"
  obtain r a' b' where p: "p (a, b) = (r, (a', b'))" by (metis prod.exhaust)
  have a': "P a'" using inv_pD [OF assms(1) a, of b] p by simp
  have q: "Q x" if "r = Inr x" for x using assms(1) a p that by (metis inv_p_def fst_conv)
  show "P (fst (snd (bind_p p f (a, b))))"
    using p a' assms(2) q by (cases r) (auto simp: prog_simps inv_p_def)
  show "R x" if "fst (bind_p p f (a, b)) = Inr x" for x
    using that p a' assms(2) q by (cases r) (auto simp: prog_simps inv_p_def)
qed

lemma inv_weaken: "inv_p P Q p \<Longrightarrow> inv_p P (\<lambda>_. True) p"
  by (simp add: inv_p_def)

lemma inv_if [inv_intros]: "(b \<Longrightarrow> inv_p P Q p) \<Longrightarrow> (\<not> b \<Longrightarrow> inv_p P Q q) \<Longrightarrow> inv_p P Q (if b then p else q)"
  by simp

lemma inv_option [inv_intros]:
  "(y = None \<Longrightarrow> inv_p P Q p) \<Longrightarrow> (\<And>x. y = Some x \<Longrightarrow> inv_p P Q (q x)) \<Longrightarrow> inv_p P Q (case y of None \<Rightarrow> p | Some x \<Rightarrow> q x)"
  by (cases y) simp_all

lemma inv_list [inv_intros]:
  "(y = [] \<Longrightarrow> inv_p P Q p) \<Longrightarrow> (\<And>x xs. y = x # xs \<Longrightarrow> inv_p P Q (q x xs)) \<Longrightarrow> inv_p P Q (case y of [] \<Rightarrow> p | x # xs \<Rightarrow> q x xs)"
  by (cases y) simp_all

lemma inv_prod [inv_intros]:
  "(\<And>x y. z = (x, y) \<Longrightarrow> inv_p P Q (p x y)) \<Longrightarrow> inv_p P Q (case z of (x, y) \<Rightarrow> p x y)"
  by (cases z) simp

lemma inv_prod_prod:
  "(\<And>a b c. z = ((a, b), c) \<Longrightarrow> inv_p P Q (p a b c)) \<Longrightarrow> inv_p P Q (case z of (x, y) \<Rightarrow> (case x of (a, b) \<Rightarrow> p a b) y)"
  by (simp split: prod.split)

lemma inv_catch [inv_intros]:
  assumes "inv_p P Q p" and "\<And>e. inv_p P Q (h e)"
  shows "inv_p P Q (catch_p p h)"
  using assms by (auto simp: inv_p_def catch_p_def split: prod.split sum.split) (metis fst_conv snd_conv)+

subsection \<open>The warmer\<close>

definition warmer_type :: "Location \<Rightarrow> u32 \<Rightarrow> PageWarmer \<Rightarrow> bool" where
  "warmer_type loc dest wm \<longleftrightarrow> pw_location wm = loc \<and> pw_dest_id wm = dest \<and> pw_page_size wm = findPageSize loc dest \<and>
     pw_is_writer wm \<and> pw_distance wm \<le> RingSize div 2 \<and> length (pw_ring wm) = RingSize"

lemma warmer_type_set_slot [simp]: "warmer_type loc dest (set_slot i f wm) = warmer_type loc dest wm"
  by (simp add: warmer_type_def)

lemma warmer_type_update [simp]:
  "warmer_type loc dest (wm\<lparr>pw_read_index := r\<rparr>) = warmer_type loc dest wm"
  "warmer_type loc dest (wm\<lparr>pw_write_index := r\<rparr>) = warmer_type loc dest wm"
  "warmer_type loc dest (wm\<lparr>pw_local_seq := r\<rparr>) = warmer_type loc dest wm"
  "warmer_type loc dest (wm\<lparr>pw_running := x\<rparr>) = warmer_type loc dest wm"
  "warmer_type loc dest (wm\<lparr>pw_current_page := i\<rparr>) = warmer_type loc dest wm"
  by (simp_all add: warmer_type_def)

lemma warmer_type_calls [simp]:
  "warmer_type loc dest (updateCurrentPage i wm) = warmer_type loc dest wm"
  "warmer_type loc dest (PageWarmer_start wm) = warmer_type loc dest wm"
  "warmer_type loc dest (PageWarmer_stop wm) = warmer_type loc dest wm"
  by (simp_all add: updateCurrentPage_def PageWarmer_start_def PageWarmer_stop_def)

lemma warmer_type_scan: "getWarmedPage_scan r i is wm = (x, wm') \<Longrightarrow> warmer_type loc dest wm' = warmer_type loc dest wm"
  by (induction "is") (auto simp: Let_def split: if_splits)

lemma warm_page_type: "inv_p (warmer_type loc dest) (\<lambda>_. True) (warm_page os i)"
  unfolding warm_page_def warmPageIntoSlot_def warm_map_def warm_fill_def Let_def
  by (intro inv_intros inv_bind [where Q = "\<lambda>_. True"] inv_bind [OF inv_get])
    (auto simp: warm_claim_def Let_def split: if_splits)

lemma release_slot_type: "inv_p (warmer_type loc dest) (\<lambda>_. True) (release_slot os i)"
  unfolding release_slot_def Let_def
  by (intro inv_intros inv_bind [OF inv_get] inv_bind [OF inv_snd_True]) simp_all

lemma warm_pages_type: "inv_p (warmer_type loc dest) (\<lambda>_. True) (warm_pages os is)"
  by (induction "is") (auto intro: inv_intros inv_bind [OF warm_page_type])

lemma cleanup_slots_type: "inv_p (warmer_type loc dest) (\<lambda>_. True) (cleanup_slots os th is)"
proof (induction "is")
  case (Cons i "is")
  show ?case unfolding cleanup_slots.simps Let_def
    by (intro inv_bind [OF inv_get] inv_bind [where Q = "\<lambda>_. True"] inv_intros release_slot_type Cons.IH) simp_all
qed (simp add: inv_return)

lemma warmup_pass_type: "inv_p (warmer_type loc dest) (\<lambda>_. True) (warmup_pass os)"
  unfolding warmup_pass_def cleanupOldPages_def
  by (intro inv_bind [OF inv_get] inv_bind [OF warm_pages_type] inv_if inv_return cleanup_slots_type) simp

subsection \<open>The writer\<close>

definition page_type :: "Location \<Rightarrow> u32 \<Rightarrow> Page \<Rightarrow> bool" where
  "page_type loc dest p \<longleftrightarrow> pg_location p = loc \<and> pg_dest_id p = dest \<and> pg_writable p"

definition writer_type :: "Location \<Rightarrow> u32 \<Rightarrow> bool \<Rightarrow> nat \<Rightarrow> JournalWriter \<Rightarrow> bool" where
  "writer_type loc dest bg mx w \<longleftrightarrow>
     jw_location w = loc \<and> jw_dest_id w = dest \<and> jw_background w = bg \<and> jw_max_retained w = mx \<and>
     jw_page_size w = findPageSize loc dest \<and> pred_option (page_type loc dest) (jw_page w) \<and>
     pred_option (\<lambda>(p, _). page_type loc dest p) (jw_open w) \<and> list_all (page_type loc dest) (jw_retired w) \<and>
     list_all (page_type loc dest) (jw_retire_queue w) \<and> length (jw_retired w) \<le> mx \<and> (bg \<or> jw_retire_queue w = []) \<and>
     pred_option (warmer_type loc dest) (jw_warmer w)"

lemma Page_load_type: "Page_load os loc dest i True pre K = (Inr p, K') \<Longrightarrow> page_type loc dest p"
  by (auto simp: Page_load_def Let_def prog_simps page_type_def split: prod.splits sum.splits if_splits)

lemma loadFromAddress_type: "loadFromAddress loc dest i sz True pre K = (Inr p, K') \<Longrightarrow> page_type loc dest p"
  by (auto simp: loadFromAddress_def Let_def prog_simps page_type_def split: prod.splits sum.splits if_splits)

lemma retire_overflow_type:
  assumes "retire_overflow os bg mx ps q K = (Inr (ret, q'), K')" and "list_all P ps" and "list_all P q"
  shows "length ret \<le> mx \<and> list_all P ret \<and> list_all P q' \<and> (bg \<or> q' = q)"
  using assms
proof (induction ps arbitrary: q K)
  case (Cons p ps)
  then show ?case by (auto simp: prog_simps split: if_splits prod.splits sum.splits)
qed (simp add: prog_simps)

lemmas inv_binds = inv_bind [OF inv_get] inv_bind [OF inv_modify] inv_bind [OF inv_snd_True]

lemma nextSeq_type [inv_intros]: "inv_p (writer_type loc dest bg mx) (\<lambda>_. True) nextSeq"
  by (auto simp: inv_p_def nextSeq_def writer_type_def)

lemma writer_type_warmer:
  "writer_type loc dest bg mx w \<Longrightarrow> warmer_type loc dest wm \<Longrightarrow> writer_type loc dest bg mx (w\<lparr>jw_warmer := Some wm\<rparr>)"
  by (simp add: writer_type_def)

lemma writer_type_close: "writer_type loc dest bg mx w \<Longrightarrow> writer_type loc dest bg mx (w\<lparr>jw_open := None\<rparr>)"
  by (simp add: writer_type_def)

lemma next_page_type: "inv_p (writer_type loc dest bg mx) (page_type loc dest) (next_page os i)"
proof -
  let ?P = "writer_type loc dest bg mx"
  have load: "inv_p ?P (page_type loc dest) (on_snd (Page_load os (jw_location w) (jw_dest_id w) i True (jw_prefault w)))" if "?P w" for w
    using that by (intro inv_snd) (auto simp: writer_type_def intro: Page_load_type)
  have addr: "inv_p ?P (page_type loc dest) (on_snd (loadFromAddress (jw_location w) (jw_dest_id w) i sz True (jw_prefault w)))" if "?P w" for w sz
    using that by (intro inv_snd) (auto simp: writer_type_def intro: loadFromAddress_type)
  have scan: "warmer_type loc dest wm'" if "?P w" "jw_warmer w = Some wm" "getWarmedPage i wm = (x, wm')" for w wm x wm'
    using that warmer_type_scan [of "pw_read_index wm" i "[0..<RingSize]" wm x wm' loc dest] by (simp add: writer_type_def getWarmedPage_def)
  show ?thesis
    unfolding next_page_def Let_def
    by (intro inv_bind [OF inv_get] inv_option inv_prod_prod load inv_bind [OF inv_modify]
        inv_bind [where Q = "page_type loc dest"] addr inv_return) (auto intro: writer_type_warmer scan warmer_type_calls(1) [THEN iffD2])
qed

lemma rotatePage_type: "inv_p (writer_type loc dest bg mx) (\<lambda>_. True) (rotatePage os now)"
proof -
  let ?P = "writer_type loc dest bg mx"
  have over: "inv_p ?P (\<lambda>(ret, q). length ret \<le> mx \<and> list_all (page_type loc dest) ret \<and> list_all (page_type loc dest) q \<and> (bg \<or> q = []))
      (on_snd (retire_overflow os (jw_background w) (jw_max_retained w) (jw_retired w @ [p]) (jw_retire_queue w)))"
    if "?P w" "jw_page w = Some p" for w p
  proof (rule inv_snd)
    fix K x K' assume run: "retire_overflow os (jw_background w) (jw_max_retained w) (jw_retired w @ [p]) (jw_retire_queue w) K = (Inr x, K')"
    obtain ret q where x: "x = (ret, q)" by (cases x)
    from retire_overflow_type [OF run [unfolded x], of "page_type loc dest"] that show
      "case x of (ret, q) \<Rightarrow> length ret \<le> mx \<and> list_all (page_type loc dest) ret \<and> list_all (page_type loc dest) q \<and> (bg \<or> q = [])"
      by (auto simp: writer_type_def x)
  qed
  have retire: "inv_p ?P (\<lambda>_. True) (retire_current os)"
    unfolding retire_current_def
    by (intro inv_bind [OF inv_get] inv_option inv_return inv_bind [OF over] inv_prod inv_modify)
      (auto simp: writer_type_def)
  have close: "inv_p ?P (\<lambda>_. True) (write_page_end now)"
    unfolding write_page_end_def by (intro inv_bind [OF inv_get] inv_option inv_return inv_bind [OF nextSeq_type] inv_bind [OF inv_snd_True] inv_snd_True) simp
  show ?thesis
    unfolding rotatePage_def
    by (intro inv_binds inv_bind [OF next_page_type] inv_bind [OF close] inv_bind [OF retire] inv_modify) (auto simp: writer_type_def)
qed

lemma ensure_page_type: "inv_p (writer_type loc dest bg mx) (\<lambda>_. True) (ensure_page os now)"
  unfolding ensure_page_def by (intro inv_bind [OF inv_get] inv_if rotatePage_type inv_return) simp

lemma current_page_type: "inv_p (writer_type loc dest bg mx) (page_type loc dest) current_page"
  unfolding current_page_def by (intro inv_bind [OF inv_get] inv_option inv_throw inv_return) (auto simp: writer_type_def)

lemma openFrame_type: "inv_p (writer_type loc dest bg mx) (\<lambda>(p, _). page_type loc dest p) (openFrame os now t ty n fl)"
proof -
  have room: "inv_p (writer_type loc dest bg mx) (\<lambda>_. True) (make_room os now n)"
    unfolding make_room_def Let_def
    by (intro inv_bind [OF current_page_type] inv_bind [OF inv_get] inv_if rotatePage_type inv_return) simp
  show ?thesis
    unfolding openFrame_def place_header_def
    by (intro inv_bind [OF room] inv_bind [OF current_page_type] inv_bind [OF inv_get] inv_bind [OF nextSeq_type]
        inv_bind [OF inv_snd_True] inv_return) simp
qed

lemma closeFrame_type: "inv_p (writer_type loc dest bg mx) (\<lambda>_. True) (closeFrame frame n hook)"
  unfolding closeFrame_def
  by (intro inv_bind [OF inv_snd_True] inv_bind [OF current_page_type] inv_bind [OF inv_assert] inv_modify) (simp add: writer_type_def)

lemma lock_type:
  "inv_p (writer_type loc dest bg mx) (\<lambda>_. True) lock_acquire"
  "writer_type loc dest bg mx (lock_release w) = writer_type loc dest bg mx w"
  by (auto simp: inv_p_def lock_acquire_def lock_release_def writer_type_def)

lemma with_lock_type:
  assumes "inv_p (writer_type loc dest bg mx) Q p"
  shows "inv_p (writer_type loc dest bg mx) (\<lambda>_. True) (with_lock p)"
proof (rule inv_pI)
  fix w K assume w: "writer_type loc dest bg mx w"
  obtain r w1 K1 where a: "lock_acquire (w, K) = (r, (w1, K1))" by (metis prod.exhaust)
  have w1: "writer_type loc dest bg mx w1" using inv_pD [OF lock_type(1) w, of K] a by simp
  have "writer_type loc dest bg mx (fst (snd (p (w1, K1))))" using assms w1 by (rule inv_pD)
  then show "writer_type loc dest bg mx (fst (snd (with_lock p (w, K))))"
    using a w1 by (cases r) (auto simp: with_lock_def lock_type(2) split: prod.splits)
qed simp

subsection \<open>Every call\<close>

text \<open>The calls of the public interface, and the steps of the two background threads.\<close>

datatype writer_call =
    Call_writeBytes u64 u64 u32 "u8 list"
  | Call_mark u64 u64 u32
  | Call_openData u64 u64 u64 u32 u16
  | Call_store "u8 list"
  | Call_closeData u64 "FrameHeader \<Rightarrow> FrameHeader"
  | Call_retire_step
  | Call_warmer_pass

fun make_call :: "(page_key \<Rightarrow> os_env) \<Rightarrow> writer_call \<Rightarrow> unit writer_prog" where
  "make_call os (Call_writeBytes now t ty data) = writeBytes os now t ty data"
| "make_call os (Call_mark now t ty) = mark os now t ty"
| "make_call os (Call_openData now sz t ty fl) = openData os now sz t ty fl"
| "make_call os (Call_store data) = fill_data data"
| "make_call os (Call_closeData sz hook) = closeData sz hook"
| "make_call os Call_retire_step = retireLoop_step os"
| "make_call os Call_warmer_pass = warmer_thread_pass os"

lemma make_call_type: "inv_p (writer_type loc dest bg mx) (\<lambda>_. True) (make_call os c)"
proof (cases c)
  case (Call_writeBytes now t ty data)
  have "inv_p (writer_type loc dest bg mx) (\<lambda>_. True) (write_frame os now t ty data)"
    unfolding write_frame_def copy_and_close_def
    by (intro inv_bind [OF ensure_page_type] inv_bind [OF openFrame_type] inv_bind [where Q = "\<lambda>_. True"] inv_if inv_snd_True
        inv_return closeFrame_type) simp
  then show ?thesis unfolding Call_writeBytes make_call.simps writeBytes_def by (rule with_lock_type)
next
  case (Call_mark now t ty)
  show ?thesis unfolding Call_mark make_call.simps mark_def
    by (intro with_lock_type [where Q = "\<lambda>_. True"] inv_bind [OF ensure_page_type] inv_bind [OF openFrame_type] closeFrame_type)
next
  case (Call_openData now sz t ty fl)
  show ?thesis unfolding Call_openData make_call.simps openData_def
    by (intro inv_bind [OF lock_type(1)] inv_bind [OF ensure_page_type] inv_bind [OF openFrame_type] inv_modify) (auto simp: writer_type_def)
next
  case (Call_store data)
  show ?thesis unfolding Call_store make_call.simps fill_data_def
    by (intro inv_bind [OF inv_get] inv_option inv_throw inv_prod inv_snd_True)
next
  case (Call_closeData sz hook)
  show ?thesis unfolding Call_closeData make_call.simps closeData_def
    by (intro inv_bind [OF inv_get] inv_option inv_throw inv_bind [OF inv_modify] inv_bind [OF inv_catch [where Q = "\<lambda>_. True"]]
        inv_bind [OF closeFrame_type] inv_modify) (simp_all add: lock_type(2) writer_type_close)
next
  case Call_retire_step
  show ?thesis unfolding Call_retire_step make_call.simps retireLoop_step_def
    by (intro inv_bind [OF inv_get] inv_list inv_return inv_bind [OF inv_modify] inv_snd_True) (auto simp: writer_type_def)
next
  case Call_warmer_pass
  have "writer_type loc dest bg mx (fst (snd (warmer_thread_pass os (w, K))))" if w: "writer_type loc dest bg mx w" for w K
  proof (cases "jw_warmer w")
    case (Some wm)
    then have "warmer_type loc dest (fst (snd (warmup_pass os (wm, K))))"
      using w by (intro inv_pD [OF warmup_pass_type]) (simp add: writer_type_def)
    then show ?thesis using Some w by (auto simp: warmer_thread_pass_def intro: writer_type_warmer split: prod.splits)
  qed (use w in \<open>simp add: warmer_thread_pass_def\<close>)
  then show ?thesis unfolding Call_warmer_pass by (simp add: inv_p_def)
qed

lemma open_writer_type:
  "inv_p (writer_type loc dest (wo_background_threads opts) (wo_retained_page_limit opts)) (\<lambda>_. True) (open_writer os opts)"
proof -
  let ?P = "writer_type loc dest (wo_background_threads opts) (wo_retained_page_limit opts)"
  have load: "inv_p ?P (page_type loc dest) (on_snd (Page_load os (jw_location w) (jw_dest_id w) i True (jw_prefault w)))" if "?P w" for w i
    using that by (intro inv_snd) (auto simp: writer_type_def intro: Page_load_type)
  have init: "inv_p ?P (\<lambda>_. True) (loadInitialPage os)"
    unfolding loadInitialPage_def by (intro inv_binds inv_bind [OF load] inv_modify) (auto simp: writer_type_def)
  have new: "?P (w\<lparr>jw_warmer := Some (updateCurrentPage (jw_page_id w) (PageWarmer_start
      (PageWarmer_new (jw_location w) (jw_dest_id w) (jw_page_size w) True n)))\<rparr>)" if "?P w" for w n
    using that by (intro writer_type_warmer) (simp_all add: writer_type_def, simp add: warmer_type_def PageWarmer_new_def)
  have warm: "inv_p ?P (\<lambda>_. True) (start_warmer os opts)"
    unfolding start_warmer_def
    by (intro inv_bind [OF inv_get] inv_if inv_return inv_bind [where Q = "\<lambda>_. True"] inv_option inv_snd_True inv_throw inv_modify)
      (simp_all add: new)
  show ?thesis
    unfolding open_writer_def
    by (intro inv_bind [OF inv_get] inv_bind [OF inv_snd_True] inv_bind [OF init] inv_bind [OF warm] inv_bind [where Q = "\<lambda>_. True"]
        inv_if inv_return inv_modify) (auto simp: writer_type_def)
qed

text \<open>The writers a program can have: one that was opened, after any calls, under any behaviour of the system.\<close>

inductive writer_reachable :: "Location \<Rightarrow> u32 \<Rightarrow> JournalWriterOptions \<Rightarrow> bool \<Rightarrow> JournalWriter \<Rightarrow> bool"
  for loc dest opts serialize where
  opened: "JournalWriter_new os loc dest opts serialize K = (Inr w, K') \<Longrightarrow> writer_reachable loc dest opts serialize w"
| called: "writer_reachable loc dest opts serialize w \<Longrightarrow> make_call os c (w, K) = (r, (w', K')) \<Longrightarrow>
    writer_reachable loc dest opts serialize w'"

lemma writer_reachable_type:
  assumes "writer_reachable loc dest opts serialize w"
  shows "writer_type loc dest (wo_background_threads opts) (wo_retained_page_limit opts) w"
  using assms
proof induction
  case (opened os K w K')
  have "writer_type loc dest (wo_background_threads opts) (wo_retained_page_limit opts) (blank_writer loc dest opts serialize)"
    by (simp add: writer_type_def blank_writer_def)
  from inv_pD [OF open_writer_type this, of os K] opened show ?case
    by (auto simp: JournalWriter_new_def split: prod.splits sum.splits)
next
  case (called w os c K r w' K')
  from inv_pD [OF make_call_type called.IH, of os c K] called.hyps(2) show ?case by simp
qed

text \<open>C16: A writer keeps its type.  Whatever the operating system does -- files that cannot be opened, mapped, grown or
  unmapped, pages with a foreign header -- and however the calls end, a writer that was opened keeps its
  configuration; its current page, its open frame's page and every page it retains or has queued are writable pages of its own
  journal; it retains at most the configured number of pages; it queues pages only when it has a retire
  thread; and its warmer warms pages of the same journal, at most eight ahead, in a ring of sixteen slots.\<close>

theorem writer_keeps_type:
  assumes "writer_reachable loc dest opts serialize w"
  shows "writer_type loc dest (wo_background_threads opts) (wo_retained_page_limit opts) w"
  by (rule writer_reachable_type [OF assms])

theorem writer_keeps_type_witness:
  "\<exists>w K w' r K'. JournalWriter_new os_ok ex_location 0 ex_writer_options True ex_disk = (Inr w, K) \<and>
    openData os_broken 5 16 6 7 0 (w, K) = (r, (w', K')) \<and>
    writer_type ex_location 0 (wo_background_threads ex_writer_options) (wo_retained_page_limit ex_writer_options) w'"
proof -
  obtain w K where w: "JournalWriter_new os_ok ex_location 0 ex_writer_options True ex_disk = (Inr w, K)"
    by (rule JournalWriter_new_fresh [OF ex_fresh os_works_ok ex_ops_ok(2)])
  obtain r w' K' where c: "make_call os_broken (Call_openData 5 16 6 7 0) (w, K) = (r, (w', K'))" by (metis prod.exhaust)
  have "writer_reachable ex_location 0 ex_writer_options True w'"
    by (rule writer_reachable.called [OF writer_reachable.opened [OF w] c])
  from writer_keeps_type [OF this] w c show ?thesis by auto
qed

end
