(* ===== verification/Double_Bits.thy ===== *)
theory Double_Bits
  imports Binary64 Page_Memory
begin

section \<open>A double in memory\<close>

text \<open>
  The 64 bits of an IEEE 754 \<^verbatim>\<open>double\<close> as a struct in a journal holds them: sign, eleven bits of exponent,
  fifty-two of fraction.  Every finite value is read back from its bits.
\<close>

fun double_bits :: "double \<Rightarrow> u64" where
  "double_bits (Fin x) =
     (if x = 0 then 0
      else let a = \<bar>x\<bar>; e = binexp a; s = (if x < 0 then 2 ^ 63 else 0) in
        if e < - 1022 then word_of_int (s + \<lfloor>a / 2 powi (- 1074)\<rfloor>)
        else word_of_int (s + ((e + 1023) * 2 ^ 52 + (\<lfloor>a / 2 powi (e - 52)\<rfloor> - 2 ^ 52))))"
| "double_bits (Infinite s) = word_of_int ((if s then 2 ^ 63 else 0) + 2047 * 2 ^ 52)"
| "double_bits NaN = word_of_int (2047 * 2 ^ 52 + 2 ^ 51)"

declare double_bits.simps [simp del]

definition double_of_bits :: "u64 \<Rightarrow> double" where
  "double_of_bits w =
     (let n = uint w; neg = (n div 2 ^ 63 = 1); e = n div 2 ^ 52 mod 2 ^ 11; m = n mod 2 ^ 52; s = (if neg then - 1 else 1)
      in if e = 2047 then (if m = 0 then Infinite neg else NaN)
         else if e = 0 then Fin (s * of_int m * 2 powi (- 1074))
         else Fin (s * of_int (2 ^ 52 + m) * 2 powi (e - 1075)))"

lemma div_mod_shifted: "0 \<le> m \<Longrightarrow> m < k \<Longrightarrow> (a * k + m) div k = a \<and> (a * k + m) mod k = m" for a k m :: int
  by (simp add: div_add1_eq)

lemma bit_fields:
  fixes S e m :: int
  assumes "S = 0 \<or> S = 1" and "0 \<le> e" and "e < 2 ^ 11" and "0 \<le> m" and "m < 2 ^ 52"
  defines "n \<equiv> S * 2 ^ 63 + (e * 2 ^ 52 + m)"
  shows "uint (word_of_int n :: u64) = n" and "n div 2 ^ 63 = S" and "n div 2 ^ 52 mod 2 ^ 11 = e" and "n mod 2 ^ 52 = m"
proof -
  have low: "0 \<le> e * 2 ^ 52 + m" "e * 2 ^ 52 + m < 2 ^ 63" using assms(2-5) by simp_all
  have "0 \<le> n" "n < 2 ^ 64" using assms(1) low by (auto simp: n_def)
  then show "uint (word_of_int n :: u64) = n" by (simp add: uint_word_of_int_eq take_bit_int_eq_self)
  show "n div 2 ^ 63 = S" unfolding n_def using div_mod_shifted [OF low] by blast
  have n': "n = (S * 2 ^ 11 + e) * 2 ^ 52 + m" by (simp add: n_def algebra_simps)
  have n: "n div 2 ^ 52 = S * 2 ^ 11 + e" "n mod 2 ^ 52 = m" unfolding n' using div_mod_shifted [OF assms(4,5)] by blast+
  show "n div 2 ^ 52 mod 2 ^ 11 = e" unfolding n(1) using div_mod_shifted [OF assms(2,3)] by blast
  show "n mod 2 ^ 52 = m" by (rule n(2))
qed

lemma decode_fields:
  fixes S e m :: int
  assumes "S = 0 \<or> S = 1" and "0 \<le> e" and "e < 2047" and "0 \<le> m" and "m < 2 ^ 52"
  shows "double_of_bits (word_of_int (S * 2 ^ 63 + (e * 2 ^ 52 + m))) =
    (if e = 0 then Fin ((if S = 1 then - 1 else 1) * of_int m * 2 powi (- 1074))
     else Fin ((if S = 1 then - 1 else 1) * of_int (2 ^ 52 + m) * 2 powi (e - 1075)))"
proof -
  have e: "e < 2 ^ 11" "e \<noteq> 2047" using assms(3) by simp_all
  show ?thesis unfolding double_of_bits_def Let_def bit_fields [OF assms(1,2) e(1) assms(4,5)] if_not_P [OF e(2)] ..
qed

text \<open>A number that needs no rounding is a whole number of quanta.\<close>

lemma round64_quotient:
  assumes "round64 x = x" and "x \<noteq> 0"
  obtains k where "0 \<le> k" and "\<lfloor>\<bar>x\<bar> / quantum x\<rfloor> = k" and "\<bar>x\<bar> = of_int k * quantum x"
proof -
  let ?i = "rne (x / quantum x)"
  have "x = of_int ?i * quantum x" using assms by (simp add: round64_def)
  then have x: "\<bar>x\<bar> = of_int \<bar>?i\<bar> * quantum x" by (metis abs_mult abs_of_pos quantum_pos of_int_abs)
  then have "\<bar>x\<bar> / quantum x = of_int \<bar>?i\<bar>" by (metis quantum_nonzero nonzero_mult_div_cancel_right)
  then have "\<lfloor>\<bar>x\<bar> / quantum x\<rfloor> = \<bar>?i\<bar>" by (simp only: floor_of_int)
  then show thesis using x by (intro that [of "\<bar>?i\<bar>"]) (simp_all only: abs_ge_zero)
qed

lemma scaled_less: "of_int k * (2 :: rat) powi a < 2 powi (a + int b) \<Longrightarrow> k < 2 ^ b"
proof -
  assume "of_int k * (2 :: rat) powi a < 2 powi (a + int b)"
  also have "\<dots> = of_int (2 ^ b) * 2 powi a" by (simp add: power_int_add)
  finally show ?thesis by (simp only: mult_less_cancel_right_pos zero_less_power_int zero_less_numeral of_int_less_iff)
qed

lemma scaled_le: "2 powi (a + int b) \<le> of_int k * (2 :: rat) powi a \<Longrightarrow> 2 ^ b \<le> k"
proof -
  assume "2 powi (a + int b) \<le> of_int k * (2 :: rat) powi a"
  moreover have "2 powi (a + int b) = of_int (2 ^ b) * (2 :: rat) powi a" by (simp add: power_int_add)
  ultimately show ?thesis by (simp only: mult_le_cancel_right_pos zero_less_power_int zero_less_numeral of_int_le_iff)
qed

lemma double_of_bits_double_bits:
  assumes "round64 x = x" and "\<bar>x\<bar> < 2 powi 1024"
  shows "double_of_bits (double_bits (Fin x)) = Fin x"
proof (cases "x = 0")
  case False
  then have pos: "0 < \<bar>x\<bar>" by simp
  obtain k where k: "0 \<le> k" "\<lfloor>\<bar>x\<bar> / quantum x\<rfloor> = k" "\<bar>x\<bar> = of_int k * quantum x"
    by (rule round64_quotient [OF assms(1) False])
  let ?e = "binexp \<bar>x\<bar>" and ?S = "if x < 0 then 1 else 0 :: int"
  note b = binexp_bounds [OF pos]
  have e: "?e < 1024" using pos assms(2) by (rule binexp_less)
  have S: "?S = 0 \<or> ?S = 1" "(if ?S = 1 then - 1 else 1) * \<bar>x\<bar> = x" "(if x < 0 then 2 ^ 63 else 0) = ?S * 2 ^ 63" by simp_all
  show ?thesis
  proof (cases "?e < - 1022")
    case True
    then have "max (?e - 52) (- 1074) = - 1074" by linarith
    then have q: "quantum x = 2 powi (- 1074)" by (simp only: quantum_def)
    have "\<bar>x\<bar> < 2 powi (?e + 1)" by (rule b(2))
    also have "\<dots> \<le> 2 powi (- 1074 + int 52)" using True by (simp only: powi_le_iff)
    finally have "k < 2 ^ 52" unfolding k(3) q by (rule scaled_less)
    then have "double_of_bits (word_of_int (?S * 2 ^ 63 + k)) = Fin ((if ?S = 1 then - 1 else 1) * of_int k * 2 powi (- 1074))"
      using decode_fields [OF S(1) _ _ k(1), of 0] by simp
    moreover have "double_bits (Fin x) = word_of_int (?S * 2 ^ 63 + k)"
      unfolding double_bits.simps Let_def if_not_P [OF False] if_P [OF True] S(3) k(2) [unfolded q] ..
    moreover have "of_int k * 2 powi (- 1074) = \<bar>x\<bar>" using k(3) by (simp only: q)
    then have "(if ?S = 1 then - 1 else 1) * of_int k * 2 powi (- 1074) = x" using S(2) by (simp only: mult.assoc)
    ultimately show ?thesis by (simp only:)
  next
    case e2: False
    then have "max (?e - 52) (- 1074) = ?e - 52" by linarith
    then have q: "quantum x = 2 powi (?e - 52)" by (simp only: quantum_def)
    have "\<bar>x\<bar> < 2 powi (?e - 52 + int 53)" "2 powi (?e - 52 + int 52) \<le> \<bar>x\<bar>" using b by (simp_all add: add.commute)
    moreover have kx: "of_int k * 2 powi (?e - 52) = \<bar>x\<bar>" using k(3) by (simp only: q)
    ultimately have kb: "k < 2 ^ 53" "2 ^ 52 \<le> k"
      using scaled_less [of k "?e - 52" 53] scaled_le [of "?e - 52" 52 k] by simp_all
    have "double_of_bits (word_of_int (?S * 2 ^ 63 + ((?e + 1023) * 2 ^ 52 + (k - 2 ^ 52)))) =
        Fin ((if ?S = 1 then - 1 else 1) * of_int (2 ^ 52 + (k - 2 ^ 52)) * 2 powi (?e + 1023 - 1075))"
      using decode_fields [OF S(1), of "?e + 1023" "k - 2 ^ 52"] e e2 kb by simp
    moreover have "double_bits (Fin x) = word_of_int (?S * 2 ^ 63 + ((?e + 1023) * 2 ^ 52 + (k - 2 ^ 52)))"
      unfolding double_bits.simps Let_def if_not_P [OF False] if_not_P [OF e2] S(3) k(2) [unfolded q] ..
    moreover have "2 ^ 52 + (k - 2 ^ 52) = k" "?e + 1023 - 1075 = ?e - 52" by simp_all
    moreover have "(if ?S = 1 then - 1 else 1) * of_int k * 2 powi (?e - 52) = x"
      using S(2) by (simp only: mult.assoc kx)
    ultimately show ?thesis by (simp only:)
  qed
qed (simp add: double_of_bits_def double_bits.simps)

end
