(* ===== verification/Example_Programs.thy ===== *)
theory Example_Programs
  imports Typed_Dispatcher Writer_Type Double_Bits
begin

section \<open>The example programs (examples/)\<close>

text \<open>
  The programs under \<^verbatim>\<open>examples\<close>: each makes a temporary directory, writes a journal in it, reads it back with its own
  loop over the reader, checks what it got and removes the directory.  The models run the writer and
  the reader of the library; what a program prints and its exit code are the result.  The clock of the writer,
  the time stamp in the name of the directory and the padding bytes of the structs are arguments.
\<close>

subsection \<open>Messages\<close>

record Trade =
  trade_timestamp :: u64
  trade_symbol_id :: u32
  trade_price :: double

record SizedTrade = Trade +
  trade_quantity :: u64

record Bbo =
  bbo_timestamp :: u64
  bbo_bid_size :: u32
  bbo_ask_size :: u32

text \<open>The structs as the compiler lays them out; four bytes before the price are padding.\<close>

definition trade_bytes :: "u32 \<Rightarrow> 'a Trade_scheme \<Rightarrow> u8 list" where
  "trade_bytes pad t = le_bytes 8 (trade_timestamp t) @ le_bytes 4 (trade_symbol_id t) @ le_bytes 4 pad @
     le_bytes 8 (double_bits (trade_price t))"

definition sized_trade_bytes :: "u32 \<Rightarrow> SizedTrade \<Rightarrow> u8 list" where
  "sized_trade_bytes pad t = trade_bytes pad t @ le_bytes 8 (trade_quantity t)"

definition bbo_bytes :: "Bbo \<Rightarrow> u8 list" where
  "bbo_bytes b = le_bytes 8 (bbo_timestamp b) @ le_bytes 4 (bbo_bid_size b) @ le_bytes 4 (bbo_ask_size b)"

definition symbol_id_at :: "u8 list \<Rightarrow> u32" where
  "symbol_id_at bs = le_word (take 4 (drop 8 bs))"

definition price_at :: "u8 list \<Rightarrow> double" where
  "price_at bs = double_of_bits (le_word (take 8 (drop 16 bs)))"

definition bid_size_at :: "u8 list \<Rightarrow> u32" where
  "bid_size_at bs = le_word (take 4 (drop 8 bs))"

definition ask_size_at :: "u8 list \<Rightarrow> u32" where
  "ask_size_at bs = le_word (take 4 (drop 12 bs))"

lemma message_fields:
  "symbol_id_at (trade_bytes pad t @ bs) = trade_symbol_id t"
  "price_at (trade_bytes pad t @ bs) = double_of_bits (double_bits (trade_price t))"
  "length (trade_bytes pad t) = 24"
  "bid_size_at (bbo_bytes b) = bbo_bid_size b" "ask_size_at (bbo_bytes b) = bbo_ask_size b" "length (bbo_bytes b) = 16"
  by (simp_all add: symbol_id_at_def price_at_def bid_size_at_def ask_size_at_def trade_bytes_def bbo_bytes_def)

lemma price_round_trip:
  assumes "x = of_int m * 2 powi e" and "\<bar>m\<bar> \<le> 2 ^ 53" and "- 1074 \<le> e" and "\<bar>x\<bar> < 2 powi 1024"
  shows "double_of_bits (double_bits (Fin x)) = Fin x"
  using assms round64_exact [OF assms(1-3)] by (intro double_of_bits_double_bits) simp_all

subsection \<open>The temporary directory\<close>

definition TempDir_new :: "string \<Rightarrow> string \<Rightarrow> int \<Rightarrow> string" where
  "TempDir_new temp_directory name stamp = path_append temp_directory (''revoq-example-'' @ name @ ''-'' @ show_int stamp)"

definition under :: "string \<Rightarrow> string \<Rightarrow> bool" where
  "under dir path \<longleftrightarrow> path = dir \<or> prefix (dir @ ''/'') path"

text \<open>\<^verbatim>\<open>fs::remove_all\<close>: the page files below the directory are gone; mappings of them stay.\<close>

definition TempDir_destroy :: "string \<Rightarrow> page_key kernel \<Rightarrow> page_key kernel" where
  "TempDir_destroy dir K = K\<lparr>k_files := filter (\<lambda>(key, _). \<not> under dir (fst key)) (k_files K)\<rparr>"

definition example_location :: "string \<Rightarrow> string \<Rightarrow> Location" where
  "example_location dir name = Location_new LIVE EXECUTION ''examples'' name dir"

definition example_writer_options :: JournalWriterOptions where
  "example_writer_options = \<lparr>wo_prefault = False, wo_warmup_pages = 0, wo_background_threads = False,
     wo_retained_page_limit = DEFAULT_JOURNAL_WRITER_RETAINED_PAGES\<rparr>"

definition example_reader_options :: JournalReaderOptions where
  "example_reader_options = \<lparr>ro_prefault = False, ro_background_threads = False, ro_retained_page_limit = 0\<rparr>"

subsection \<open>Scopes and loops\<close>

definition publish :: "(page_key \<Rightarrow> os_env) \<Rightarrow> u64 \<Rightarrow> u64 \<Rightarrow> u32 \<Rightarrow> u8 list \<Rightarrow> unit writer_prog" where
  "publish os now timestamp msg_type message =
     bind_p (openData os now (of_nat (length message)) timestamp msg_type FRAME_NORMAL) (\<lambda>_.
     bind_p (fill_data message) (\<lambda>_.
     closeData (of_nat (length message)) id))"

text \<open>The end of a scope: its destructor runs when the scope is left and when an exception passes, not after a fault.\<close>

definition unwind_p :: "('s, 'a) prog \<Rightarrow> ('s, unit) prog \<Rightarrow> ('s, 'a) prog" where
  "unwind_p p destroy = (\<lambda>s. case p s of
     (Inl e, s') \<Rightarrow> if is_exception e then bind_p destroy (\<lambda>_. throw_p e) s' else (Inl e, s')
   | (Inr x, s') \<Rightarrow> bind_p destroy (\<lambda>_. return_p x) s')"

text \<open>The block that owns the writer.\<close>

definition with_writer :: "(page_key \<Rightarrow> os_env) \<Rightarrow> Location \<Rightarrow> unit writer_prog \<Rightarrow> (page_key kernel, unit) prog" where
  "with_writer os loc body = (\<lambda>K.
     case JournalWriter_new os loc 0 example_writer_options False K of
       (Inl e, K1) \<Rightarrow> (Inl e, K1)
     | (Inr w, K1) \<Rightarrow> (case unwind_p body (JournalWriter_destroy os) (w, K1) of (r, (_, K2)) \<Rightarrow> (r, K2)))"

text \<open>A reader that joins the journal from time 0; it lives to the end of the program.\<close>

definition with_reader ::
    "(page_key \<Rightarrow> os_env) \<Rightarrow> nat \<Rightarrow> Location \<Rightarrow> ('u, 'a) dispatch_prog \<Rightarrow> 'u \<Rightarrow> (page_key kernel, 'a \<times> 'u) prog" where
  "with_reader os fuel loc body u = (\<lambda>K.
     case unwind_p
         (bind_p (join_reader os fuel loc 0 0) (\<lambda>_ s.
            case body (u, s) of (Inl e, (_, s')) \<Rightarrow> (Inl e, s') | (Inr x, (u', s')) \<Rightarrow> (Inr (x, u'), s')))
         (JournalReader_destroy os) (JournalReader_new example_reader_options, K) of
       (r, (_, K')) \<Rightarrow> (r, K'))"

text \<open>\<^verbatim>\<open>while (current = reader.tryCurrentFrame()) { ...; reader.advance(current); }\<close>, which is also what a loop over
  \<^verbatim>\<open>nextStatic\<close> runs.  Running out of \<open>fuel\<close> is an error of the model.\<close>

fun read_loop :: "(page_key \<Rightarrow> os_env) \<Rightarrow> 'u handler \<Rightarrow> nat \<Rightarrow> ('u, unit) dispatch_prog" where
  "read_loop os body 0 = throw_p Out_of_fuel"
| "read_loop os body (Suc fuel) =
     bind_p (on_snd tryCurrentFrame) (\<lambda>current.
     if fv_frame current = None then return_p ()
     else bind_p (on_snd (snap_view current)) (\<lambda>frame.
          bind_p (on_user (body frame)) (\<lambda>_.
          bind_p (on_snd (advance os current)) (\<lambda>_. read_loop os body fuel))))"

fun what :: "error \<Rightarrow> string" where
  "what (Journal_error s) = s"
| "what (Mmap_error s) = s"
| "what (Runtime_error s) = s"
| "what (Invalid_argument s) = s"
| "what (Out_of_range s) = s"
| "what _ = []"

text \<open>The \<^verbatim>\<open>try\<close> block of \<^verbatim>\<open>main\<close> around a body that owns the directory: exit code and what is printed.\<close>

definition run_main :: "string \<Rightarrow> (page_key kernel, string) prog \<Rightarrow> (page_key kernel, int \<times> string) prog" where
  "run_main dir body =
     catch_p (bind_p (unwind_p body (modify_p (TempDir_destroy dir))) (\<lambda>out. return_p (0, out)))
       (\<lambda>e. return_p (1, ''error: '' @ what e @ [CHR 0x0A]))"

subsection \<open>Basic write and read\<close>

text \<open>The three trades, published at the times the writer's clock shows.\<close>

definition basic_trade :: "u64 \<Rightarrow> rat \<Rightarrow> u64 \<Rightarrow> SizedTrade" where
  "basic_trade ts price quantity =
     \<lparr>trade_timestamp = ts, trade_symbol_id = 101, trade_price = fl price, trade_quantity = quantity\<rparr>"

definition basic_writes :: "(page_key \<Rightarrow> os_env) \<Rightarrow> (nat \<Rightarrow> u64) \<Rightarrow> u32 \<Rightarrow> unit writer_prog" where
  "basic_writes os clock pad =
     bind_p (publish os (clock 0) 1 MsgType_Trade (sized_trade_bytes pad (basic_trade 1 (10025 / 100) 10))) (\<lambda>_.
     bind_p (publish os (clock 1) 2 MsgType_Trade (sized_trade_bytes pad (basic_trade 2 (10050 / 100) 20))) (\<lambda>_.
     publish os (clock 2) 3 MsgType_Trade (sized_trade_bytes pad (basic_trade 3 (10075 / 100) 30))))"

definition basic_body :: "(int \<times> double) handler" where
  "basic_body current = (\<lambda>(count, last_price).
     if snap_msg_type current = sint MsgType_Trade
     then (Inr (), (count + 1, price_at (snap_payload current))) else (Inr (), (count, last_price)))"

definition basic_write_read :: "(page_key \<Rightarrow> os_env) \<Rightarrow> nat \<Rightarrow> (nat \<Rightarrow> u64) \<Rightarrow> u32 \<Rightarrow> string \<Rightarrow> int \<Rightarrow> (page_key kernel, int \<times> string) prog" where
  "basic_write_read os fuel clock pad temp_directory stamp =
     (let dir = TempDir_new temp_directory ''basic-write-read'' stamp;
          location = example_location dir ''basic-write-read''
      in run_main dir (
           bind_p (with_writer os location (basic_writes os clock pad)) (\<lambda>_.
           bind_p (with_reader os fuel location (read_loop os basic_body fuel) (0, Fin 0)) (\<lambda>(_, count, last_price).
           if count \<noteq> 3 \<or> \<not> d_eq last_price (fl (10075 / 100))
           then throw_p (Runtime_error ''basic write/read verification failed'')
           else return_p (''ok basic_write_read messages='' @ show_int count @ [CHR 0x0A])))))"

subsection \<open>The loops\<close>

text \<open>A loop over the frames is a dispatcher whose only handler takes every frame.\<close>

abbreviation every_frame :: "'u handler \<Rightarrow> 'u TypedJournalDispatcher" where
  "every_frame h \<equiv> td_onUnknown h TypedJournalDispatcher_new"

lemma deliver_every_frame: "deliver (every_frame h) f u = h f u"
  by (simp add: deliver_def td_onUnknown_def TypedJournalDispatcher_new_def)

lemma read_loop_next:
  "read_loop os h (Suc n) x =
     (case td_next os (every_frame h) x of
        (Inl e, y) \<Rightarrow> (Inl e, y) | (Inr b, y) \<Rightarrow> if b then read_loop os h n y else (Inr (), y))"
  by (cases x) (auto simp: td_next_def dispatchFrame_def td_onUnknown_def TypedJournalDispatcher_new_def bind_p_def return_p_def
      split: prod.split sum.split)

lemma read_loop_run:
  "read_loop os h n x =
     (case td_run os (every_frame h) n x of
        (Inl e, y) \<Rightarrow> (Inl e, y) | (Inr k, y) \<Rightarrow> if k < n then (Inr (), y) else (Inl Out_of_fuel, y))"
proof (induction n arbitrary: x)
  case (Suc n)
  show ?case unfolding read_loop_next td_run.simps
    by (auto simp: bind_p_def return_p_def Suc.IH split: prod.split sum.split)
qed (simp add: prog_simps)

text \<open>A run over the rest of a journal in which no handler fails leaves the reader at its end.\<close>

lemma td_run_success:
  assumes "merge_inv r K M [V] [n]" and "length (view_log V) - n < m" and "n \<le> length (view_log V)"
    and "deliver_all d (drop n (view_log V)) u = (Inr (), u')"
  shows "\<exists>r' K'. td_run os_ok d m (u, (r, K)) = (Inr (length (view_log V) - n), (u', (r', K'))) \<and> only_maps K K' \<and>
    merge_inv r' K' M [V] [length (view_log V)]"
  using assms
proof (induction m arbitrary: r K n u)
  case (Suc m)
  obtain r1 K1 where om: "only_maps K K1"
    and t: "if all_heads [V] [n] = [] then td_next os_ok d (u, (r, K)) = (Inr False, (u, (r1, K1))) \<and> merge_inv r1 K1 M [V] [n]
     else \<exists>i f. least_head [V] [n] i f \<and>
       (case deliver d f u of
          (Inl e, u') \<Rightarrow> td_next os_ok d (u, (r, K)) = (Inl e, (u', (r1, K1))) \<and> merge_inv r1 K1 M [V] [n]
        | (Inr _, u') \<Rightarrow> td_next os_ok d (u, (r, K)) = (Inr True, (u', (r1, K1))) \<and>
            merge_inv r1 K1 M [V] ([n][i := Suc ([n] ! i)]))"
    using td_next_ok [OF Suc.prems(1), of d u] by (elim exE conjE) (rule that)
  show ?case
  proof (cases "n < length (view_log V)")
    case False
    then have "all_heads [V] [n] = []" "n = length (view_log V)" using Suc.prems(3) by (simp_all add: all_heads_def view_head_def)
    with t om Suc.prems(4) show ?thesis by (intro exI [of _ r1] exI [of _ K1]) (simp add: prog_simps)
  next
    case True
    then have "all_heads [V] [n] \<noteq> []" by (simp add: all_heads_def view_head_def)
    with t obtain i f where f: "least_head [V] [n] i f" and c: "case deliver d f u of
          (Inl e, u') \<Rightarrow> td_next os_ok d (u, (r, K)) = (Inl e, (u', (r1, K1))) \<and> merge_inv r1 K1 M [V] [n]
        | (Inr _, u') \<Rightarrow> td_next os_ok d (u, (r, K)) = (Inr True, (u', (r1, K1))) \<and>
            merge_inv r1 K1 M [V] ([n][i := Suc ([n] ! i)])" by auto
    have i: "i = 0" "f = view_log V ! n" using f by (auto simp: least_head_def view_head_def split: if_splits)
    have dr: "drop n (view_log V) = f # drop (Suc n) (view_log V)" using True i(2) by (simp add: Cons_nth_drop_Suc)
    obtain u1 where u1: "deliver d f u = (Inr (), u1)" "deliver_all d (drop (Suc n) (view_log V)) u1 = (Inr (), u')"
      using Suc.prems(4) unfolding dr by (auto split: prod.splits sum.splits)
    from c u1(1) i have n: "td_next os_ok d (u, (r, K)) = (Inr True, (u1, (r1, K1)))" "merge_inv r1 K1 M [V] [Suc n]" by simp_all
    have fuel: "length (view_log V) - Suc n < m" "Suc n \<le> length (view_log V)" using Suc.prems(2) True by simp_all
    obtain r' K' where "td_run os_ok d m (u1, (r1, K1)) = (Inr (length (view_log V) - Suc n), (u', (r', K')))" "only_maps K1 K'"
      "merge_inv r' K' M [V] [length (view_log V)]"
      using Suc.IH [OF n(2) fuel u1(2)] by blast
    with n(1) True om show ?thesis
      by (intro exI [of _ r'] exI [of _ K']) (auto simp: prog_simps Suc_diff_Suc intro: only_maps_trans)
  qed
qed simp

subsection \<open>A whole program\<close>

lemma run_op_type: "inv_p (writer_type loc dest bg mx) (\<lambda>_. True) (run_op os op)"
proof (cases op)
  case (Write_data now t ty fl data)
  show ?thesis
    using make_call_type [of loc dest bg mx os "Call_openData now (of_nat (length data)) t ty fl"]
      make_call_type [of loc dest bg mx os "Call_store data"] make_call_type [of loc dest bg mx os "Call_closeData (of_nat (length data)) id"]
    by (auto simp: Write_data write_data_def intro!: inv_bind)
qed (use make_call_type [of loc dest bg mx os "Call_writeBytes _ _ _ _"] make_call_type [of loc dest bg mx os "Call_mark _ _ _"]
    make_call_type [of loc dest bg mx os Call_retire_step] make_call_type [of loc dest bg mx os Call_warmer_pass] in simp_all)

lemma run_ops_type: "inv_p (writer_type loc dest bg mx) (\<lambda>_. True) (run_ops os ops)"
  by (induction ops) (auto intro: inv_return inv_bind [OF run_op_type])

text \<open>The end of the writer's scope gives back what the writer has.\<close>

lemma writer_scope_ends:
  assumes rel: "log_rel loc 0 1 (around K) (w, K1) a" and type: "writer_type loc 0 False mx w"
  obtains w2 K2 where "JournalWriter_destroy os_ok (w, K1) = (Inr (), (w2, K2))" and "mset (k_maps K2) = mset (k_maps K)"
    and "k_fds K2 = k_fds K" and "k_files K2 = k_files K1"
proof -
  obtain front cur where inv: "writer_inv w K1 1 front cur" and sur: "surrounded loc 0 1 (around K) (writer_maps w) K1"
    using rel by (cases a) (auto simp: log_rel_def)
  have bg: "\<not> jw_background w" "jw_retire_queue w = []" using type by (simp_all add: writer_type_def)
  then have wm: "writer_maps (w\<lparr>jw_retire_queue := []\<rparr>) = writer_maps w" by (simp add: writer_maps_def)
  obtain w2 K2 where d: "JournalWriter_destroy os_ok (w, K1) = (Inr (), (w2, K2))"
    "mset (k_maps K2) = mset (k_maps K1) - writer_maps w" "k_fds K2 = k_fds K1" "k_files K2 = k_files K1"
    by (rule JournalWriter_destroy_unmaps [OF inv os_works_ok]) (simp add: bg(1) wm)
  with sur show thesis by (intro that [of w2 K2]) (simp_all add: surrounded_def around_def)
qed

lemma new_writer_type:
  assumes "JournalWriter_new os loc 0 example_writer_options False K = (Inr w, K')"
  shows "writer_type loc 0 False (wo_retained_page_limit example_writer_options) w"
  using writer_reachable_type [OF writer_reachable.opened [OF assms]] by (simp add: example_writer_options_def)

lemma with_writer_ok:
  assumes ok: "session_ok loc 0 example_writer_options ops fuel K" and body: "\<And>s. body s = run_ops os_ok ops s"
  obtains K' where "with_writer os_ok loc body K = (Inr (), K')" and "view_whole (session_view loc (0, ops)) K'"
    and "\<forall>key. (\<forall>i. key \<noteq> page_key_of loc 0 i) \<longrightarrow> lookup_file K' key = lookup_file K key"
    and "mset (k_maps K') = mset (k_maps K)" and "k_fds K' = k_fds K"
proof -
  obtain w K1 where w: "write_session os_ok loc 0 example_writer_options False ops K = (Inr w, K1)"
    "view_whole (session_view loc (0, ops)) K1" "page_ids_ok K1"
    "\<forall>key. (\<forall>i. key \<noteq> page_key_of loc 0 i) \<longrightarrow> lookup_file K1 key = lookup_file K key"
    by (rule write_session_view [OF ok])
  have "fresh_journal loc 0 K" "wo_warmup_pages example_writer_options \<le> 16" "list_all (op_ok (findPageSize loc 0)) ops"
    using ok by (simp_all add: session_ok_def)
  then obtain w' K1' where "write_session os_ok loc 0 example_writer_options False ops K = (Inr w', K1')"
    "log_rel loc 0 1 (around K) (w', K1') (fold (spec_op (unat (findPageSize loc 0))) ops (0, [], []))"
    by (rule write_session_refines [of loc 0 K example_writer_options ops False])
  then have rel: "log_rel loc 0 1 (around K) (w, K1) (fold (spec_op (unat (findPageSize loc 0))) ops (0, [], []))" using w(1) by simp
  obtain w0 K0 where n: "JournalWriter_new os_ok loc 0 example_writer_options False K = (Inr w0, K0)"
    "run_ops os_ok ops (w0, K0) = (Inr (), (w, K1))"
    using w(1) by (auto simp: write_session_def split: prod.splits sum.splits)
  have type: "writer_type loc 0 False (wo_retained_page_limit example_writer_options) w"
    using inv_pD [OF run_ops_type new_writer_type [OF n(1)], of os_ok ops K0] n(2) by simp
  obtain w2 K2 where d: "JournalWriter_destroy os_ok (w, K1) = (Inr (), (w2, K2))" "mset (k_maps K2) = mset (k_maps K)"
    "k_fds K2 = k_fds K" "k_files K2 = k_files K1"
    by (rule writer_scope_ends [OF rel type])
  have same: "lookup_file K2 key = lookup_file K1 key" for key using d(4) by (simp add: lookup_file_def)
  have "page_ids_ok K2" using w(3) d(4) by (simp add: page_ids_ok_def)
  then have "view_whole (session_view loc (0, ops)) K2"
    using whole_journal_cong [OF w(2) [unfolded view_whole_def] _ same] by (simp add: view_whole_def)
  moreover have "with_writer os_ok loc body K = (Inr (), K2)" using n d(1) by (simp add: with_writer_def unwind_p_def body prog_simps)
  ultimately show thesis using w(4) same d(2,3) by (intro that [of K2]) (simp_all del: split_paired_All)
qed

text \<open>A loop that reads a journal to its end.\<close>

definition reads_all :: "('u, 'a) dispatch_prog \<Rightarrow> jview \<Rightarrow> 'u \<Rightarrow> 'a \<Rightarrow> 'u \<Rightarrow> bool" where
  "reads_all body V u x u' \<longleftrightarrow> (\<forall>r K M. merge_inv r K M [V] [0] \<longrightarrow>
     (\<exists>r' K' n. body (u, (r, K)) = (Inr x, (u', (r', K'))) \<and> only_maps K K' \<and> merge_inv r' K' M [V] [n]))"

lemma reads_all_run:
  assumes "deliver_all d (view_log V) u = (Inr (), u')" and "length (view_log V) < m"
  shows "reads_all (td_run os_ok d m) V u (length (view_log V)) u'"
  unfolding reads_all_def using td_run_success [of _ _ _ V 0 m d u u'] assms by fastforce

lemma reads_all_loop:
  assumes "deliver_all (every_frame h) (view_log V) u = (Inr (), u')" and "length (view_log V) < m"
  shows "reads_all (read_loop os_ok h m) V u () u'"
  unfolding reads_all_def
proof (intro allI impI)
  fix r K M assume "merge_inv r K M [V] [0]"
  then obtain r' K' n where "td_run os_ok (every_frame h) m (u, (r, K)) = (Inr (length (view_log V)), (u', (r', K')))"
    "only_maps K K'" "merge_inv r' K' M [V] [n]"
    using reads_all_run [OF assms] unfolding reads_all_def by blast
  then show "\<exists>r' K' n. read_loop os_ok h m (u, (r, K)) = (Inr (), (u', (r', K'))) \<and> only_maps K K' \<and> merge_inv r' K' M [V] [n]"
    using assms(2) by (auto simp: read_loop_run)
qed

lemma with_reader_ok:
  assumes whole: "view_whole (session_view loc (0, ops)) K" and ok: "session_ok loc 0 opts ops fuel K0"
    and body: "reads_all body (session_view loc (0, ops)) u x u'"
  obtains K' where "with_reader os_ok fuel loc body u K = (Inr (x, u'), K')" and "k_files K' = k_files K"
    and "mset (k_maps K') = mset (k_maps K)" and "k_fds K' = k_fds K"
proof -
  let ?V = "session_view loc (0, ops)" and ?r = "JournalReader_new example_reader_options"
  have fuel: "fuel > length (view_log ?V)" "fuel > length (v_front ?V)"
    using fold_sizes [of "unat (findPageSize loc 0)" ops "(0, [], [])"] ok
    by (simp_all add: session_ok_def journal_of_def) (simp_all add: session_view_def log_view_def log_frames_def)
  have times: "list_all (\<lambda>f. 0 \<le> sint (snap_gen_time f)) (view_log ?V)"
    using fold_times [of ops "(0, [], [])"] ok by (simp add: session_ok_def journal_of_def log_frames_def)
  have "makeKey (loc_uid (v_location ?V)) (v_dest_id ?V) \<notin> rd_joined_keys ?r" by (simp add: JournalReader_new_def)
  then obtain r1 K1 where j: "join_reader os_ok fuel (v_location ?V) (v_dest_id ?V) 0 (?r, K) = (Inr (), (r1, K1))"
    "reader_inv r1 K1 (mset (k_maps K)) ([] @ [?V]) ([] @ [0])" "only_maps K K1"
    by (rule join_from_start [OF reader_inv_new whole os_works_ok _ fuel times])
  have m: "merge_inv r1 K1 (mset (k_maps K)) [?V] [0]" using j(2) by (auto simp: merge_inv_def reader_inv_def)
  obtain r2 K2 n where b: "body (u, (r1, K1)) = (Inr x, (u', (r2, K2)))" "only_maps K1 K2" "merge_inv r2 K2 (mset (k_maps K)) [?V] [n]"
    using body m unfolding reads_all_def by blast
  have "reader_inv r2 K2 (mset (k_maps K)) [?V] [n]" using b(3) by (simp add: merge_inv_def)
  then obtain r3 K3 where d: "JournalReader_destroy os_ok (r2, K2) = (Inr (), (r3, K3))" "mset (k_maps K3) = mset (k_maps K)"
    "k_files K3 = k_files K2" "k_fds K3 = k_fds K2"
    by (rule JournalReader_destroy_unmaps)
  have "k_files K2 = k_files K" "k_fds K2 = k_fds K" using j(3) b(2) by (auto simp: only_maps_def)
  then show thesis using j(1) b(1) d by (intro that [of K3]) (simp_all add: with_reader_def unwind_p_def prog_simps)
qed

text \<open>The directory is new, and everything the program makes is below it.\<close>

definition new_dir :: "string \<Rightarrow> page_key kernel \<Rightarrow> bool" where
  "new_dir dir K \<longleftrightarrow> page_ids_ok K \<and> (\<forall>key. under dir (fst key) \<longrightarrow> lookup_file K key = None)"

lemma map_of_filter_keys: "map_of (filter (\<lambda>(k, v). P k) xs) k = (if P k then map_of xs k else None)"
  by (induction xs) auto

lemma TempDir_destroy_lookup:
  "lookup_file (TempDir_destroy dir K) key = (if under dir (fst key) then None else lookup_file K key)"
  using map_of_filter_keys [of "\<lambda>k. \<not> under dir (fst k)" "k_files K" key] by (simp add: lookup_file_def TempDir_destroy_def)

lemma prefix_path_append: "prefix p q \<Longrightarrow> x \<noteq> [] \<Longrightarrow> hd x \<noteq> CHR ''/'' \<Longrightarrow> prefix p (path_append q x)"
  by (auto simp: path_append_def prefix_def)

lemma path_append_suffix: "\<exists>p'. path_append p (x @ y) = p' @ y"
  using append_assoc [of p x y] append_assoc [of "p @ ''/''" x y] append_Nil [of "x @ y"]
  by (auto simp: path_append_def simp flip: append_assoc append_Cons)

lemma digit_not_slash: "\<not> is_digit CHR ''/''"
  by (simp add: is_digit_def ascii_def)

lemma example_layout_under:
  assumes "name \<noteq> []" and "hd name \<noteq> CHR ''/''"
  shows "under (TempDir_new tmp n stamp) (layoutDir (example_location (TempDir_new tmp n stamp) name) JOURNAL)"
proof -
  let ?dir = "TempDir_new tmp n stamp"
  have "show_int stamp = (if stamp < 0 then ''-'' else []) @ show_nat (nat \<bar>stamp\<bar>)" by (simp add: show_int_def)
  then obtain q where q: "show_int stamp = q @ show_nat (nat \<bar>stamp\<bar>)" by blast
  obtain p where p: "?dir = p @ show_nat (nat \<bar>stamp\<bar>)"
    using path_append_suffix [of tmp "''revoq-example-'' @ n @ ''-'' @ q" "show_nat (nat \<bar>stamp\<bar>)"]
    by (auto simp: TempDir_new_def q)
  have "is_digit (last (show_nat k))" for k using show_nat_digits [of k] last_in_set [of "show_nat k"] by simp
  then have "last (show_nat k) \<noteq> CHR ''/''" for k by (metis digit_not_slash)
  then have "?dir \<noteq> []" "last ?dir \<noteq> CHR ''/''" unfolding p by simp_all
  then have "prefix (?dir @ ''/'') (path_append ?dir ''executiondata'')" by (auto simp: path_append_def)
  then show ?thesis using assms
    by (simp add: under_def layoutDir_def example_location_def Location_new_def Let_def prefix_path_append)
qed

lemma example_fresh:
  assumes "new_dir dir K" and "under dir (layoutDir loc JOURNAL)"
  shows "fresh_journal loc 0 K"
proof -
  have "lookup_file K (page_key_of loc 0 i) = None" for i using assms by (simp add: new_dir_def page_key_of_def)
  then have "set (journal_pages loc 0 K) = {}" by (auto simp: set_journal_pages)
  then show ?thesis using assms(1) by (simp add: fresh_journal_def new_dir_def)
qed

text \<open>Removing the directory undoes what happened below it.\<close>

lemma TempDir_restores:
  assumes new: "new_dir dir K" and "under": "under dir (layoutDir loc JOURNAL)"
    and same: "\<forall>key. (\<forall>i. key \<noteq> page_key_of loc 0 i) \<longrightarrow> lookup_file K' key = lookup_file K key"
  shows "lookup_file (TempDir_destroy dir K') key = lookup_file K key"
proof (cases "under dir (fst key)")
  case True
  then show ?thesis using new by (cases key) (simp add: TempDir_destroy_lookup new_dir_def)
next
  case False
  then have "\<forall>i. key \<noteq> page_key_of loc 0 i" using "under" by (auto simp: page_key_of_def)
  then have "lookup_file K' key = lookup_file K key" using same by blast
  then show ?thesis using False by (simp add: TempDir_destroy_lookup)
qed

text \<open>A program that writes, reads everything and checks.\<close>

lemma run_main_ok:
  assumes new: "new_dir dir K" and "under": "under dir (layoutDir loc JOURNAL)"
    and ok: "list_all (op_ok (findPageSize loc 0)) ops" "list_all op_times_ok ops" "2 * length ops < fuel" "length ops < 2000000000"
    and writes: "\<And>s. writes s = run_ops os_ok ops s"
    and reads: "reads_all body (session_view loc (0, ops)) u x u'" and check: "\<And>K. check (x, u') K = (Inr out, K)"
  shows "\<exists>K'. run_main dir (bind_p (with_writer os_ok loc writes) (\<lambda>_. bind_p (with_reader os_ok fuel loc body u) check)) K =
      (Inr (0, out), K') \<and>
    (\<forall>key. lookup_file K' key = lookup_file K key) \<and> mset (k_maps K') = mset (k_maps K) \<and> k_fds K' = k_fds K"
proof -
  have s: "session_ok loc 0 example_writer_options ops fuel K"
    using example_fresh [OF new "under"] ok by (simp add: session_ok_def example_writer_options_def)
  obtain K1 where K1: "with_writer os_ok loc writes K = (Inr (), K1)" "view_whole (session_view loc (0, ops)) K1"
    "\<forall>key. (\<forall>i. key \<noteq> page_key_of loc 0 i) \<longrightarrow> lookup_file K1 key = lookup_file K key"
    "mset (k_maps K1) = mset (k_maps K)" "k_fds K1 = k_fds K"
    by (rule with_writer_ok [OF s writes])
  obtain K2 where K2: "with_reader os_ok fuel loc body u K1 = (Inr (x, u'), K2)" "k_files K2 = k_files K1"
    "mset (k_maps K2) = mset (k_maps K1)" "k_fds K2 = k_fds K1"
    by (rule with_reader_ok [OF K1(2) s reads])
  have "\<forall>key. (\<forall>i. key \<noteq> page_key_of loc 0 i) \<longrightarrow> lookup_file K2 key = lookup_file K key"
    using K1(3) K2(2) by (simp add: lookup_file_def del: split_paired_All)
  from TempDir_restores [OF new "under" this] have "lookup_file (TempDir_destroy dir K2) key = lookup_file K key" for key .
  moreover have "mset (k_maps (TempDir_destroy dir K2)) = mset (k_maps K)" "k_fds (TempDir_destroy dir K2) = k_fds K"
    using K1(4,5) K2(3,4) by (simp_all add: TempDir_destroy_def)
  ultimately show ?thesis using K1(1) K2(1) check
    by (intro exI [of _ "TempDir_destroy dir K2"]) (simp add: run_main_def unwind_p_def prog_simps)
qed

subsection \<open>The basic program succeeds\<close>

lemma publish_run: "publish os now t ty bs = run_op os (Write_data now t ty FRAME_NORMAL bs)"
  by (simp add: publish_def write_data_def)

lemma bind_return: "bind_p p return_p = p"
  by (rule ext) (simp add: bind_p_def return_p_def split: prod.split sum.split)

definition basic_ops :: "(nat \<Rightarrow> u64) \<Rightarrow> u32 \<Rightarrow> writer_op list" where
  "basic_ops clock pad =
     [Write_data (clock 0) 1 MsgType_Trade FRAME_NORMAL (sized_trade_bytes pad (basic_trade 1 (10025 / 100) 10)),
      Write_data (clock 1) 2 MsgType_Trade FRAME_NORMAL (sized_trade_bytes pad (basic_trade 2 (10050 / 100) 20)),
      Write_data (clock 2) 3 MsgType_Trade FRAME_NORMAL (sized_trade_bytes pad (basic_trade 3 (10075 / 100) 30))]"

lemma basic_writes_ops: "basic_writes os clock pad s = run_ops os (basic_ops clock pad) s"
  by (simp add: basic_writes_def basic_ops_def publish_run bind_return)

text \<open>A handler that skips the frames the library adds sees the messages.\<close>

lemma deliver_messages:
  assumes skip: "\<And>f u. is_page_end f \<Longrightarrow> h f u = (Inr (), u)"
    and step: "\<And>f u. \<not> is_page_end f \<Longrightarrow> message_of f \<in> set ms \<Longrightarrow> h f u = (Inr (), g (message_of f) u)"
    and "map message_of (filter (\<lambda>f. \<not> is_page_end f) fs) = ms"
  shows "deliver_all (every_frame h) fs u = (Inr (), fold g ms u)"
proof -
  have "deliver_all (every_frame h) fs u = (Inr (), fold g (map message_of (filter (\<lambda>f. \<not> is_page_end f) fs)) u)"
    if "set (map message_of (filter (\<lambda>f. \<not> is_page_end f) fs)) \<subseteq> set ms" for fs u
    using that by (induction fs arbitrary: u) (auto simp: deliver_every_frame skip step)
  then show ?thesis using assms(3) by blast
qed

lemma message_ops_ok:
  assumes "list_all (op_ok (findPageSize loc 0)) ops" and "2 * length ops < fuel"
  shows "map message_of (filter (\<lambda>f. \<not> is_page_end f) (view_log (session_view loc (0, ops)))) = concat (map op_messages ops)"
    and "length (view_log (session_view loc (0, ops))) < fuel"
  using journal_of_contents(1) [OF assms(1)] fold_sizes [of "unat (findPageSize loc 0)" ops "(0, [], [])"] assms(2)
  by (simp_all add: journal_of_def log_frames_def)

lemma example_fits: "n \<le> 32 \<Longrightarrow> fits_page (findPageSize loc 0) n"
  using findPageSize_bounds(1) [of loc 0] by (simp add: fits_page_def stride_of_def)

lemmas example_types = valid_type_def MsgType_Trade_def MsgType_BBO_def MsgType_BookReset_def MsgType_PageEnd_def

lemma fl_prices: "fl (401 / 4) = Fin (401 / 4)" "fl (201 / 2) = Fin (201 / 2)" "fl (403 / 4) = Fin (403 / 4)"
  by (rule fl_exact [of _ 401 "- 2"] fl_exact [of _ 201 "- 1"] fl_exact [of _ 403 "- 2"]; simp add: power_int_minus)+

lemma show_small: "show_int 1 = ''1''" "show_int 2 = ''2''" "show_int 3 = ''3''" "show_int 1000 = ''1000''"
  by code_simp+

text \<open>The program \<^verbatim>\<open>basic_write_read\<close> succeeds.  In a temporary directory that has no file yet, with a clock after 1970 and
  whatever the padding of its structs holds, it writes three trades, reads them back, finds the count and the last
  price, exits with 0 and prints that it did; afterwards the file system, the mappings and the open descriptors are as before.\<close>

lemma basic_write_read_succeeds:
  assumes "new_dir (TempDir_new tmp ''basic-write-read'' stamp) K" and "\<forall>i. 0 \<le> sint (clock i)" and "6 < fuel"
  shows "\<exists>K'. basic_write_read os_ok fuel clock pad tmp stamp K = (Inr (0, ''ok basic_write_read messages=3'' @ [CHR 0x0A]), K') \<and>
    (\<forall>key. lookup_file K' key = lookup_file K key) \<and> mset (k_maps K') = mset (k_maps K) \<and> k_fds K' = k_fds K"
proof -
  let ?dir = "TempDir_new tmp ''basic-write-read'' stamp"
  let ?loc = "example_location ?dir ''basic-write-read''"
  let ?ops = "basic_ops clock pad"
  have len: "length (sized_trade_bytes pad t) = 32" for t by (simp add: sized_trade_bytes_def message_fields)
  have ok: "list_all (op_ok (findPageSize ?loc 0)) ?ops" "list_all op_times_ok ?ops" "2 * length ?ops < fuel" "length ?ops < 2000000000"
    using assms(2,3) by (simp_all add: basic_ops_def len example_fits) (simp_all add: example_types)
  have price: "price_at (sized_trade_bytes pad (basic_trade ts (403 / 4) n)) = Fin (403 / 4)" for ts n
    using price_round_trip [of "403 / 4" 403 "- 2"] by (simp add: sized_trade_bytes_def message_fields basic_trade_def fl_prices power_int_minus)
  let ?g = "\<lambda>(t, ty, fl, bs) (c :: int, p). if ty = sint MsgType_Trade then (c + 1, price_at bs) else (c, p)"
  have "deliver_all (every_frame basic_body) (view_log (session_view ?loc (0, ?ops))) (0, Fin 0) =
      (Inr (), fold ?g (concat (map op_messages ?ops)) (0, Fin 0))"
    by (rule deliver_messages [OF _ _ message_ops_ok(1) [OF ok(1,3)]])
      (auto simp: basic_body_def is_page_end_def message_of_def MsgType_PageEnd_def MsgType_Trade_def)
  also have "fold ?g (concat (map op_messages ?ops)) (0, Fin 0) = (3, Fin (10075 / 100))"
    by (simp add: basic_ops_def price) (simp add: example_types)
  finally have r: "reads_all (read_loop os_ok basic_body fuel) (session_view ?loc (0, ?ops)) (0, Fin 0) () (3, Fin (10075 / 100))"
    by (rule reads_all_loop) (rule message_ops_ok(2) [OF ok(1,3)])
  show ?thesis
    unfolding basic_write_read_def Let_def
    by (rule run_main_ok [OF assms(1) example_layout_under ok basic_writes_ops r])
      (simp_all add: fl_prices prog_simps show_small)
qed

lemma new_dir_empty: "new_dir dir ex_disk"
  by (simp add: new_dir_def page_ids_ok_def ex_disk_def lookup_file_def)

end
