(* ===== verification/Example_Dispatch.thy ===== *)
theory Example_Dispatch
  imports Example_Programs
begin

section \<open>The dispatching examples (examples/static_dispatch.cpp, examples/typed_dispatch.cpp)\<close>

text \<open>
  Two programs that write trades, quotes and markers and sort what they read by its type: one in a handler
  of its own given to \<^verbatim>\<open>nextStatic\<close>, the other with a \<^verbatim>\<open>TypedJournalDispatcher\<close>.
\<close>

subsection \<open>Static dispatch\<close>

definition static_step :: "(page_key \<Rightarrow> os_env) \<Rightarrow> (nat \<Rightarrow> u64) \<Rightarrow> u32 \<Rightarrow> nat \<Rightarrow> unit writer_prog" where
  "static_step os clock pad i =
     (let ts = of_nat (i + 1) in
      if i mod 3 = 0 then
        publish os (clock i) ts MsgType_Trade (trade_bytes pad
          \<lparr>trade_timestamp = ts, trade_symbol_id = 101, trade_price = d_add (d_of_int 100) (d_of_int (int i))\<rparr>)
      else if i mod 3 = 1 then
        publish os (clock i) ts MsgType_BBO (bbo_bytes \<lparr>bbo_timestamp = ts, bbo_bid_size = of_nat i, bbo_ask_size = of_nat (i + 1)\<rparr>)
      else mark os (clock i) ts MsgType_BookReset)"

fun static_writes :: "(page_key \<Rightarrow> os_env) \<Rightarrow> (nat \<Rightarrow> u64) \<Rightarrow> u32 \<Rightarrow> nat \<Rightarrow> nat \<Rightarrow> unit writer_prog" where
  "static_writes os clock pad i 0 = return_p ()"
| "static_writes os clock pad i (Suc n) = bind_p (static_step os clock pad i) (\<lambda>_. static_writes os clock pad (Suc i) n)"

text \<open>The user's state is \<^verbatim>\<open>handled\<close> and \<^verbatim>\<open>checksum\<close>; a price that does not fit \<^verbatim>\<open>uint64_t\<close> is undefined.\<close>

definition static_dispatcher :: "(int \<times> u64) handler" where
  "static_dispatcher current = (\<lambda>(handled, checksum).
     let bs = snap_payload current; ty = snap_msg_type current in
     if ty = sint MsgType_Trade then
       (case d_trunc 0 (2 ^ 64) (price_at bs) of
          None \<Rightarrow> (Inl Placement_dependent, (handled, checksum))
        | Some price \<Rightarrow> (Inr (), (handled + 1, checksum XOR (ucast (symbol_id_at bs) + word_of_int price))))
     else if ty = sint MsgType_BBO then
       (Inr (), (handled + 1, checksum XOR ucast (bid_size_at bs + ask_size_at bs)))
     else if ty = sint MsgType_BookReset then (Inr (), (handled + 1, checksum))
     else if ty = sint MsgType_PageEnd then (Inr (), (handled, checksum))
     else (Inl (Runtime_error ''unexpected message type''), (handled, checksum)))"

definition static_dispatch :: "(page_key \<Rightarrow> os_env) \<Rightarrow> nat \<Rightarrow> (nat \<Rightarrow> u64) \<Rightarrow> u32 \<Rightarrow> string \<Rightarrow> int \<Rightarrow> (page_key kernel, int \<times> string) prog" where
  "static_dispatch os fuel clock pad temp_directory stamp =
     (let dir = TempDir_new temp_directory ''static-dispatch'' stamp;
          location = example_location dir ''static-dispatch'';
          messages = 1000
      in run_main dir (
           bind_p (with_writer os location (static_writes os clock pad 0 messages)) (\<lambda>_.
           bind_p (with_reader os fuel location (read_loop os static_dispatcher fuel) (0, 0)) (\<lambda>(_, handled, checksum).
           if handled \<noteq> int messages then throw_p (Runtime_error ''static dispatch verification failed'')
           else return_p (''ok static_dispatch handled='' @ show_int handled @ '' checksum='' @ show_int (uint checksum) @ [CHR 0x0A])))))"

subsection \<open>Typed dispatch\<close>

text \<open>The user's state: \<^verbatim>\<open>trades\<close>, \<^verbatim>\<open>bbo\<close>, \<^verbatim>\<open>resets\<close>, \<^verbatim>\<open>last_trade\<close> and \<^verbatim>\<open>bbo_size\<close>.\<close>

record typed_user =
  trades :: int
  quotes :: int
  resets :: int
  last_trade :: double
  bbo_size :: u32

definition typed_trade :: "u32 \<Rightarrow> u64 \<Rightarrow> rat \<Rightarrow> u8 list" where
  "typed_trade pad ts price = trade_bytes pad \<lparr>trade_timestamp = ts, trade_symbol_id = 101, trade_price = fl price\<rparr>"

definition typed_writes :: "(page_key \<Rightarrow> os_env) \<Rightarrow> (nat \<Rightarrow> u64) \<Rightarrow> u32 \<Rightarrow> unit writer_prog" where
  "typed_writes os clock pad =
     bind_p (publish os (clock 0) 1 MsgType_Trade (typed_trade pad 1 (10025 / 100))) (\<lambda>_.
     bind_p (publish os (clock 1) 2 MsgType_BBO (bbo_bytes \<lparr>bbo_timestamp = 2, bbo_bid_size = 500, bbo_ask_size = 700\<rparr>)) (\<lambda>_.
     bind_p (mark os (clock 2) 3 MsgType_BookReset) (\<lambda>_.
     publish os (clock 3) 4 MsgType_Trade (typed_trade pad 4 (10050 / 100)))))"

definition typed_dispatcher :: "typed_user TypedJournalDispatcher" where
  "typed_dispatcher =
     td_on MsgType_BookReset \<lparr>th_size = 1, th_is_empty = True, th_call = (\<lambda>m frame u.
         if snap_payload frame \<noteq> [] then (Inl (Runtime_error ''BookReset should have no payload''), u\<lparr>resets := resets u + 1\<rparr>)
         else (Inr (), u\<lparr>resets := resets u + 1\<rparr>))\<rparr>
     (td_on MsgType_BBO \<lparr>th_size = 16, th_is_empty = False, th_call = (\<lambda>quote frame u.
         (Inr (), u\<lparr>quotes := quotes u + 1, bbo_size := bid_size_at quote + ask_size_at quote\<rparr>))\<rparr>
     (td_on MsgType_Trade \<lparr>th_size = 24, th_is_empty = False, th_call = (\<lambda>trade frame u.
         (Inr (), u\<lparr>trades := trades u + 1, last_trade := price_at trade\<rparr>))\<rparr>
     TypedJournalDispatcher_new))"

definition typed_dispatch :: "(page_key \<Rightarrow> os_env) \<Rightarrow> nat \<Rightarrow> (nat \<Rightarrow> u64) \<Rightarrow> u32 \<Rightarrow> string \<Rightarrow> int \<Rightarrow> (page_key kernel, int \<times> string) prog" where
  "typed_dispatch os fuel clock pad temp_directory stamp =
     (let dir = TempDir_new temp_directory ''typed-dispatch'' stamp;
          location = example_location dir ''typed-dispatch''
      in run_main dir (
           bind_p (with_writer os location (typed_writes os clock pad)) (\<lambda>_.
           bind_p (with_reader os fuel location (td_run os typed_dispatcher (2 ^ 64 - 1))
               \<lparr>trades = 0, quotes = 0, resets = 0, last_trade = Fin 0, bbo_size = 0\<rparr>) (\<lambda>(dispatched, u).
           if dispatched \<noteq> 4 \<or> trades u \<noteq> 2 \<or> quotes u \<noteq> 1 \<or> resets u \<noteq> 1 \<or> \<not> d_eq (last_trade u) (fl (10050 / 100)) \<or>
              bbo_size u \<noteq> 1200
           then throw_p (Runtime_error ''typed dispatch verification failed'')
           else return_p (''ok typed_dispatch trades='' @ show_int (trades u) @ '' bbo='' @ show_int (quotes u) @
             '' resets='' @ show_int (resets u) @ [CHR 0x0A])))))"

subsection \<open>The typed program succeeds\<close>

lemma trade_fields:
  "symbol_id_at (trade_bytes pad t) = trade_symbol_id t" "price_at (trade_bytes pad t) = double_of_bits (double_bits (trade_price t))"
  using message_fields(1,2) [of pad t "[]"] by simp_all

lemma mark_run: "mark os now t ty = run_op os (Mark now t ty)"
  by simp

definition typed_ops :: "(nat \<Rightarrow> u64) \<Rightarrow> u32 \<Rightarrow> writer_op list" where
  "typed_ops clock pad =
     [Write_data (clock 0) 1 MsgType_Trade FRAME_NORMAL (typed_trade pad 1 (10025 / 100)),
      Write_data (clock 1) 2 MsgType_BBO FRAME_NORMAL (bbo_bytes \<lparr>bbo_timestamp = 2, bbo_bid_size = 500, bbo_ask_size = 700\<rparr>),
      Mark (clock 2) 3 MsgType_BookReset,
      Write_data (clock 3) 4 MsgType_Trade FRAME_NORMAL (typed_trade pad 4 (10050 / 100))]"

lemma typed_writes_ops: "typed_writes os clock pad s = run_ops os (typed_ops clock pad) s"
  by (simp add: typed_writes_def typed_ops_def publish_run bind_return)

lemma example_size: "findPageSize (example_location dir name) 0 = PAGE_SIZE_DEFAULT"
  by (simp add: findPageSize_def example_location_def Location_new_def Let_def)

lemma typed_journal:
  "journal_of (example_location dir name) 0 (typed_ops clock pad) =
     [snap_of 1 MsgType_Trade FRAME_NORMAL 0 (typed_trade pad 1 (10025 / 100)),
      snap_of 2 MsgType_BBO FRAME_NORMAL 1 (bbo_bytes \<lparr>bbo_timestamp = 2, bbo_bid_size = 500, bbo_ask_size = 700\<rparr>),
      snap_of 3 MsgType_BookReset FRAME_NORMAL 2 [],
      snap_of 4 MsgType_Trade FRAME_NORMAL 3 (typed_trade pad 4 (10050 / 100))]"
  by (simp add: journal_of_def typed_ops_def log_append_def log_put_def log_frames_def example_size page_size_defs stride_of_def
      frames_len_def frame_stride_def snap_of_def typed_trade_def message_fields)

text \<open>The program \<^verbatim>\<open>typed_dispatch\<close> succeeds.  In a new directory it writes four messages of three types, hands each to the
  handler of its type, with the empty payload of the marker included, counts four frames, finds the last price and the sizes, exits
  with 0 and leaves everything else as it was.\<close>

lemma typed_dispatch_succeeds:
  assumes "new_dir (TempDir_new tmp ''typed-dispatch'' stamp) K" and "\<forall>i. 0 \<le> sint (clock i)" and "8 < fuel"
  shows "\<exists>K'. typed_dispatch os_ok fuel clock pad tmp stamp K =
      (Inr (0, ''ok typed_dispatch trades=2 bbo=1 resets=1'' @ [CHR 0x0A]), K') \<and>
    (\<forall>key. lookup_file K' key = lookup_file K key) \<and> mset (k_maps K') = mset (k_maps K) \<and> k_fds K' = k_fds K"
proof -
  let ?dir = "TempDir_new tmp ''typed-dispatch'' stamp"
  let ?loc = "example_location ?dir ''typed-dispatch''" and ?ops = "typed_ops clock pad"
  let ?u = "\<lparr>trades = 0, quotes = 0, resets = 0, last_trade = Fin 0, bbo_size = 0\<rparr>"
  let ?u' = "\<lparr>trades = 2, quotes = 1, resets = 1, last_trade = Fin (201 / 2), bbo_size = 1200\<rparr>"
  have len: "length (typed_trade pad ts x) = 24" for ts x by (simp add: typed_trade_def message_fields)
  have ok: "list_all (op_ok (findPageSize ?loc 0)) ?ops" "list_all op_times_ok ?ops" "2 * length ?ops < fuel" "length ?ops < 2000000000"
    using assms(2,3) by (simp_all add: typed_ops_def len message_fields example_fits) (simp_all add: example_types)
  have price: "price_at (typed_trade pad ts (201 / 2)) = Fin (201 / 2)" for ts
    using price_round_trip [of "201 / 2" 201 "- 1"] by (simp add: typed_trade_def trade_fields fl_prices power_int_minus)
  have log: "view_log (session_view ?loc (0, ?ops)) = journal_of ?loc 0 ?ops" by simp
  have "deliver_all typed_dispatcher (journal_of ?loc 0 ?ops) ?u = (Inr (), ?u')"
    unfolding typed_journal
    by (simp add: deliver_def typed_dispatcher_def td_on_def TypedJournalDispatcher_new_def snap_of_def example_types len price message_fields)
  then have r: "reads_all (td_run os_ok typed_dispatcher (2 ^ 64 - 1)) (session_view ?loc (0, ?ops)) ?u
      (length (view_log (session_view ?loc (0, ?ops)))) ?u'"
    by (intro reads_all_run) (simp_all only: log typed_journal, simp)
  show ?thesis
    unfolding typed_dispatch_def Let_def
    by (rule run_main_ok [OF assms(1) example_layout_under ok typed_writes_ops r])
      (simp_all add: fl_prices prog_simps show_small typed_journal)
qed

subsection \<open>The static program succeeds\<close>

definition static_op :: "(nat \<Rightarrow> u64) \<Rightarrow> u32 \<Rightarrow> nat \<Rightarrow> writer_op" where
  "static_op clock pad i =
     (let ts = of_nat (i + 1) in
      if i mod 3 = 0 then Write_data (clock i) ts MsgType_Trade FRAME_NORMAL (trade_bytes pad
          \<lparr>trade_timestamp = ts, trade_symbol_id = 101, trade_price = d_add (d_of_int 100) (d_of_int (int i))\<rparr>)
      else if i mod 3 = 1 then Write_data (clock i) ts MsgType_BBO FRAME_NORMAL
          (bbo_bytes \<lparr>bbo_timestamp = ts, bbo_bid_size = of_nat i, bbo_ask_size = of_nat (i + 1)\<rparr>)
      else Mark (clock i) ts MsgType_BookReset)"

lemma static_writes_ops: "static_writes os clock pad i n s = run_ops os (map (static_op clock pad) [i..<i + n]) s"
proof (induction n arbitrary: i s)
  case (Suc n)
  have "static_step os clock pad i = run_op os (static_op clock pad i)"
    by (simp add: static_step_def static_op_def publish_run Let_def)
  moreover have "[i..<i + Suc n] = i # [Suc i..<Suc i + n]" by (simp add: upt_rec)
  ultimately show ?case by (simp add: bind_p_def Suc.IH split: prod.split sum.split)
qed (simp add: prog_simps)

text \<open>What the dispatcher does with a message, and with the message of every step.\<close>

definition static_message :: "u64 \<times> int \<times> u16 \<times> u8 list \<Rightarrow> int \<times> u64 \<Rightarrow> int \<times> u64" where
  "static_message = (\<lambda>(t, ty, fl, bs) (handled, checksum).
     (handled + 1,
      if ty = sint MsgType_Trade then checksum XOR (ucast (symbol_id_at bs) + word_of_int (the (d_trunc 0 (2 ^ 64) (price_at bs))))
      else if ty = sint MsgType_BBO then checksum XOR ucast (bid_size_at bs + ask_size_at bs) else checksum))"

definition static_checksum :: "nat \<Rightarrow> u64" where
  "static_checksum n = fold (\<lambda>i c. if i mod 3 = 0 then c XOR of_nat (201 + i) else if i mod 3 = 1 then c XOR of_nat (2 * i + 1) else c) [0..<n] 0"

lemma static_price:
  assumes "i < 1000"
  shows "d_add (d_of_int 100) (d_of_int (int i)) = Fin (of_int (100 + int i))"
    and "double_of_bits (double_bits (Fin (of_int (100 + int i)))) = Fin (of_int (100 + int i))"
proof -
  have "d_of_int 100 = Fin (of_int 100)" "d_of_int (int i) = Fin (of_int (int i))"
    unfolding d_of_int_def using assms by (intro fl_int; simp)+
  moreover have "fl (of_int (100 + int i)) = Fin (of_int (100 + int i))" using assms by (intro fl_int) simp
  ultimately show "d_add (d_of_int 100) (d_of_int (int i)) = Fin (of_int (100 + int i))" by simp
  show "double_of_bits (double_bits (Fin (of_int (100 + int i)))) = Fin (of_int (100 + int i))"
    using assms powi_gt [of "100 + int i" 53 1024] by (intro price_round_trip [of _ "100 + int i" 0]) simp_all
qed

lemma static_op_message:
  assumes "i < 1000"
  obtains t ty fl bs where "op_messages (static_op clock pad i) = [(t, ty, fl, bs)]"
    and "ty \<in> {sint MsgType_Trade, sint MsgType_BBO, sint MsgType_BookReset}"
    and "ty = sint MsgType_Trade \<longrightarrow> d_trunc 0 (2 ^ 64) (price_at bs) \<noteq> None"
    and "static_message (t, ty, fl, bs) (int i, static_checksum i) = (int (Suc i), static_checksum (Suc i))"
proof -
  let ?t = "of_nat (i + 1) :: u64"
  have types: "uint (ucast MsgType_Trade :: u16) = sint MsgType_Trade" "uint (ucast MsgType_BBO :: u16) = sint MsgType_BBO"
    "uint (ucast MsgType_BookReset :: u16) = sint MsgType_BookReset" "sint MsgType_BBO \<noteq> sint MsgType_Trade"
    "sint MsgType_BookReset \<noteq> sint MsgType_Trade" "sint MsgType_BookReset \<noteq> sint MsgType_BBO"
    by (simp_all add: example_types)
  consider "i mod 3 = 0" | "i mod 3 = 1" | "i mod 3 = 2" by linarith
  then show thesis
  proof cases
    case 1
    define bs where "bs = trade_bytes pad \<lparr>trade_timestamp = ?t, trade_symbol_id = 101, trade_price = d_add (d_of_int 100) (d_of_int (int i))\<rparr>"
    have op: "op_messages (static_op clock pad i) = [(?t, sint MsgType_Trade, FRAME_NORMAL, bs)]"
      by (simp add: static_op_def Let_def 1 bs_def types)
    have "price_at bs = Fin (of_int (100 + int i))"
      unfolding bs_def static_price(1) [OF assms] by (simp only: trade_fields Trade.simps static_price(2) [OF assms])
    then have "d_trunc 0 (2 ^ 64) (price_at bs) = Some (100 + int i)" using assms by simp
    moreover have "symbol_id_at bs = 101" by (simp add: bs_def trade_fields)
    ultimately show thesis by (intro that [OF op]) (simp_all add: static_message_def static_checksum_def 1)
  next
    case 2
    define bs where "bs = bbo_bytes \<lparr>bbo_timestamp = ?t, bbo_bid_size = of_nat i, bbo_ask_size = of_nat (i + 1)\<rparr>"
    have op: "op_messages (static_op clock pad i) = [(?t, sint MsgType_BBO, FRAME_NORMAL, bs)]"
      by (simp add: static_op_def Let_def 2 bs_def types)
    have "bid_size_at bs + ask_size_at bs = of_nat (2 * i + 1)" by (simp add: bs_def message_fields)
    moreover have "(ucast (of_nat (2 * i + 1) :: u32) :: u64) = of_nat (2 * i + 1)"
      using assms by (simp only: unsigned_of_nat take_bit_nat_eq_self_iff) (simp add: take_bit_nat_eq_self)
    ultimately have "ucast (bid_size_at bs + ask_size_at bs) = (of_nat (2 * i + 1) :: u64)" by simp
    then show thesis by (intro that [OF op]) (simp_all add: static_message_def static_checksum_def 2 types del: of_nat_add of_nat_mult of_nat_Suc)
  next
    case 3
    have op: "op_messages (static_op clock pad i) = [(?t, sint MsgType_BookReset, FRAME_NORMAL, [])]"
      by (simp add: static_op_def Let_def 3 types)
    show thesis by (intro that [OF op]) (simp_all add: static_message_def static_checksum_def 3 types)
  qed
qed

lemma static_messages:
  assumes "n \<le> 1000"
  shows "fold static_message (concat (map op_messages (map (static_op clock pad) [0..<n]))) (0, 0) = (int n, static_checksum n)"
  using assms
proof (induction n)
  case (Suc n)
  then have "n < 1000" by simp
  then obtain t ty fl bs where "op_messages (static_op clock pad n) = [(t, ty, fl, bs)]"
    "static_message (t, ty, fl, bs) (int n, static_checksum n) = (int (Suc n), static_checksum (Suc n))"
    by (rule static_op_message)
  with Suc show ?case by simp
qed (simp add: static_checksum_def)

lemma static_dispatcher_message:
  assumes "message_of f \<in> set (concat (map op_messages (map (static_op clock pad) [0..<1000])))"
  shows "static_dispatcher f u = (Inr (), static_message (message_of f) u)"
proof -
  obtain i where i: "i < 1000" "message_of f \<in> set (op_messages (static_op clock pad i))" using assms by auto
  obtain t ty fl bs where o: "op_messages (static_op clock pad i) = [(t, ty, fl, bs)]"
    and m: "ty \<in> {sint MsgType_Trade, sint MsgType_BBO, sint MsgType_BookReset}"
      "ty = sint MsgType_Trade \<longrightarrow> d_trunc 0 (2 ^ 64) (price_at bs) \<noteq> None"
    by (rule static_op_message [OF i(1), of clock pad])
  have mf: "message_of f = (t, ty, fl, bs)" using i(2) o by simp
  then have f: "snap_msg_type f = ty" "snap_payload f = bs" by (simp_all add: message_of_def)
  have types: "sint MsgType_BBO \<noteq> sint MsgType_Trade" "sint MsgType_BookReset \<noteq> sint MsgType_Trade"
    "sint MsgType_BookReset \<noteq> sint MsgType_BBO" by (simp_all add: example_types)
  obtain handled checksum where u: "u = (handled, checksum)" by (cases u)
  show ?thesis
  proof (cases "ty = sint MsgType_Trade")
    case True
    obtain p where "d_trunc 0 (2 ^ 64) (price_at bs) = Some p" using m(2) True by blast
    then show ?thesis by (simp add: static_dispatcher_def Let_def f u True mf static_message_def)
  next
    case False
    then show ?thesis using m(1) by (auto simp: static_dispatcher_def Let_def f u mf static_message_def types)
  qed
qed

text \<open>The program \<^verbatim>\<open>static_dispatch\<close> succeeds.  In a new directory it writes a thousand messages of three types in turn, and
  its own handler sees every one of them exactly once, skips the sentinels the library adds, and never
  throws; it exits with 0, printing the number of messages and the exclusive or of the sums of their
  fields, and leaves everything else as it was.\<close>

lemma static_dispatch_succeeds:
  assumes "new_dir (TempDir_new tmp ''static-dispatch'' stamp) K" and "\<forall>i. 0 \<le> sint (clock i)" and "2000 < fuel"
  shows "\<exists>K'. static_dispatch os_ok fuel clock pad tmp stamp K =
      (Inr (0, ''ok static_dispatch handled=1000 checksum='' @ show_int (uint (static_checksum 1000)) @ [CHR 0x0A]), K') \<and>
    (\<forall>key. lookup_file K' key = lookup_file K key) \<and> mset (k_maps K') = mset (k_maps K) \<and> k_fds K' = k_fds K"
proof -
  let ?dir = "TempDir_new tmp ''static-dispatch'' stamp"
  let ?loc = "example_location ?dir ''static-dispatch''" and ?ops = "map (static_op clock pad) [0..<1000]"
  have len: "length (trade_bytes pad t) = 24" for t :: Trade by (rule message_fields(3))
  have time: "0 \<le> sint (of_nat (i + 1) :: u64)" if "i < 1000" for i
    using that by (simp only: signed_of_nat) (simp add: signed_take_bit_int_eq_self)
  have "op_ok (findPageSize ?loc 0) (static_op clock pad i) \<and> op_times_ok (static_op clock pad i)" if "i < 1000" for i
    using assms(2) time [OF that] by (simp add: static_op_def Let_def len message_fields example_fits) (simp add: example_types)
  then have ok: "list_all (op_ok (findPageSize ?loc 0)) ?ops" "list_all op_times_ok ?ops" "2 * length ?ops < fuel" "length ?ops < 2000000000"
    using assms(3) by (auto simp: list_all_iff)
  have "deliver_all (every_frame static_dispatcher) (view_log (session_view ?loc (0, ?ops))) (0, 0) =
      (Inr (), fold static_message (concat (map op_messages ?ops)) (0, 0))"
  proof (rule deliver_messages [OF _ _ message_ops_ok(1) [OF ok(1,3)]])
    show "static_dispatcher f u = (Inr (), u)" if "is_page_end f" for f u
      using that by (cases u) (simp add: static_dispatcher_def Let_def is_page_end_def example_types)
  qed (rule static_dispatcher_message)
  also have "\<dots> = (Inr (), (1000, static_checksum 1000))" using static_messages [of 1000] by simp
  finally have r: "reads_all (read_loop os_ok static_dispatcher fuel) (session_view ?loc (0, ?ops)) (0, 0) () (1000, static_checksum 1000)"
    by (rule reads_all_loop) (rule message_ops_ok(2) [OF ok(1,3)])
  have w: "static_writes os_ok clock pad 0 1000 s = run_ops os_ok ?ops s" for s using static_writes_ops [of os_ok clock pad 0 1000 s] by simp
  show ?thesis
    unfolding static_dispatch_def Let_def
    by (rule run_main_ok [OF assms(1) example_layout_under ok w r]) (simp_all add: prog_simps show_small)
qed

end
