(* ===== verification/Example_Processes.thy ===== *)
theory Example_Processes
  imports Example_Programs
begin

section \<open>A writer and a reader in two processes (examples/multiprocess.cpp)\<close>

text \<open>
  The program forks: the parent writes trades, the child reads them, checks that no sequence number is
  missing, and gives up after ten seconds.  The two processes share the files and nothing else; each has its own
  mappings and descriptors.  After the start, which the pipe orders, their turns interleave as a schedule
  says; a turn of the child carries the time its clock shows.  A schedule that ends before the program does is the
  error \<open>Blocked\<close>.  The outcomes of \<^verbatim>\<open>pipe\<close>, \<^verbatim>\<open>fork\<close>, \<^verbatim>\<open>read\<close>, \<^verbatim>\<open>write\<close> and \<^verbatim>\<open>waitpid\<close> are arguments.
\<close>

subsection \<open>Arguments, clock and pipe\<close>

record timespec =
  tv_sec :: int
  tv_nsec :: int

record process_env =
  pe_pipe :: bool
  pe_fork :: bool
  pe_write :: bool
  pe_read :: bool
  pe_waitpid :: bool

text \<open>\<^verbatim>\<open>None\<close>: the arguments are wrong and the usage is printed.\<close>

fun parse_args :: "int \<Rightarrow> string list \<Rightarrow> error + int option" where
  "parse_args messages [] = Inr (Some messages)"
| "parse_args messages [arg] = Inr None"
| "parse_args messages (arg # n # args) =
     (if arg = ''--messages'' then (case stoi n of Inl e \<Rightarrow> Inl e | Inr m \<Rightarrow> parse_args m args) else Inr None)"

definition elapsedSeconds :: "timespec \<Rightarrow> timespec \<Rightarrow> double" where
  "elapsedSeconds start now =
     d_add (d_of_int (tv_sec now - tv_sec start)) (d_mul (d_of_int (tv_nsec now - tv_nsec start)) (fl (1 / 10 ^ 9)))"

definition writeSignal :: "bool \<Rightarrow> error + u8" where
  "writeSignal ok = (if ok then Inr 1 else Inl (Exit 10))"

text \<open>The pipe is empty when the child has ended without a signal.\<close>

definition readSignal :: "bool \<Rightarrow> u8 option \<Rightarrow> bool" where
  "readSignal ok pipe = (case pipe of None \<Rightarrow> False | Some v \<Rightarrow> ok \<and> v = 1)"

definition close_fd :: "page_key kernel \<Rightarrow> page_key kernel" where
  "close_fd K = K\<lparr>k_fds := k_fds K - 1\<rparr>"

text \<open>What one process has done to the files, the other sees.\<close>

definition see_files :: "page_key kernel \<Rightarrow> page_key kernel \<Rightarrow> page_key kernel" where
  "see_files K' K = K\<lparr>k_files := k_files K'\<rparr>"

subsection \<open>The child\<close>

datatype child_status = Running | Exited int | Signalled

text \<open>The state of the loop is \<^verbatim>\<open>count\<close> and \<^verbatim>\<open>prev_sequence\<close>.\<close>

definition child_body :: "(int \<times> int) handler" where
  "child_body current = (\<lambda>(count, prev_sequence).
     let sequence = sint (snap_sequence current) in
     if sequence \<noteq> prev_sequence + 1 then (Inl (Exit 12), (count, prev_sequence))
     else (Inr (), (if snap_msg_type current = sint MsgType_Trade then count + 1 else count, sequence)))"

text \<open>One round of the loop, with the test that ends it.\<close>

definition child_turn :: "(page_key \<Rightarrow> os_env) \<Rightarrow> int \<Rightarrow> timespec \<Rightarrow> timespec \<Rightarrow> (int \<times> int, unit) dispatch_prog" where
  "child_turn os messages start now = (\<lambda>((count, prev_sequence), s).
     if \<not> count < messages then (Inl (Exit 0), ((count, prev_sequence), s))
     else if d_less (Fin 10) (elapsedSeconds start now) then (Inl (Exit 11), ((count, prev_sequence), s))
     else (bind_p (on_snd tryCurrentFrame) (\<lambda>current.
       if fv_frame current = None then return_p ()
       else bind_p (on_snd (snap_view current)) (\<lambda>frame.
            bind_p (on_user (child_body frame)) (\<lambda>_. on_snd (advance os current))))) ((count, prev_sequence), s))"

text \<open>How the child ends: \<^verbatim>\<open>_exit\<close> runs no destructor; an exception leaves the scopes of the reader, of the
  child's copy of the writer and of the directory, and \<^verbatim>\<open>main\<close> returns 1; a fault kills.\<close>

definition child_ends :: "(page_key \<Rightarrow> os_env) \<Rightarrow> string \<Rightarrow> JournalWriter \<Rightarrow> error \<Rightarrow> JournalReader \<times> page_key kernel \<Rightarrow> child_status \<times> page_key kernel" where
  "child_ends os dir w e = (\<lambda>(r, K).
     case e of Exit n \<Rightarrow> (Exited n, K)
     | _ \<Rightarrow> if \<not> is_exception e then (Signalled, K)
       else (case JournalReader_destroy os (r, K) of
               (Inl _, (_, K1)) \<Rightarrow> (Signalled, K1)
             | (Inr _, (_, K1)) \<Rightarrow> (case JournalWriter_destroy os (w, K1) of
                 (Inl _, (_, K2)) \<Rightarrow> (Signalled, K2)
               | (Inr _, (_, K2)) \<Rightarrow> (Exited 1, TempDir_destroy dir K2))))"

text \<open>The child up to its loop: it joins the journal and signals.\<close>

definition child_start ::
    "(page_key \<Rightarrow> os_env) \<Rightarrow> process_env \<Rightarrow> nat \<Rightarrow> string \<Rightarrow> Location \<Rightarrow> JournalWriter \<Rightarrow> page_key kernel \<Rightarrow>
     child_status \<times> u8 option \<times> JournalReader \<times> page_key kernel" where
  "child_start os env fuel dir loc w K =
     (case join_reader os fuel loc 0 0 (JournalReader_new example_reader_options, close_fd K) of
        (Inl e, (r, K1)) \<Rightarrow> (case child_ends os dir w e (r, K1) of (st, K2) \<Rightarrow> (st, None, r, K2))
      | (Inr _, (r, K1)) \<Rightarrow> (case writeSignal (pe_write env) of
          Inl e \<Rightarrow> (case child_ends os dir w e (r, K1) of (st, K2) \<Rightarrow> (st, None, r, K2))
        | Inr value \<Rightarrow> (Running, Some value, r, close_fd K1)))"

subsection \<open>Both processes\<close>

record processes =
  ps_parent :: "JournalWriter \<times> page_key kernel"
  ps_published :: nat
  ps_child :: "(int \<times> int) \<times> JournalReader \<times> page_key kernel"
  ps_forked :: JournalWriter
  ps_status :: child_status

datatype process_event = Parent_runs | Child_runs timespec

definition child_step :: "(page_key \<Rightarrow> os_env) \<Rightarrow> string \<Rightarrow> int \<Rightarrow> timespec \<Rightarrow> timespec \<Rightarrow> processes \<Rightarrow> processes" where
  "child_step os dir messages start now p =
     (if ps_status p \<noteq> Running then p
      else (case child_turn os messages start now (ps_child p) of (res, (u, r, K)) \<Rightarrow>
        (case (case res of Inr _ \<Rightarrow> (Running, K) | Inl e \<Rightarrow> child_ends os dir (ps_forked p) e (r, K)) of (st, K') \<Rightarrow>
          p\<lparr>ps_status := st, ps_child := (u, r, K'), ps_parent := (fst (ps_parent p), see_files K' (snd (ps_parent p)))\<rparr>)))"

definition process_trade :: "u32 \<Rightarrow> nat \<Rightarrow> u8 list" where
  "process_trade pad i = sized_trade_bytes pad
     \<lparr>trade_timestamp = of_nat (i + 1), trade_symbol_id = 101, trade_price = d_add (d_of_int 100) (d_of_int (int i)), trade_quantity = 10\<rparr>"

text \<open>A turn of the parent publishes the next trade or, after the last, waits; the result is whether it is done.\<close>

definition parent_step :: "(page_key \<Rightarrow> os_env) \<Rightarrow> process_env \<Rightarrow> int \<Rightarrow> (nat \<Rightarrow> u64) \<Rightarrow> u32 \<Rightarrow> (processes, bool) prog" where
  "parent_step os env messages clock pad p =
     (let i = ps_published p in
      if int i < messages then
        (case publish os (clock i) (of_nat (i + 1)) MsgType_Trade (process_trade pad i) (ps_parent p) of (res, (w, K)) \<Rightarrow>
          (case res of Inl e \<Rightarrow> Inl e | Inr _ \<Rightarrow> Inr False,
           p\<lparr>ps_parent := (w, K), ps_published := Suc i,
             ps_child := (case ps_child p of (u, r, K') \<Rightarrow> (u, r, see_files K K'))\<rparr>))
      else if \<not> pe_waitpid env then (Inl (Runtime_error ''waitpid failed''), p)
      else if ps_status p = Running then (Inr False, p)
      else if ps_status p = Exited 0 then (Inr True, p)
      else (Inl (Runtime_error ''child reader verification failed''), p))"

fun run_processes ::
    "(page_key \<Rightarrow> os_env) \<Rightarrow> process_env \<Rightarrow> string \<Rightarrow> int \<Rightarrow> (nat \<Rightarrow> u64) \<Rightarrow> u32 \<Rightarrow> timespec \<Rightarrow> process_event list \<Rightarrow> (processes, unit) prog" where
  "run_processes os env dir messages clock pad start [] p = (Inl Blocked, p)"
| "run_processes os env dir messages clock pad start (Child_runs now # evs) p =
     run_processes os env dir messages clock pad start evs (child_step os dir messages start now p)"
| "run_processes os env dir messages clock pad start (Parent_runs # evs) p =
     (case parent_step os env messages clock pad p of
        (Inl e, p') \<Rightarrow> (Inl e, p')
      | (Inr finished, p') \<Rightarrow> if finished then (Inr (), p') else run_processes os env dir messages clock pad start evs p')"

text \<open>From \<^verbatim>\<open>pipe\<close> to \<^verbatim>\<open>waitpid\<close>, in the scope of the writer.\<close>

definition multiprocess_body ::
    "(page_key \<Rightarrow> os_env) \<Rightarrow> process_env \<Rightarrow> nat \<Rightarrow> string \<Rightarrow> Location \<Rightarrow> int \<Rightarrow> (nat \<Rightarrow> u64) \<Rightarrow> u32 \<Rightarrow> timespec \<Rightarrow>
     process_event list \<Rightarrow> unit writer_prog" where
  "multiprocess_body os env fuel dir loc messages clock pad start schedule = (\<lambda>(w, K).
     if \<not> pe_pipe env then (Inl (Runtime_error ''pipe failed''), (w, K))
     else let K1 = K\<lparr>k_fds := k_fds K + 2\<rparr> in
     if \<not> pe_fork env then (Inl (Runtime_error ''fork failed''), (w, K1))
     else (case child_start os env fuel dir loc w K1 of (st, pipe, r, Kc) \<Rightarrow>
       let Kp = close_fd (see_files Kc K1) in
       if \<not> readSignal (pe_read env) pipe then (Inl (Runtime_error ''child reader did not signal ready''), (w, Kp))
       else (case run_processes os env dir messages clock pad start schedule
           \<lparr>ps_parent = (w, close_fd Kp), ps_published = 0, ps_child = ((0, - 1), r, Kc), ps_forked = w, ps_status = st\<rparr> of
         (res, p) \<Rightarrow> (res, ps_parent p))))"

definition multiprocess ::
    "(page_key \<Rightarrow> os_env) \<Rightarrow> process_env \<Rightarrow> nat \<Rightarrow> (nat \<Rightarrow> u64) \<Rightarrow> u32 \<Rightarrow> string \<Rightarrow> string list \<Rightarrow> string \<Rightarrow> int \<Rightarrow> timespec \<Rightarrow>
     process_event list \<Rightarrow> (page_key kernel, int \<times> string) prog" where
  "multiprocess os env fuel clock pad argv0 args temp_directory stamp start schedule =
     (case parse_args 1000 args of
        Inl e \<Rightarrow> return_p (1, ''error: '' @ what e @ [CHR 0x0A])
      | Inr None \<Rightarrow> return_p (2, ''Usage: '' @ argv0 @ '' [--messages N]'' @ [CHR 0x0A])
      | Inr (Some messages) \<Rightarrow>
          (let dir = TempDir_new temp_directory ''multiprocess'' stamp;
               location = example_location dir ''multiprocess''
           in run_main dir (
                bind_p (with_writer os location (multiprocess_body os env fuel dir location messages clock pad start schedule)) (\<lambda>_.
                return_p (''ok multiprocess messages='' @ show_int messages @ [CHR 0x0A])))))"

subsection \<open>The clock\<close>

text \<open>Up to a difference of nine in the seconds, whatever the nanoseconds are, ten seconds have not passed.\<close>

lemma elapsed_in_time:
  assumes "0 \<le> tv_sec now - tv_sec start" "tv_sec now - tv_sec start \<le> 9" and "\<bar>tv_nsec now - tv_nsec start\<bar> < 10 ^ 9"
  shows "\<not> d_less (Fin 10) (elapsedSeconds start now)"
proof -
  have round64_int: "round64 1 = 1" "round64 (- 1) = - 1" "round64 10 = 10"
    using round64_exact [of 1 1 0] round64_exact [of "- 1" "- 1" 0] round64_exact [of 10 10 0] by simp_all
  define s n where "s = tv_sec now - tv_sec start" and "n = tv_nsec now - tv_nsec start"
  have sn: "0 \<le> s" "s \<le> 9" "\<bar>n\<bar> < 10 ^ 9" using assms by (simp_all add: s_def n_def)
  have i: "d_of_int s = Fin (of_int s)" "d_of_int n = Fin (of_int n)" unfolding d_of_int_def using sn by (intro fl_int; simp)+
  have small: "(2 :: rat) powi (- 1022) \<le> \<bar>1 / 10 ^ 9\<bar>" "\<bar>1 / 10 ^ 9\<bar> \<le> (2 :: rat) powi 1000" by (simp_all add: power_int_minus)
  define y where "y = round64 (1 / 10 ^ 9)"
  have y: "fl (1 / 10 ^ 9) = Fin y" using fl_finite [OF small(2)] by (simp add: y_def)
  have "\<bar>y - 1 / 10 ^ 9\<bar> \<le> \<bar>1 / 10 ^ 9\<bar> / 2 ^ 53" unfolding y_def using round64_relative [OF small(1)] by (simp add: power_int_minus)
  from abs_le_D1 [OF this] abs_le_D2 [OF this] have y1: "0 \<le> y" "(10 ^ 9 - 1) * y \<le> 1" by simp_all
  have "\<bar>of_int n :: rat\<bar> \<le> 10 ^ 9 - 1" using sn(3) by (simp flip: of_int_abs)
  then have "\<bar>of_int n * y\<bar> \<le> 1" using y1 mult_right_mono [of "\<bar>of_int n\<bar>" "10 ^ 9 - 1" y] by (simp add: abs_mult)
  then have ny: "- 1 \<le> of_int n * y" "of_int n * y \<le> 1" by linarith+
  have big: "\<bar>- 1 :: rat\<bar> < 2 powi 1024" "\<bar>1 :: rat\<bar> < 2 powi 1024" "\<bar>10 :: rat\<bar> < 2 powi 1024" by simp_all
  obtain z where z: "fl (of_int n * y) = Fin z" "- 1 \<le> z" "z \<le> 1"
    by (rule fl_between [OF ny round64_int(2,1) big(1,2)])
  have "(of_int s :: rat) \<le> 9" "(0 :: rat) \<le> of_int s" using sn by simp_all
  then have "- 1 \<le> of_int s + z" "of_int s + z \<le> 10" using z(2,3) by linarith+
  then obtain x where "fl (of_int s + z) = Fin x" "x \<le> 10"
    by (rule fl_between [OF _ _ round64_int(2,3) big(1,3)])
  then show ?thesis using i y z(1) by (simp add: elapsedSeconds_def s_def [symmetric] n_def [symmetric])
qed

subsection \<open>The child follows\<close>

lemma child_turn_next:
  "child_turn os messages start now ((c, prev), s) =
     (if \<not> c < messages then (Inl (Exit 0), ((c, prev), s))
      else if d_less (Fin 10) (elapsedSeconds start now) then (Inl (Exit 11), ((c, prev), s))
      else case td_next os (every_frame child_body) ((c, prev), s) of (Inl e, y) \<Rightarrow> (Inl e, y) | (Inr _, y) \<Rightarrow> (Inr (), y))"
  by (auto simp: child_turn_def td_next_def dispatchFrame_def td_onUnknown_def TypedJournalDispatcher_new_def bind_p_def return_p_def
      split: prod.split sum.split)

text \<open>A reader in a process of its own keeps its place when the writer's process has written.\<close>

lemma reader_follows:
  assumes m: "merge_inv r K M [log_view loc dest first a] [n]"
    and w: "log_rel loc dest first E (w, K') (spec_op sz op a)"
  shows "merge_inv r (see_files K' K) M [log_view loc dest first (spec_op sz op a)] [n]"
proof -
  obtain seq front cur where a: "a = (seq, front, cur)" by (cases a)
  obtain seq' front' cur' where b: "spec_op sz op a = (seq', front', cur')" by (cases "spec_op sz op a")
  have ext: "log_extends front cur front' cur'" using spec_op_extends [of front cur sz op seq] b a by simp
  have "journal_log loc dest K' first front' cur'" using w writer_invD(1) by (auto simp: log_rel_def b)
  then have log: "journal_log loc dest (see_files K' K) first front' cur'"
    using journal_log_cong [of first front' "see_files K' K" loc dest K' cur'] by (simp add: see_files_def lookup_file_def)
  have "length (rd_journals r) = 1" using m by (auto simp: merge_inv_def reader_inv_def)
  then obtain j where j: "rd_journals r = [j]" by (auto simp: length_Suc_conv)
  have "stands_at j K (log_view loc dest first a) n" using m j by (simp add: merge_inv_def reader_inv_def)
  then have at: "cursor_at j K first front cur n" "j_location j = loc" "j_dest_id j = dest" by (simp_all add: stands_at_def log_view_def a)
  have maps: "mset (k_maps (see_files K' K)) = M + reader_maps j"
    using m j by (simp add: merge_inv_def reader_inv_def see_files_def all_maps_def)
  then have "reader_maps j \<subseteq># mset (k_maps (see_files K' K))" by simp
  with cursor_at_extends [OF at(1) ext] log at have "stands_at j (see_files K' K) (log_view loc dest first (spec_op sz op a)) n"
    by (simp add: stands_at_def log_view_def b)
  then show ?thesis using m maps j by (simp add: merge_inv_def reader_inv_def all_maps_def)
qed

text \<open>The trades the parent has published, and the log they make.\<close>

definition process_op :: "(nat \<Rightarrow> u64) \<Rightarrow> u32 \<Rightarrow> nat \<Rightarrow> writer_op" where
  "process_op clock pad i = Write_data (clock i) (of_nat (i + 1)) MsgType_Trade FRAME_NORMAL (process_trade pad i)"

definition process_log :: "Location \<Rightarrow> (nat \<Rightarrow> u64) \<Rightarrow> u32 \<Rightarrow> nat \<Rightarrow> log_state" where
  "process_log loc clock pad n = fold (spec_op (unat (findPageSize loc 0))) (map (process_op clock pad) [0..<n]) (0, [], [])"

abbreviation trades_in :: "FrameSnap list \<Rightarrow> FrameSnap list" where
  "trades_in \<equiv> filter (\<lambda>f. snap_msg_type f = sint MsgType_Trade)"

lemma process_op_ok: "op_ok (findPageSize loc 0) (process_op clock pad i)"
proof -
  have "length (process_trade pad i) = 32" by (simp add: process_trade_def sized_trade_bytes_def message_fields)
  then show ?thesis by (simp add: process_op_def example_fits) (simp add: example_types)
qed

lemma process_log_Suc: "process_log loc clock pad (Suc n) = spec_op (unat (findPageSize loc 0)) (process_op clock pad n) (process_log loc clock pad n)"
  by (simp add: process_log_def)

lemma process_log_frames:
  shows "length (log_frames (process_log loc clock pad n)) \<le> 2 * n"
    and "k < length (log_frames (process_log loc clock pad n)) \<Longrightarrow> snap_sequence (log_frames (process_log loc clock pad n) ! k) = of_nat k"
    and "length (trades_in (log_frames (process_log loc clock pad n))) = n"
proof -
  let ?ops = "map (process_op clock pad) [0..<n]" and ?fs = "log_frames (process_log loc clock pad n)"
  show "length ?fs \<le> 2 * n"
    using fold_sizes [of "unat (findPageSize loc 0)" ?ops "(0, [], [])"] by (simp add: process_log_def log_frames_def)
  have "list_all (op_ok (findPageSize loc 0)) ?ops" by (simp add: list_all_iff process_op_ok)
  note c = journal_of_contents [OF this, unfolded journal_of_def, folded process_log_def]
  show "snap_sequence (?fs ! k) = of_nat k" if "k < length ?fs" using arg_cong [OF c(2), of "\<lambda>xs. xs ! k"] that by simp
  have types: "sint MsgType_Trade \<noteq> sint MsgType_PageEnd" "uint (ucast MsgType_Trade :: u16) = sint MsgType_Trade" by (simp_all add: example_types)
  have m: "concat (map op_messages ?ops) = map (\<lambda>i. (of_nat (i + 1), sint MsgType_Trade, FRAME_NORMAL, process_trade pad i)) [0..<n]"
    by (induction n) (simp_all add: process_op_def types)
  have "snap_msg_type f = sint MsgType_Trade" if "f \<in> set ?fs" "\<not> is_page_end f" for f
  proof -
    have "message_of f \<in> set (concat (map op_messages ?ops))" unfolding c(1) [symmetric] using that by simp
    then show ?thesis unfolding m by (auto simp: message_of_def)
  qed
  then have "trades_in ?fs = filter (\<lambda>f. \<not> is_page_end f) ?fs"
    using types(1) by (intro filter_cong) (auto simp: is_page_end_def)
  then show "length (trades_in ?fs) = n" using arg_cong [OF c(1), of length] unfolding m by simp
qed

subsection \<open>The invariant\<close>

text \<open>The parent's writer holds the log of what is published; the child, while it runs, stands at frame \<open>n\<close> of it, and has
  counted the trades before it.  Only a schedule with a \<open>late\<close> turn lets it give up.\<close>

definition process_inv ::
    "Location \<Rightarrow> surroundings \<Rightarrow> page_key multiset \<Rightarrow> (nat \<Rightarrow> u64) \<Rightarrow> u32 \<Rightarrow> int \<Rightarrow> bool \<Rightarrow> nat \<Rightarrow> processes \<Rightarrow> bool" where
  "process_inv loc E M clock pad messages late n p \<longleftrightarrow>
     log_rel loc 0 1 E (ps_parent p) (process_log loc clock pad (ps_published p)) \<and>
     writer_type loc 0 False (wo_retained_page_limit example_writer_options) (fst (ps_parent p)) \<and>
     int (ps_published p) \<le> max 0 messages \<and>
     (ps_status p = Running \<longrightarrow> (case ps_child p of ((c, prev), r, K) \<Rightarrow>
        k_files K = k_files (snd (ps_parent p)) \<and>
        merge_inv r K M [log_view loc 0 1 (process_log loc clock pad (ps_published p))] [n] \<and>
        n \<le> length (log_frames (process_log loc clock pad (ps_published p))) \<and>
        c = int (length (trades_in (take n (log_frames (process_log loc clock pad (ps_published p)))))) \<and> prev = int n - 1)) \<and>
     (ps_status p \<in> {Running, Exited 0} \<or> late \<and> ps_status p = Exited 11)"

lemma see_same_files: "k_files K' = k_files K \<Longrightarrow> see_files K' K = K"
  by (simp add: see_files_def)

lemma sint_of_nat_small: "n < 2 ^ 63 \<Longrightarrow> sint (of_nat n :: u64) = int n"
  by (simp only: signed_of_nat) (simp add: signed_take_bit_int_eq_self)

text \<open>The frame the child is at has the sequence number it expects.\<close>

lemma child_body_next:
  assumes "n < length (log_frames (process_log loc clock pad m))" and "int m \<le> max 0 messages" and "messages < 2 ^ 31"
  shows "child_body (log_frames (process_log loc clock pad m) ! n)
      (int (length (trades_in (take n (log_frames (process_log loc clock pad m))))), int n - 1) =
    (Inr (), (int (length (trades_in (take (Suc n) (log_frames (process_log loc clock pad m))))), int n))"
proof -
  have "n < 2 ^ 32" using assms process_log_frames(1) [of loc clock pad m] by simp
  then have "sint (of_nat n :: u64) = int n" by (simp add: sint_of_nat_small)
  then show ?thesis using assms(1) process_log_frames(2) [OF assms(1)] by (simp add: child_body_def take_Suc_conv_app_nth)
qed

text \<open>A round of the loop in which the child is neither done nor out of time reads the frame it is at, if there is one.\<close>

lemma child_turn_reads:
  fixes loc clock pad m
  defines "a \<equiv> process_log loc clock pad m"
  assumes inv: "merge_inv r K M [log_view loc 0 1 a] [n]" and n: "n \<le> length (log_frames a)"
    and go: "int (length (trades_in (take n (log_frames a)))) < messages" "\<not> d_less (Fin 10) (elapsedSeconds start now)"
    and small: "int m \<le> max 0 messages" "messages < 2 ^ 31"
  obtains r' K' n' where "child_turn os_ok messages start now ((int (length (trades_in (take n (log_frames a)))), int n - 1), (r, K)) =
      (Inr (), ((int (length (trades_in (take n' (log_frames a)))), int n' - 1), (r', K')))"
    and "merge_inv r' K' M [log_view loc 0 1 a] [n']" and "only_maps K K'" and "n' = (if n < length (log_frames a) then Suc n else n)"
proof -
  let ?V = "log_view loc 0 1 a" and ?u = "(int (length (trades_in (take n (log_frames a)))), int n - 1)" and ?d = "every_frame child_body"
  obtain r' K' where om: "only_maps K K'" and t: "if all_heads [?V] [n] = []
     then td_next os_ok ?d (?u, (r, K)) = (Inr False, (?u, (r', K'))) \<and> merge_inv r' K' M [?V] [n]
     else \<exists>i f. least_head [?V] [n] i f \<and>
       (case deliver ?d f ?u of
          (Inl e, u') \<Rightarrow> td_next os_ok ?d (?u, (r, K)) = (Inl e, (u', (r', K'))) \<and> merge_inv r' K' M [?V] [n]
        | (Inr _, u') \<Rightarrow> td_next os_ok ?d (?u, (r, K)) = (Inr True, (u', (r', K'))) \<and> merge_inv r' K' M [?V] ([n][i := Suc ([n] ! i)]))"
    using td_next_ok [OF inv, of ?d ?u] by (elim exE conjE) (rule that)
  show thesis
  proof (cases "n < length (log_frames a)")
    case False
    then have "td_next os_ok ?d (?u, (r, K)) = (Inr False, (?u, (r', K')))" "merge_inv r' K' M [?V] [n]"
      using t by (simp_all add: all_heads_one)
    then show thesis using False go om by (intro that [of n r' K']) (simp_all add: child_turn_next)
  next
    case True
    note body = child_body_next [OF True [unfolded a_def] small, folded a_def]
    obtain k f where f: "least_head [?V] [n] k f" "case deliver ?d f ?u of
          (Inl e, u') \<Rightarrow> td_next os_ok ?d (?u, (r, K)) = (Inl e, (u', (r', K'))) \<and> merge_inv r' K' M [?V] [n]
        | (Inr _, u') \<Rightarrow> td_next os_ok ?d (?u, (r, K)) = (Inr True, (u', (r', K'))) \<and> merge_inv r' K' M [?V] ([n][k := Suc ([n] ! k)])"
      using t True unfolding all_heads_one by auto
    have k: "k = 0" "f = log_frames a ! n" using least_head_one [OF f(1)] by simp_all
    have "td_next os_ok ?d (?u, (r, K)) = (Inr True, ((int (length (trades_in (take (Suc n) (log_frames a)))), int n), (r', K')))"
      "merge_inv r' K' M [?V] [Suc n]"
      using f(2) unfolding k deliver_every_frame body by simp_all
    then show thesis using True go om by (intro that [of "Suc n" r' K']) (simp_all add: child_turn_next)
  qed
qed

lemma child_step_inv:
  assumes inv: "process_inv loc E M clock pad messages late n p" and small: "messages < 2 ^ 31"
    and l: "d_less (Fin 10) (elapsedSeconds start now) \<longrightarrow> late"
  obtains n' where "process_inv loc E M clock pad messages late n' (child_step os_ok dir messages start now p)"
    and "ps_published (child_step os_ok dir messages start now p) = ps_published p"
    and "ps_status p \<noteq> Running \<longrightarrow> ps_status (child_step os_ok dir messages start now p) = ps_status p"
    and "ps_status p = Running \<and> \<not> late \<and> messages \<le> int (ps_published p) \<longrightarrow>
      ps_status (child_step os_ok dir messages start now p) = Exited 0 \<or>
      ps_status (child_step os_ok dir messages start now p) = Running \<and> n' = Suc n \<and> n < length (log_frames (process_log loc clock pad (ps_published p)))"
proof (cases "ps_status p = Running")
  case False
  then have "child_step os_ok dir messages start now p = p" by (simp add: child_step_def)
  then show thesis using that [of n] inv False by simp
next
  case True
  let ?m = "ps_published p" and ?q = "child_step os_ok dir messages start now p"
  let ?a = "process_log loc clock pad ?m"
  obtain c prev r K where ch: "ps_child p = ((c, prev), r, K)" by (metis prod.exhaust)
  obtain w Kp where pa: "ps_parent p = (w, Kp)" by (cases "ps_parent p")
  have i: "k_files K = k_files Kp" "merge_inv r K M [log_view loc 0 1 ?a] [n]" "n \<le> length (log_frames ?a)"
    "c = int (length (trades_in (take n (log_frames ?a))))" "prev = int n - 1" "int ?m \<le> max 0 messages"
    using inv True ch pa by (simp_all add: process_inv_def)
  show thesis
  proof (cases "c < messages \<and> \<not> d_less (Fin 10) (elapsedSeconds start now)")
    case False
    define x where "x = (if c < messages then 11 else 0 :: int)"
    have "?q = p\<lparr>ps_status := Exited x\<rparr>"
      using False True ch pa see_same_files [OF i(1)] by (auto simp: child_step_def child_turn_next child_ends_def x_def)
    moreover have "x = 0 \<or> late \<and> x = 11" using False l by (auto simp: x_def)
    ultimately show thesis using inv True by (intro that [of n]) (auto simp: process_inv_def)
  next
    case go: True
    obtain r' K' n' where t: "child_turn os_ok messages start now (ps_child p) =
        (Inr (), ((int (length (trades_in (take n' (log_frames ?a)))), int n' - 1), (r', K')))"
      "merge_inv r' K' M [log_view loc 0 1 ?a] [n']" "only_maps K K'" "n' = (if n < length (log_frames ?a) then Suc n else n)"
      using child_turn_reads [OF i(2,3) _ _ i(6) small, of start now] go i(4,5) ch by metis
    have files: "k_files K' = k_files Kp" using t(3) i(1) by (simp add: only_mapsD)
    have "?q = p\<lparr>ps_child := ((int (length (trades_in (take n' (log_frames ?a)))), int n' - 1), r', K')\<rparr>"
      using True t(1) pa see_same_files [OF files] by (simp add: child_step_def)
    moreover have "n = length (log_frames ?a) \<longrightarrow> c = int ?m" using i(4) process_log_frames(3) [of loc clock pad ?m] by simp
    ultimately show thesis using inv True pa files i(3) t(2,4) go by (intro that [of n']) (auto simp: process_inv_def)
  qed
qed

lemma parent_step_inv:
  assumes inv: "process_inv loc E M clock pad messages late n p" and env: "pe_waitpid env"
  shows "if int (ps_published p) < messages
     then \<exists>p'. parent_step os_ok env messages clock pad p = (Inr False, p') \<and> process_inv loc E M clock pad messages late n p' \<and>
       ps_published p' = Suc (ps_published p)
     else parent_step os_ok env messages clock pad p =
       (if ps_status p = Running then Inr False else if ps_status p = Exited 0 then Inr True
        else Inl (Runtime_error ''child reader verification failed''), p)"
proof (cases "int (ps_published p) < messages")
  case True
  let ?m = "ps_published p"
  obtain w K where pa: "ps_parent p = (w, K)" by (cases "ps_parent p")
  obtain u r Kc where ch: "ps_child p = (u, r, Kc)" by (metis prod.exhaust)
  have rel: "log_rel loc 0 1 E (w, K) (process_log loc clock pad ?m)"
    and type: "writer_type loc 0 False (wo_retained_page_limit example_writer_options) w" using inv pa by (simp_all add: process_inv_def)
  obtain w' K' where w': "run_op os_ok (process_op clock pad ?m) (w, K) = (Inr (), (w', K'))"
    "log_rel loc 0 1 E (w', K') (process_log loc clock pad (Suc ?m))"
    using wlog.step [OF rel process_op_ok, of clock pad ?m] unfolding process_log_Suc by auto
  have t': "writer_type loc 0 False (wo_retained_page_limit example_writer_options) w'"
    using inv_pD [OF run_op_type type, of os_ok "process_op clock pad ?m" K] w'(1) by simp
  let ?p = "p\<lparr>ps_parent := (w', K'), ps_published := Suc ?m, ps_child := (u, r, see_files K' Kc)\<rparr>"
  have step: "parent_step os_ok env messages clock pad p = (Inr False, ?p)"
    using True w'(1) pa ch by (simp add: parent_step_def Let_def publish_run process_op_def)
  obtain ext where e: "log_frames (process_log loc clock pad (Suc ?m)) = log_frames (process_log loc clock pad ?m) @ ext"
    unfolding process_log_Suc using spec_op_prefix by blast
  have "ps_status p = Running \<longrightarrow> merge_inv r Kc M [log_view loc 0 1 (process_log loc clock pad ?m)] [n]"
    using inv ch by (auto simp: process_inv_def split: prod.splits)
  then have m: "ps_status p = Running \<longrightarrow> merge_inv r (see_files K' Kc) M [log_view loc 0 1 (process_log loc clock pad (Suc ?m))] [n]"
    using reader_follows w'(2) unfolding process_log_Suc by blast
  have "process_inv loc E M clock pad messages late n ?p"
    using inv w'(2) t' True ch m by (auto simp: process_inv_def e see_files_def split: prod.splits)
  with step True show ?thesis by auto
qed (use env in \<open>simp add: parent_step_def Let_def\<close>)

text \<open>Under any schedule the program waits on, succeeds or, after a late turn, reports that the child gave up.\<close>

lemma run_processes_inv:
  assumes "process_inv loc E M clock pad messages late n p" and "pe_waitpid env" and "messages < 2 ^ 31"
    and "\<forall>now. Child_runs now \<in> set evs \<longrightarrow> d_less (Fin 10) (elapsedSeconds start now) \<longrightarrow> late"
  shows "\<exists>x p' n'. run_processes os_ok env dir messages clock pad start evs p = (x, p') \<and>
    process_inv loc E M clock pad messages late n' p' \<and>
    (x = Inl Blocked \<or> x = Inr () \<or> late \<and> x = Inl (Runtime_error ''child reader verification failed''))"
  using assms(1,4)
proof (induction evs arbitrary: n p)
  case (Cons ev evs)
  have rest: "\<forall>now. Child_runs now \<in> set evs \<longrightarrow> d_less (Fin 10) (elapsedSeconds start now) \<longrightarrow> late" using Cons.prems(2) by auto
  show ?case
  proof (cases ev)
    case Parent_runs
    have "ps_status p \<in> {Running, Exited 0} \<or> late \<and> ps_status p = Exited 11" using Cons.prems(1) by (simp add: process_inv_def)
    with parent_step_inv [OF Cons.prems(1) assms(2)] Cons.IH [OF _ rest] Cons.prems(1) show ?thesis
      by (auto simp: Parent_runs split: if_splits)
  next
    case (Child_runs now)
    then have "d_less (Fin 10) (elapsedSeconds start now) \<longrightarrow> late" using Cons.prems(2) by simp
    then obtain n' where "process_inv loc E M clock pad messages late n' (child_step os_ok dir messages start now p)"
      by (rule child_step_inv [OF Cons.prems(1) assms(3)])
    with Cons.IH [OF _ rest] Child_runs show ?thesis by simp
  qed
qed auto

text \<open>Once everything is published, the child ends within as many turns as there are frames to read and one more.\<close>

lemma child_finishes:
  assumes "process_inv loc E M clock pad messages False n p" and "messages < 2 ^ 31" and "messages \<le> int (ps_published p)"
    and "\<forall>now \<in> set nows. \<not> d_less (Fin 10) (elapsedSeconds start now)"
    and "ps_status p = Running \<longrightarrow> length (log_frames (process_log loc clock pad (ps_published p))) < n + length nows"
  shows "\<exists>p' n'. run_processes os_ok env dir messages clock pad start (map Child_runs nows @ evs) p =
      run_processes os_ok env dir messages clock pad start evs p' \<and>
    process_inv loc E M clock pad messages False n' p' \<and> ps_published p' = ps_published p \<and> ps_status p' = Exited 0"
  using assms(1,3-)
proof (induction nows arbitrary: n p)
  case Nil
  then have "ps_status p = Exited 0" by (auto simp: process_inv_def)
  with Nil show ?case by auto
next
  case (Cons now nows)
  let ?q = "child_step os_ok dir messages start now p"
  have "d_less (Fin 10) (elapsedSeconds start now) \<longrightarrow> False" using Cons.prems(3) by simp
  then obtain n' where q: "process_inv loc E M clock pad messages False n' ?q" "ps_published ?q = ps_published p"
    "ps_status p \<noteq> Running \<longrightarrow> ps_status ?q = ps_status p"
    "ps_status p = Running \<and> \<not> False \<and> messages \<le> int (ps_published p) \<longrightarrow> ps_status ?q = Exited 0 \<or>
      ps_status ?q = Running \<and> n' = Suc n \<and> n < length (log_frames (process_log loc clock pad (ps_published p)))"
    by (rule child_step_inv [OF Cons.prems(1) assms(2)])
  have "ps_status ?q = Running \<longrightarrow> length (log_frames (process_log loc clock pad (ps_published ?q))) < n' + length nows"
    using q(2-) Cons.prems by auto
  with Cons.IH [OF q(1)] q(2) Cons.prems show ?case by auto
qed

text \<open>A schedule is good enough when the parent has had a turn for every message, then the child twice as many and one more, then the
  parent again.\<close>

lemma run_processes_finish:
  assumes "process_inv loc E M clock pad messages False n p" and "pe_waitpid env" and "messages < 2 ^ 31"
    and "\<forall>now. Child_runs now \<in> set early \<or> now \<in> set nows \<longrightarrow> \<not> d_less (Fin 10) (elapsedSeconds start now)"
    and "messages \<le> int (ps_published p + count_list early Parent_runs)" and "2 * messages < int (length nows)" and "0 < length nows"
  shows "\<exists>p' n'. run_processes os_ok env dir messages clock pad start (early @ map Child_runs nows @ Parent_runs # rest) p = (Inr (), p') \<and>
    process_inv loc E M clock pad messages False n' p'"
  using assms(1,4,5)
proof (induction early arbitrary: n p)
  case Nil
  let ?m = "ps_published p"
  have m: "int ?m \<le> max 0 messages" using Nil.prems(1) by (simp add: process_inv_def)
  then have "length (log_frames (process_log loc clock pad ?m)) < n + length nows"
    using process_log_frames(1) [of loc clock pad ?m] assms(6,7) by linarith
  then obtain p' n' where p': "run_processes os_ok env dir messages clock pad start (map Child_runs nows @ Parent_runs # rest) p =
      run_processes os_ok env dir messages clock pad start (Parent_runs # rest) p'"
    "process_inv loc E M clock pad messages False n' p'" "ps_published p' = ?m" "ps_status p' = Exited 0"
    using child_finishes [OF Nil.prems(1) assms(3), of nows start env dir "Parent_runs # rest"] Nil.prems(2,3) by auto
  with parent_step_inv [OF p'(2) assms(2)] Nil.prems(3) show ?case by auto
next
  case (Cons ev early)
  show ?case
  proof (cases ev)
    case Parent_runs
    show ?thesis
    proof (cases "int (ps_published p) < messages")
      case True
      with parent_step_inv [OF Cons.prems(1) assms(2)] obtain p' where "parent_step os_ok env messages clock pad p = (Inr False, p')"
        "process_inv loc E M clock pad messages False n p'" "ps_published p' = Suc (ps_published p)" by auto
      with Cons.IH [of n p'] Cons.prems Parent_runs show ?thesis by auto
    next
      case False
      with parent_step_inv [OF Cons.prems(1) assms(2)] Cons.prems(1) have "parent_step os_ok env messages clock pad p = (Inr False, p) \<or>
        parent_step os_ok env messages clock pad p = (Inr True, p)" by (auto simp: process_inv_def)
      with Cons.IH [of n p] Cons.prems Parent_runs False show ?thesis by auto
    qed
  next
    case (Child_runs now)
    then have "d_less (Fin 10) (elapsedSeconds start now) \<longrightarrow> False" using Cons.prems(2) by simp
    then obtain n' where "process_inv loc E M clock pad messages False n' (child_step os_ok dir messages start now p)"
      "ps_published (child_step os_ok dir messages start now p) = ps_published p"
      by (rule child_step_inv [OF Cons.prems(1) assms(3)])
    with Cons.IH [of n' "child_step os_ok dir messages start now p"] Cons.prems Child_runs show ?thesis by auto
  qed
qed

subsection \<open>The whole program\<close>

definition env_ok :: process_env where
  "env_ok = \<lparr>pe_pipe = True, pe_fork = True, pe_write = True, pe_read = True, pe_waitpid = True\<rparr>"

text \<open>The start of both processes.\<close>

lemma multiprocess_starts:
  assumes rel: "log_rel loc 0 1 (around K0) (w, K) (0, [], [])" and fresh: "fresh_journal loc 0 K0" and fuel: "0 < fuel"
    and type: "writer_type loc 0 False (wo_retained_page_limit example_writer_options) w"
  obtains p where "\<And>messages late. process_inv loc (around K0) (mset (k_maps K)) clock pad messages late 0 p" and "ps_published p = 0"
    and "\<And>messages schedule. multiprocess_body os_ok env_ok fuel dir loc messages clock pad start schedule (w, K) =
      (case run_processes os_ok env_ok dir messages clock pad start schedule p of (x, p') \<Rightarrow> (x, ps_parent p'))"
proof -
  let ?V = "log_view loc 0 1 (0, [], [])" and ?r = "JournalReader_new example_reader_options"
  define K1 where "K1 = close_fd (K\<lparr>k_fds := k_fds K + 2\<rparr>)"
  have whole: "whole_journal loc 0 K 1 [] []" by (rule log_rel_whole [OF rel clear_for_fresh [OF fresh]]) simp
  then have "page_ids_ok K1" by (simp add: whole_journal_def page_ids_ok_def K1_def close_fd_def)
  then have V: "view_whole ?V K1"
    using whole_journal_cong [OF whole, of K1] by (simp add: view_whole_def log_view_def K1_def close_fd_def lookup_file_def)
  have new: "makeKey (loc_uid (v_location ?V)) (v_dest_id ?V) \<notin> rd_joined_keys ?r" by (simp add: JournalReader_new_def)
  obtain r K2 where j: "join_reader os_ok fuel (v_location ?V) (v_dest_id ?V) 0 (?r, K1) = (Inr (), (r, K2))"
    "reader_inv r K2 (mset (k_maps K1)) ([] @ [?V]) ([] @ [0])" "only_maps K1 K2"
    by (rule join_from_start [OF reader_inv_new V os_works_ok new]) (use fuel in \<open>simp_all add: log_frames_def\<close>, simp_all add: log_view_def)
  have files: "k_files K2 = k_files K" using j(3) by (simp add: only_mapsD K1_def close_fd_def)
  have m: "merge_inv r (close_fd K2) (mset (k_maps K)) [?V] [0]"
  proof -
    have "journal_log loc dest (close_fd K2) first front cur = journal_log loc dest K2 first front cur" for loc dest first front cur
      by (rule journal_log_cong) (simp add: close_fd_def lookup_file_def)
    then have "stands_at j (close_fd K2) V n = stands_at j K2 V n" for j V n
      by (simp add: stands_at_def cursor_at_def cursor_inv_def reader_base_def) (simp add: close_fd_def)
    then show ?thesis using j(2) by (auto simp: merge_inv_def reader_inv_def K1_def close_fd_def)
  qed
  let ?p = "\<lparr>ps_parent = (w, K), ps_published = 0, ps_child = ((0, - 1), r, close_fd K2), ps_forked = w, ps_status = Running\<rparr>"
  have log0: "process_log loc clock pad 0 = (0, [], [])" by (simp add: process_log_def)
  have "process_inv loc (around K0) (mset (k_maps K)) clock pad messages late 0 ?p" for messages late
    using rel type m files by (simp add: process_inv_def log0 close_fd_def)
  moreover have "child_start os_ok env_ok fuel dir loc w (K\<lparr>k_fds := k_fds K + 2\<rparr>) = (Running, Some 1, r, close_fd K2)"
    unfolding child_start_def K1_def [symmetric] using j(1) by (simp add: env_ok_def writeSignal_def log_view_def)
  then have "multiprocess_body os_ok env_ok fuel dir loc messages clock pad start schedule (w, K) =
      (case run_processes os_ok env_ok dir messages clock pad start schedule ?p of (x, p') \<Rightarrow> (x, ps_parent p'))" for messages schedule
    using files by (simp add: multiprocess_body_def env_ok_def readSignal_def Let_def close_fd_def see_files_def)
  ultimately show thesis by (intro that [of ?p]) simp_all
qed

text \<open>The exit code for the end of the schedule, and the state of everything else when the program has ended.\<close>

definition reports :: "int \<Rightarrow> page_key kernel \<Rightarrow> error + unit \<Rightarrow> (error + int \<times> string) \<times> page_key kernel \<Rightarrow> bool" where
  "reports messages K x = (\<lambda>(y, K').
     y = (case x of Inr _ \<Rightarrow> Inr (0, ''ok multiprocess messages='' @ show_int messages @ [CHR 0x0A])
          | Inl e \<Rightarrow> if is_exception e then Inr (1, ''error: '' @ what e @ [CHR 0x0A]) else Inl e) \<and>
     (x = Inr () \<or> (\<exists>e. x = Inl e \<and> is_exception e) \<longrightarrow>
        (\<forall>key. lookup_file K' key = lookup_file K key) \<and> mset (k_maps K') = mset (k_maps K) \<and> k_fds K' = k_fds K))"

text \<open>What the schedule decides, the program reports; and when it has ended, everything but the result is as before.\<close>

lemma multiprocess_reports:
  fixes tmp stamp
  defines "dir \<equiv> TempDir_new tmp ''multiprocess'' stamp"
  defines "loc \<equiv> example_location dir ''multiprocess''"
  assumes new: "new_dir dir K" and args: "parse_args 1000 args = Inr (Some messages)" and fuel: "0 < fuel"
  obtains p M where "process_inv loc (around K) M clock pad messages late 0 p" and "ps_published p = 0"
    and "\<forall>x p' n. run_processes os_ok env_ok dir messages clock pad start schedule p = (x, p') \<longrightarrow>
      process_inv loc (around K) M clock pad messages late n p' \<longrightarrow>
      reports messages K x (multiprocess os_ok env_ok fuel clock pad argv0 args tmp stamp start schedule K)"
proof -
  have "under": "under dir (layoutDir loc JOURNAL)" unfolding dir_def loc_def by (rule example_layout_under) simp_all
  have fresh: "fresh_journal loc 0 K" by (rule example_fresh [OF new "under"])
  have few: "wo_warmup_pages example_writer_options \<le> 16" by (simp add: example_writer_options_def)
  obtain w K1 where w: "JournalWriter_new os_ok loc 0 example_writer_options False K = (Inr w, K1)"
    "log_rel loc 0 1 (around K) (w, K1) (0, [], [])"
    by (rule log_rel_new [OF fresh few])
  obtain p where p: "process_inv loc (around K) (mset (k_maps K1)) clock pad messages late 0 p" "ps_published p = 0"
    "\<And>schedule. multiprocess_body os_ok env_ok fuel dir loc messages clock pad start schedule (w, K1) =
      (case run_processes os_ok env_ok dir messages clock pad start schedule p of (x, p') \<Rightarrow> (x, ps_parent p'))"
    using multiprocess_starts [OF w(2) fresh fuel new_writer_type [OF w(1)], where clock = clock and pad = pad and dir = dir and start = start] by metis
  show thesis
  proof (rule that [OF p(1,2)], intro allI impI)
    fix x p' n
    assume run: "run_processes os_ok env_ok dir messages clock pad start schedule p = (x, p')"
      and inv: "process_inv loc (around K) (mset (k_maps K1)) clock pad messages late n p'"
    obtain w' K2 where pa: "ps_parent p' = (w', K2)" by (cases "ps_parent p'")
    have rel: "log_rel loc 0 1 (around K) (w', K2) (process_log loc clock pad (ps_published p'))"
      and type: "writer_type loc 0 False (wo_retained_page_limit example_writer_options) w'" using inv pa by (simp_all add: process_inv_def)
    obtain w3 K3 where d: "JournalWriter_destroy os_ok (w', K2) = (Inr (), (w3, K3))" "mset (k_maps K3) = mset (k_maps K)"
      "k_fds K3 = k_fds K" "k_files K3 = k_files K2"
      by (rule writer_scope_ends [OF rel type])
    have "surrounded loc 0 1 (around K) (writer_maps w') K2" using rel by (cases "process_log loc clock pad (ps_published p')") (simp add: log_rel_def)
    then have "\<forall>key. (\<forall>i. key \<noteq> page_key_of loc 0 i) \<longrightarrow> lookup_file K3 key = lookup_file K key"
      using d(4) unfolding surrounded_def around_def by (simp add: lookup_file_def del: split_paired_All)
    note restored = TempDir_restores [OF new "under" this]
    have body: "multiprocess_body os_ok env_ok fuel dir loc messages clock pad start schedule (w, K1) = (x, (w', K2))"
      using p(3) run pa by simp
    show "reports messages K x (multiprocess os_ok env_ok fuel clock pad argv0 args tmp stamp start schedule K)"
      unfolding multiprocess_def args
      by (simp add: Let_def flip: dir_def loc_def)
        (cases x; use restored w(1) body d in \<open>auto simp: run_main_def with_writer_def unwind_p_def prog_simps TempDir_destroy_def reports_def split: sum.splits\<close>)
  qed
qed

subsection \<open>Properties\<close>


definition ex_schedule :: "process_event list" where
  "ex_schedule = [Child_runs \<lparr>tv_sec = 100, tv_nsec = 7\<rparr>, Parent_runs, Child_runs \<lparr>tv_sec = 101, tv_nsec = 3\<rparr>, Parent_runs]"

lemma ex_args: "parse_args 1000 [''--messages'', ''2''] = Inr (Some 2)" "show_int 2 = ''2''"
  by code_simp+


text \<open>C23: The program ends well when it is given time.  When the parent has had a turn for every message, the child then
  has had two turns for each and one more, and the parent one more, all within nine seconds of the child's clock, the program exits with 0; whatever
  happened before and in whatever order.  The bound of two turns counts the \<^verbatim>\<open>PageEnd\<close> frames.\<close>

theorem multiprocess_completes:
  assumes "new_dir (TempDir_new tmp ''multiprocess'' stamp) K" and "parse_args 1000 args = Inr (Some messages)" and "0 < fuel"
    and "messages < 2 ^ 31"
    and "\<forall>now. Child_runs now \<in> set early \<or> now \<in> set nows \<longrightarrow>
      tv_sec now - tv_sec start \<in> {0..9} \<and> \<bar>tv_nsec now - tv_nsec start\<bar> < 10 ^ 9"
    and "messages \<le> int (count_list early Parent_runs)" and "2 * messages < int (length nows)" and "0 < length nows"
  shows "\<exists>K'. multiprocess os_ok env_ok fuel clock pad argv0 args tmp stamp start (early @ map Child_runs nows @ Parent_runs # rest) K =
      (Inr (0, ''ok multiprocess messages='' @ show_int messages @ [CHR 0x0A]), K') \<and>
    (\<forall>key. lookup_file K' key = lookup_file K key) \<and> mset (k_maps K') = mset (k_maps K) \<and> k_fds K' = k_fds K"
proof -
  let ?dir = "TempDir_new tmp ''multiprocess'' stamp"
  let ?loc = "example_location ?dir ''multiprocess''" and ?schedule = "early @ map Child_runs nows @ Parent_runs # rest"
  obtain p M where p: "process_inv ?loc (around K) M clock pad messages False 0 p" "ps_published p = 0"
    "\<forall>x p' n. run_processes os_ok env_ok ?dir messages clock pad start ?schedule p = (x, p') \<longrightarrow>
      process_inv ?loc (around K) M clock pad messages False n p' \<longrightarrow>
      reports messages K x (multiprocess os_ok env_ok fuel clock pad argv0 args tmp stamp start ?schedule K)"
    by (rule multiprocess_reports [OF assms(1-3)])
  have "\<forall>now. Child_runs now \<in> set early \<or> now \<in> set nows \<longrightarrow> \<not> d_less (Fin 10) (elapsedSeconds start now)"
    using assms(5) by (intro allI impI elapsed_in_time) force+
  then obtain p' n' where r: "run_processes os_ok env_ok ?dir messages clock pad start ?schedule p = (Inr (), p')"
    "process_inv ?loc (around K) M clock pad messages False n' p'"
    using run_processes_finish [OF p(1) _ assms(4), of env_ok early nows start ?dir rest] assms(6-) p(2) by (auto simp: env_ok_def)
  from p(3) [rule_format, OF r] show ?thesis by (auto simp: reports_def)
qed

theorem multiprocess_completes_witness:
  "\<exists>K'. multiprocess os_ok env_ok 1 (\<lambda>i. 5) 0 ''multiprocess'' [''--messages'', ''2''] ''/tmp'' 42 \<lparr>tv_sec = 99, tv_nsec = 5\<rparr>
      (ex_schedule @ map Child_runs (replicate 5 \<lparr>tv_sec = 102, tv_nsec = 9\<rparr>) @ [Parent_runs]) ex_disk =
    (Inr (0, ''ok multiprocess messages=2'' @ [CHR 0x0A]), K') \<and> k_maps K' = [] \<and> k_fds K' = 3"
proof -
  have "\<forall>now. Child_runs now \<in> set ex_schedule \<or> now \<in> set (replicate 5 \<lparr>tv_sec = 102, tv_nsec = 9\<rparr>) \<longrightarrow>
      tv_sec now - tv_sec \<lparr>tv_sec = 99, tv_nsec = 5\<rparr> \<in> {0..9} \<and> \<bar>tv_nsec now - tv_nsec \<lparr>tv_sec = 99, tv_nsec = 5\<rparr>\<bar> < 10 ^ 9"
    by (auto simp: ex_schedule_def)
  moreover have "2 \<le> int (count_list ex_schedule Parent_runs)" by (simp add: ex_schedule_def)
  moreover have "k_maps ex_disk = []" "k_fds ex_disk = 3" by (simp_all add: ex_disk_def)
  ultimately show ?thesis
    using multiprocess_completes [OF new_dir_empty ex_args(1), where fuel = 1 and tmp = "''/tmp''" and stamp = 42 and clock = "\<lambda>i. 5" and pad = 0 and
        ?argv0.0 = "''multiprocess''" and start = "\<lparr>tv_sec = 99, tv_nsec = 5\<rparr>" and early = ex_schedule and rest = "[]" and
        nows = "replicate 5 \<lparr>tv_sec = 102, tv_nsec = 9\<rparr>"]
    unfolding ex_args(2) by auto
qed

end
