(* ===== verification/Spec2Isabelle.thy ===== *)
theory Spec2Isabelle
  imports Python_Module Publication Parse_Double Durations Tsc_Rate File_Tree Ring_Handover Shutdown_Protocol Example_Dispatch Example_Processes
begin

text \<open>
  \<^bold>\<open>Verification of the revoq journal.\<close>

  revoq (src/) is a C++ library of append-only message journals in memory-mapped files.  A journal
  is identified by a location and a destination number and lies in page files of a fixed size.  One
  writer appends frames -- a 32-byte header and a payload, at multiples of 64 bytes -- and publishes
  each with a release store of its length; any number of readers, in the same or in other processes,
  map the same pages and follow the frames, alone or merged from several journals by time.

  \<^bold>\<open>The theories\<close>, in the order of the program's layers, with the sources they model.

  \<^item> \<open>Revoq_Prelude\<close>: integer types, the errors (exceptions, faults, blocking), programs that carry
    a state and may fail (the state of a failing program is kept, as after a throw), the collections
    of rewrite rules, shared lemmas.
  \<^item> \<open>Page_Memory\<close>: the bytes of a page, little-endian access, reads after writes.
  \<^item> \<open>Journal_Frame\<close> (JournalFrame.h, \<^verbatim>\<open>FrameSnap\<close> of python/revoq_py.cpp): frame header, alignment, class \<^verbatim>\<open>Frame\<close>.
  \<^item> \<open>Binary64\<close>: IEEE double precision as rounding of rational numbers, with error bounds; \<open>Double_Bits\<close>: its 64 bits.
  \<^item> \<open>Revoq_Hash\<close> (MurMurHash3.cpp, HashUtils.h), \<open>String_Utils\<close> and \<open>Parse_Double\<close> (StringUtils.hpp), \<open>Time_Utils\<close> and
    \<open>Durations\<close> (TimeUtils.h and .cpp).
  \<^item> \<open>Journal_Base\<close> (JournalBase.h): locations, names, directories, the listing of page files; \<open>File_Tree\<close> (FileUtils.h,
    class \<^verbatim>\<open>Locator\<close>): making and removing directories and files.
  \<^item> \<open>Mmap_Buffer\<close> (MmapBuffer.cpp): mapping and releasing files over a kernel state with files, open
    descriptors and a multiset of mappings; each system call takes its outcome from an \<open>os_env\<close>.
  \<^item> \<open>Journal_Page\<close> (JournalPage.h): the page header, \<^verbatim>\<open>Page::load\<close> and its checks, release, accessors that
    fault where the hardware does, the binary search for the page of a time.
  \<^item> \<open>Page_Warmer\<close> (PageWarmer.h): the ring of pages mapped ahead of the writer; \<open>Ring_Pages\<close> and \<open>Ring_Handover\<close>: its
    hand-over between the two threads, atomic access by atomic access.
  \<^item> \<open>Frame_Log\<close>: lists of frames on a page, and the effect of writing one frame.
  \<^item> \<open>Publication\<close> (JournalWriter.h \<^verbatim>\<open>openFrame\<close>, \<^verbatim>\<open>closeFrame\<close>): the order in which the stores of the writer become visible.
  \<^item> \<open>Journal_Writer\<close> (JournalWriter.h): class \<^verbatim>\<open>JournalWriter\<close>; \<open>Writer_Invariant\<close> and \<open>Writer_Log\<close> its
    invariant and its refinement; \<open>Writer_Errors\<close> its behaviour when system calls fail; \<open>Writer_Type\<close> what holds of it in every
    reachable state.
  \<^item> \<open>Journal_Cursor\<close> (Journal.h): class \<^verbatim>\<open>Journal\<close>; \<open>Cursor_Position\<close> and \<open>Cursor_Seek\<close> tie its state to a
    position in the log; \<open>Shutdown_Protocol\<close>: its threads, their mutexes and condition variables.
  \<^item> \<open>Min_Heap\<close> (the heap functions of the standard library, as the reader uses them),
    \<open>Journal_Reader\<close> (JournalReader.h, the iterator of python/revoq_py.cpp) and \<open>Reader_Merge\<close>.
  \<^item> \<open>Journal_System\<close>, \<open>Many_Journals\<close>: a writer and readers together; \<open>Lifetimes\<close>: joining and destruction.
  \<^item> \<open>Typed_Dispatcher\<close> (TypedJournalDispatcher.h): handlers by message type.
  \<^item> \<open>Python_Module\<close> (python/revoq_py.cpp): what the Python functions do with the library.
  \<^item> \<open>Thread_Platform\<close> (CpuAffinity.h, RealtimePriority.h, JournalPlatform.h), \<open>Tsc_Timer\<close> and \<open>Tsc_Rate\<close> (TscTimer.h):
    placement and priority of threads, the tests of the time stamp counter, its rate and the conversion of ticks.
  \<^item> \<open>Example_Programs\<close>, \<open>Example_Dispatch\<close>, \<open>Example_Processes\<close> (examples/*.cpp): the four example programs, whole.

  \<^bold>\<open>What is shown.\<close>

  \<^item> The writer refines an append-only log.  The abstract state is a sequence number and frames in
    pages (\<open>spec_op\<close>); \<open>writer_inv\<close> relates it to the writer, the files and the mappings; every public
    operation, rotation and background step keeps the relation, succeeds, and leaves everything else
    alone (\<open>Writer_Log\<close>).  The locale \<open>refined_ops\<close> lifts this to sequences of operations; \<open>wlog\<close> interprets it.
  \<^item> The reader follows the log.  \<open>merge_inv\<close> gives each joined journal a position; one step of
    \<^verbatim>\<open>nextStatic\<close> delivers a frame that no other head precedes and advances that journal by one
    (\<open>Reader_Merge\<close>, over the locales \<open>heap_order\<close> and \<open>min_queue\<close>, interpreted as \<open>jheap\<close>).
  \<^item> Together: written messages come back in order and exact; under any interleaving of writes,
    reads and background threads the delivered frames are a prefix of the written ones; enough further reads
    deliver everything; several journals merge in time order; the same through the Python module (\<open>Journal_System\<close> with the locale \<open>observed_ops\<close>
    interpreted as \<open>jsys\<close>, \<open>Many_Journals\<close>).
  \<^item> Between threads: a reader that sees a length sees the whole frame (\<open>Publication\<close>, an inductive step
    relation of visibility, with an invariant by rule induction); the warmer never refills a slot the writer still reads, by a
    count of the pages that fit between the two (\<open>Ring_Pages\<close>, \<open>Ring_Handover\<close>), provided no mapping fails; the destructor of a journal ends under every interleaving, with
    every page destroyed once (\<open>Shutdown_Protocol\<close>, over the locale \<open>finishing\<close>, interpreted as \<open>shut\<close>).
  \<^item> Resources: no mapping and no descriptor is leaked by the mapping functions, a writing session or the
    destructors; the ring of the warmer owns what it maps.
  \<^item> Errors: the locking discipline of the writer on every path, and what goes wrong after a failed
    rotation, a failed \<^verbatim>\<open>openData\<close>, a failed header check, or a missing page.
  \<^item> Texts and numbers: names, page lists, splitting and joining, integers, timestamps and CPU lists are read back as
    printed; the hash functions are injective in the seed; guards restore affinity and priority.
  \<^item> Double precision: \<^verbatim>\<open>fast_parse_double\<close> is accurate on unsigned decimals and wrong on negative ones; whole-number duration
    literals are exact; the rate of the time stamp counter stays positive and its conversion accurate.
  \<^item> Programs: the examples succeed and clean up after themselves; in the one with two processes, writer and reader agree under every
    schedule, and finish when both are given enough turns (\<open>process_inv\<close>).
  \<^item> Types and trees: every reachable writer is well typed whatever the system does (\<open>writer_reachable\<close>, rule induction); the calls on
    directories and files keep a well-formed tree.

  \<^bold>\<open>Bounds.\<close>  Loops whose end the code does not bound are given fuel: seeking and joining end when
  the fuel exceeds the number of frames (twice the number of operations), which the theorems state as a hypothesis on the fuel and prove to
  suffice; all other loops are structural or have a measure.  Page numbers are \<^verbatim>\<open>int\<close>: a session has
  fewer than \<open>2 * 10 ^ 9\<close> operations, so that they do not overflow.  The loops of the examples run on
  fuel as well, and the theorems name how much is enough; the child of \<^verbatim>\<open>multiprocess.cpp\<close> needs two turns for each message
  and one more.  The ring of the writer's warmer has 16 slots, as in
  the source.  A payload fits a page, as \<^verbatim>\<open>openFrame\<close> presumes.  Frames have a type other than \<^verbatim>\<open>PageEnd\<close>
  and 0 in their low 16 bits.

  \<^bold>\<open>Not modelled.\<close>  Branches for other systems than Linux on x86-64; log messages; the
  registration of the Python functions and the conversion of their arguments; fences and prefetches
  (\<^verbatim>\<open>portable_intrinsics.h\<close>), which have no value; the sign of a zero of type \<^verbatim>\<open>double\<close>, which no code tests; the spinning of a lock, which is the error
  \<open>Blocked\<close>; benchmarks and tests, which measure or check the library.  Operations of different threads and processes interleave as whole operations, except in
  \<open>Publication\<close>, which looks at single bytes, and in \<open>Ring_Handover\<close> and \<open>Shutdown_Protocol\<close>, which look at single accesses to shared variables and locks; there
  pages are numbers, and what is done with them is left to the theories of the operations.  The hook of \<^verbatim>\<open>closeData\<close> is left out of \<open>Publication\<close>.  The page files of the
  journals lie in the kernel state of \<open>Mmap_Buffer\<close>, keyed by their directory; the directories themselves are in \<open>File_Tree\<close>, and the two are not
  joined.
\<close>

section \<open>Properties across components\<close>

text \<open>C24: The example programs succeed.  In a temporary directory that has no file yet, with a clock after 1970 and whatever the padding of
  their structs holds, \<^verbatim>\<open>basic_write_read\<close>, \<^verbatim>\<open>typed_dispatch\<close> and \<^verbatim>\<open>static_dispatch\<close> write their journals, read
  them back, sort the messages by type, find the counts, prices and sizes they check for, exit with 0 and print what they
  found, the checksum of the prices and sizes included; afterwards the files, the mappings and the open descriptors are as before.\<close>

theorem example_programs_succeed:
  assumes "new_dir (TempDir_new tmp ''basic-write-read'' stamp) K" and "new_dir (TempDir_new tmp ''typed-dispatch'' stamp) K"
    and "new_dir (TempDir_new tmp ''static-dispatch'' stamp) K" and "\<forall>i. 0 \<le> sint (clock i)" and "2000 < fuel"
  defines "clean \<equiv> \<lambda>K'. (\<forall>key. lookup_file K' key = lookup_file K key) \<and> mset (k_maps K') = mset (k_maps K) \<and> k_fds K' = k_fds K"
  shows "(\<exists>K'. basic_write_read os_ok fuel clock pad tmp stamp K = (Inr (0, ''ok basic_write_read messages=3'' @ [CHR 0x0A]), K') \<and> clean K') \<and>
    (\<exists>K'. typed_dispatch os_ok fuel clock pad tmp stamp K =
      (Inr (0, ''ok typed_dispatch trades=2 bbo=1 resets=1'' @ [CHR 0x0A]), K') \<and> clean K') \<and>
    (\<exists>K'. static_dispatch os_ok fuel clock pad tmp stamp K =
      (Inr (0, ''ok static_dispatch handled=1000 checksum='' @ show_int (uint (static_checksum 1000)) @ [CHR 0x0A]), K') \<and> clean K')"
  unfolding clean_def
  using assms(4,5) basic_write_read_succeeds [OF assms(1), of clock fuel] typed_dispatch_succeeds [OF assms(2), of clock fuel]
    static_dispatch_succeeds [OF assms(3), of clock fuel]
  by simp

theorem example_programs_succeed_witness:
  "\<exists>K'. typed_dispatch os_ok 2001 (\<lambda>i. 5) 0 ''/tmp'' 42 ex_disk = (Inr (0, ''ok typed_dispatch trades=2 bbo=1 resets=1'' @ [CHR 0x0A]), K') \<and>
    k_maps K' = [] \<and> k_fds K' = 3"
proof -
  have "k_maps ex_disk = []" "k_fds ex_disk = 3" by (simp_all add: ex_disk_def)
  then show ?thesis
    using example_programs_succeed [OF new_dir_empty new_dir_empty new_dir_empty, where clock = "\<lambda>i. 5" and fuel = 2001 and pad = 0 and
        tmp = "''/tmp''" and stamp = 42]
    by auto
qed

end
